(* ===== verification/Prelude.thy ===== *)
theory Prelude
  imports Main "HOL-Library.Word"
begin

text \<open>
  What the components share.  Machine integers are words of their width, a Rust
  \<open>char\<close> is its scalar value (a natural number), a Rust \<open>str\<close> is the list of its
  scalar values.  The theory holds the pieces of the Rust standard library that the
  engine's sources call (\<open>cmp\<close>, \<open>char::to_digit\<close>, decimal formatting of an
  unsigned integer, UTF-8 lengths), the collections of hints the components extend, and
  the arithmetic of splitting a 64-bit accumulator into 32-bit limbs.
\<close>

unbundle bit_operations_syntax

section \<open>Types\<close>

type_synonym u8 = "8 word"
type_synonym u16 = "16 word"
type_synonym u32 = "32 word"
type_synonym u64 = "64 word"

type_synonym rchar = nat
type_synonym rstr = "rchar list"

text \<open>An ASCII literal of the source as a string of scalar values.\<close>

abbreviation str :: "string \<Rightarrow> rstr" where
  "str s \<equiv> map of_char s"

abbreviation ch :: "char \<Rightarrow> rchar" where
  "ch c \<equiv> of_char c"

section \<open>Collections of hints\<close>

named_theorems value_simps \<open>what an operation does to the value its result denotes\<close>
named_theorems wf_intros \<open>operations that establish or keep a well-formedness invariant\<close>

section \<open>std::cmp::Ordering\<close>

datatype ordering = Less | Equal | Greater

definition cmp_of :: "'a::linorder \<Rightarrow> 'a \<Rightarrow> ordering" where
  "cmp_of a b = (if a < b then Less else if a = b then Equal else Greater)"

lemma cmp_of_eq_simps [simp]:
  "cmp_of a b = Less \<longleftrightarrow> a < b"
  "cmp_of a b = Equal \<longleftrightarrow> a = b"
  "cmp_of a b = Greater \<longleftrightarrow> b < a"
  by (auto simp: cmp_of_def)

lemma cmp_of_refl [simp]: "cmp_of a a = Equal"
  by simp

section \<open>Splitting a 64-bit accumulator into limbs\<close>

text \<open>\<open>(v & 0xFFFF_FFFF) as u32\<close> and \<open>v >> 32\<close>.\<close>

definition lo32 :: "u64 \<Rightarrow> u32" where
  "lo32 v = ucast (v AND 0xFFFFFFFF)"

definition hi32 :: "u64 \<Rightarrow> u64" where
  "hi32 v = drop_bit 32 v"

lemma mask_32: "(0xFFFFFFFF :: u64) = mask 32"
  by (simp add: mask_eq_exp_minus_1)

lemma unat_lo32 [simp]: "unat (lo32 v) = unat v mod 2 ^ 32"
proof -
  have "unat (lo32 v) = take_bit 32 (unat (v AND mask 32))"
    by (simp add: lo32_def mask_32 unsigned_ucast_eq)
  also have "\<dots> = take_bit 32 (take_bit 32 (unat v))"
    by (simp add: take_bit_eq_mask [symmetric] unsigned_take_bit_eq)
  finally show ?thesis by (simp add: take_bit_eq_mod)
qed

lemma unat_hi32 [simp]: "unat (hi32 v) = unat v div 2 ^ 32"
  unfolding hi32_def unat_drop_bit_eq by (rule drop_bit_eq_div)

lemma lo32_hi32: "unat (lo32 v) + 2 ^ 32 * unat (hi32 v) = unat v"
  by simp

lemma hi32_eq_0_iff: "hi32 v = 0 \<longleftrightarrow> unat v < 2 ^ 32"
  by (metis div_eq_0_iff power_not_zero unat_eq_0 unat_hi32 zero_neq_numeral)

lemma unat_u32_less [simp]: "unat (x :: u32) < 4294967296"
  using unsigned_less [of x, where ?'a = nat] by simp

lemma unat_ucast_u32_u64 [simp]: "unat (ucast (x :: u32) :: u64) = unat x"
  by (simp add: unsigned_ucast_eq take_bit_nat_eq_self_iff)
    (rule less_trans [OF unat_u32_less], simp)

text \<open>The 64-bit multiply-accumulate of two limbs never wraps.\<close>

lemma mul_acc_bound:
  assumes "x < B" "y < B" "s < B" "c < (B::nat)"
  shows "s + x * y + c < B * B"
proof -
  have "x * y \<le> (B - 1) * (B - 1)"
    using assms by (intro mult_mono) auto
  moreover have "(B - 1) * (B - 1) + 2 * (B - 1) + 1 = B * B"
    using assms by (cases B) (auto simp: algebra_simps)
  moreover have "s \<le> B - 1" "c \<le> B - 1"
    using assms by auto
  ultimately show ?thesis by linarith
qed

lemma unat_mul_acc:
  fixes s x y :: u32 and c :: u64
  assumes "unat c < 2 ^ 32"
  shows "unat (ucast s + ucast x * ucast y + c :: u64) = unat s + unat x * unat y + unat c"
proof -
  have b: "unat s + unat x * unat y + unat c < 2 ^ 32 * 2 ^ 32"
    using mul_acc_bound [of "unat x" "2 ^ 32" "unat y" "unat s" "unat c"] assms by simp
  then show ?thesis
    by (simp add: unat_word_ariths)
qed

section \<open>Decimal digits\<close>

text \<open>\<open>to_string\<close> of an unsigned integer, and \<open>format!("{:0k}")\<close>.\<close>

fun dec_nat :: "nat \<Rightarrow> rstr" where
  "dec_nat n = (if n < 10 then [ch CHR ''0'' + n] else dec_nat (n div 10) @ [ch CHR ''0'' + n mod 10])"

declare dec_nat.simps [simp del]

definition dec_pad :: "nat \<Rightarrow> nat \<Rightarrow> rstr" where
  "dec_pad k n = replicate (k - length (dec_nat n)) (ch CHR ''0'') @ dec_nat n"

lemma dec_nat_small: "n < 10 \<Longrightarrow> dec_nat n = [ch CHR ''0'' + n]"
  by (simp add: dec_nat.simps)

lemma dec_nat_step: "10 \<le> n \<Longrightarrow> dec_nat n = dec_nat (n div 10) @ [ch CHR ''0'' + n mod 10]"
  by (subst dec_nat.simps) simp

lemma dec_nat_not_Nil [simp]: "dec_nat n \<noteq> []"
  by (subst dec_nat.simps) simp

lemma dec_nat_snoc: "0 < n \<Longrightarrow> d < 10 \<Longrightarrow> dec_nat (n * 10 + d) = dec_nat n @ [ch CHR ''0'' + d]"
  by (subst dec_nat_step) auto

lemma dec_pad_step:
  assumes "0 < k"
  shows "dec_pad (Suc k) n = dec_pad k (n div 10) @ [ch CHR ''0'' + n mod 10]"
proof (cases "n < 10")
  case True
  obtain j where "k = Suc j" using assms by (cases k) auto
  then show ?thesis using True
    by (simp add: dec_pad_def dec_nat_small replicate_append_same)
next
  case False
  then show ?thesis by (simp add: dec_pad_def dec_nat_step [of n])
qed

lemma dec_nat_append_pad:
  "0 < n \<Longrightarrow> 0 < k \<Longrightarrow> r < 10 ^ k \<Longrightarrow> dec_nat (n * 10 ^ k + r) = dec_nat n @ dec_pad k r"
proof (induction k arbitrary: r)
  case (Suc k)
  show ?case
  proof (cases "k = 0")
    case True
    with Suc.prems show ?thesis
      by (simp add: dec_nat_snoc dec_pad_def dec_nat_small)
  next
    case False
    have "n * 10 ^ Suc k + r = (n * 10 ^ k + r div 10) * 10 + r mod 10"
      by (simp add: algebra_simps)
    moreover have "dec_nat (n * 10 ^ k + r div 10) = dec_nat n @ dec_pad k (r div 10)"
      using Suc.prems False by (intro Suc.IH) auto
    moreover have "0 < n * 10 ^ k + r div 10" using Suc.prems by simp
    ultimately show ?thesis
      using dec_nat_snoc [of "n * 10 ^ k + r div 10" "r mod 10"] False
      by (simp only: dec_pad_step neq0_conv) simp
  qed
qed simp

lemma dec_nat_digits: "c \<in> set (dec_nat n) \<Longrightarrow> ch CHR ''0'' \<le> c \<and> c \<le> ch CHR ''9''"
proof (induction n rule: dec_nat.induct)
  case (1 n)
  then show ?case by (subst (asm) dec_nat.simps) (auto split: if_splits)
qed

lemma length_dec_nat: "0 < k \<Longrightarrow> n < 10 ^ k \<Longrightarrow> length (dec_nat n) \<le> k"
proof (induction k arbitrary: n)
  case (Suc k)
  show ?case
  proof (cases "n < 10")
    case False
    then have "0 < k" using Suc.prems(2) by (cases k) auto
    moreover have "n div 10 < 10 ^ k" using Suc.prems(2) by simp
    ultimately show ?thesis using Suc.IH [of "n div 10"] False by (simp add: dec_nat_step)
  qed (simp add: dec_nat_small)
qed simp

section \<open>Digits of a radix\<close>

text \<open>\<open>char::to_digit\<close>.\<close>

definition to_digit :: "rchar \<Rightarrow> nat \<Rightarrow> nat option" where
  "to_digit c radix =
     (let d = (if ch CHR ''0'' \<le> c \<and> c \<le> ch CHR ''9'' then Some (c - ch CHR ''0'')
               else if ch CHR ''a'' \<le> c \<and> c \<le> ch CHR ''z'' then Some (c - ch CHR ''a'' + 10)
               else if ch CHR ''A'' \<le> c \<and> c \<le> ch CHR ''Z'' then Some (c - ch CHR ''A'' + 10)
               else None)
      in (case d of None \<Rightarrow> None | Some n \<Rightarrow> if n < radix then Some n else None))"

lemma to_digit_less: "to_digit c radix = Some d \<Longrightarrow> d < radix"
  by (auto simp: to_digit_def Let_def split: if_splits option.splits)

section \<open>UTF-8 lengths\<close>

text \<open>\<open>char::len_utf8\<close> and \<open>str::len\<close>; \<open>char::from_u32\<close> succeeds on the scalar values.\<close>

definition len_utf8 :: "rchar \<Rightarrow> nat" where
  "len_utf8 c = (if c < 0x80 then 1 else if c < 0x800 then 2 else if c < 0x10000 then 3 else 4)"

definition str_len :: "rstr \<Rightarrow> nat" where
  "str_len s = sum_list (map len_utf8 s)"

definition is_scalar :: "nat \<Rightarrow> bool" where
  "is_scalar v \<longleftrightarrow> v < 0xD800 \<or> (0xDFFF < v \<and> v < 0x110000)"

lemma len_utf8_pos [simp]: "0 < len_utf8 c"
  by (simp add: len_utf8_def)

lemma str_len_simps [simp]:
  "str_len [] = 0" "str_len (c # s) = len_utf8 c + str_len s" "str_len (s @ t) = str_len s + str_len t"
  by (simp_all add: str_len_def)

lemma str_len_0 [simp]: "str_len s = 0 \<longleftrightarrow> s = []"
  by (cases s) (simp_all add: len_utf8_def)

lemma str_len_prefix_inject:
  "u @ v = u' @ v' \<Longrightarrow> str_len u = str_len u' \<Longrightarrow> u = u'"
proof (induction u arbitrary: u')
  case Nil
  then show ?case by (metis str_len_0 str_len_simps(1))
next
  case (Cons c u)
  then show ?case by (cases u') (auto simp: len_utf8_def split: if_splits)
qed

end
