(* ===== verification/Arena.thy ===== *)
theory Arena
  imports Prelude
begin

text \<open>
  The handle arena that owns the reference-counted values of one compiled call
  (\<open>crates/mersey_interp/src/lib.rs\<close>, \<open>struct Arena\<close>).  Values are the type parameter
  \<open>'v\<close>; the \<open>null\<close> that \<open>lend\<close> leaves behind is an argument.  Handles are slot index
  plus one; 0 names nothing.  An index the source would panic on is \<open>None\<close>.  The
  interpreter and host pointers of the struct, which no operation here touches, and
  the allocator capacity read by \<open>peak_slots\<close> are not part of the record.

  The locale \<open>handle_store\<close> is the contract compiled code relies on; it is interpreted
  by the arena.  The step relation at the end is a whole compiled call.
\<close>

section \<open>State and operations\<close>

record 'v arena =
  slots :: "'v option list"
  free :: "nat list"

definition arena_new :: "'v arena" where
  "arena_new = \<lparr>slots = [], free = []\<rparr>"

definition arena_keep :: "'v \<Rightarrow> 'v arena \<Rightarrow> (nat \<times> 'v arena) option" where
  "arena_keep v a =
     (if free a \<noteq> [] then
        (let i = last (free a)
         in if i < length (slots a)
            then Some (i + 1, a\<lparr>slots := (slots a)[i := Some v], free := butlast (free a)\<rparr>)
            else None)
      else Some (length (slots a) + 1, a\<lparr>slots := slots a @ [Some v]\<rparr>))"

definition arena_release :: "nat \<Rightarrow> 'v arena \<Rightarrow> 'v arena" where
  "arena_release h a =
     (if h = 0 then a
      else (let i = h - 1
            in if i < length (slots a) then
                 (case slots a ! i of
                    Some _ \<Rightarrow> a\<lparr>slots := (slots a)[i := None], free := free a @ [i]\<rparr>
                  | None \<Rightarrow> a)
               else a))"

definition arena_get :: "nat \<Rightarrow> 'v arena \<Rightarrow> 'v option" where
  "arena_get h a =
     (if h = 0 then None
      else if h - 1 < length (slots a) then slots a ! (h - 1) else None)"

text \<open>\<open>get_mut\<close>: the borrow, and the arena after \<open>f\<close> has written through it.\<close>

definition arena_get_mut :: "nat \<Rightarrow> ('v \<Rightarrow> 'v) \<Rightarrow> 'v arena \<Rightarrow> 'v option \<times> 'v arena" where
  "arena_get_mut h f a =
     (if h = 0 then (None, a)
      else if h - 1 < length (slots a) then
        (case slots a ! (h - 1) of
           Some v \<Rightarrow> (Some v, a\<lparr>slots := (slots a)[h - 1 := Some (f v)]\<rparr>)
         | None \<Rightarrow> (None, a))
      else (None, a))"

definition arena_take :: "nat \<Rightarrow> 'v arena \<Rightarrow> 'v option \<times> 'v arena" where
  "arena_take h a =
     (if h = 0 then (None, a)
      else (let i = h - 1
            in if i < length (slots a) then
                 (let v = slots a ! i;
                      a' = a\<lparr>slots := (slots a)[i := None]\<rparr>
                  in (v, if v \<noteq> None then a'\<lparr>free := free a @ [i]\<rparr> else a'))
               else (None, a)))"

definition arena_lend :: "'v \<Rightarrow> nat \<Rightarrow> 'v arena \<Rightarrow> 'v option \<times> 'v arena" where
  "arena_lend null h a =
     (if h = 0 then (None, a)
      else if h - 1 < length (slots a) then
        (case slots a ! (h - 1) of
           Some v \<Rightarrow> (Some v, a\<lparr>slots := (slots a)[h - 1 := Some null]\<rparr>)
         | None \<Rightarrow> (None, a))
      else (None, a))"

definition arena_give_back :: "nat \<Rightarrow> 'v \<Rightarrow> 'v arena \<Rightarrow> 'v arena" where
  "arena_give_back h v a =
     (if h = 0 then a
      else if h - 1 < length (slots a) then a\<lparr>slots := (slots a)[h - 1 := Some v]\<rparr> else a)"

definition arena_clear :: "'v arena \<Rightarrow> 'v arena" where
  "arena_clear a = a\<lparr>slots := [], free := []\<rparr>"

section \<open>The free list invariant\<close>

text \<open>The free list names exactly the empty slots, each once.\<close>

definition arena_inv :: "'v arena \<Rightarrow> bool" where
  "arena_inv a \<longleftrightarrow> distinct (free a) \<and> set (free a) = {i. i < length (slots a) \<and> slots a ! i = None}"

lemma arena_invI:
  "distinct (free a) \<Longrightarrow> (\<And>i. i \<in> set (free a) \<longleftrightarrow> i < length (slots a) \<and> slots a ! i = None) \<Longrightarrow> arena_inv a"
  by (auto simp: arena_inv_def)

lemma arena_inv_free: "arena_inv a \<Longrightarrow> i \<in> set (free a) \<longleftrightarrow> i < length (slots a) \<and> slots a ! i = None"
  by (auto simp: arena_inv_def)

lemma arena_inv_distinct: "arena_inv a \<Longrightarrow> distinct (free a)"
  by (simp add: arena_inv_def)

lemma arena_new_inv [simp, wf_intros]: "arena_inv arena_new"
  by (simp add: arena_inv_def arena_new_def)

lemma arena_clear_inv [simp, wf_intros]: "arena_inv (arena_clear a)"
  by (simp add: arena_inv_def arena_clear_def)

lemma arena_get_0 [simp]: "arena_get 0 a = None"
  by (simp add: arena_get_def)

lemma arena_get_Suc: "arena_get (Suc i) a = (if i < length (slots a) then slots a ! i else None)"
  by (simp add: arena_get_def)

text \<open>\<open>keep\<close> on the two branches, under the invariant.\<close>

lemma in_butlast_distinct:
  "distinct xs \<Longrightarrow> xs \<noteq> [] \<Longrightarrow> i \<in> set (butlast xs) \<longleftrightarrow> i \<in> set xs \<and> i \<noteq> last xs"
  by (induction xs rule: rev_induct) auto

lemma arena_keep_cases:
  assumes "arena_inv a"
  obtains (reuse) i where "free a \<noteq> []" "i = last (free a)" "i < length (slots a)" "slots a ! i = None"
      "arena_keep v a = Some (Suc i, a\<lparr>slots := (slots a)[i := Some v], free := butlast (free a)\<rparr>)"
  | (grow) "free a = []" "arena_keep v a = Some (Suc (length (slots a)), a\<lparr>slots := slots a @ [Some v]\<rparr>)"
proof (cases "free a = []")
  case True
  then show ?thesis by (intro grow) (simp_all add: arena_keep_def)
next
  case False
  then have "last (free a) < length (slots a) \<and> slots a ! last (free a) = None"
    using assms arena_inv_free [of a "last (free a)"] by simp
  then show ?thesis using False by (intro reuse [of "last (free a)"]) (simp_all add: arena_keep_def Let_def)
qed

lemma arena_keep_inv [wf_intros]:
  assumes "arena_inv a" "arena_keep v a = Some (h, a')"
  shows "arena_inv a'"
  using assms(1)
proof (cases rule: arena_keep_cases [of a v])
  case (reuse i)
  then show ?thesis using assms arena_inv_distinct [OF assms(1)]
    by (intro arena_invI)
      (auto simp: distinct_butlast in_butlast_distinct arena_inv_free [OF assms(1)] nth_list_update)
next
  case grow
  then have "slots a ! i \<noteq> None" if "i < length (slots a)" for i
    using that arena_inv_free [OF assms(1), of i] by simp
  then show ?thesis using grow assms(2) by (intro arena_invI) (auto simp: nth_append)
qed

lemma free_slot_inv:
  assumes "arena_inv a" "i < length (slots a)" "slots a ! i \<noteq> None"
  shows "arena_inv (a\<lparr>slots := (slots a)[i := None], free := free a @ [i]\<rparr>)"
proof (rule arena_invI)
  have "i \<notin> set (free a)" using assms(3) arena_inv_free [OF assms(1), of i] by simp
  then show "distinct (free (a\<lparr>slots := (slots a)[i := None], free := free a @ [i]\<rparr>))"
    using arena_inv_distinct [OF assms(1)] by simp
  fix k
  show "k \<in> set (free (a\<lparr>slots := (slots a)[i := None], free := free a @ [i]\<rparr>)) \<longleftrightarrow>
      k < length (slots (a\<lparr>slots := (slots a)[i := None], free := free a @ [i]\<rparr>))
      \<and> slots (a\<lparr>slots := (slots a)[i := None], free := free a @ [i]\<rparr>) ! k = None"
    using assms(2) arena_inv_free [OF assms(1), of k] by (auto simp: nth_list_update)
qed

lemma refill_slot_inv:
  assumes "arena_inv a" "i < length (slots a)" "slots a ! i \<noteq> None"
  shows "arena_inv (a\<lparr>slots := (slots a)[i := Some v]\<rparr>)"
  using assms by (intro arena_invI) (auto simp: arena_inv_free arena_inv_distinct nth_list_update)

lemma arena_release_inv [wf_intros]: "arena_inv a \<Longrightarrow> arena_inv (arena_release h a)"
  by (auto simp: arena_release_def Let_def intro: free_slot_inv split: option.split)

lemma arena_take_inv [wf_intros]: "arena_inv a \<Longrightarrow> arena_inv (snd (arena_take h a))"
  using free_slot_inv [of a "h - 1"] list_update_id [of "slots a" "h - 1"]
  by (cases "slots a ! (h - 1) = None") (auto simp: arena_take_def Let_def simp del: list_update_id)

lemma arena_lend_inv [wf_intros]: "arena_inv a \<Longrightarrow> arena_inv (snd (arena_lend null h a))"
  by (auto simp: arena_lend_def intro: refill_slot_inv split: option.split)

lemma arena_get_mut_inv [wf_intros]: "arena_inv a \<Longrightarrow> arena_inv (snd (arena_get_mut h f a))"
  by (auto simp: arena_get_mut_def intro: refill_slot_inv split: option.split)

lemma arena_give_back_inv [wf_intros]:
  "arena_inv a \<Longrightarrow> arena_get h a \<noteq> None \<Longrightarrow> arena_inv (arena_give_back h v a)"
  by (auto simp: arena_give_back_def arena_get_def intro: refill_slot_inv split: if_splits)

section \<open>What each operation does to the handles\<close>

lemma arena_release_get [value_simps]:
  "arena_get k (arena_release h a) = (if k = h then None else arena_get k a)"
  by (cases h; cases k) (auto simp: arena_get_def arena_release_def Let_def nth_list_update split: option.split)

lemma arena_take_val: "fst (arena_take h a) = arena_get h a"
  by (simp add: arena_take_def arena_get_def Let_def)

lemma arena_take_get [value_simps]:
  "arena_get k (snd (arena_take h a)) = (if k = h then None else arena_get k a)"
  by (cases h; cases k) (auto simp: arena_get_def arena_take_def Let_def nth_list_update)

lemma arena_lend_val: "fst (arena_lend null h a) = arena_get h a"
  by (simp add: arena_lend_def arena_get_def split: option.split)

lemma arena_lend_get [value_simps]:
  "arena_get k (snd (arena_lend null h a))
    = (if k = h \<and> arena_get h a \<noteq> None then Some null else arena_get k a)"
  by (cases h; cases k) (auto simp: arena_get_def arena_lend_def nth_list_update split: option.split)

lemma arena_get_mut_get [value_simps]:
  "arena_get k (snd (arena_get_mut h f a)) = (if k = h then map_option f (arena_get h a) else arena_get k a)"
  by (cases h; cases k) (auto simp: arena_get_def arena_get_mut_def nth_list_update split: option.split)

lemma arena_give_back_get [value_simps]:
  "arena_get h a \<noteq> None \<Longrightarrow> arena_get k (arena_give_back h v a) = (if k = h then Some v else arena_get k a)"
  by (cases h; cases k) (auto simp: arena_get_def arena_give_back_def nth_list_update split: if_splits)

lemma arena_clear_get [value_simps]: "arena_get k (arena_clear a) = None"
  by (simp add: arena_get_def arena_clear_def)

lemma arena_keep_total:
  assumes "arena_inv a"
  obtains h a' where "arena_keep v a = Some (h, a')" "h \<noteq> 0" "arena_get h a = None"
    "\<And>k. arena_get k a' = (if k = h then Some v else arena_get k a)"
    "length (slots a') = (if free a = [] then length (slots a) + 1 else length (slots a))"
  using assms
proof (cases rule: arena_keep_cases [of a v])
  case (reuse i)
  show ?thesis
  proof (rule that [OF reuse(5)])
    fix k
    show "arena_get k (a\<lparr>slots := (slots a)[i := Some v], free := butlast (free a)\<rparr>)
        = (if k = Suc i then Some v else arena_get k a)"
      using reuse(3) by (cases k) (auto simp: arena_get_Suc nth_list_update)
  qed (use reuse in \<open>simp_all add: arena_get_Suc\<close>)
next
  case grow
  show ?thesis
  proof (rule that [OF grow(2)])
    fix k
    show "arena_get k (a\<lparr>slots := slots a @ [Some v]\<rparr>)
        = (if k = Suc (length (slots a)) then Some v else arena_get k a)"
      by (cases k) (auto simp: arena_get_Suc nth_append)
  qed (use grow in \<open>simp_all add: arena_get_Suc\<close>)
qed

section \<open>The contract of a handle store\<close>

text \<open>
  What compiled code relies on: a handle it was given names its value until it is let go,
  whatever else is kept or dropped meanwhile.
\<close>

locale handle_store =
  fixes look :: "'h \<Rightarrow> 's \<Rightarrow> 'v option"
    and alloc :: "'v \<Rightarrow> 's \<Rightarrow> ('h \<times> 's) option"
    and dealloc :: "'h \<Rightarrow> 's \<Rightarrow> 's"
    and inv :: "'s \<Rightarrow> bool"
  assumes alloc_law: "inv s \<Longrightarrow> \<exists>h s'. alloc v s = Some (h, s') \<and> inv s' \<and> look h s = None
      \<and> (\<forall>k. look k s' = (if k = h then Some v else look k s))"
    and dealloc_law: "inv s \<Longrightarrow> inv (dealloc h s) \<and> (\<forall>k. look k (dealloc h s) = (if k = h then None else look k s))"
begin

lemma alloc_total: "inv s \<Longrightarrow> alloc v s \<noteq> None"
  using alloc_law by fastforce

lemma alloc_inv: "inv s \<Longrightarrow> alloc v s = Some (h, s') \<Longrightarrow> inv s'"
  using alloc_law [of s v] by auto

lemma alloc_look: "inv s \<Longrightarrow> alloc v s = Some (h, s') \<Longrightarrow> look k s' = (if k = h then Some v else look k s)"
  using alloc_law [of s v] by auto

lemma alloc_fresh: "inv s \<Longrightarrow> alloc v s = Some (h, s') \<Longrightarrow> look k s = Some w \<Longrightarrow> k \<noteq> h"
  using alloc_law [of s v] by auto

lemma alloc_frame: "inv s \<Longrightarrow> alloc v s = Some (h, s') \<Longrightarrow> look k s = Some w \<Longrightarrow> look k s' = Some w"
  using alloc_look alloc_fresh by metis

lemma dealloc_look: "inv s \<Longrightarrow> look k (dealloc h s) = (if k = h then None else look k s)"
  using dealloc_law by blast

lemma dealloc_inv: "inv s \<Longrightarrow> inv (dealloc h s)"
  using dealloc_law by blast

lemma alloc_dealloc:
  "inv s \<Longrightarrow> alloc v s = Some (h, s') \<Longrightarrow> look k (dealloc h s') = look k s"
  using alloc_law [of s v] dealloc_look [of s' k h] by auto

lemma two_allocs:
  assumes "inv s" "alloc v s = Some (h, s')" "alloc w s' = Some (h', s'')"
  shows "h \<noteq> h'" "look h s'' = Some v" "look h' s'' = Some w"
  using alloc_fresh [OF alloc_inv [OF assms(1,2)] assms(3), of h v]
    alloc_look [OF assms(1,2)] alloc_look [OF alloc_inv [OF assms(1,2)] assms(3)] by simp_all

end

lemma arena_keep_law:
  assumes "arena_inv a"
  shows "\<exists>h a'. arena_keep v a = Some (h, a') \<and> arena_inv a' \<and> arena_get h a = None
    \<and> (\<forall>k. arena_get k a' = (if k = h then Some v else arena_get k a))"
  using arena_keep_total [OF assms, of v] arena_keep_inv [OF assms] by metis

interpretation arena: handle_store arena_get arena_keep arena_release arena_inv
  by unfold_locales (rule arena_keep_law, assumption, simp add: arena_release_inv arena_release_get)

section \<open>A compiled call\<close>

text \<open>
  The operations of one call, with the handles and values they return.  A lent handle is
  given back while it is still live (the comment of \<open>lend\<close>); everything else is
  unrestricted: stale handles may be released, taken and lent.
\<close>

datatype 'v arena_op =
    Keep 'v nat
  | Release nat
  | Take nat "'v option"
  | Lend nat "'v option"
  | GiveBack nat 'v
  | Modify nat "'v \<Rightarrow> 'v" "'v option"
  | Clear

inductive arena_step :: "'v \<Rightarrow> 'v arena \<Rightarrow> 'v arena_op \<Rightarrow> 'v arena \<Rightarrow> bool" for null where
  step_keep: "arena_keep v a = Some (h, a') \<Longrightarrow> arena_step null a (Keep v h) a'"
| step_release: "arena_step null a (Release h) (arena_release h a)"
| step_take: "arena_take h a = (v, a') \<Longrightarrow> arena_step null a (Take h v) a'"
| step_lend: "arena_lend null h a = (v, a') \<Longrightarrow> arena_step null a (Lend h v) a'"
| step_give_back: "arena_get h a \<noteq> None \<Longrightarrow> arena_step null a (GiveBack h v) (arena_give_back h v a)"
| step_modify: "arena_get_mut h f a = (v, a') \<Longrightarrow> arena_step null a (Modify h f v) a'"
| step_clear: "arena_step null a Clear (arena_clear a)"

inductive_cases arena_stepE: "arena_step null a op a'"

text \<open>The same operations on the map from live handles to values.\<close>

inductive handles_step :: "'v \<Rightarrow> (nat \<rightharpoonup> 'v) \<Rightarrow> 'v arena_op \<Rightarrow> (nat \<rightharpoonup> 'v) \<Rightarrow> bool" for null where
  "h \<noteq> 0 \<Longrightarrow> m h = None \<Longrightarrow> handles_step null m (Keep v h) (m(h \<mapsto> v))"
| "handles_step null m (Release h) (m(h := None))"
| "handles_step null m (Take h (m h)) (m(h := None))"
| "handles_step null m (Lend h (m h)) (m(h := map_option (\<lambda>_. null) (m h)))"
| "m h \<noteq> None \<Longrightarrow> handles_step null m (GiveBack h v) (m(h \<mapsto> v))"
| "handles_step null m (Modify h f (m h)) (m(h := map_option f (m h)))"
| "handles_step null m Clear Map.empty"

definition arena_abs :: "'v arena \<Rightarrow> nat \<rightharpoonup> 'v" where
  "arena_abs a = (\<lambda>h. arena_get h a)"

lemma arena_step_inv:
  assumes "arena_step null a op a'" "arena_inv a"
  shows "arena_inv a'"
  using assms arena_keep_inv [of a] arena_take_inv [of a] arena_lend_inv [of a null]
    arena_get_mut_inv [of a] arena_release_inv [of a] arena_give_back_inv [of a]
  by (elim arena_step.cases) (metis snd_conv arena_clear_inv)+

lemma arena_get_mut_val: "fst (arena_get_mut h f a) = arena_get h a"
  by (simp add: arena_get_mut_def arena_get_def split: option.split)

lemma arena_step_refines:
  assumes "arena_step null a op a'" "arena_inv a"
  shows "handles_step null (arena_abs a) op (arena_abs a')"
  using assms(1)
proof (cases rule: arena_step.cases)
  case (step_keep v h)
  obtain h' b where k: "arena_keep v a = Some (h', b)" "h' \<noteq> 0" "arena_get h' a = None"
    "\<And>k. arena_get k b = (if k = h' then Some v else arena_get k a)"
    using arena_keep_total [OF assms(2)] by metis
  then have "arena_abs a' = (arena_abs a)(h \<mapsto> v)" "h \<noteq> 0" "arena_abs a h = None"
    using step_keep by (auto simp: arena_abs_def)
  then show ?thesis using step_keep by (auto intro: handles_step.intros)
next
  case (step_release h)
  have "arena_abs (arena_release h a) = (arena_abs a)(h := None)"
    by (auto simp: arena_abs_def arena_release_get)
  then show ?thesis using step_release by (auto intro: handles_step.intros)
next
  case (step_take h v)
  then have "v = arena_abs a h" "arena_abs a' = (arena_abs a)(h := None)"
    using arena_take_val [of h a] arena_take_get [of _ h a] by (auto simp: arena_abs_def)
  then show ?thesis using step_take by (auto intro: handles_step.intros)
next
  case (step_lend h v)
  then have "v = arena_abs a h" "arena_abs a' = (arena_abs a)(h := map_option (\<lambda>_. null) (arena_abs a h))"
    using arena_lend_val [of null h a] arena_lend_get [of _ null h a]
    by (cases "arena_get h a"; auto simp: arena_abs_def)+
  then show ?thesis using step_lend by (auto intro: handles_step.intros)
next
  case (step_give_back h v)
  then have "arena_abs a' = (arena_abs a)(h \<mapsto> v)" "arena_abs a h \<noteq> None"
    by (auto simp: arena_abs_def arena_give_back_get)
  then show ?thesis using step_give_back by (auto intro: handles_step.intros)
next
  case (step_modify h f v)
  then have "v = arena_abs a h" "arena_abs a' = (arena_abs a)(h := map_option f (arena_abs a h))"
    using arena_get_mut_val [of h f a] arena_get_mut_get [of _ h f a] by (auto simp: arena_abs_def)
  then show ?thesis using step_modify by (auto intro: handles_step.intros)
next
  case step_clear
  have "arena_abs (arena_clear a) = Map.empty" by (auto simp: arena_abs_def arena_clear_get)
  then show ?thesis using step_clear by (auto intro: handles_step.intros)
qed

text \<open>
  A call from its start, with the trace of its operations (latest first) and the largest
  number of values that were ever live at once.
\<close>

definition arena_live :: "'v arena \<Rightarrow> nat" where
  "arena_live a = length (filter (\<lambda>s. s \<noteq> None) (slots a))"

inductive arena_run :: "'v \<Rightarrow> 'v arena_op list \<Rightarrow> 'v arena \<Rightarrow> nat \<Rightarrow> bool" for null where
  run_start: "arena_run null [] arena_new 0"
| run_step: "arena_run null ops a p \<Longrightarrow> arena_step null a op a'
    \<Longrightarrow> arena_run null (op # ops) a' (max p (arena_live a'))"

lemma arena_run_inv: "arena_run null ops a p \<Longrightarrow> arena_inv a"
  by (induction rule: arena_run.induct) (auto intro: arena_step_inv)

lemma length_slots_free:
  assumes "arena_inv a"
  shows "length (slots a) = arena_live a + length (free a)"
proof -
  have "length (free a) = card (set (free a))"
    using arena_inv_distinct [OF assms] by (simp add: distinct_card)
  also have "\<dots> = card {i. i < length (slots a) \<and> slots a ! i = None}"
    using assms by (simp add: arena_inv_def)
  also have "\<dots> = length (filter (\<lambda>s. s = None) (slots a))"
    by (simp add: length_filter_conv_card)
  finally show ?thesis
    using sum_length_filter_compl [of "\<lambda>s. s \<noteq> None" "slots a"] by (simp add: arena_live_def)
qed

lemma arena_step_length:
  assumes "arena_step null a op a'" "arena_inv a"
  shows "length (slots a') \<le> max (length (slots a)) (arena_live a')"
  using assms(1)
proof (cases rule: arena_step.cases)
  case (step_keep v h)
  show ?thesis
  proof (cases "free a = []")
    case True
    then have "free a' = []" using step_keep by (auto simp: arena_keep_def)
    then show ?thesis
      using length_slots_free [OF arena_step_inv [OF assms]] by simp
  next
    case False
    then show ?thesis using step_keep by (auto simp: arena_keep_def Let_def split: if_splits)
  qed
qed (auto simp: arena_release_def arena_take_def arena_lend_def arena_give_back_def arena_get_mut_def
    arena_clear_def Let_def split: if_splits option.splits)

lemma arena_run_length: "arena_run null ops a p \<Longrightarrow> length (slots a) \<le> p"
proof (induction rule: arena_run.induct)
  case run_start
  then show ?case by (simp add: arena_new_def)
next
  case (run_step ops a p op a')
  then show ?case using arena_step_length [OF run_step(2) arena_run_inv [OF run_step(1)]] by linarith
qed

text \<open>A sample call: keep two values, release the first, keep a third.\<close>

definition sample_call :: "nat arena" where
  "sample_call = \<lparr>slots = [Some 30, Some 20], free = []\<rparr>"

lemma sample_run:
  "arena_run 0 [Keep 30 1, Release 1, Keep 20 2, Keep 10 1] sample_call 2"
proof -
  have "arena_run 0 [Keep 10 1] \<lparr>slots = [Some (10 :: nat)], free = []\<rparr> (max 0 1)"
    using run_step [OF run_start step_keep, of "10 :: nat" 1 "\<lparr>slots = [Some 10], free = []\<rparr>" 0]
    by (simp add: arena_keep_def arena_new_def arena_live_def)
  from run_step [OF this step_keep, of "20 :: nat" 2 "\<lparr>slots = [Some 10, Some 20], free = []\<rparr>"]
  have "arena_run 0 [Keep 20 2, Keep 10 1] \<lparr>slots = [Some 10, Some (20 :: nat)], free = []\<rparr> 2"
    by (simp add: arena_keep_def arena_live_def numeral_2_eq_2)
  from run_step [OF this step_release, of 1]
  have "arena_run 0 [Release 1, Keep 20 2, Keep 10 1] \<lparr>slots = [None, Some (20 :: nat)], free = [0]\<rparr> 2"
    by (simp add: arena_release_def arena_live_def numeral_2_eq_2)
  from run_step [OF this step_keep, of 30 1 sample_call]
  show ?thesis
    by (simp add: arena_keep_def arena_live_def sample_call_def numeral_2_eq_2)
qed

section \<open>What the component promises\<close>

text \<open>
  C8: in every state of a compiled call the free list names exactly the empty slots, each
  once; so \<open>keep\<close> never indexes outside the slots, and it returns a non-zero handle no
  live value has, leaving every other handle as it was.
\<close>

theorem arena_keep_safe:
  assumes "arena_run null ops a p"
  shows "arena_inv a \<and> (\<exists>h a'. arena_keep v a = Some (h, a') \<and> h \<noteq> 0 \<and> arena_get h a = None
    \<and> arena_get h a' = Some v \<and> (\<forall>k. k \<noteq> h \<longrightarrow> arena_get k a' = arena_get k a))"
  using arena_keep_total [OF arena_run_inv [OF assms], of v] arena_run_inv [OF assms] by metis

theorem arena_keep_safe_witness:
  "\<exists>h a'. arena_keep 40 sample_call = Some (h, a') \<and> h \<noteq> 0 \<and> arena_get h sample_call = None \<and> arena_get h a' = Some 40"
  using arena_keep_safe [OF sample_run, of 40] by blast

text \<open>
  C9: the arena refines a map from live handles to values: each operation of a call
  changes the handles as the map's operation does and returns what the map holds; in
  particular a released or taken handle names nothing, and releasing it again is without
  effect.
\<close>

theorem arena_refines_handles:
  assumes "arena_run null ops a p" "arena_step null a op a'"
  shows "handles_step null (arena_abs a) op (arena_abs a')"
  by (rule arena_step_refines [OF assms(2) arena_run_inv [OF assms(1)]])

theorem arena_refines_handles_witness:
  "handles_step 0 (arena_abs sample_call) (Release 2) (arena_abs (arena_release 2 sample_call))"
  by (rule arena_refines_handles [OF sample_run step_release])

text \<open>
  the arena holds no more slots than the largest number of values that were live at
  once during the call, however many were kept and let go: slots are reused before the
  vector grows.
\<close>

lemma arena_slots_bounded:
  assumes "arena_run null ops a p"
  shows "length (slots a) \<le> p \<and> length (slots a) = arena_live a + length (free a)"
  using arena_run_length [OF assms] length_slots_free [OF arena_run_inv [OF assms]] by blast

lemma arena_slots_bounded_example:
  "length (slots sample_call) \<le> 2"
  using arena_slots_bounded [OF sample_run] by blast

text \<open>
  The protocol of \<open>lend\<close> matters: giving a value back to a handle that was released in the
  meantime revives a slot that is still on the free list, and the next \<open>keep\<close> hands the
  same handle out again.
\<close>

lemma give_back_stale_reissues:
  assumes "i < length (slots a)" "free a = fs @ [i]"
  shows "arena_get (Suc i) (arena_give_back (Suc i) v a) = Some v
    \<and> (\<exists>a'. arena_keep w (arena_give_back (Suc i) v a) = Some (Suc i, a'))"
  using assms by (simp add: arena_give_back_def arena_get_def arena_keep_def Let_def)

end
