(* ===== verification/Bignum_Int.thy ===== *)
theory Bignum_Int
  imports Prelude "HOL-Library.Signed_Division"
begin

text \<open>
  The arbitrary-precision integers of \<open>crates/mersey_interp/src/bignum.rs\<close>
  (\<open>struct BigInt\<close>): a sign and little-endian base-\<open>2^32\<close> limbs.  One function
  per operation of the source, in the source's order.  The specification is the integer
  \<open>bi_val\<close> a number denotes; \<open>bi_wf\<close> is the representation invariant of the
  struct's comments (no trailing zero limb, zero is never negative).
\<close>

section \<open>The representation\<close>

record bigint =
  neg :: bool
  mag :: "u32 list"

fun mag_val :: "u32 list \<Rightarrow> nat" where
  "mag_val [] = 0"
| "mag_val (l # ls) = unat l + 2 ^ 32 * mag_val ls"

definition bi_val :: "bigint \<Rightarrow> int" where
  "bi_val b = (if neg b then - int (mag_val (mag b)) else int (mag_val (mag b)))"

definition bi_wf :: "bigint \<Rightarrow> bool" where
  "bi_wf b \<longleftrightarrow> (mag b = [] \<longrightarrow> \<not> neg b) \<and> (mag b \<noteq> [] \<longrightarrow> last (mag b) \<noteq> 0)"

section \<open>The operations\<close>

definition bi_zero :: bigint where
  "bi_zero = \<lparr>neg = False, mag = []\<rparr>"

text \<open>\<open>from_i64\<close>: the limbs of \<open>unsigned_abs\<close>, pushed while it is positive.\<close>

function from_u64_limbs :: "u64 \<Rightarrow> u32 list" where
  "from_u64_limbs u = (if u > 0 then lo32 u # from_u64_limbs (hi32 u) else [])"
  by pat_completeness auto
termination
proof (relation "measure unat")
  fix u :: u64
  assume "u > 0"
  then have "0 < unat u" by (simp add: word_less_nat_alt)
  then show "(hi32 u, u) \<in> measure unat" by simp
qed simp

definition bi_from_i64 :: "64 word \<Rightarrow> bigint" where
  "bi_from_i64 v =
     (let neg0 = sint v < 0;
          u = (of_int \<bar>sint v\<bar> :: u64);
          mg = from_u64_limbs u
      in \<lparr>neg = neg0 \<and> mg \<noteq> [], mag = mg\<rparr>)"

definition bi_is_zero :: "bigint \<Rightarrow> bool" where
  "bi_is_zero b \<longleftrightarrow> mag b = []"

definition bi_trim :: "bigint \<Rightarrow> bigint" where
  "bi_trim b =
     (let mg = rev (dropWhile (\<lambda>l. l = 0) (rev (mag b)))
      in \<lparr>neg = (if mg = [] then False else neg b), mag = mg\<rparr>)"

fun mul_small_loop :: "u32 list \<Rightarrow> u32 \<Rightarrow> u64 \<Rightarrow> u32 list" where
  "mul_small_loop [] m carry = (if carry > 0 then [ucast carry] else [])"
| "mul_small_loop (l # ls) m carry =
     (let v = ucast l * ucast m + carry
      in lo32 v # mul_small_loop ls m (hi32 v))"

definition bi_mul_small :: "bigint \<Rightarrow> u32 \<Rightarrow> bigint" where
  "bi_mul_small b m = bi_trim \<lparr>neg = neg b, mag = mul_small_loop (mag b) m 0\<rparr>"

text \<open>The loop of \<open>add_small\<close> runs while the carry is positive and pushes a zero limb
  when it runs off the end.\<close>

function add_small_loop :: "u32 list \<Rightarrow> u64 \<Rightarrow> u32 list" where
  "add_small_loop out carry =
     (if carry = 0 then out
      else (case out of
              [] \<Rightarrow> (let v = ucast (0 :: u32) + carry in lo32 v # add_small_loop [] (hi32 v))
            | l # ls \<Rightarrow> (let v = ucast l + carry in lo32 v # add_small_loop ls (hi32 v))))"
  by pat_completeness auto
termination
proof (relation "measures [\<lambda>(out, carry). length out, \<lambda>(out, carry). unat carry]", goal_cases)
  case (2 out carry v)
  then have "0 < unat carry" by (simp add: unat_gt_0)
  with 2 show ?case by simp
qed auto

definition bi_add_small :: "bigint \<Rightarrow> u32 \<Rightarrow> bigint" where
  "bi_add_small b a = \<lparr>neg = False, mag = add_small_loop (mag b) (ucast a)\<rparr>"

text \<open>
  \<open>parse\<close>: the digits of the radix, most significant first; any other character
  makes the whole parse fail.
\<close>

fun bi_parse_loop :: "bigint \<Rightarrow> rstr \<Rightarrow> nat \<Rightarrow> bigint option" where
  "bi_parse_loop n [] radix = Some n"
| "bi_parse_loop n (c # cs) radix =
     (case to_digit c radix of
        None \<Rightarrow> None
      | Some d \<Rightarrow> bi_parse_loop (bi_add_small (bi_mul_small n (of_nat radix)) (of_nat d)) cs radix)"

definition bi_parse :: "rstr \<Rightarrow> nat \<Rightarrow> bigint option" where
  "bi_parse body radix = bi_parse_loop bi_zero body radix"

text \<open>\<open>divmod_small\<close> runs from the most significant limb down.\<close>

fun divmod_small_loop :: "u32 list \<Rightarrow> u32 \<Rightarrow> u32 list \<times> u64" where
  "divmod_small_loop [] d = ([], 0)"
| "divmod_small_loop (l # ls) d =
     (let (out, rem) = divmod_small_loop ls d;
          cur = push_bit 32 rem OR ucast l
      in (ucast (cur div ucast d) # out, cur mod ucast d))"

definition bi_divmod_small :: "bigint \<Rightarrow> u32 \<Rightarrow> bigint \<times> u32" where
  "bi_divmod_small b d =
     (let (out, rem) = divmod_small_loop (mag b) d
      in (bi_trim \<lparr>neg = neg b, mag = out\<rparr>, ucast rem))"

text \<open>\<open>cmp_mag\<close>: by length, then by the first difference from the top.\<close>

fun cmp_top :: "u32 list \<Rightarrow> u32 list \<Rightarrow> ordering" where
  "cmp_top (x # xs) (y # ys) = (if x \<noteq> y then cmp_of x y else cmp_top xs ys)"
| "cmp_top _ _ = Equal"

definition cmp_mag :: "u32 list \<Rightarrow> u32 list \<Rightarrow> ordering" where
  "cmp_mag a b =
     (if length a \<noteq> length b then cmp_of (length a) (length b)
      else cmp_top (rev a) (rev b))"

text \<open>\<open>*a.get(i).unwrap_or(&0)\<close> at the head of what is left of an operand.\<close>

definition limb :: "u32 list \<Rightarrow> u32" where
  "limb xs = (case xs of [] \<Rightarrow> 0 | x # _ \<Rightarrow> x)"

function add_mag_loop :: "u32 list \<Rightarrow> u32 list \<Rightarrow> u64 \<Rightarrow> u32 list" where
  "add_mag_loop a b carry =
     (if a = [] \<and> b = [] then (if carry > 0 then [ucast carry] else [])
      else (let v = ucast (limb a) + ucast (limb b) + carry
            in lo32 v # add_mag_loop (tl a) (tl b) (hi32 v)))"
  by pat_completeness auto
termination
  by (relation "measure (\<lambda>(a, b, c). length a + length b)") (auto simp: neq_Nil_conv)

definition add_mag :: "u32 list \<Rightarrow> u32 list \<Rightarrow> u32 list" where
  "add_mag a b = add_mag_loop a b 0"

text \<open>
  \<open>sub_mag\<close> works on \<open>i64\<close> values between \<open>-2^32\<close> and \<open>2^32\<close>, where they are
  plain integers; \<open>v as u32\<close> keeps the low 32 bits.
\<close>

fun sub_mag_loop :: "u32 list \<Rightarrow> u32 list \<Rightarrow> int \<Rightarrow> u32 list" where
  "sub_mag_loop [] b borrow = []"
| "sub_mag_loop (ai # as) b borrow =
     (let v = int (unat ai) - int (unat (limb b)) - borrow
      in if v < 0 then of_int (v + 2 ^ 32) # sub_mag_loop as (tl b) 1
         else of_int v # sub_mag_loop as (tl b) 0)"

definition sub_mag :: "u32 list \<Rightarrow> u32 list \<Rightarrow> u32 list" where
  "sub_mag a b = sub_mag_loop a b 0"

definition bi_add :: "bigint \<Rightarrow> bigint \<Rightarrow> bigint" where
  "bi_add a b =
     (if neg a = neg b then bi_trim \<lparr>neg = neg a, mag = add_mag (mag a) (mag b)\<rparr>
      else (case cmp_mag (mag a) (mag b) of
              Equal \<Rightarrow> bi_zero
            | Greater \<Rightarrow> bi_trim \<lparr>neg = neg a, mag = sub_mag (mag a) (mag b)\<rparr>
            | Less \<Rightarrow> bi_trim \<lparr>neg = neg b, mag = sub_mag (mag b) (mag a)\<rparr>))"

definition bi_negate :: "bigint \<Rightarrow> bigint" where
  "bi_negate b = (if bi_is_zero b then b else \<lparr>neg = \<not> neg b, mag = mag b\<rparr>)"

definition bi_sub :: "bigint \<Rightarrow> bigint \<Rightarrow> bigint" where
  "bi_sub a b = bi_add a (bi_negate b)"

text \<open>
  \<open>mul\<close> accumulates one row per limb into \<open>out\<close>, by index.  An index past the end
  panics in the source: it is \<open>None\<close> here, and \<open>mul_rows_Some\<close> below shows that it
  never happens.
\<close>

fun mul_row :: "u32 list \<Rightarrow> nat \<Rightarrow> u32 \<Rightarrow> u32 list \<Rightarrow> u64 \<Rightarrow> (u32 list \<times> u64) option" where
  "mul_row out p a [] carry = Some (out, carry)"
| "mul_row out p a (b # bs) carry =
     (if p < length out
      then let v = ucast (out ! p) + ucast a * ucast b + carry
           in mul_row (out[p := lo32 v]) (p + 1) a bs (hi32 v)
      else None)"

function mul_carry :: "u32 list \<Rightarrow> nat \<Rightarrow> u64 \<Rightarrow> u32 list option" where
  "mul_carry out k carry =
     (if carry = 0 then Some out
      else if k < length out
      then let v = ucast (out ! k) + carry
           in mul_carry (out[k := lo32 v]) (k + 1) (hi32 v)
      else None)"
  by pat_completeness auto
termination
  by (relation "measure (\<lambda>(out, k, c). length out - k)") auto

fun mul_rows :: "u32 list \<Rightarrow> nat \<Rightarrow> u32 list \<Rightarrow> u32 list \<Rightarrow> u32 list option" where
  "mul_rows out i [] bs = Some out"
| "mul_rows out i (a # as) bs =
     (case mul_row out i a bs 0 of
        None \<Rightarrow> None
      | Some (out', carry) \<Rightarrow>
          (case mul_carry out' (i + length bs) carry of
             None \<Rightarrow> None
           | Some out'' \<Rightarrow> mul_rows out'' (i + 1) as bs))"

definition bi_mul_checked :: "bigint \<Rightarrow> bigint \<Rightarrow> bigint option" where
  "bi_mul_checked a b =
     (if bi_is_zero a \<or> bi_is_zero b then Some bi_zero
      else map_option (\<lambda>out. bi_trim \<lparr>neg = (neg a \<noteq> neg b), mag = out\<rparr>)
             (mul_rows (replicate (length (mag a) + length (mag b)) 0) 0 (mag a) (mag b)))"

definition bi_mul :: "bigint \<Rightarrow> bigint \<Rightarrow> bigint" where
  "bi_mul a b = (case bi_mul_checked a b of Some r \<Rightarrow> r | None \<Rightarrow> bi_zero)"

fun shl_loop :: "u32 list \<Rightarrow> nat \<Rightarrow> u32 \<Rightarrow> u32 list" where
  "shl_loop [] r carry = (if carry > 0 then [carry] else [])"
| "shl_loop (l # ls) r carry = (push_bit r l OR carry) # shl_loop ls r (drop_bit (32 - r) l)"

definition bi_shl_bits :: "bigint \<Rightarrow> nat \<Rightarrow> bigint" where
  "bi_shl_bits b bits =
     (if bi_is_zero b then bi_zero
      else let limbs = bits div 32; r = bits mod 32
           in bi_trim \<lparr>neg = neg b,
                mag = replicate limbs 0 @ (if r = 0 then mag b else shl_loop (mag b) r 0)\<rparr>)"

text \<open>\<open>32 - u32::leading_zeros\<close> is the bit width.\<close>

fun bit_width :: "nat \<Rightarrow> nat" where
  "bit_width n = (if n = 0 then 0 else Suc (bit_width (n div 2)))"

declare bit_width.simps [simp del] from_u64_limbs.simps [simp del]
  add_small_loop.simps [simp del] add_mag_loop.simps [simp del] mul_carry.simps [simp del]

definition leading_zeros :: "u32 \<Rightarrow> nat" where
  "leading_zeros w = 32 - bit_width (unat w)"

definition bi_bit_len :: "bigint \<Rightarrow> nat" where
  "bi_bit_len b =
     (if mag b = [] then 0
      else (length (mag b) - 1) * 32 + (32 - leading_zeros (last (mag b))))"

text \<open>The loop of \<open>divmod\<close>: \<open>s\<close> runs from \<open>shift\<close> down to 0; the first
  argument is how many iterations are left.\<close>

fun divmod_loop :: "nat \<Rightarrow> bigint \<Rightarrow> bigint \<Rightarrow> bigint \<Rightarrow> bigint \<times> bigint" where
  "divmod_loop 0 other quot rem = (quot, rem)"
| "divmod_loop (Suc s) other quot rem =
     (let d = bi_shl_bits other s
      in if cmp_mag (mag rem) (mag d) \<noteq> Less
         then divmod_loop s other (bi_add quot (bi_shl_bits (bi_from_i64 1) s))
                (bi_trim \<lparr>neg = False, mag = sub_mag (mag rem) (mag d)\<rparr>)
         else divmod_loop s other quot rem)"

definition bi_divmod :: "bigint \<Rightarrow> bigint \<Rightarrow> (bigint \<times> bigint) option" where
  "bi_divmod a b =
     (if bi_is_zero b then None
      else if cmp_mag (mag a) (mag b) = Less then Some (bi_zero, a)
      else let shift = bi_bit_len a - bi_bit_len b;
               (quot, rem) = divmod_loop (Suc shift) b bi_zero \<lparr>neg = False, mag = mag a\<rparr>
           in Some (quot\<lparr>neg := \<not> bi_is_zero quot \<and> neg a \<noteq> neg b\<rparr>,
                    rem\<lparr>neg := \<not> bi_is_zero rem \<and> neg a\<rparr>))"

definition bi_cmp :: "bigint \<Rightarrow> bigint \<Rightarrow> ordering" where
  "bi_cmp a b =
     (case (neg a, neg b) of
        (False, True) \<Rightarrow> Greater
      | (True, False) \<Rightarrow> Less
      | (False, False) \<Rightarrow> cmp_mag (mag a) (mag b)
      | (True, True) \<Rightarrow> cmp_mag (mag b) (mag a))"

fun bi_pow10 :: "nat \<Rightarrow> bigint" where
  "bi_pow10 0 = bi_from_i64 1"
| "bi_pow10 (Suc k) = bi_mul_small (bi_pow10 k) 10"

section \<open>Values of limb lists\<close>

lemma mag_val_append [simp]:
  "mag_val (xs @ ys) = mag_val xs + 2 ^ (32 * length xs) * mag_val ys"
  by (induction xs) (auto simp: algebra_simps power_add)

lemma mag_val_bound: "mag_val xs < 2 ^ (32 * length xs)"
proof (induction xs)
  case (Cons l ls)
  have "mag_val (l # ls) < 2 ^ 32 + 2 ^ 32 * mag_val ls"
    by simp
  also have "\<dots> = 2 ^ 32 * (mag_val ls + 1)"
    by (simp add: algebra_simps)
  also have "\<dots> \<le> 2 ^ 32 * 2 ^ (32 * length ls)"
    using Cons.IH by (intro mult_le_mono) auto
  also have "\<dots> = 2 ^ (32 * length (l # ls))"
    by (simp add: power_add)
  finally show ?case .
qed simp

lemma mag_val_replicate_0 [simp]: "mag_val (replicate n 0) = 0"
  by (induction n) auto

definition mag_wf :: "u32 list \<Rightarrow> bool" where
  "mag_wf xs \<longleftrightarrow> xs = [] \<or> last xs \<noteq> 0"

lemma mag_wf_Nil [simp]: "mag_wf []"
  by (simp add: mag_wf_def)

lemma mag_wf_tl: "mag_wf (x # xs) \<Longrightarrow> mag_wf xs"
  by (auto simp: mag_wf_def split: if_splits)

lemma bi_wf_mag: "bi_wf b \<Longrightarrow> mag_wf (mag b)"
  by (auto simp: bi_wf_def mag_wf_def)

lemma bi_wf_alt: "bi_wf b \<longleftrightarrow> mag_wf (mag b) \<and> (neg b \<longrightarrow> mag b \<noteq> [])"
  by (auto simp: bi_wf_def mag_wf_def)

lemma mag_val_lower:
  assumes "mag_wf xs" "xs \<noteq> []"
  shows "2 ^ (32 * (length xs - 1)) \<le> mag_val xs"
proof -
  have e: "xs = butlast xs @ [last xs]"
    using assms by simp
  have "0 < unat (last xs)"
    using assms by (auto simp: mag_wf_def unat_gt_0)
  moreover have "mag_val xs = mag_val (butlast xs) + 2 ^ (32 * (length xs - 1)) * unat (last xs)"
    by (subst e) simp
  ultimately show ?thesis
    by (metis One_nat_def Suc_leI le_add2 le_trans mult.right_neutral mult_le_mono2)
qed

lemma mag_val_eq_0_iff: "mag_wf xs \<Longrightarrow> mag_val xs = 0 \<longleftrightarrow> xs = []"
proof (cases "xs = []")
  case False
  assume "mag_wf xs"
  then have "0 < mag_val xs"
    using mag_val_lower [of xs] False less_le_trans [OF zero_less_power] by (metis zero_less_numeral)
  with False show ?thesis by simp
qed simp

lemma mag_val_less_length:
  assumes "mag_wf ys" "length xs < length ys"
  shows "mag_val xs < mag_val ys"
proof -
  have "mag_val xs < 2 ^ (32 * length xs)" by (rule mag_val_bound)
  also have "\<dots> \<le> 2 ^ (32 * (length ys - 1))"
    using assms by (intro power_increasing) auto
  also have "\<dots> \<le> mag_val ys"
    using assms by (intro mag_val_lower) auto
  finally show ?thesis .
qed

definition trim_mag :: "u32 list \<Rightarrow> u32 list" where
  "trim_mag xs = rev (dropWhile (\<lambda>l. l = 0) (rev xs))"

lemma trim_mag_snoc: "trim_mag (xs @ [x]) = (if x = 0 then trim_mag xs else xs @ [x])"
  by (simp add: trim_mag_def)

lemma mag_val_trim [simp]: "mag_val (trim_mag xs) = mag_val xs"
  by (induction xs rule: rev_induct) (simp_all add: trim_mag_snoc, simp add: trim_mag_def)

lemma mag_wf_trim [simp]: "mag_wf (trim_mag xs)"
  by (induction xs rule: rev_induct) (simp_all add: trim_mag_snoc mag_wf_def, simp add: trim_mag_def)

lemma trim_mag_id: "mag_wf xs \<Longrightarrow> trim_mag xs = xs"
  by (cases xs rule: rev_cases) (auto simp: trim_mag_snoc mag_wf_def trim_mag_def split: if_splits)

lemma bi_trim_alt:
  "bi_trim b = \<lparr>neg = (trim_mag (mag b) \<noteq> [] \<and> neg b), mag = trim_mag (mag b)\<rparr>"
  by (auto simp: bi_trim_def trim_mag_def Let_def)

lemma trim_mag_Nil_iff: "trim_mag xs = [] \<longleftrightarrow> mag_val xs = 0"
  by (metis mag_val_eq_0_iff mag_val_trim mag_wf_trim)

lemma bi_val_trim [simp]: "bi_val (bi_trim b) = bi_val b"
  by (auto simp: bi_trim_alt bi_val_def trim_mag_Nil_iff)

lemma bi_wf_trim [simp, wf_intros]: "bi_wf (bi_trim b)"
  by (simp add: bi_trim_alt bi_wf_alt)

lemma neg_bi_trim: "neg (bi_trim b) \<longleftrightarrow> neg b \<and> mag_val (mag b) \<noteq> 0"
  by (auto simp: bi_trim_alt trim_mag_Nil_iff)

lemma mag_bi_trim [simp]: "mag (bi_trim b) = trim_mag (mag b)"
  by (simp add: bi_trim_alt)

lemma bi_zero_wf [simp, wf_intros]: "bi_wf bi_zero"
  by (simp add: bi_wf_def bi_zero_def)

lemma bi_zero_val [simp, value_simps]: "bi_val bi_zero = 0"
  by (simp add: bi_val_def bi_zero_def)

lemma bi_is_zero_iff: "bi_wf b \<Longrightarrow> bi_is_zero b \<longleftrightarrow> bi_val b = 0"
  by (auto simp: bi_is_zero_def bi_val_def mag_val_eq_0_iff bi_wf_alt)

lemma abs_bi_val: "\<bar>bi_val b\<bar> = int (mag_val (mag b))"
  by (simp add: bi_val_def)

lemma neg_iff_bi_val: "bi_wf b \<Longrightarrow> neg b \<longleftrightarrow> bi_val b < 0"
  using mag_val_eq_0_iff [of "mag b"] by (auto simp: bi_val_def bi_wf_alt)

section \<open>The loops compute on values\<close>

text \<open>One limb is written, the rest of the accumulator is carried: no value is lost.\<close>

lemma limb_carry: "unat (lo32 v) + 2 ^ 32 * (n + unat (hi32 v)) = unat v + 2 ^ 32 * n"
  using lo32_hi32 [of v] by (simp only: distrib_left)

lemma hi32_less: "unat (hi32 v) < 2 ^ 32"
  using unsigned_less [of v, where ?'a = nat] by (simp add: less_mult_imp_div_less)

lemma mag_val_last_carry: "unat c < 2 ^ 32 \<Longrightarrow> mag_val (if c > 0 then [ucast (c :: u64)] else []) = unat c"
  by (auto simp: unsigned_ucast_eq take_bit_nat_eq_self_iff word_gt_0)

lemma mag_val_lo32: "mag_val ls = n + unat (hi32 v) \<Longrightarrow> mag_val (lo32 v # ls) = unat v + 2 ^ 32 * n"
  by (simp only: mag_val.simps limb_carry)

lemma mul_small_loop_val:
  "unat c < 2 ^ 32 \<Longrightarrow> mag_val (mul_small_loop ls m c) = mag_val ls * unat m + unat c"
proof (induction ls m c rule: mul_small_loop.induct)
  case (1 m carry)
  then show ?case using mag_val_last_carry by simp
next
  case (2 l ls m carry)
  define v where "v = (ucast l * ucast m + carry :: u64)"
  have v: "unat v = unat l * unat m + unat carry"
    using unat_mul_acc [OF "2.prems", of 0 l m] by (simp add: v_def)
  have "mag_val (mul_small_loop ls m (hi32 v)) = mag_val ls * unat m + unat (hi32 v)"
    by (rule "2.IH" [OF v_def hi32_less])
  then have "mag_val (mul_small_loop (l # ls) m carry) = unat v + 2 ^ 32 * (mag_val ls * unat m)"
    using mag_val_lo32 [of _ _ v] by (simp only: mul_small_loop.simps Let_def v_def [symmetric])
  then show ?case by (simp add: v algebra_simps)
qed

lemma unat_add_limb:
  assumes "unat c < 2 ^ 32"
  shows "unat (ucast (l :: u32) + c :: u64) = unat l + unat c"
  using unat_mul_acc [OF assms, of l 0 0] by simp

lemma add_small_loop_val:
  "unat c < 2 ^ 32 \<Longrightarrow> mag_val (add_small_loop ls c) = mag_val ls + unat c"
proof (induction ls c rule: add_small_loop.induct)
  case (1 out carry)
  consider "carry = 0" | "carry \<noteq> 0" "out = []" | l ls where "carry \<noteq> 0" "out = l # ls"
    by (cases out) auto
  then show ?case
  proof cases
    case 1
    then show ?thesis by (simp add: add_small_loop.simps [of out 0])
  next
    case 2
    define v where "v = (ucast (0 :: u32) + carry :: u64)"
    have "mag_val (add_small_loop [] (hi32 v)) = mag_val [] + unat (hi32 v)"
      by (rule "1.IH" (1) [OF 2 v_def hi32_less])
    then have "mag_val (lo32 v # add_small_loop [] (hi32 v)) = unat v + 2 ^ 32 * mag_val []"
      by (rule mag_val_lo32)
    then show ?thesis
      using 2 unat_add_limb [OF "1.prems", of 0]
      by (simp add: add_small_loop.simps [of "[]" carry] v_def)
  next
    case 3
    define v where "v = (ucast l + carry :: u64)"
    have "mag_val (add_small_loop ls (hi32 v)) = mag_val ls + unat (hi32 v)"
      by (rule "1.IH" (2) [OF 3 v_def hi32_less])
    then have "mag_val (lo32 v # add_small_loop ls (hi32 v)) = unat v + 2 ^ 32 * mag_val ls"
      by (rule mag_val_lo32)
    then show ?thesis
      using 3 unat_add_limb [OF "1.prems", of l]
      by (simp add: add_small_loop.simps [of "l # ls" carry] v_def Let_def)
  qed
qed

lemma from_u64_limbs_val: "mag_val (from_u64_limbs u) = unat u \<and> mag_wf (from_u64_limbs u)"
proof (induction u rule: from_u64_limbs.induct)
  case (1 u)
  show ?case
  proof (cases "u > 0")
    case True
    with 1 have IH: "mag_val (from_u64_limbs (hi32 u)) = 0 + unat (hi32 u)"
        "mag_wf (from_u64_limbs (hi32 u))" by auto
    have "mag_val (from_u64_limbs u) = unat u + 2 ^ 32 * 0"
      using True mag_val_lo32 [OF IH(1)] by (simp only: from_u64_limbs.simps [of u] if_True)
    moreover have "hi32 u = 0 \<Longrightarrow> lo32 u \<noteq> 0"
      using True lo32_hi32 [of u] by (metis add.left_neutral mult_0_right unsigned_0 word_gt_0 unat_eq_0)
    then have "mag_wf (lo32 u # from_u64_limbs (hi32 u))"
      using IH by (cases "hi32 u = 0") (auto simp: mag_wf_def from_u64_limbs.simps [of 0]
          from_u64_limbs.simps [of "hi32 u"] word_gt_0)
    ultimately show ?thesis
      using True by (simp add: from_u64_limbs.simps [of u])
  qed (simp add: from_u64_limbs.simps [of 0] word_gt_0)
qed

lemma unat_abs_i64: "unat (of_int \<bar>sint (v :: 64 word)\<bar> :: u64) = nat \<bar>sint v\<bar>"
proof -
  have "\<bar>sint v\<bar> < 2 ^ 64"
    using sint_lt [of v] sint_ge [of v] by simp
  then have "uint (of_int \<bar>sint v\<bar> :: u64) = \<bar>sint v\<bar>"
    by (simp add: uint_word_of_int)
  then show ?thesis
    by (metis nat_uint_eq)
qed

lemma bi_from_i64_val [simp, value_simps]: "bi_val (bi_from_i64 v) = sint v"
  and bi_from_i64_wf [simp, wf_intros]: "bi_wf (bi_from_i64 v)"
proof -
  define mg where "mg = from_u64_limbs (of_int \<bar>sint v\<bar>)"
  have mg: "mag_val mg = nat \<bar>sint v\<bar>" "mag_wf mg"
    using from_u64_limbs_val [of "of_int \<bar>sint v\<bar>"] unfolding mg_def unat_abs_i64 by auto
  have b: "bi_from_i64 v = \<lparr>neg = sint v < 0 \<and> mg \<noteq> [], mag = mg\<rparr>"
    by (simp only: bi_from_i64_def Let_def mg_def)
  show "bi_val (bi_from_i64 v) = sint v"
    using mg by (cases "mg = []") (auto simp: b bi_val_def)
  show "bi_wf (bi_from_i64 v)"
    using mg by (simp add: b bi_wf_alt)
qed

lemma bi_mul_small_val [simp, value_simps]:
  "bi_val (bi_mul_small b m) = bi_val b * int (unat m)"
  unfolding bi_mul_small_def bi_val_trim
  by (simp add: bi_val_def mul_small_loop_val)

lemma bi_mul_small_wf [simp, wf_intros]: "bi_wf (bi_mul_small b m)"
  by (simp add: bi_mul_small_def)

lemma bi_add_small_val:
  assumes "\<not> neg b"
  shows "bi_val (bi_add_small b a) = bi_val b + int (unat a)"
  using assms by (simp add: bi_add_small_def bi_val_def add_small_loop_val)

lemma mag_wf_lo32_Cons:
  assumes "mag_wf ls" "ls \<noteq> [] \<or> hi32 v = 0 \<and> v \<noteq> 0"
  shows "mag_wf (lo32 v # ls)"
proof (cases "ls = []")
  case True
  then have "lo32 v \<noteq> 0"
    using assms lo32_hi32 [of v] unat_eq_0 [of v] by (metis add.right_neutral mult_0_right unsigned_0)
  with True show ?thesis by (auto simp: mag_wf_def)
qed (use assms in \<open>simp add: mag_wf_def\<close>)

lemma add_small_loop_wf: "mag_wf ls \<Longrightarrow> unat c < 2 ^ 32 \<Longrightarrow> mag_wf (add_small_loop ls c)"
proof (induction ls c rule: add_small_loop.induct)
  case (1 out carry)
  have nil: "add_small_loop ls c = [] \<longleftrightarrow> c = 0 \<and> ls = []" for ls c
    by (auto simp: add_small_loop.simps [of ls c] Let_def split: list.splits)
  consider "carry = 0" | "carry \<noteq> 0" "out = []" | l ls where "carry \<noteq> 0" "out = l # ls"
    by (cases out) auto
  then show ?case
  proof cases
    case 1
    then show ?thesis using "1.prems" by (simp add: add_small_loop.simps [of out 0])
  next
    case 2
    define v where "v = (ucast (0 :: u32) + carry :: u64)"
    have "mag_wf (lo32 v # add_small_loop [] (hi32 v))"
      using "1.IH" (1) [OF 2 v_def] hi32_less [of v] 2
      by (intro mag_wf_lo32_Cons) (auto simp: nil v_def)
    then show ?thesis
      using 2 by (simp add: add_small_loop.simps [of "[]" carry] v_def)
  next
    case 3
    define v where "v = (ucast l + carry :: u64)"
    have wf: "mag_wf (add_small_loop ls (hi32 v))"
      using "1.IH" (2) [OF 3 v_def] "1.prems" 3 mag_wf_tl hi32_less [of v] by blast
    have "unat v \<noteq> 0"
      using unat_add_limb [OF "1.prems" (2), of l] 3 by (simp add: v_def unat_eq_0)
    then have "mag_wf (lo32 v # add_small_loop ls (hi32 v))"
      using wf by (intro mag_wf_lo32_Cons) (auto simp: nil)
    then show ?thesis
      using 3 by (simp add: add_small_loop.simps [of "l # ls" carry] v_def Let_def)
  qed
qed

lemma bi_add_small_wf:
  assumes "bi_wf b"
  shows "bi_wf (bi_add_small b a)"
  using assms by (simp add: bi_add_small_def bi_wf_alt add_small_loop_wf)

section \<open>Parsing digits\<close>

text \<open>The number a digit string denotes, most significant digit first.\<close>

fun digits_val :: "nat \<Rightarrow> nat \<Rightarrow> rstr \<Rightarrow> nat option" where
  "digits_val radix n [] = Some n"
| "digits_val radix n (c # cs) =
     (case to_digit c radix of None \<Rightarrow> None | Some d \<Rightarrow> digits_val radix (n * radix + d) cs)"

lemma bi_nonneg_parts: "bi_wf b \<Longrightarrow> \<not> neg b \<Longrightarrow> bi_val b = int (mag_val (mag b))"
  by (simp add: bi_val_def)

lemma neg_bi_mul_small [simp]: "\<not> neg b \<Longrightarrow> \<not> neg (bi_mul_small b m)"
  by (simp add: bi_mul_small_def neg_bi_trim)

lemma neg_bi_add_small [simp]: "\<not> neg (bi_add_small b a)"
  by (simp add: bi_add_small_def)

lemma unat_of_nat_u32: "n < 2 ^ 32 \<Longrightarrow> unat (of_nat n :: u32) = n"
  by (simp add: unat_of_nat take_bit_nat_eq_self_iff)

lemma bi_parse_loop_correct:
  assumes "radix \<le> 36" "bi_wf n" "\<not> neg n"
  shows "(case bi_parse_loop n cs radix of
            None \<Rightarrow> digits_val radix (nat (bi_val n)) cs = None
          | Some r \<Rightarrow> digits_val radix (nat (bi_val n)) cs = Some (nat (bi_val r))
                     \<and> bi_wf r \<and> \<not> neg r)"
  using assms(2,3)
proof (induction cs arbitrary: n)
  case Nil
  then show ?case by simp
next
  case (Cons c cs)
  show ?case
  proof (cases "to_digit c radix")
    case (Some d)
    then have d: "d < radix" by (rule to_digit_less)
    define n' where "n' = bi_add_small (bi_mul_small n (of_nat radix)) (of_nat d)"
    have n': "bi_wf n'" "\<not> neg n'" "nat (bi_val n') = nat (bi_val n) * radix + d"
      using Cons.prems d assms(1) bi_nonneg_parts [of n]
      by (simp_all add: n'_def bi_add_small_wf bi_add_small_val unat_of_nat_u32 nat_add_distrib nat_mult_distrib)
    show ?thesis using Cons.IH [OF n'(1,2)] Some
      by (simp add: n' n'_def [symmetric] split: option.splits)
  qed simp
qed

lemma bi_parse_val:
  assumes "radix \<le> 36"
  shows "map_option bi_val (bi_parse body radix) = map_option int (digits_val radix 0 body)"
    and "bi_parse body radix = Some r \<Longrightarrow> bi_wf r \<and> \<not> neg r"
  using bi_parse_loop_correct [OF assms, of bi_zero body] bi_val_def
  by (auto simp: bi_parse_def bi_zero_def bi_wf_def bi_val_def split: option.splits)

section \<open>Division by a small divisor\<close>

lemma unat_cur:
  assumes "unat r < 2 ^ 32"
  shows "unat (push_bit 32 r OR ucast (l :: u32) :: u64) = unat r * 2 ^ 32 + unat l"
proof -
  have "push_bit 32 r AND (ucast l :: u64) = 0"
    by (rule bit_word_eqI) (auto simp: bit_simps dest: bit_imp_le_length)
  then have "push_bit 32 r OR (ucast l :: u64) = push_bit 32 r + ucast l"
    by (simp add: disjunctive_add_eq_or)
  moreover have "unat (push_bit 32 r) = unat r * 2 ^ 32"
    using assms by (subst unsigned_push_bit_eq) (simp add: take_bit_nat_eq_self_iff push_bit_eq_mult)
  moreover have "unat r < 4294967296"
    using assms by simp
  then have "unat r * 4294967296 + unat l < 18446744073709551616"
    using unat_u32_less [of l] by linarith
  ultimately show ?thesis
    by (simp add: unat_word_ariths)
qed

lemma divmod_small_loop_val:
  assumes "0 < unat d" "divmod_small_loop ls d = (out, rem)"
  shows "mag_val ls = mag_val out * unat d + unat rem \<and> unat rem < unat d \<and> length out = length ls"
  using assms(2)
proof (induction ls arbitrary: out rem)
  case Nil
  then show ?case using assms by simp
next
  case (Cons l ls)
  obtain out' r where r: "divmod_small_loop ls d = (out', r)"
    by (cases "divmod_small_loop ls d")
  note IH = Cons.IH [OF r]
  define cur where "cur = (push_bit 32 r OR ucast l :: u64)"
  have r32: "unat r < 2 ^ 32"
    using IH by (auto intro: less_trans)
  then have cur: "unat cur = unat r * 2 ^ 32 + unat l"
    unfolding cur_def by (rule unat_cur)
  have "unat cur < unat d * 2 ^ 32"
  proof -
    have "unat cur < (unat r + 1) * 2 ^ 32" using cur unat_u32_less [of l] by simp
    also have "\<dots> \<le> unat d * 2 ^ 32" using IH by (intro mult_le_mono) auto
    finally show ?thesis .
  qed
  then have "unat cur div unat d < 2 ^ 32"
    by (simp add: less_mult_imp_div_less mult.commute)
  then have q: "unat (ucast (cur div ucast d) :: u32) = unat cur div unat d"
    by (simp add: unsigned_ucast_eq unat_div take_bit_nat_eq_self_iff)
  have m: "unat (cur mod ucast d) = unat cur mod unat d"
    by (simp add: unat_mod)
  have o: "out = ucast (cur div ucast d) # out'" "rem = cur mod ucast d"
    using Cons.prems r by (auto simp: cur_def Let_def)
  have "mag_val (l # ls) = unat cur + 2 ^ 32 * (mag_val out' * unat d)"
    using IH cur by (simp add: algebra_simps)
  also have "unat cur = unat cur div unat d * unat d + unat cur mod unat d"
    by simp
  finally have "mag_val (l # ls) = mag_val out * unat d + unat rem"
    by (simp only: o mag_val.simps q m) (simp add: algebra_simps)
  then show ?case using IH assms by (simp add: o m)
qed

lemma bi_divmod_small_correct:
  assumes "0 < unat d" "bi_divmod_small b d = (q, r)"
  shows "mag_val (mag b) = mag_val (mag q) * unat d + unat r \<and> unat r < unat d
    \<and> bi_wf q \<and> (neg q \<longleftrightarrow> neg b \<and> mag_val (mag q) \<noteq> 0)"
proof -
  obtain out rem where loop: "divmod_small_loop (mag b) d = (out, rem)"
    by (cases "divmod_small_loop (mag b) d")
  note v = divmod_small_loop_val [OF assms(1) loop]
  then have "unat rem < 2 ^ 32"
    by (auto intro: less_trans)
  then have "unat (ucast rem :: u32) = unat rem"
    by (simp add: unsigned_ucast_eq take_bit_nat_eq_self_iff)
  then show ?thesis
    using v assms(2) by (auto simp: bi_divmod_small_def loop neg_bi_trim)
qed

section \<open>Comparison of magnitudes\<close>

lemma cmp_of_unat: "cmp_of (x :: 'a::len word) y = cmp_of (unat x) (unat y)"
  by (simp add: cmp_of_def word_less_nat_alt word_unat_eq_iff)

lemma cmp_of_digits:
  assumes "a < B" "b < (B :: nat)"
  shows "cmp_of (a + B * x) (b + B * y) = (if x = y then cmp_of a b else cmp_of x y)"
proof (cases x y rule: linorder_cases)
  case less
  then have "B * (x + 1) \<le> B * y" by (intro mult_le_mono2) simp
  then have "a + B * x < b + B * y" using assms(1) by simp
  with less show ?thesis by (simp add: cmp_of_def)
next
  case greater
  then have "B * (y + 1) \<le> B * x" by (intro mult_le_mono2) simp
  then have "b + B * y < a + B * x" using assms(2) by simp
  with greater show ?thesis by (simp add: cmp_of_def)
qed (simp add: cmp_of_def)

lemma cmp_top_rev:
  assumes "length a = length b"
  shows "cmp_top (rev a) (rev b) = cmp_of (mag_val a) (mag_val b)"
  using assms
proof (induction a arbitrary: b rule: rev_induct)
  case (snoc x xs)
  then obtain y ys where b: "b = ys @ [y]" "length xs = length ys"
    by (cases b rule: rev_cases) auto
  define B where "B = (2 :: nat) ^ (32 * length ys)"
  have "mag_val xs < B" "mag_val ys < B"
    using mag_val_bound [of xs] mag_val_bound [of ys] b(2) by (auto simp: B_def)
  then have "cmp_of (mag_val (xs @ [x])) (mag_val b)
      = (if unat x = unat y then cmp_of (mag_val xs) (mag_val ys) else cmp_of x y)"
    by (simp add: b B_def [symmetric] cmp_of_digits cmp_of_unat)
  then show ?case
    using snoc.IH [OF b(2)] by (simp add: b word_unat_eq_iff)
qed simp

lemma cmp_mag_val:
  assumes "mag_wf a" "mag_wf b"
  shows "cmp_mag a b = cmp_of (mag_val a) (mag_val b)"
proof -
  consider "length a < length b" | "length b < length a" | "length a = length b"
    by linarith
  then show ?thesis
  proof cases
    case 1
    then show ?thesis using mag_val_less_length [OF assms(2), of a] by (simp add: cmp_mag_def cmp_of_def)
  next
    case 2
    then show ?thesis using mag_val_less_length [OF assms(1), of b] by (simp add: cmp_mag_def cmp_of_def)
  qed (simp add: cmp_mag_def cmp_top_rev)
qed

section \<open>Addition and subtraction\<close>

lemma mag_val_limb_tl: "mag_val xs = unat (limb xs) + 2 ^ 32 * mag_val (tl xs)"
  by (cases xs) (auto simp: limb_def)

lemma add_mag_loop_val:
  "unat c < 2 ^ 32 \<Longrightarrow> mag_val (add_mag_loop a b c) = mag_val a + mag_val b + unat c"
proof (induction a b c rule: add_mag_loop.induct)
  case (1 a b carry)
  show ?case
  proof (cases "a = [] \<and> b = []")
    case True
    then show ?thesis
      using mag_val_last_carry [OF "1.prems"] by (simp add: add_mag_loop.simps [of "[]" "[]"])
  next
    case False
    define v where "v = (ucast (limb a) + ucast (limb b) + carry :: u64)"
    have "unat v = unat (limb a) + unat (limb b) + unat carry"
      using unat_mul_acc [OF "1.prems", of "limb a" "limb b" 1] by (simp add: v_def)
    moreover have "mag_val (add_mag_loop (tl a) (tl b) (hi32 v)) = mag_val (tl a) + mag_val (tl b) + unat (hi32 v)"
      by (rule "1.IH" [OF False v_def hi32_less])
    then have "mag_val (add_mag_loop a b carry) = unat v + 2 ^ 32 * (mag_val (tl a) + mag_val (tl b))"
      using False mag_val_lo32 [of _ _ v]
      by (simp only: add_mag_loop.simps [of a b carry] if_False Let_def v_def [symmetric])
    ultimately show ?thesis
      using mag_val_limb_tl [of a] mag_val_limb_tl [of b] by (simp add: algebra_simps)
  qed
qed

lemma add_mag_val [simp]: "mag_val (add_mag a b) = mag_val a + mag_val b"
  by (simp add: add_mag_def add_mag_loop_val)
lemma uint_u32: "0 \<le> uint (x :: u32) \<and> uint x < 4294967296"
  using unsigned_less [of x, where ?'a = int] by simp

lemma of_int_u32_val: "0 \<le> v \<Longrightarrow> v < 2 ^ 32 \<Longrightarrow> int (unat (of_int v :: u32)) = v"
  by (simp add: uint_word_of_int)

lemma mag_val_of_int_Cons:
  "0 \<le> v \<Longrightarrow> v < 2 ^ 32 \<Longrightarrow> int (mag_val (of_int v # ls)) = v + 2 ^ 32 * int (mag_val ls)"
  by (simp only: mag_val.simps of_nat_add of_nat_mult of_int_u32_val) simp

lemma sub_mag_loop_val:
  "w \<in> {0, 1} \<Longrightarrow> int (mag_val (sub_mag_loop a b w))
     = (int (mag_val a) - int (mag_val b) - w) mod 2 ^ (32 * length a)"
proof (induction a b w rule: sub_mag_loop.induct)
  case (2 ai as b borrow)
  define v where "v = int (unat ai) - int (unat (limb b)) - borrow"
  define D where "D = int (mag_val as) - int (mag_val (tl b))"
  have "borrow = 0 \<or> borrow = 1" "v = uint ai - uint (limb b) - borrow"
    using "2.prems" by (auto simp: v_def)
  then have "- 4294967296 \<le> v \<and> v < 4294967296"
    using uint_u32 [of ai] uint_u32 [of "limb b"] by linarith
  then have vb: "- (2 ^ 32) \<le> v" "v < 2 ^ 32"
    by simp_all
  have step: "sub_mag_loop (ai # as) b borrow
    = (if v < 0 then of_int (v + 2 ^ 32) # sub_mag_loop as (tl b) 1 else of_int v # sub_mag_loop as (tl b) 0)"
    by (simp only: sub_mag_loop.simps Let_def v_def)
  have r: "int (mag_val (sub_mag_loop (ai # as) b borrow))
    = v mod 2 ^ 32 + 2 ^ 32 * ((D + v div 2 ^ 32) mod 2 ^ (32 * length as))"
  proof (cases "v < 0")
    case True
    have d: "v div 2 ^ 32 = - 1"
      by (rule int_div_pos_eq [of _ _ _ "v + 2 ^ 32"]) (use True vb in auto)
    then have m: "v mod 2 ^ 32 = v + 2 ^ 32"
      by (simp add: minus_div_mult_eq_mod [symmetric])
    have "int (mag_val (sub_mag_loop (ai # as) b borrow))
        = v + 2 ^ 32 + 2 ^ 32 * int (mag_val (sub_mag_loop as (tl b) 1))"
      unfolding step using True vb by (simp only: if_True) (rule mag_val_of_int_Cons, auto)
    then show ?thesis
      using "2.IH" (1) [OF v_def True] d m by (simp add: D_def del: sub_mag_loop.simps)
  next
    case False
    then have d: "v div 2 ^ 32 = 0" "v mod 2 ^ 32 = v"
      using vb by auto
    have "int (mag_val (sub_mag_loop (ai # as) b borrow))
        = v + 2 ^ 32 * int (mag_val (sub_mag_loop as (tl b) 0))"
      unfolding step using False vb by (simp only: if_False) (rule mag_val_of_int_Cons, auto)
    then show ?thesis
      using "2.IH" (2) [OF v_def False] d by (simp add: D_def del: sub_mag_loop.simps)
  qed
  have "(v + 2 ^ 32 * D) mod (2 ^ 32 * 2 ^ (32 * length as))
     = 2 ^ 32 * ((v + 2 ^ 32 * D) div 2 ^ 32 mod 2 ^ (32 * length as)) + (v + 2 ^ 32 * D) mod 2 ^ 32"
    by (rule zmod_zmult2_eq) simp
  also have "(v + 2 ^ 32 * D) div 2 ^ 32 = D + v div 2 ^ 32"
    by simp
  also have "(v + 2 ^ 32 * D) mod 2 ^ 32 = v mod 2 ^ 32"
    by simp
  finally have "int (mag_val (sub_mag_loop (ai # as) b borrow))
     = (v + 2 ^ 32 * D) mod 2 ^ (32 * length (ai # as))"
    by (simp only: r) (simp add: power_add)
  moreover have "v + 2 ^ 32 * D = int (mag_val (ai # as)) - int (mag_val b) - borrow"
    using mag_val_limb_tl [of b] by (simp add: v_def D_def algebra_simps)
  ultimately show ?case by (simp only:)
qed simp

lemma sub_mag_val:
  assumes "mag_val b \<le> mag_val a"
  shows "mag_val (sub_mag a b) = mag_val a - mag_val b"
proof -
  have "int (mag_val a) - int (mag_val b) < 2 ^ (32 * length a)"
    using mag_val_bound [of a] by (metis diff_ge_0_iff_ge le_less_trans diff_le_self assms of_nat_diff of_nat_less_numeral_power_cancel_iff)
  then have "int (mag_val (sub_mag a b)) = int (mag_val a) - int (mag_val b)"
    unfolding sub_mag_def using assms by (simp add: sub_mag_loop_val)
  then show ?thesis using assms by linarith
qed

lemma bi_add_wf [simp, wf_intros]: "bi_wf (bi_add a b)"
  by (simp add: bi_add_def split: ordering.splits)

lemma bi_val_make: "bi_val \<lparr>neg = n, mag = m\<rparr> = (if n then - int (mag_val m) else int (mag_val m))"
  by (simp add: bi_val_def)

lemma bi_add_val [value_simps]:
  assumes "bi_wf a" "bi_wf b"
  shows "bi_val (bi_add a b) = bi_val a + bi_val b"
proof -
  have "cmp_mag (mag a) (mag b) = cmp_of (mag_val (mag a)) (mag_val (mag b))"
    using assms by (intro cmp_mag_val bi_wf_mag)
  then have "bi_val (bi_add a b)
      = (if neg a then - int (mag_val (mag a)) else int (mag_val (mag a)))
      + (if neg b then - int (mag_val (mag b)) else int (mag_val (mag b)))"
    by (cases "cmp_of (mag_val (mag a)) (mag_val (mag b))") (auto simp: bi_add_def bi_val_make sub_mag_val of_nat_diff)
  then show ?thesis by (simp only: bi_val_def)
qed

lemma bi_negate_val [simp, value_simps]: "bi_val (bi_negate a) = - bi_val a"
  by (auto simp: bi_negate_def bi_val_def bi_is_zero_def)

lemma bi_negate_wf [wf_intros]: "bi_wf a \<Longrightarrow> bi_wf (bi_negate a)"
  by (auto simp: bi_negate_def bi_wf_def bi_is_zero_def)

lemma bi_sub_wf [simp, wf_intros]: "bi_wf (bi_sub a b)"
  by (simp add: bi_sub_def)

lemma bi_sub_val [value_simps]:
  assumes "bi_wf a" "bi_wf b"
  shows "bi_val (bi_sub a b) = bi_val a - bi_val b"
  using assms by (simp add: bi_sub_def bi_add_val bi_negate_wf)

section \<open>Multiplication\<close>

lemma mag_val_update:
  "p < length out \<Longrightarrow>
     mag_val (out[p := x]) + 2 ^ (32 * p) * unat (out ! p) = mag_val out + 2 ^ (32 * p) * unat x"
proof (induction out arbitrary: p)
  case (Cons l ls)
  then show ?case
  proof (cases p)
    case (Suc q)
    then have "mag_val (ls[q := x]) + 2 ^ (32 * q) * unat (ls ! q) = mag_val ls + 2 ^ (32 * q) * unat x"
      using Cons by simp
    then have "2 ^ 32 * mag_val (ls[q := x]) + 2 ^ 32 * (2 ^ (32 * q) * unat (ls ! q))
        = 2 ^ 32 * mag_val ls + 2 ^ 32 * (2 ^ (32 * q) * unat x)"
      by (simp only: distrib_left [symmetric])
    then show ?thesis by (simp add: Suc power_add mult.assoc)
  qed simp
qed simp

text \<open>Storing the low half of an accumulator built on \<open>out ! p\<close> moves the rest of its
  value, \<open>n\<close>, into the carry for the next position.\<close>

lemma mag_val_store:
  assumes "p < length out" "unat v = unat (out ! p) + n"
  shows "mag_val (out[p := lo32 v]) + 2 ^ (32 * (p + 1)) * unat (hi32 v) = mag_val out + 2 ^ (32 * p) * n"
proof -
  have "2 ^ (32 * p) * unat (out ! p) + 2 ^ (32 * p) * n = 2 ^ (32 * p) * unat v"
    by (simp only: assms(2) distrib_left)
  also have "\<dots> = 2 ^ (32 * p) * (unat (lo32 v) + 2 ^ 32 * unat (hi32 v))"
    by (simp only: lo32_hi32)
  also have "\<dots> = 2 ^ (32 * p) * unat (lo32 v) + 2 ^ (32 * (p + 1)) * unat (hi32 v)"
    by (simp only: distrib_left power_add mult.assoc [symmetric] mult_1_right)
  finally show ?thesis
    using mag_val_update [OF assms(1), of "lo32 v"] by linarith
qed

lemma mul_row_val:
  "unat c < 2 ^ 32 \<Longrightarrow> p + length bs \<le> length out \<Longrightarrow>
     \<exists>out' c'. mul_row out p a bs c = Some (out', c') \<and> length out' = length out \<and> unat c' < 2 ^ 32
       \<and> mag_val out' + 2 ^ (32 * (p + length bs)) * unat c'
         = mag_val out + 2 ^ (32 * p) * (unat a * mag_val bs + unat c)"
proof (induction out p a bs c rule: mul_row.induct)
  case (2 out p a b bs carry)
  define v where "v = (ucast (out ! p) + ucast a * ucast b + carry :: u64)"
  have p: "p < length out" using "2.prems" by simp
  have v: "unat v = unat (out ! p) + (unat a * unat b + unat carry)"
    using unat_mul_acc [OF "2.prems" (1), of "out ! p" a b] by (simp add: v_def)
  obtain out' c' where IH: "mul_row (out[p := lo32 v]) (p + 1) a bs (hi32 v) = Some (out', c')"
      "length out' = length out" "unat c' < 2 ^ 32"
      "mag_val out' + 2 ^ (32 * (p + 1 + length bs)) * unat c'
         = mag_val (out[p := lo32 v]) + 2 ^ (32 * (p + 1)) * (unat a * mag_val bs + unat (hi32 v))"
    using "2.IH" [OF p v_def hi32_less] "2.prems" by auto
  note IH(4)
  also have "mag_val (out[p := lo32 v]) + 2 ^ (32 * (p + 1)) * (unat a * mag_val bs + unat (hi32 v))
      = mag_val out + 2 ^ (32 * p) * (unat a * unat b + unat carry) + 2 ^ (32 * (p + 1)) * (unat a * mag_val bs)"
    using mag_val_store [OF p v] by (simp only: distrib_left [of _ "unat a * mag_val bs"])
  also have "\<dots> = mag_val out + 2 ^ (32 * p) * (unat a * mag_val (b # bs) + unat carry)"
    by (simp add: power_add algebra_simps)
  finally have "mag_val out' + 2 ^ (32 * (p + length (b # bs))) * unat c'
      = mag_val out + 2 ^ (32 * p) * (unat a * mag_val (b # bs) + unat carry)"
    by simp
  then show ?case
    using IH p by (simp add: v_def [symmetric] Let_def)
qed simp

lemma mul_carry_val:
  "unat c < 2 ^ 32 \<Longrightarrow> mag_val out + 2 ^ (32 * k) * unat c < 2 ^ (32 * length out) \<Longrightarrow>
     \<exists>out'. mul_carry out k c = Some out' \<and> length out' = length out
       \<and> mag_val out' = mag_val out + 2 ^ (32 * k) * unat c"
proof (induction out k c rule: mul_carry.induct)
  case (1 out k carry)
  show ?case
  proof (cases "carry = 0")
    case False
    have k: "k < length out"
    proof (rule ccontr)
      assume "\<not> k < length out"
      then have "(2 :: nat) ^ (32 * length out) \<le> 2 ^ (32 * k) * 1"
        by simp
      also have "\<dots> \<le> 2 ^ (32 * k) * unat carry"
        using False by (intro mult_le_mono2) (simp add: Suc_le_eq unat_gt_0)
      finally show False using "1.prems" by simp
    qed
    define v where "v = (ucast (out ! k) + carry :: u64)"
    have st: "mag_val (out[k := lo32 v]) + 2 ^ (32 * (k + 1)) * unat (hi32 v)
        = mag_val out + 2 ^ (32 * k) * unat carry"
      by (rule mag_val_store [OF k]) (use unat_add_limb [OF "1.prems" (1)] in \<open>simp add: v_def\<close>)
    have "\<exists>out'. mul_carry (out[k := lo32 v]) (k + 1) (hi32 v) = Some out' \<and> length out' = length out
       \<and> mag_val out' = mag_val out + 2 ^ (32 * k) * unat carry"
      using "1.IH" [OF False k v_def hi32_less] "1.prems" (2) by (simp only: st length_list_update)
    then show ?thesis
      using False k by (simp add: mul_carry.simps [of out k carry] v_def Let_def)
  qed (simp add: mul_carry.simps [of out k 0])
qed

lemma mul_rows_val:
  "i + length as + length bs \<le> length out \<Longrightarrow>
   mag_val out + 2 ^ (32 * i) * (mag_val as * mag_val bs) < 2 ^ (32 * length out) \<Longrightarrow>
     \<exists>out'. mul_rows out i as bs = Some out' \<and> length out' = length out
       \<and> mag_val out' = mag_val out + 2 ^ (32 * i) * (mag_val as * mag_val bs)"
proof (induction as arbitrary: out i)
  case (Cons a as)
  have total: "2 ^ (32 * i) * (mag_val (a # as) * mag_val bs)
      = 2 ^ (32 * i) * (unat a * mag_val bs) + 2 ^ (32 * (i + 1)) * (mag_val as * mag_val bs)"
    by (simp add: power_add algebra_simps)
  have "unat (0 :: u64) < 2 ^ 32" "i + length bs \<le> length out"
    using Cons.prems by auto
  from mul_row_val [OF this, of a] obtain out1 c1 where
      r: "mul_row out i a bs 0 = Some (out1, c1)" "length out1 = length out" "unat c1 < 2 ^ 32"
        "mag_val out1 + 2 ^ (32 * (i + length bs)) * unat c1 = mag_val out + 2 ^ (32 * i) * (unat a * mag_val bs)"
    by auto
  have "mag_val out1 + 2 ^ (32 * (i + length bs)) * unat c1 < 2 ^ (32 * length out1)"
    using Cons.prems (2) unfolding r (4) r (2) total by linarith
  from mul_carry_val [OF r(3) this] obtain out2 where
      c: "mul_carry out1 (i + length bs) c1 = Some out2" "length out2 = length out"
        "mag_val out2 = mag_val out + 2 ^ (32 * i) * (unat a * mag_val bs)"
    using r by auto
  have "\<exists>out'. mul_rows out2 (i + 1) as bs = Some out' \<and> length out' = length out2
       \<and> mag_val out' = mag_val out2 + 2 ^ (32 * (i + 1)) * (mag_val as * mag_val bs)"
    using Cons.prems by (intro Cons.IH) (simp_all only: c total, simp_all)
  then show ?case
    using r c by (auto simp only: mul_rows.simps option.case prod.case total add.assoc)
qed simp

lemma mul_rows_Some:
  obtains out where
    "mul_rows (replicate (length as + length bs) 0) 0 as bs = Some out"
    "mag_val out = mag_val as * mag_val bs"
proof -
  have "mag_val as * mag_val bs < 2 ^ (32 * length as) * 2 ^ (32 * length bs)"
    by (intro mult_strict_mono' mag_val_bound) auto
  then have "mag_val (replicate (length as + length bs) 0) + 2 ^ (32 * 0) * (mag_val as * mag_val bs)
      < 2 ^ (32 * length (replicate (length as + length bs) (0 :: u32)))"
    by (simp add: power_add algebra_simps)
  from mul_rows_val [OF _ this] show ?thesis
    using that by auto
qed

lemma bi_mul_checked_Some:
  obtains r where "bi_mul_checked a b = Some r" "bi_wf r"
    "bi_wf a \<Longrightarrow> bi_wf b \<Longrightarrow> bi_val r = bi_val a * bi_val b"
proof (cases "bi_is_zero a \<or> bi_is_zero b")
  case True
  then show ?thesis
    by (intro that [of bi_zero]) (auto simp: bi_mul_checked_def bi_is_zero_iff)
next
  case False
  obtain out where "mul_rows (replicate (length (mag a) + length (mag b)) 0) 0 (mag a) (mag b) = Some out"
      "mag_val out = mag_val (mag a) * mag_val (mag b)"
    by (rule mul_rows_Some)
  then show ?thesis
    using False
    by (intro that [of "bi_trim \<lparr>neg = (neg a \<noteq> neg b), mag = out\<rparr>"])
      (auto simp: bi_mul_checked_def bi_val_def neg_bi_trim)
qed

lemma bi_mul_wf [simp, wf_intros]: "bi_wf (bi_mul a b)"
  by (rule bi_mul_checked_Some [of a b]) (simp add: bi_mul_def)

lemma bi_mul_val [value_simps]:
  assumes "bi_wf a" "bi_wf b"
  shows "bi_val (bi_mul a b) = bi_val a * bi_val b"
  using assms by (metis bi_mul_def bi_mul_checked_Some option.simps(5))

section \<open>Shifts and bit length\<close>

lemma unat_shl_limb:
  assumes "0 < r" "r < 32" "unat c < 2 ^ r"
  shows "unat (push_bit r (l :: u32) OR c) + 2 ^ 32 * (unat l div 2 ^ (32 - r)) = unat l * 2 ^ r + unat c"
proof -
  have "push_bit r l AND c = 0"
  proof (rule bit_word_eqI)
    fix n assume "n < LENGTH(32)"
    have "\<not> bit c n" if "r \<le> n"
    proof -
      have "unat c < 2 ^ n" using assms(3) by (rule less_le_trans) (use that in simp)
      then have "\<not> bit (unat c) n" by (simp add: bit_iff_odd)
      then show ?thesis by (auto simp: bit_simps dest: bit_imp_le_length)
    qed
    then show "bit (push_bit r l AND c) n = bit 0 n"
      by (auto simp: bit_simps)
  qed
  then have "push_bit r l OR c = push_bit r l + c"
    by (simp add: disjunctive_add_eq_or)
  moreover have s: "unat (push_bit r l) = unat l * 2 ^ r mod 2 ^ 32"
    by (subst unsigned_push_bit_eq) (simp add: take_bit_eq_mod push_bit_eq_mult)
  moreover have e: "unat l * 2 ^ r div 2 ^ 32 = unat l div 2 ^ (32 - r)"
  proof -
    have "(2 :: nat) ^ 32 = 2 ^ (32 - r) * 2 ^ r"
      using assms by (simp add: power_add [symmetric])
    then show ?thesis by (metis div_mult_mult2 power_not_zero zero_neq_numeral)
  qed
  moreover have "unat l * 2 ^ r mod 2 ^ 32 + unat c < 2 ^ 32"
  proof -
    have "(2 :: nat) ^ 32 = 2 ^ r * 2 ^ (32 - r)"
      using assms by (simp add: power_add [symmetric])
    then have m: "unat l * 2 ^ r mod 2 ^ 32 = 2 ^ r * (unat l mod 2 ^ (32 - r))"
      by (simp only: mult.commute [of "unat l"] mult_mod_right)
    have "2 ^ r * (unat l mod 2 ^ (32 - r)) + 2 ^ r \<le> 2 ^ r * (2 ^ (32 - r) :: nat)"
      by (simp only: mult_Suc_right [symmetric] add.commute) (intro mult_le_mono2, simp add: Suc_le_eq)
    then show ?thesis
      unfolding m using assms \<open>(2 :: nat) ^ 32 = 2 ^ r * 2 ^ (32 - r)\<close> by linarith
  qed
  ultimately have "unat (push_bit r l OR c) = unat l * 2 ^ r mod 2 ^ 32 + unat c"
    by (simp add: unat_word_ariths)
  then show ?thesis
    using div_mult_mod_eq [of "unat l * 2 ^ r" "2 ^ 32"] by (simp only: e [symmetric]) simp
qed

lemma shl_loop_val:
  assumes "0 < r" "r < 32"
  shows "unat c < 2 ^ r \<Longrightarrow> mag_val (shl_loop ls r c) = mag_val ls * 2 ^ r + unat c"
proof (induction ls arbitrary: c)
  case (Cons l ls)
  have "(2 :: nat) ^ 32 = 2 ^ r * 2 ^ (32 - r)"
    using assms by (simp only: power_add [symmetric]) simp
  then have "unat l < 2 ^ r * 2 ^ (32 - r)"
    using unsigned_less [of l, where ?'a = nat] by (simp only: len_num1 len_bit0) simp
  then have c: "unat (drop_bit (32 - r) l) = unat l div 2 ^ (32 - r)"
      "unat l div 2 ^ (32 - r) < 2 ^ r"
    by (auto simp: unat_drop_bit_eq drop_bit_eq_div [where ?'a = nat] less_mult_imp_div_less)
  have "mag_val (shl_loop (l # ls) r c)
      = unat (push_bit r l OR c) + 2 ^ 32 * (unat l div 2 ^ (32 - r)) + 2 ^ 32 * (mag_val ls * 2 ^ r)"
    using Cons.IH [of "drop_bit (32 - r) l"] c
    by (simp only: shl_loop.simps mag_val.simps) (simp only: distrib_left add.commute add.assoc)
  then show ?case
    by (simp only: unat_shl_limb [OF assms Cons.prems]) (simp add: algebra_simps)
qed (simp add: word_gt_0)

lemma bi_shl_bits_wf [simp, wf_intros]: "bi_wf (bi_shl_bits b n)"
  by (simp add: bi_shl_bits_def Let_def)

lemma bi_shl_bits_val [simp, value_simps]: "bi_val (bi_shl_bits b n) = bi_val b * 2 ^ n"
proof -
  define m where "m = (if n mod 32 = 0 then mag b else shl_loop (mag b) (n mod 32) 0)"
  have m: "mag_val m = mag_val (mag b) * 2 ^ (n mod 32)"
    by (simp add: m_def shl_loop_val)
  have "mag_val (replicate (n div 32) 0 @ m) = mag_val (mag b) * (2 ^ (32 * (n div 32)) * 2 ^ (n mod 32))"
    by (simp add: m)
  then have "mag_val (replicate (n div 32) 0 @ m) = mag_val (mag b) * 2 ^ n"
    by (simp add: power_add [symmetric])
  then show ?thesis
    by (auto simp: bi_shl_bits_def Let_def m_def [symmetric] bi_val_def bi_is_zero_def bi_zero_def neg_bi_trim)
qed

lemma bit_width_bounds:
  "n < 2 ^ bit_width n \<and> (0 < n \<longrightarrow> 2 ^ (bit_width n - 1) \<le> n \<and> 0 < bit_width n)"
proof (induction n rule: bit_width.induct)
  case (1 n)
  show ?case
  proof (cases "n = 0")
    case False
    then have IH: "n div 2 < 2 ^ bit_width (n div 2)"
        "0 < n div 2 \<Longrightarrow> 2 ^ (bit_width (n div 2) - 1) \<le> n div 2 \<and> 0 < bit_width (n div 2)"
      using 1 by auto
    have w: "bit_width n = Suc (bit_width (n div 2))"
      using False by (simp add: bit_width.simps [of n])
    have "n < 2 * 2 ^ bit_width (n div 2)"
      using IH(1) by linarith
    moreover have "2 ^ bit_width (n div 2) \<le> n"
    proof (cases "0 < n div 2")
      case True
      then obtain k where "bit_width (n div 2) = Suc k" "2 ^ k \<le> n div 2"
        using IH(2) by (cases "bit_width (n div 2)") auto
      then show ?thesis by simp
    next
      case F: False
      then show ?thesis using False by (simp add: bit_width.simps [of 0])
    qed
    ultimately show ?thesis by (simp add: w)
  qed (simp add: bit_width.simps [of 0])
qed

lemma bi_bit_len_bounds:
  assumes "bi_wf b" "mag b \<noteq> []"
  shows "mag_val (mag b) < 2 ^ bi_bit_len b" "2 ^ (bi_bit_len b - 1) \<le> mag_val (mag b)" "0 < bi_bit_len b"
proof -
  define top w k where "top = last (mag b)" and "w = bit_width (unat top)" and "k = length (mag b) - 1"
  have e: "mag b = butlast (mag b) @ [top]" "length (butlast (mag b)) = k"
    using assms by (auto simp: top_def k_def)
  have top: "0 < unat top" "unat top < 2 ^ 32"
    using assms unsigned_less [of top, where ?'a = nat] by (auto simp: bi_wf_def top_def unat_gt_0)
  then have w: "unat top < 2 ^ w" "2 ^ (w - 1) \<le> unat top" "0 < w"
    using bit_width_bounds [of "unat top"] by (auto simp: w_def)
  have "w - 1 < 32"
    using le_less_trans [OF w(2) top(2)] by (rule power_less_imp_less_exp [rotated]) simp
  then have len: "bi_bit_len b = 32 * k + w"
    using assms by (simp add: bi_bit_len_def leading_zeros_def top_def [symmetric] w_def [symmetric] k_def)
  have v: "mag_val (mag b) = mag_val (butlast (mag b)) + 2 ^ (32 * k) * unat top"
    by (subst e(1)) (simp only: mag_val_append mag_val.simps e(2), simp)
  have lo: "mag_val (butlast (mag b)) < 2 ^ (32 * k)"
    using mag_val_bound [of "butlast (mag b)"] e(2) by simp
  have "mag_val (mag b) < 2 ^ (32 * k) * (unat top + 1)"
    using v lo by simp
  also have "\<dots> \<le> 2 ^ (32 * k) * 2 ^ w"
    using w(1) by (intro mult_le_mono2) simp
  finally show "mag_val (mag b) < 2 ^ bi_bit_len b"
    by (simp add: len power_add)
  have "bi_bit_len b - 1 = 32 * k + (w - 1)"
    using w(3) by (simp add: len)
  then have "(2 :: nat) ^ (bi_bit_len b - 1) = 2 ^ (32 * k) * 2 ^ (w - 1)"
    by (simp add: power_add)
  also have "\<dots> \<le> 2 ^ (32 * k) * unat top"
    using w(2) by (intro mult_le_mono2)
  also have "\<dots> \<le> mag_val (mag b)"
    by (simp add: v)
  finally show "2 ^ (bi_bit_len b - 1) \<le> mag_val (mag b)" .
  show "0 < bi_bit_len b" using w(3) by (simp add: len)
qed

section \<open>Division\<close>

text \<open>A non-negative number in canonical form; the running values of \<open>divmod\<close>.\<close>

definition bi_nat :: "bigint \<Rightarrow> nat \<Rightarrow> bool" where
  "bi_nat b n \<longleftrightarrow> bi_wf b \<and> \<not> neg b \<and> mag_val (mag b) = n"

lemma bi_nat_val: "bi_nat b n \<longleftrightarrow> bi_wf b \<and> bi_val b = int n"
  using neg_iff_bi_val [of b] by (auto simp: bi_nat_def bi_val_def split: if_splits)

lemma bi_nat_add: "bi_nat a m \<Longrightarrow> bi_nat b n \<Longrightarrow> bi_nat (bi_add a b) (m + n)"
  by (auto simp: bi_nat_val bi_add_val)

lemma mag_shl_bits: "mag_val (mag (bi_shl_bits b s)) = mag_val (mag b) * 2 ^ s"
  using abs_bi_val [of "bi_shl_bits b s"] abs_bi_val [of b]
  by (metis abs_mult abs_numeral bi_shl_bits_val nat_int of_nat_mult of_nat_numeral of_nat_power power_abs)

lemma divmod_loop_val:
  assumes "0 < B" "B = mag_val (mag other)"
  shows "bi_nat quot k \<Longrightarrow> bi_nat rem r \<Longrightarrow> r < 2 ^ n * B \<Longrightarrow>
    (case divmod_loop n other quot rem of (quot', rem') \<Rightarrow>
       bi_nat quot' (k + r div B) \<and> bi_nat rem' (r mod B))"
proof (induction n arbitrary: quot rem k r)
  case 0
  then show ?case using assms by simp
next
  case (Suc s)
  define d where "d = bi_shl_bits other s"
  have d: "mag_val (mag d) = 2 ^ s * B" "mag_wf (mag d)"
    using assms by (auto simp: d_def mag_shl_bits intro!: bi_wf_mag)
  have c: "cmp_mag (mag rem) (mag d) = cmp_of r (2 ^ s * B)"
    using Suc.prems d by (simp add: cmp_mag_val bi_wf_mag bi_nat_def)
  show ?case
  proof (cases "r < 2 ^ s * B")
    case True
    then have "divmod_loop (Suc s) other quot rem = divmod_loop s other quot rem"
      by (simp add: d_def [symmetric] c Let_def)
    then show ?thesis using Suc.IH [OF Suc.prems(1,2) True] by simp
  next
    case False
    define rem' where "rem' = bi_trim \<lparr>neg = False, mag = sub_mag (mag rem) (mag d)\<rparr>"
    define quot' where "quot' = bi_add quot (bi_shl_bits (bi_from_i64 1) s)"
    have "divmod_loop (Suc s) other quot rem = divmod_loop s other quot' rem'"
      using False by (simp add: d_def [symmetric] c Let_def rem'_def quot'_def)
    moreover have "bi_nat rem' (r - 2 ^ s * B)"
      using False Suc.prems d by (simp add: rem'_def bi_nat_def neg_bi_trim sub_mag_val)
    moreover have "bi_nat (bi_shl_bits (bi_from_i64 1) s) (2 ^ s)"
      by (simp add: bi_nat_val)
    then have "bi_nat quot' (k + 2 ^ s)"
      unfolding quot'_def using Suc.prems(1) by (intro bi_nat_add)
    moreover have "r - 2 ^ s * B < 2 ^ s * B"
      using Suc.prems(3) False by simp
    moreover have "r div B = 2 ^ s + (r - 2 ^ s * B) div B" "r mod B = (r - 2 ^ s * B) mod B"
      using False assms by (auto simp: le_div_geq div_mult_self3 le_mod_geq
          dest!: le_Suc_ex [OF leI])
    ultimately show ?thesis
      using Suc.IH [of quot' "k + 2 ^ s" rem' "r - 2 ^ s * B"] by (simp add: add.assoc)
  qed
qed

text \<open>The sign a result gets at the end: none on zero.\<close>

lemma bi_nat_signed:
  assumes "bi_nat q n" "q' = q\<lparr>neg := \<not> bi_is_zero q \<and> s\<rparr>"
  shows "bi_wf q'" "mag_val (mag q') = n" "neg q' \<longleftrightarrow> n \<noteq> 0 \<and> s"
proof -
  have "mag_val (mag q) = 0 \<longleftrightarrow> mag q = []"
    using assms(1) by (intro mag_val_eq_0_iff bi_wf_mag) (simp add: bi_nat_def)
  then show "bi_wf q'" "mag_val (mag q') = n" "neg q' \<longleftrightarrow> n \<noteq> 0 \<and> s"
    using assms by (auto simp: bi_nat_def bi_wf_def bi_is_zero_def)
qed

lemma bi_divmod_mag:
  assumes "bi_wf a" "bi_wf b" "\<not> bi_is_zero b"
  obtains q r where "bi_divmod a b = Some (q, r)" "bi_wf q" "bi_wf r"
    "mag_val (mag q) = mag_val (mag a) div mag_val (mag b)"
    "mag_val (mag r) = mag_val (mag a) mod mag_val (mag b)"
    "neg q \<longleftrightarrow> mag_val (mag q) \<noteq> 0 \<and> neg a \<noteq> neg b"
    "neg r \<longleftrightarrow> mag_val (mag r) \<noteq> 0 \<and> neg a"
proof -
  define A B where "A = mag_val (mag a)" and "B = mag_val (mag b)"
  have B: "0 < B" "mag b \<noteq> []"
    using mag_val_eq_0_iff [OF bi_wf_mag [OF assms(2)]] assms(3) by (auto simp: B_def bi_is_zero_def)
  have c: "cmp_mag (mag a) (mag b) = cmp_of A B"
    using assms by (simp add: cmp_mag_val bi_wf_mag A_def B_def)
  show thesis
  proof (cases "A < B")
    case True
    have "bi_divmod a b = Some (bi_zero, a)"
      using True assms(3) by (simp add: bi_divmod_def c)
    moreover have "neg a \<longleftrightarrow> A \<noteq> 0 \<and> neg a"
      using assms(1) mag_val_eq_0_iff [OF bi_wf_mag [OF assms(1)]] by (auto simp: A_def bi_wf_def)
    ultimately show thesis
      using True assms(1) by (intro that [of bi_zero a]) (simp_all add: A_def B_def bi_zero_def bi_wf_def)
  next
    case False
    then have "mag a \<noteq> []"
      using B by (auto simp: A_def)
    define shift where "shift = bi_bit_len a - bi_bit_len b"
    have shift: "A < 2 ^ Suc shift * B"
    proof -
      note ba = bi_bit_len_bounds [OF assms(1) \<open>mag a \<noteq> []\<close>]
      note bb = bi_bit_len_bounds [OF assms(2) B(2)]
      have "A < 2 ^ bi_bit_len a" using ba by (simp add: A_def)
      also have "\<dots> \<le> 2 ^ (Suc shift + (bi_bit_len b - 1))"
        using bb(3) by (intro power_increasing) (auto simp: shift_def)
      also have "\<dots> \<le> 2 ^ Suc shift * B"
        unfolding power_add using bb(2) by (intro mult_le_mono2) (simp add: B_def)
      finally show ?thesis .
    qed
    obtain q r where l: "divmod_loop (Suc shift) b bi_zero \<lparr>neg = False, mag = mag a\<rparr> = (q, r)"
      by (cases "divmod_loop (Suc shift) b bi_zero \<lparr>neg = False, mag = mag a\<rparr>")
    have "bi_nat \<lparr>neg = False, mag = mag a\<rparr> A" "bi_nat bi_zero 0"
      using assms(1) by (auto simp: bi_nat_def A_def bi_wf_def bi_zero_def)
    from divmod_loop_val [OF B(1) B_def this(2,1) shift]
    have qr: "bi_nat q (A div B)" "bi_nat r (A mod B)"
      by (simp_all add: l del: divmod_loop.simps)
    define q' r' where "q' = q\<lparr>neg := \<not> bi_is_zero q \<and> neg a \<noteq> neg b\<rparr>"
      and "r' = r\<lparr>neg := \<not> bi_is_zero r \<and> neg a\<rparr>"
    have "bi_divmod a b = Some (q', r')"
      using False assms(3) l
      by (simp add: bi_divmod_def c shift_def [symmetric] q'_def r'_def del: divmod_loop.simps)
    then show thesis
      using bi_nat_signed [OF qr(1) q'_def] bi_nat_signed [OF qr(2) r'_def]
      by (intro that [of q' r']) (simp_all add: A_def B_def)
  qed
qed

lemma bi_divmod_zero: "bi_divmod a b = None \<longleftrightarrow> bi_is_zero b"
  by (simp add: bi_divmod_def Let_def split: prod.split)

lemma bi_divmod_val:
  assumes "bi_wf a" "bi_wf b" "bi_divmod a b = Some (q, r)"
  shows "bi_val q = bi_val a sdiv bi_val b" "bi_val r = bi_val a smod bi_val b"
    "bi_wf q" "bi_wf r"
proof -
  have nz: "\<not> bi_is_zero b" using assms(3) bi_divmod_zero [of a b] by auto
  define A B where "A = mag_val (mag a)" and "B = mag_val (mag b)"
  from nz assms(2) have B: "B \<noteq> 0"
    using mag_val_eq_0_iff [OF bi_wf_mag [OF assms(2)]] by (simp add: B_def bi_is_zero_def)
  obtain wf: "bi_wf q" "bi_wf r" and qr: "mag_val (mag q) = A div B" "mag_val (mag r) = A mod B"
    "neg q \<longleftrightarrow> mag_val (mag q) \<noteq> 0 \<and> neg a \<noteq> neg b" "neg r \<longleftrightarrow> mag_val (mag r) \<noteq> 0 \<and> neg a"
    by (rule bi_divmod_mag [OF assms(1,2) nz]) (use assms(3) in \<open>simp add: A_def B_def\<close>)
  show "bi_wf q" "bi_wf r" by (rule wf)+
  have a: "bi_val a = (if neg a then - int A else int A)" "bi_val b = (if neg b then - int B else int B)"
    by (simp_all add: bi_val_def A_def B_def)
  have AB: "int A div int B = int (A div B)" "int A mod int B = int (A mod B)"
    by (simp_all add: zdiv_int zmod_int)
  have sd: "bi_val a sdiv bi_val b = (if neg a = neg b then int (A div B) else - int (A div B))"
    using B by (auto simp: a signed_divide_int_def sgn_if AB simp del: of_nat_div)
  show q: "bi_val q = bi_val a sdiv bi_val b"
    unfolding sd using qr by (auto simp: bi_val_def [of q] simp del: of_nat_div)
  have r: "bi_val r = (if neg a then - int (A mod B) else int (A mod B))"
    using qr by (auto simp: bi_val_def [of r] simp del: of_nat_mod)
  show "bi_val r = bi_val a smod bi_val b"
    unfolding r by (cases "A = 0") (auto simp: a signed_modulo_int_def sgn_if AB simp del: of_nat_mod)
qed

section \<open>Order and canonical form\<close>

lemma bi_cmp_val:
  assumes "bi_wf a" "bi_wf b"
  shows "bi_cmp a b = cmp_of (bi_val a) (bi_val b)"
proof -
  have n: "neg x \<Longrightarrow> 0 < mag_val (mag x)" if "bi_wf x" for x
    using that mag_val_eq_0_iff [OF bi_wf_mag [OF that]] by (auto simp: bi_wf_def)
  show ?thesis
    using n [OF assms(1)] n [OF assms(2)] assms
    by (auto simp: bi_cmp_def cmp_mag_val bi_wf_mag bi_val_def cmp_of_def split: bool.splits)
qed

lemma mag_val_inject:
  "length xs = length ys \<Longrightarrow> mag_val xs = mag_val ys \<Longrightarrow> xs = ys"
proof (induction xs ys rule: list_induct2)
  case (Cons x xs y ys)
  have e: "unat x + 2 ^ 32 * mag_val xs = unat y + 2 ^ 32 * mag_val ys"
    using Cons.prems by simp
  from arg_cong [OF e, of "\<lambda>n. n mod 2 ^ 32"] have "unat x = unat y"
    by simp
  with e Cons.IH show ?case by (simp add: word_unat_eq_iff)
qed simp

lemma mag_val_inject_wf:
  assumes "mag_wf xs" "mag_wf ys" "mag_val xs = mag_val ys"
  shows "xs = ys"
  using assms mag_val_less_length [of xs ys] mag_val_less_length [of ys xs]
  by (metis mag_val_inject linorder_neqE_nat less_irrefl)

lemma bi_val_inject:
  assumes "bi_wf a" "bi_wf b" "bi_val a = bi_val b"
  shows "a = b"
proof (rule bigint.equality)
  have "mag_val (mag a) = mag_val (mag b)"
    using assms(3) abs_bi_val [of a] abs_bi_val [of b] by linarith
  then show "mag a = mag b"
    using assms by (intro mag_val_inject_wf bi_wf_mag)
  show "neg a = neg b"
    using assms by (simp add: neg_iff_bi_val)
qed simp

lemma bi_pow10_val [simp, value_simps]: "bi_val (bi_pow10 k) = 10 ^ k"
  by (induction k) auto

lemma bi_pow10_wf [simp, wf_intros]: "bi_wf (bi_pow10 k)"
  by (cases k) auto

section \<open>Decimal output\<close>

text \<open>The \<open>while !n.is_zero()\<close> loop of \<open>to_decimal\<close>: base-\<open>10^9\<close> digits in the
  order they are pushed, least significant first.\<close>

function to_decimal_loop :: "bigint \<Rightarrow> u32 list" where
  "to_decimal_loop n =
     (if bi_is_zero n then []
      else (let (q, r) = bi_divmod_small n 1000000000 in r # to_decimal_loop q))"
  by pat_completeness auto
termination
proof (relation "measures [\<lambda>n. mag_val (mag n), \<lambda>n. length (mag n)]", goal_cases)
  case (2 n p q r)
  then have "bi_divmod_small n 1000000000 = (q, r)" by simp
  from bi_divmod_small_correct [OF _ this]
  have "mag_val (mag q) = mag_val (mag n) div 1000000000" "bi_wf q" by simp_all
  then show ?case using 2(1)
    by (cases "mag_val (mag n) = 0")
      (auto simp: bi_is_zero_def mag_val_eq_0_iff [OF bi_wf_mag])
qed simp

declare to_decimal_loop.simps [simp del]

definition bi_to_decimal :: "bigint \<Rightarrow> rstr" where
  "bi_to_decimal b =
     (if bi_is_zero b then str ''0''
      else (let digits = rev (to_decimal_loop \<lparr>neg = False, mag = mag b\<rparr>)
            in (if neg b then str ''-'' else [])
               @ dec_nat (unat (hd digits))
               @ concat (map (\<lambda>d. dec_pad 9 (unat d)) (tl digits))))"

lemma to_decimal_loop_digits:
  assumes "bi_wf n" "\<not> neg n" "\<not> bi_is_zero n"
  shows "to_decimal_loop n \<noteq> [] \<and>
    dec_nat (unat (hd (rev (to_decimal_loop n))))
      @ concat (map (\<lambda>d. dec_pad 9 (unat d)) (tl (rev (to_decimal_loop n)))) = dec_nat (mag_val (mag n))"
  using assms
proof (induction n rule: to_decimal_loop.induct)
  case (1 n)
  obtain q r where qr: "bi_divmod_small n 1000000000 = (q, r)" by fastforce
  note v = bi_divmod_small_correct [OF _ qr, simplified]
  have loop: "to_decimal_loop n = r # to_decimal_loop q"
    using 1(4) by (subst to_decimal_loop.simps) (simp add: qr)
  show ?case
  proof (cases "bi_is_zero q")
    case True
    then have "mag_val (mag n) = unat r" using v by (auto simp: bi_is_zero_def)
    moreover have "to_decimal_loop q = []" using True by (simp add: to_decimal_loop.simps)
    ultimately show ?thesis by (simp add: loop)
  next
    case False
    have wf: "bi_wf q" "\<not> neg q" using v 1(3) by auto
    note ih = 1(1) [OF 1(4) refl qr [symmetric] wf False]
    define ds where "ds = rev (to_decimal_loop q)"
    have ds: "ds \<noteq> []" "dec_nat (unat (hd ds)) @ concat (map (\<lambda>d. dec_pad 9 (unat d)) (tl ds))
        = dec_nat (mag_val (mag q))"
      using ih by (simp_all add: ds_def)
    have "0 < mag_val (mag q)"
      using False mag_val_eq_0_iff [OF bi_wf_mag [OF wf(1)]] by (auto simp: bi_is_zero_def)
    then have "dec_nat (mag_val (mag n)) = dec_nat (mag_val (mag q)) @ dec_pad 9 (unat r)"
      using v dec_nat_append_pad [of "mag_val (mag q)" 9 "unat r"] by simp
    then show ?thesis
      using ds by (simp add: loop flip: ds_def)
  qed
qed

theorem bi_to_decimal_eq:
  assumes "bi_wf b"
  shows "bi_to_decimal b = (if neg b then str ''-'' else []) @ dec_nat (mag_val (mag b))"
proof (cases "bi_is_zero b")
  case True
  then show ?thesis using assms by (auto simp: bi_to_decimal_def bi_is_zero_def bi_wf_def dec_nat_small)
next
  case False
  have "bi_wf \<lparr>neg = False, mag = mag b\<rparr>" using assms by (simp add: bi_wf_def)
  from to_decimal_loop_digits [OF this] False show ?thesis
    by (simp add: bi_to_decimal_def bi_is_zero_def Let_def)
qed

lemma digits_val_append:
  "digits_val radix n (xs @ ys) =
     (case digits_val radix n xs of None \<Rightarrow> None | Some m \<Rightarrow> digits_val radix m ys)"
  by (induction xs arbitrary: n) (auto split: option.splits)

lemma to_digit_decimal: "d < 10 \<Longrightarrow> to_digit (ch CHR ''0'' + d) 10 = Some d"
  by (simp add: to_digit_def)

lemma digits_val_dec_nat: "digits_val 10 0 (dec_nat n) = Some n"
proof (induction n rule: dec_nat.induct)
  case (1 n)
  show ?case
  proof (cases "n < 10")
    case True
    then show ?thesis using to_digit_decimal [of n] by (simp add: dec_nat_small)
  next
    case False
    then show ?thesis using 1 to_digit_decimal [of "n mod 10"]
      by (simp add: dec_nat_step digits_val_append)
  qed
qed

section \<open>What the component promises\<close>

lemma bi_wf_make: "bi_wf \<lparr>neg = n, mag = m\<rparr> \<longleftrightarrow> (m = [] \<longrightarrow> \<not> n) \<and> (m \<noteq> [] \<longrightarrow> last m \<noteq> 0)"
  by (simp add: bi_wf_def)

text \<open>
  C1: on well-formed numbers \<open>add\<close>, \<open>sub\<close>, \<open>negate\<close> and \<open>mul\<close> compute the exact
  integer results and return well-formed numbers; the schoolbook product never indexes
  outside its accumulator.
\<close>

theorem bigint_ring:
  assumes "bi_wf a" "bi_wf b"
  shows "bi_val (bi_add a b) = bi_val a + bi_val b \<and> bi_wf (bi_add a b) \<and>
    bi_val (bi_sub a b) = bi_val a - bi_val b \<and> bi_wf (bi_sub a b) \<and>
    bi_val (bi_negate a) = - bi_val a \<and> bi_wf (bi_negate a) \<and>
    (\<exists>c. bi_mul_checked a b = Some c \<and> bi_val c = bi_val a * bi_val b \<and> bi_wf c)"
proof -
  obtain c where "bi_mul_checked a b = Some c" "bi_wf c" "bi_val c = bi_val a * bi_val b"
    using bi_mul_checked_Some [of a b] assms by metis
  then show ?thesis
    using assms by (simp add: bi_add_val bi_sub_val bi_negate_wf)
qed

theorem bigint_ring_witness:
  "bi_val (bi_sub \<lparr>neg = True, mag = [7, 1]\<rparr> \<lparr>neg = False, mag = [0, 2]\<rparr>) = - (7 + 3 * 2 ^ 32)
   \<and> (\<exists>c. bi_mul_checked \<lparr>neg = True, mag = [7, 1]\<rparr> \<lparr>neg = False, mag = [0, 2]\<rparr> = Some c
        \<and> bi_val c = - ((7 + 2 ^ 32) * (2 * 2 ^ 32)))"
  using bigint_ring [of "\<lparr>neg = True, mag = [7, 1]\<rparr>" "\<lparr>neg = False, mag = [0, 2]\<rparr>"]
  by (auto simp: bi_wf_make bi_val_make)

text \<open>
  C2: \<open>divmod\<close> fails exactly on a zero divisor; otherwise the shift-and-subtract loop
  returns the quotient truncated towards zero and the remainder with the dividend's
  sign, both well formed.
\<close>

theorem bigint_divmod:
  assumes "bi_wf a" "bi_wf b"
  shows "(if bi_val b = 0 then bi_divmod a b = None
          else \<exists>q r. bi_divmod a b = Some (q, r) \<and> bi_wf q \<and> bi_wf r
                 \<and> bi_val q = bi_val a sdiv bi_val b \<and> bi_val r = bi_val a smod bi_val b)"
proof (cases "bi_divmod a b")
  case None
  then show ?thesis using assms by (simp add: bi_divmod_zero bi_is_zero_iff)
next
  case (Some qr)
  moreover from this have "bi_val b \<noteq> 0"
    using bi_divmod_zero [of a b] assms(2) by (simp add: bi_is_zero_iff)
  ultimately show ?thesis
    using assms bi_divmod_val [of a b "fst qr" "snd qr"] by (cases qr) auto
qed

theorem bigint_divmod_witness:
  "\<exists>q r. bi_divmod \<lparr>neg = True, mag = [7]\<rparr> \<lparr>neg = False, mag = [2]\<rparr> = Some (q, r)
     \<and> bi_val q = - 3 \<and> bi_val r = - 1"
  using bigint_divmod [of "\<lparr>neg = True, mag = [7]\<rparr>" "\<lparr>neg = False, mag = [2]\<rparr>"]
  by (auto simp: bi_wf_make bi_val_make signed_divide_int_def signed_modulo_int_def)

text \<open>
  \<open>cmp\<close> orders numbers by their value, and a value has one representation: two
  well-formed numbers compare \<open>Equal\<close> exactly when they are the same sign and limbs
  (what the derived equality of \<open>BigInt\<close> compares).
\<close>

lemma bigint_order:
  assumes "bi_wf a" "bi_wf b"
  shows "bi_cmp a b = cmp_of (bi_val a) (bi_val b) \<and> (bi_cmp a b = Equal \<longleftrightarrow> a = b)"
  using assms bi_val_inject [of a b] by (auto simp: bi_cmp_val)

lemma bigint_order_example:
  "bi_cmp \<lparr>neg = True, mag = [7, 1]\<rparr> \<lparr>neg = True, mag = [9]\<rparr> = Less"
  using bigint_order [of "\<lparr>neg = True, mag = [7, 1]\<rparr>" "\<lparr>neg = True, mag = [9]\<rparr>"]
  by (simp add: bi_wf_make bi_val_make)

text \<open>
  C3: \<open>to_decimal\<close> and \<open>parse\<close> are inverse: the text is a minus sign for a negative
  number and the digits of its magnitude, and parsing those digits in radix 10 gives
  the magnitude back, limb for limb.
\<close>

theorem bigint_decimal_roundtrip:
  assumes "bi_wf a"
  shows "\<exists>ds. bi_to_decimal a = (if neg a then str ''-'' else []) @ ds
    \<and> ds \<noteq> [] \<and> (\<forall>c \<in> set ds. ch CHR ''0'' \<le> c \<and> c \<le> ch CHR ''9'')
    \<and> bi_parse ds 10 = Some \<lparr>neg = False, mag = mag a\<rparr>"
proof (intro exI conjI ballI)
  let ?ds = "dec_nat (mag_val (mag a))"
  show "bi_to_decimal a = (if neg a then str ''-'' else []) @ ?ds"
    using assms by (rule bi_to_decimal_eq)
  have "map_option bi_val (bi_parse ?ds 10) = Some (int (mag_val (mag a)))"
    by (simp add: bi_parse_val digits_val_dec_nat)
  then obtain r where r: "bi_parse ?ds 10 = Some r" "bi_val r = int (mag_val (mag a))"
    by auto
  moreover have "bi_wf r" using bi_parse_val(2) [OF _ r(1)] by simp
  moreover have "bi_wf \<lparr>neg = False, mag = mag a\<rparr>" using assms by (simp add: bi_wf_def)
  ultimately have "r = \<lparr>neg = False, mag = mag a\<rparr>"
    by (intro bi_val_inject) (simp_all add: bi_val_make)
  with r show "bi_parse ?ds 10 = Some \<lparr>neg = False, mag = mag a\<rparr>" by simp
qed (auto dest: dec_nat_digits)

theorem bigint_decimal_roundtrip_witness:
  "\<exists>ds. bi_to_decimal \<lparr>neg = True, mag = [5, 1]\<rparr> = str ''-'' @ ds
     \<and> bi_parse ds 10 = Some \<lparr>neg = False, mag = [5, 1]\<rparr>"
  using bigint_decimal_roundtrip [of "\<lparr>neg = True, mag = [5, 1]\<rparr>"] by (auto simp: bi_wf_def)

end
