(* ===== verification/Bignum_Dec.thy ===== *)
theory Bignum_Dec
  imports Complex_Main Bignum_Int
begin

text \<open>
  The decimal numbers of \<open>crates/mersey_interp/src/bignum.rs\<close> (\<open>struct BigDec\<close>,
  \<open>enum RoundingMode\<close>): a coefficient and the number of digits right of the point,
  kept at the source's \<open>u32\<close>.  The specification is the rational \<open>bd_val\<close>.  The
  locale \<open>coef_arith\<close> states what the decimals rely on in the integers; it is
  interpreted by the operations of \<open>Bignum_Int\<close>.
\<close>

unbundle bit_operations_syntax

section \<open>Rounding modes\<close>

datatype rounding_mode = Up | Down | Ceiling | Floor | HalfUp | HalfEven

definition rounding_mode_parse :: "rstr \<Rightarrow> rounding_mode option" where
  "rounding_mode_parse name =
     (if name = str ''UP'' then Some Up
      else if name = str ''DOWN'' then Some Down
      else if name = str ''CEILING'' then Some Ceiling
      else if name = str ''FLOOR'' then Some Floor
      else if name = str ''HALF_UP'' then Some HalfUp
      else if name = str ''HALF_EVEN'' then Some HalfEven
      else None)"

section \<open>Decimals\<close>

record bigdec =
  coef :: bigint
  scale :: u32

definition bd_wf :: "bigdec \<Rightarrow> bool" where
  "bd_wf d \<longleftrightarrow> bi_wf (coef d)"

definition bd_val :: "bigdec \<Rightarrow> rat" where
  "bd_val d = of_int (bi_val (coef d)) / 10 ^ unat (scale d)"

text \<open>\<open>str::parse::<i32>\<close>: an optional sign, at least one digit, and a value in range.\<close>

definition parse_i32 :: "rstr \<Rightarrow> int option" where
  "parse_i32 s =
     (let (minus, ds) = (case s of
            [] \<Rightarrow> (False, [])
          | c # cs \<Rightarrow> if c = ch CHR ''-'' then (True, cs)
                     else if c = ch CHR ''+'' then (False, cs) else (False, s))
      in if ds = [] then None
         else (case digits_val 10 0 ds of
                 None \<Rightarrow> None
               | Some n \<Rightarrow> (let v = (if minus then - int n else int n)
                            in if - (2 ^ 31) \<le> v \<and> v < 2 ^ 31 then Some v else None)))"

text \<open>\<open>find\<close> and the two slices around the match.\<close>

definition split_first :: "(rchar \<Rightarrow> bool) \<Rightarrow> rstr \<Rightarrow> rstr \<times> rstr option" where
  "split_first P s =
     (takeWhile (\<lambda>c. \<not> P c) s,
      (case dropWhile (\<lambda>c. \<not> P c) s of [] \<Rightarrow> None | _ # cs \<Rightarrow> Some cs))"

text \<open>
  \<open>parse\<close>.  Once the coefficient has parsed, every character of the fraction is an ASCII
  digit, so \<open>frac_part.len()\<close> (bytes) is its number of characters.
\<close>

definition bd_parse :: "rstr \<Rightarrow> bigdec option" where
  "bd_parse txt =
     (case split_first (\<lambda>c. c = ch CHR ''e'' \<or> c = ch CHR ''E'') txt of
        (mant, expo) \<Rightarrow>
          (case (case expo of Some t \<Rightarrow> parse_i32 t | None \<Rightarrow> Some 0) of
             None \<Rightarrow> None
           | Some ex \<Rightarrow>
               (let (int_part, fr) = split_first (\<lambda>c. c = ch CHR ''.'') mant;
                    frac_part = (case fr of Some f \<Rightarrow> f | None \<Rightarrow> [])
                in case bi_parse (int_part @ frac_part) 10 of
                     None \<Rightarrow> None
                   | Some c \<Rightarrow>
                       (let sc = int (length frac_part) - ex
                        in if sc \<ge> 0 then
                             (if sc < 2 ^ 32 then Some \<lparr>coef = c, scale = of_int sc\<rparr> else None)
                           else Some \<lparr>coef = bi_mul c (bi_pow10 (unat (of_int (- sc) :: u32))),
                                      scale = 0\<rparr>))))"

definition bd_align :: "bigdec \<Rightarrow> bigdec \<Rightarrow> bigint \<times> bigint \<times> u32" where
  "bd_align a b =
     (let sc = max (scale a) (scale b)
      in (bi_mul (coef a) (bi_pow10 (unat (sc - scale a))),
          bi_mul (coef b) (bi_pow10 (unat (sc - scale b))), sc))"

definition bd_add :: "bigdec \<Rightarrow> bigdec \<Rightarrow> bigdec" where
  "bd_add x y = (let (a, b, sc) = bd_align x y in \<lparr>coef = bi_add a b, scale = sc\<rparr>)"

definition bd_sub :: "bigdec \<Rightarrow> bigdec \<Rightarrow> bigdec" where
  "bd_sub x y = (let (a, b, sc) = bd_align x y in \<lparr>coef = bi_sub a b, scale = sc\<rparr>)"

text \<open>The scales of a product are added in \<open>u32\<close>: the sum wraps in a release build.\<close>

definition bd_mul :: "bigdec \<Rightarrow> bigdec \<Rightarrow> bigdec" where
  "bd_mul x y = \<lparr>coef = bi_mul (coef x) (coef y), scale = scale x + scale y\<rparr>"

text \<open>\<open>div_exact\<close>: the loop over \<open>extra\<close> in \<open>0..=MAX_EXTRA\<close>.\<close>

definition MAX_EXTRA :: nat where
  "MAX_EXTRA = 34"

fun div_exact_loop :: "nat \<Rightarrow> nat \<Rightarrow> bigint \<Rightarrow> bigint \<Rightarrow> int \<Rightarrow> bigdec option" where
  "div_exact_loop 0 extra num den sc = None"
| "div_exact_loop (Suc n) extra num den sc =
     (case bi_divmod num den of
        None \<Rightarrow> None
      | Some (q, r) \<Rightarrow>
          if bi_is_zero r then
            (let final_scale = sc + int extra
             in Some (if final_scale \<ge> 0 then \<lparr>coef = q, scale = of_int final_scale\<rparr>
                      else \<lparr>coef = bi_mul q (bi_pow10 (unat (of_int (- final_scale) :: u32))),
                            scale = 0\<rparr>))
          else div_exact_loop n (Suc extra) (bi_mul_small num 10) den sc)"

definition bd_div_exact :: "bigdec \<Rightarrow> bigdec \<Rightarrow> bigdec option" where
  "bd_div_exact x y =
     (if bi_is_zero (coef y) then None
      else div_exact_loop (Suc MAX_EXTRA) 0 (coef x) (coef y)
             (int (unat (scale x)) - int (unat (scale y))))"

text \<open>\<open>divide\<close>: the quot with one digit more than asked for, then the rounding.\<close>

definition round_up_p :: "rounding_mode \<Rightarrow> int \<Rightarrow> bool \<Rightarrow> bool \<Rightarrow> bigint \<Rightarrow> bool" where
  "round_up_p mode magnitude exact negative quot =
     (case mode of
        Down \<Rightarrow> False
      | Up \<Rightarrow> magnitude \<noteq> 0 \<or> \<not> exact
      | HalfUp \<Rightarrow> magnitude \<ge> 5
      | HalfEven \<Rightarrow>
          if magnitude > 5 then True
          else if magnitude < 5 then False
          else if \<not> exact then True
          else snd (bi_divmod_small quot 10) mod 2 = 1
      | Ceiling \<Rightarrow> (magnitude \<noteq> 0 \<or> \<not> exact) \<and> \<not> negative
      | Floor \<Rightarrow> (magnitude \<noteq> 0 \<or> \<not> exact) \<and> negative)"

text \<open>The dividend brought to \<open>scale + 1\<close> digits over the divisor's.\<close>

definition divide_num :: "bigdec \<Rightarrow> bigdec \<Rightarrow> u32 \<Rightarrow> bigint option" where
  "divide_num x y sc =
     (let shift = int (unat sc) + 1 + int (unat (scale y)) - int (unat (scale x))
      in if shift \<ge> 0 then Some (bi_mul (coef x) (bi_pow10 (unat (of_int shift :: u32))))
         else map_option fst (bi_divmod (coef x) (bi_pow10 (unat (of_int (- shift) :: u32)))))"

text \<open>From the quotient with one extra digit to the rounded coefficient; \<open>signs\<close> is
  \<open>self.coef.neg != other.coef.neg\<close>.\<close>

definition divide_tail :: "rounding_mode \<Rightarrow> bool \<Rightarrow> bigint \<Rightarrow> bigint \<Rightarrow> bigint" where
  "divide_tail mode signs q r =
     (let negative = neg q \<or> (signs \<and> \<not> bi_is_zero q);
          (quot, discard) = bi_divmod_small q 10;
          magnitude = \<bar>int (unat discard)\<bar>;
          exact = bi_is_zero r;
          quot = (if round_up_p mode magnitude exact negative quot
                  then \<lparr>neg = neg quot,
                        mag = mag (bi_add \<lparr>neg = False, mag = mag quot\<rparr> (bi_from_i64 1))\<rparr>
                  else quot)
      in quot\<lparr>neg := negative \<and> \<not> bi_is_zero quot\<rparr>)"

definition bd_divide :: "bigdec \<Rightarrow> bigdec \<Rightarrow> u32 \<Rightarrow> rounding_mode \<Rightarrow> bigdec option" where
  "bd_divide x y sc mode =
     (if bi_is_zero (coef y) then None
      else (case divide_num x y sc of
              None \<Rightarrow> None
            | Some num \<Rightarrow>
                (case bi_divmod num (coef y) of
                   None \<Rightarrow> None
                 | Some (q, r) \<Rightarrow>
                     Some \<lparr>coef = divide_tail mode (neg (coef x) \<noteq> neg (coef y)) q r, scale = sc\<rparr>)))"

definition bd_cmp :: "bigdec \<Rightarrow> bigdec \<Rightarrow> ordering" where
  "bd_cmp x y = (let (a, b, _) = bd_align x y in bi_cmp a b)"

definition bd_to_decimal :: "bigdec \<Rightarrow> rstr" where
  "bd_to_decimal d =
     (let digits = bi_to_decimal \<lparr>neg = False, mag = mag (coef d)\<rparr>;
          sign = (if neg (coef d) then str ''-'' else []);
          sc = unat (scale d)
      in if scale d = 0 then sign @ digits
         else if length digits \<le> sc then
           sign @ str ''0.'' @ replicate (sc - length digits) (ch CHR ''0'') @ digits
         else (let split = length digits - sc
               in sign @ take split digits @ str ''.'' @ drop split digits))"

section \<open>What decimals need of integers\<close>

text \<open>
  The integers a decimal's coefficient is made of: exact ring operations on
  well-formed numbers and the powers of ten.  The lemmas say what a coefficient
  brought to a larger scale denotes.
\<close>

locale coef_arith =
  fixes val :: "'c \<Rightarrow> int"
    and wf :: "'c \<Rightarrow> bool"
    and add :: "'c \<Rightarrow> 'c \<Rightarrow> 'c"
    and sub :: "'c \<Rightarrow> 'c \<Rightarrow> 'c"
    and mul :: "'c \<Rightarrow> 'c \<Rightarrow> 'c"
    and pow10 :: "nat \<Rightarrow> 'c"
    and compare :: "'c \<Rightarrow> 'c \<Rightarrow> ordering"
  assumes add_law: "wf a \<Longrightarrow> wf b \<Longrightarrow> wf (add a b) \<and> val (add a b) = val a + val b"
    and sub_law: "wf a \<Longrightarrow> wf b \<Longrightarrow> wf (sub a b) \<and> val (sub a b) = val a - val b"
    and mul_law: "wf a \<Longrightarrow> wf b \<Longrightarrow> wf (mul a b) \<and> val (mul a b) = val a * val b"
    and pow10_law: "wf (pow10 k) \<and> val (pow10 k) = 10 ^ k"
    and compare_law: "wf a \<Longrightarrow> wf b \<Longrightarrow> compare a b = cmp_of (val a) (val b)"
begin

lemma rescale_wf: "wf a \<Longrightarrow> wf (mul a (pow10 k))"
  using mul_law pow10_law by blast

lemma rescale_val: "wf a \<Longrightarrow> val (mul a (pow10 k)) = val a * 10 ^ k"
  using mul_law pow10_law by auto

lemma rescale_rat:
  assumes "wf a" "s \<le> t"
  shows "(of_int (val (mul a (pow10 (t - s)))) :: rat) / 10 ^ t = of_int (val a) / 10 ^ s"
proof -
  have "(10 :: rat) ^ t = 10 ^ (t - s) * 10 ^ s" using assms(2) by (simp flip: power_add)
  then show ?thesis using assms(1) by (simp add: rescale_val)
qed

lemma aligned_add:
  assumes "wf a" "wf b" "s \<le> t" "r \<le> t"
  shows "(of_int (val (add (mul a (pow10 (t - s))) (mul b (pow10 (t - r))))) :: rat) / 10 ^ t
    = of_int (val a) / 10 ^ s + of_int (val b) / 10 ^ r"
  using assms add_law rescale_wf rescale_rat
  by (simp add: add_divide_distrib)

lemma aligned_sub:
  assumes "wf a" "wf b" "s \<le> t" "r \<le> t"
  shows "(of_int (val (sub (mul a (pow10 (t - s))) (mul b (pow10 (t - r))))) :: rat) / 10 ^ t
    = of_int (val a) / 10 ^ s - of_int (val b) / 10 ^ r"
  using assms sub_law rescale_wf rescale_rat
  by (simp add: diff_divide_distrib)

lemma aligned_compare:
  assumes "wf a" "wf b" "s \<le> t" "r \<le> t"
  shows "compare (mul a (pow10 (t - s))) (mul b (pow10 (t - r)))
    = cmp_of ((of_int (val a) :: rat) / 10 ^ s) (of_int (val b) / 10 ^ r)"
proof -
  have "cmp_of (val x) (val y) = cmp_of ((of_int (val x) :: rat) / 10 ^ t) (of_int (val y) / 10 ^ t)"
    for x y by (auto simp: cmp_of_def divide_less_cancel)
  then show ?thesis
    using assms by (simp add: compare_law rescale_wf rescale_rat del: of_int_mult)
qed

end

interpretation bi: coef_arith bi_val bi_wf bi_add bi_sub bi_mul bi_pow10 bi_cmp
  by unfold_locales (auto simp: bi_add_val bi_sub_val bi_mul_val bi_cmp_val)

section \<open>Sums, differences, products and comparison\<close>

lemma bd_align_eq:
  "bd_align a b =
     (let t = max (unat (scale a)) (unat (scale b))
      in (bi_mul (coef a) (bi_pow10 (t - unat (scale a))), bi_mul (coef b) (bi_pow10 (t - unat (scale b))),
          max (scale a) (scale b)))"
  by (auto simp: bd_align_def Let_def max_def word_le_nat_alt unat_sub)

lemma unat_max_scale: "unat (max (x :: u32) y) = max (unat x) (unat y)"
  by (auto simp: max_def word_le_nat_alt)

lemma bd_add_val [value_simps]: "bd_wf x \<Longrightarrow> bd_wf y \<Longrightarrow> bd_val (bd_add x y) = bd_val x + bd_val y"
  by (simp add: bd_add_def bd_align_eq Let_def bd_val_def bd_wf_def unat_max_scale bi.aligned_add)

lemma bd_sub_val [value_simps]: "bd_wf x \<Longrightarrow> bd_wf y \<Longrightarrow> bd_val (bd_sub x y) = bd_val x - bd_val y"
  by (simp add: bd_sub_def bd_align_eq Let_def bd_val_def bd_wf_def unat_max_scale bi.aligned_sub)

lemma bd_mul_val [value_simps]:
  assumes "bd_wf x" "bd_wf y" "unat (scale x) + unat (scale y) < 2 ^ 32"
  shows "bd_val (bd_mul x y) = bd_val x * bd_val y"
proof -
  have "unat (scale x + scale y) = unat (scale x) + unat (scale y)"
    using assms(3) by (simp add: unat_word_ariths(1))
  then show ?thesis
    using assms by (simp add: bd_mul_def bd_val_def bd_wf_def bi_mul_val power_add)
qed

lemma bd_cmp_val: "bd_wf x \<Longrightarrow> bd_wf y \<Longrightarrow> bd_cmp x y = cmp_of (bd_val x) (bd_val y)"
  by (simp add: bd_cmp_def bd_align_eq Let_def bd_val_def bd_wf_def bi.aligned_compare)

lemma bd_ops_wf [wf_intros]: "bd_wf (bd_add x y)" "bd_wf (bd_sub x y)" "bd_wf (bd_mul x y)"
  by (simp_all add: bd_wf_def bd_add_def bd_sub_def bd_mul_def bd_align_def Let_def)

section \<open>Exact division\<close>

lemma bi_divmod_cases:
  assumes "bi_wf a" "bi_wf b" "bi_val b \<noteq> 0"
  obtains q r where "bi_divmod a b = Some (q, r)" "bi_wf q" "bi_wf r"
    "bi_val q = bi_val a sdiv bi_val b" "bi_val r = bi_val a smod bi_val b"
    "bi_is_zero r \<longleftrightarrow> bi_val b dvd bi_val a"
proof -
  obtain qr where "bi_divmod a b = Some qr"
    using assms by (cases "bi_divmod a b") (auto simp: bi_divmod_zero bi_is_zero_iff)
  then obtain q r where qr: "bi_divmod a b = Some (q, r)" by (cases qr) auto
  note v = bi_divmod_val [OF assms(1,2) qr]
  have "bi_val a smod bi_val b = 0 \<longleftrightarrow> \<bar>bi_val b\<bar> dvd \<bar>bi_val a\<bar>"
    unfolding smod_int_alt_def by (auto simp: dvd_eq_mod_eq_0 sgn_0_0)
  then have "bi_val a smod bi_val b = 0 \<longleftrightarrow> bi_val b dvd bi_val a" by simp
  then show ?thesis using v qr that by (simp add: bi_is_zero_iff)
qed

lemma unat_of_int_u32: "0 \<le> f \<Longrightarrow> f < 2 ^ 32 \<Longrightarrow> unat (of_int f :: u32) = nat f"
  using of_int_u32_val [of f] by linarith

text \<open>A result with \<open>final_scale\<close> digits: kept as the scale, or multiplied out.\<close>

lemma final_scale_val:
  assumes "bi_wf q" "f < 2 ^ 32" "- f < 2 ^ 32" "f + int b = int a"
  shows "bd_val (if f \<ge> 0 then \<lparr>coef = q, scale = of_int f\<rparr>
      else \<lparr>coef = bi_mul q (bi_pow10 (unat (of_int (- f) :: u32))), scale = 0\<rparr>)
    = of_int (bi_val q) * 10 ^ b / 10 ^ a"
proof (cases "f \<ge> 0")
  case True
  then have "a = nat f + b" using assms(4) by linarith
  then have "(10 :: rat) ^ a = 10 ^ nat f * 10 ^ b" by (simp add: power_add)
  then show ?thesis using True assms(1,2) unat_of_int_u32 [OF True] by (simp add: bd_val_def)
next
  case False
  then have "b = nat (- f) + a" using assms(4) by linarith
  then have "(10 :: rat) ^ b = 10 ^ nat (- f) * 10 ^ a" by (simp add: power_add)
  moreover have "unat (of_int (- f) :: u32) = nat (- f)"
    using False assms(3) by (intro unat_of_int_u32) auto
  ultimately show ?thesis using False assms(1) by (simp add: bd_val_def bi.rescale_val del: of_int_minus)
qed

lemma div_exact_loop_val:
  assumes "bi_wf num" "bi_wf den" "bi_val den \<noteq> 0" "bi_val num = A * 10 ^ e"
    and "sx + e + n \<le> 2 ^ 32" "sy < 2 ^ 32"
  shows "(case div_exact_loop n e num den (int sx - int sy) of
            Some d \<Rightarrow> bd_wf d \<and> (\<exists>k < e + n. bi_val den dvd A * 10 ^ k)
                     \<and> bd_val d = of_int A / of_int (bi_val den) * 10 ^ sy / 10 ^ sx
          | None \<Rightarrow> \<forall>k. e \<le> k \<and> k < e + n \<longrightarrow> \<not> bi_val den dvd A * 10 ^ k)"
  using assms
proof (induction n arbitrary: e num)
  case 0
  have "\<not> (e \<le> k \<and> k < e + 0)" for k by simp
  then show ?case by (simp only: div_exact_loop.simps option.case) blast
next
  case (Suc n)
  obtain q r where qr: "bi_divmod num den = Some (q, r)" "bi_wf q" "bi_wf r"
    "bi_val q = bi_val num sdiv bi_val den" "bi_is_zero r \<longleftrightarrow> bi_val den dvd bi_val num"
    by (rule bi_divmod_cases [OF Suc.prems(1-3)])
  show ?case
  proof (cases "bi_is_zero r")
    case True
    then have q: "bi_val q * bi_val den = A * 10 ^ e"
      using qr Suc.prems(3,4) sdiv_mult_smod_eq [of "bi_val num" "bi_val den"]
      by (simp add: smod_int_alt_def)
    from arg_cong [OF q, of "of_int :: int \<Rightarrow> rat"]
    have "(of_int (bi_val q) :: rat) * of_int (bi_val den) = of_int A * 10 ^ e" by simp
    then have "(of_int (bi_val q) :: rat) = of_int A / of_int (bi_val den) * 10 ^ e"
      using Suc.prems(3) by (simp add: field_simps)
    then have "of_int (bi_val q) * 10 ^ sy / 10 ^ (sx + e)
        = (of_int A / of_int (bi_val den) * 10 ^ sy / 10 ^ sx :: rat)"
      by (simp add: power_add)
    moreover have ex: "\<exists>k < e + Suc n. bi_val den dvd A * 10 ^ k"
      using q by (intro exI [of _ e]) (metis dvd_triv_right less_add_same_cancel1 zero_less_Suc)
    moreover note final_scale_val [OF qr(2), of "int sx - int sy + int e" sy "sx + e"]
    ultimately have res: "bd_val d = of_int A / of_int (bi_val den) * 10 ^ sy / 10 ^ sx"
        "bd_wf d"
      if "d = (if int sx - int sy + int e \<ge> 0
            then \<lparr>coef = q, scale = of_int (int sx - int sy + int e)\<rparr>
            else \<lparr>coef = bi_mul q (bi_pow10 (unat (of_int (- (int sx - int sy + int e)) :: u32))),
                  scale = 0\<rparr>)" for d
      using that qr(2) Suc.prems(5,6) by (auto simp: bd_wf_def)
    show ?thesis
      using res [OF refl] ex True by (simp add: qr(1) Let_def)
  next
    case False
    have "\<not> bi_val den dvd A * 10 ^ e" using False qr Suc.prems(4) by simp
    moreover have "(case div_exact_loop n (Suc e) (bi_mul_small num 10) den (int sx - int sy) of
            Some d \<Rightarrow> bd_wf d \<and> (\<exists>k < Suc e + n. bi_val den dvd A * 10 ^ k)
                     \<and> bd_val d = of_int A / of_int (bi_val den) * 10 ^ sy / 10 ^ sx
          | None \<Rightarrow> \<forall>k. Suc e \<le> k \<and> k < Suc e + n \<longrightarrow> \<not> bi_val den dvd A * 10 ^ k)"
      using Suc.prems by (intro Suc.IH) auto
    moreover have "e \<le> k \<and> k < e + Suc n \<longleftrightarrow> k = e \<or> Suc e \<le> k \<and> k < Suc e + n" for k
      by auto
    ultimately show ?thesis
      using False by (simp add: qr(1) split: option.splits)
  qed
qed

section \<open>Rounded division\<close>

text \<open>The rounding modes on rationals, independently of how \<open>divide\<close> decides them.\<close>

definition round_spec :: "rounding_mode \<Rightarrow> rat \<Rightarrow> int" where
  "round_spec mode y =
     (case mode of
        Ceiling \<Rightarrow> \<lceil>y\<rceil>
      | Floor \<Rightarrow> \<lfloor>y\<rfloor>
      | Down \<Rightarrow> if y < 0 then \<lceil>y\<rceil> else \<lfloor>y\<rfloor>
      | Up \<Rightarrow> if y < 0 then \<lfloor>y\<rfloor> else \<lceil>y\<rceil>
      | HalfUp \<Rightarrow> if y < 0 then - \<lfloor>1 / 2 - y\<rfloor> else \<lfloor>y + 1 / 2\<rfloor>
      | HalfEven \<Rightarrow>
          (let f = \<lfloor>\<bar>y\<bar>\<rfloor>; r = \<bar>y\<bar> - of_int f;
               n = (if r < 1 / 2 \<or> r = 1 / 2 \<and> even f then f else f + 1)
           in if y < 0 then - n else n))"

text \<open>The decision of \<open>divide\<close> on naturals: \<open>f\<close> is the kept part, \<open>d\<close> the discarded digit.\<close>

definition away :: "rounding_mode \<Rightarrow> nat \<Rightarrow> bool \<Rightarrow> bool \<Rightarrow> nat \<Rightarrow> bool" where
  "away mode d exact negative f =
     (case mode of
        Down \<Rightarrow> False
      | Up \<Rightarrow> d \<noteq> 0 \<or> \<not> exact
      | HalfUp \<Rightarrow> d \<ge> 5
      | HalfEven \<Rightarrow> d > 5 \<or> d = 5 \<and> (\<not> exact \<or> odd f)
      | Ceiling \<Rightarrow> (d \<noteq> 0 \<or> \<not> exact) \<and> \<not> negative
      | Floor \<Rightarrow> (d \<noteq> 0 \<or> \<not> exact) \<and> negative)"

text \<open>\<open>y\<close> lies at digit \<open>d\<close> and a rest \<open>rho\<close> of the next place above \<open>f\<close>; what the
  rounding needs is the position of the fraction against 0 and 1/2.\<close>

lemma digit_split:
  fixes rho :: rat
  assumes "d < 10" "0 \<le> rho" "rho < 1"
  obtains t :: rat where "(of_nat d + rho) / 10 = t" "0 \<le> t" "t < 1"
    "t = 0 \<longleftrightarrow> d = 0 \<and> rho = 0" "t < 1 / 2 \<longleftrightarrow> d < 5" "t = 1 / 2 \<longleftrightarrow> d = 5 \<and> rho = 0"
proof -
  have "d = 0 \<or> 1 \<le> d \<and> d \<le> 4 \<or> d = 5 \<or> 6 \<le> d \<and> d \<le> 9" using assms(1) by linarith
  then have "d = 0 \<or> 1 \<le> (of_nat d :: rat) \<and> (of_nat d :: rat) \<le> 4 \<and> 1 \<le> d \<and> d \<le> 4 \<or> d = 5
      \<or> 6 \<le> (of_nat d :: rat) \<and> (of_nat d :: rat) \<le> 9 \<and> 6 \<le> d \<and> d \<le> 9"
    using of_nat_mono [of d 4, where 'a = rat] of_nat_mono [of 6 d, where 'a = rat]
      of_nat_mono [of d 9, where 'a = rat] of_nat_mono [of 1 d, where 'a = rat] by auto
  then show ?thesis
    using assms(2,3) by (intro that [OF refl]) auto
qed

lemma floor_frac: "0 \<le> t \<Longrightarrow> t < 1 \<Longrightarrow> \<lfloor>of_nat f + t :: rat\<rfloor> = int f"
  by (intro floor_unique) auto

lemma ceiling_frac: "0 \<le> t \<Longrightarrow> t < 1 \<Longrightarrow> \<lceil>of_nat f + t :: rat\<rceil> = int f + (if t = 0 then 0 else 1)"
  by (intro ceiling_unique) auto

lemma floor_half_frac:
  "0 \<le> t \<Longrightarrow> t < 1 \<Longrightarrow> \<lfloor>of_nat f + t + 1 / 2 :: rat\<rfloor> = int f + (if t < 1 / 2 then 0 else 1)"
  by (intro floor_unique) auto

lemma round_spec_nonneg:
  assumes "y = of_nat f + (of_nat d + rho) / 10" "d < 10" "0 \<le> rho" "rho < 1"
  shows "round_spec mode y = int f + (if away mode d (rho = 0) False f then 1 else 0)"
proof -
  obtain t where t: "(of_nat d + rho) / 10 = t" "0 \<le> t" "t < 1"
    "t = 0 \<longleftrightarrow> d = 0 \<and> rho = 0" "t < 1 / 2 \<longleftrightarrow> d < 5" "t = 1 / 2 \<longleftrightarrow> d = 5 \<and> rho = 0"
    by (rule digit_split [OF assms(2-4)])
  note y = assms(1) [unfolded t(1)]
  have y0: "\<not> y < 0" "\<bar>y\<bar> = y" using t(2) by (auto simp: y)
  note fl = floor_frac [OF t(2,3), of f, folded y] ceiling_frac [OF t(2,3), of f, folded y]
    floor_half_frac [OF t(2,3), of f, folded y]
  have he: "y - of_int (int f) = t" by (simp add: y)
  show ?thesis
    unfolding round_spec_def away_def Let_def
    by (cases mode; simp only: rounding_mode.case y0 fl if_False he t; auto)
qed

lemma round_spec_neg:
  assumes "y = of_nat f + (of_nat d + rho) / 10" "d < 10" "0 \<le> rho" "rho < 1" "0 < y"
  shows "round_spec mode (- y) = - (int f + (if away mode d (rho = 0) True f then 1 else 0))"
proof -
  obtain t where t: "(of_nat d + rho) / 10 = t" "0 \<le> t" "t < 1"
    "t = 0 \<longleftrightarrow> d = 0 \<and> rho = 0" "t < 1 / 2 \<longleftrightarrow> d < 5" "t = 1 / 2 \<longleftrightarrow> d = 5 \<and> rho = 0"
    by (rule digit_split [OF assms(2-4)])
  note y = assms(1) [unfolded t(1)]
  note fl = floor_frac [OF t(2,3), of f, folded y] ceiling_frac [OF t(2,3), of f, folded y]
    floor_half_frac [OF t(2,3), of f, folded y]
  have y0: "- y < 0" "\<bar>- y\<bar> = y" "1 / 2 - - y = y + 1 / 2" using assms(5) by auto
  have he: "y - of_int (int f) = t" by (simp add: y)
  show ?thesis
    unfolding round_spec_def away_def Let_def
    by (cases mode; simp only: rounding_mode.case y0 fl if_True he t floor_minus ceiling_minus; auto)
qed

lemma away_unsigned: "mode \<in> {Down, HalfUp, HalfEven} \<Longrightarrow> away mode d e n f = away mode d e n' f"
  by (auto simp: away_def)

lemma round_up_p_away:
  shows "round_up_p mode \<bar>int d\<bar> e n q = away mode d e n (mag_val (mag q))"
proof -
  obtain q' r' where q': "bi_divmod_small q 10 = (q', r')" by fastforce
  then have "mag_val (mag q) = mag_val (mag q') * 10 + unat r'" "unat r' < 10"
    using bi_divmod_small_correct [of 10 q q' r'] by simp_all
  then have "odd (mag_val (mag q)) \<longleftrightarrow> odd (unat r')" by simp
  also have "\<dots> \<longleftrightarrow> unat (r' mod 2) = 1" by (simp add: unat_mod odd_iff_mod_2_eq_one)
  also have "\<dots> \<longleftrightarrow> r' mod 2 = 1" by (simp add: word_unat_eq_iff)
  finally show ?thesis
    by (cases mode) (auto simp: round_up_p_def away_def q')
qed

lemma mag_bump:
  assumes "bi_wf q"
  shows "mag_val (mag (bi_add \<lparr>neg = False, mag = mag q\<rparr> (bi_from_i64 1))) = mag_val (mag q) + 1"
    and "mag_wf (mag (bi_add \<lparr>neg = False, mag = mag q\<rparr> (bi_from_i64 1)))"
proof -
  have wf: "bi_wf \<lparr>neg = False, mag = mag q\<rparr>" "bi_wf (bi_from_i64 1)"
    using assms bi_pow10_wf [of 0] by (simp_all add: bi_wf_def)
  then have "bi_val (bi_add \<lparr>neg = False, mag = mag q\<rparr> (bi_from_i64 1)) = int (mag_val (mag q)) + 1"
    by (simp add: bi_add_val bi_val_make)
  then show "mag_val (mag (bi_add \<lparr>neg = False, mag = mag q\<rparr> (bi_from_i64 1))) = mag_val (mag q) + 1"
    using abs_bi_val [of "bi_add \<lparr>neg = False, mag = mag q\<rparr> (bi_from_i64 1)"] by linarith
  show "mag_wf (mag (bi_add \<lparr>neg = False, mag = mag q\<rparr> (bi_from_i64 1)))"
    by (simp add: bi_wf_mag)
qed

lemma divide_tail_val:
  assumes "bi_wf q" "bi_wf r" "neg q \<longleftrightarrow> mag_val (mag q) \<noteq> 0 \<and> signs"
  defines "f \<equiv> mag_val (mag q) div 10" and "d \<equiv> mag_val (mag q) mod 10"
    and "e \<equiv> mag_val (mag r) = 0" and "n \<equiv> mag_val (mag q) \<noteq> 0 \<and> signs"
  shows "bi_val (divide_tail mode signs q r)
      = (if n then -1 else 1) * (int f + (if away mode d e n f then 1 else 0))"
    and "bi_wf (divide_tail mode signs q r)"
proof -
  obtain quot disc where qd: "bi_divmod_small q 10 = (quot, disc)" by fastforce
  have v: "mag_val (mag q) = mag_val (mag quot) * 10 + unat disc" "unat disc < 10" "bi_wf quot"
    using bi_divmod_small_correct [of 10 q quot disc] qd by simp_all
  then have f: "mag_val (mag quot) = f" "unat disc = d" by (simp_all add: f_def d_def)
  have e: "bi_is_zero r \<longleftrightarrow> e"
    using mag_val_eq_0_iff [OF bi_wf_mag [OF assms(2)]] by (simp add: e_def bi_is_zero_def)
  have nz: "bi_is_zero q \<longleftrightarrow> mag_val (mag q) = 0"
    using mag_val_eq_0_iff [OF bi_wf_mag [OF assms(1)]] by (simp add: bi_is_zero_def)
  have neg: "neg q \<or> (signs \<and> \<not> bi_is_zero q) \<longleftrightarrow> n"
    by (auto simp: assms(3) nz n_def)
  have up: "round_up_p mode \<bar>int (unat disc)\<bar> (bi_is_zero r) n quot = away mode d e n f"
    unfolding round_up_p_away e f ..
  define m where "m = (if away mode d e n f
      then mag (bi_add \<lparr>neg = False, mag = mag quot\<rparr> (bi_from_i64 1)) else mag quot)"
  have m: "mag_wf m" "mag_val m = f + (if away mode d e n f then 1 else 0)"
    using mag_bump [OF v(3)] v(3) by (auto simp: m_def f bi_wf_mag)
  have "divide_tail mode signs q r = \<lparr>neg = n \<and> m \<noteq> [], mag = m\<rparr>"
    unfolding divide_tail_def neg Let_def qd m_def split_conv up
    by (cases quot) (simp add: bi_is_zero_def)
  then show "bi_val (divide_tail mode signs q r)
      = (if n then -1 else 1) * (int f + (if away mode d e n f then 1 else 0))"
    and "bi_wf (divide_tail mode signs q r)"
    using m mag_val_eq_0_iff [OF m(1)] by (auto simp: bi_val_make bi_wf_alt)
qed

lemma bd_divide_tail:
  assumes "\<not> bi_is_zero (coef y)" "unat (scale x) \<le> unat sc + 1 + unat (scale y)"
    and "unat sc + 1 + unat (scale y) < 2 ^ 32 + unat (scale x)"
    and "bi_divmod (bi_mul (coef x) (bi_pow10 (unat sc + 1 + unat (scale y) - unat (scale x)))) (coef y)
      = Some (q, r)"
  shows "bd_divide x y sc mode
    = Some \<lparr>coef = divide_tail mode (neg (coef x) \<noteq> neg (coef y)) q r, scale = sc\<rparr>"
proof -
  define s where "s = int (unat sc) + 1 + int (unat (scale y)) - int (unat (scale x))"
  have s: "0 \<le> s" "nat s = unat sc + 1 + unat (scale y) - unat (scale x)" "s < 2 ^ 32"
    using assms(2,3) of_nat_less_iff [of "unat sc + 1 + unat (scale y)" "2 ^ 32 + unat (scale x)", where 'a = int]
    unfolding s_def of_nat_add of_nat_power of_nat_numeral of_nat_1 by linarith+
  then have "unat (of_int s :: u32) = unat sc + 1 + unat (scale y) - unat (scale x)"
    by (simp add: unat_of_int_u32)
  then have "divide_num x y sc = Some (bi_mul (coef x) (bi_pow10 (unat sc + 1 + unat (scale y) - unat (scale x))))"
    unfolding divide_num_def s_def [symmetric] Let_def using s(1) by simp
  then show ?thesis using assms(1,4)
    by (simp add: bd_divide_def)
qed

lemma digit_quotient:
  fixes A B :: nat
  assumes "0 < B"
  shows "(of_nat A :: rat) / (10 * of_nat B)
    = of_nat (A div B div 10) + (of_nat (A div B mod 10) + of_nat (A mod B) / of_nat B) / 10"
proof -
  have split: "(of_nat A :: rat) / (10 * of_nat B) = of_nat k + (of_nat d + of_nat r / of_nat B) / 10"
    if "A = B * (10 * k + d) + r" for k d r
    using assms unfolding that by (simp add: field_simps)
  show ?thesis by (rule split) simp
qed

lemma bd_quotient_scaled:
  assumes "sx \<le> s + 1 + sy" "bi_wf a"
  shows "(of_int (bi_val a) / 10 ^ sx) / (of_int m / 10 ^ sy) * 10 ^ s
    = (of_int (bi_val (bi_mul a (bi_pow10 (s + 1 + sy - sx)))) / (10 * of_int m) :: rat)"
proof -
  have "(10 :: rat) ^ (s + 1 + sy - sx) * 10 ^ sx = 10 * (10 ^ s * 10 ^ sy)"
    using assms(1) by (simp flip: power_add)
  then have p: "(10 :: rat) ^ (s + 1 + sy - sx) = 10 * (10 ^ s * 10 ^ sy) / 10 ^ sx"
    by (simp add: field_simps)
  show ?thesis
    unfolding bi.rescale_val [OF assms(2)] of_int_mult of_int_power of_int_numeral p
    by (simp add: field_simps)
qed

text \<open>The rounded quotient of magnitudes \<open>A\<close> and \<open>B\<close>, with a sign.\<close>

lemma divide_digits_round:
  fixes A B :: nat and signs :: bool
  assumes "0 < B"
  defines "z \<equiv> (if signs then -1 else 1) * ((of_nat A :: rat) / (10 * of_nat B))"
  assumes ok: "mode \<in> {Down, HalfUp, HalfEven} \<or> 0 \<le> z \<or> z \<le> - 1 / 10"
  defines "n \<equiv> A div B \<noteq> 0 \<and> signs"
  shows "(if n then -1 else 1) * (int (A div B div 10)
      + (if away mode (A div B mod 10) (A mod B = 0) n (A div B div 10) then 1 else 0)) = round_spec mode z"
proof -
  define w where "w = (of_nat A :: rat) / (10 * of_nat B)"
  define rho where "rho = (of_nat (A mod B) :: rat) / of_nat B"
  have w: "w = of_nat (A div B div 10) + (of_nat (A div B mod 10) + rho) / 10"
    unfolding w_def rho_def by (rule digit_quotient [OF assms(1)])
  have rho: "0 \<le> rho" "rho < 1" "rho = 0 \<longleftrightarrow> A mod B = 0"
    using assms(1) by (simp_all add: rho_def)
  have d: "A div B mod 10 < 10" by simp
  have w0: "0 \<le> w" "w = 0 \<longleftrightarrow> A = 0" using assms(1) by (simp_all add: w_def)
  note pos = round_spec_nonneg [OF w d rho(1,2), of mode, unfolded rho(3)]
  note negc = round_spec_neg [OF w d rho(1,2), of mode, unfolded rho(3)]
  show ?thesis
  proof (cases "signs \<and> A \<noteq> 0")
    case False
    then have "z = w" "\<not> n" using assms(1) by (auto simp: z_def w_def n_def)
    then show ?thesis using pos by simp
  next
    case True
    then have z: "z = - w" "0 < w" using w0 by (auto simp: z_def w_def)
    show ?thesis
    proof (cases "A div B = 0")
      case False
      then have n using True by (simp add: n_def)
      then show ?thesis using negc z by simp
    next
      case small: True
      then have "A < B" using assms(1) by (simp add: div_eq_0_iff)
      then have "(of_nat A :: rat) < of_nat B" by simp
      then have "w < 1 / 10" using assms(1) by (simp add: w_def field_simps)
      then have "mode \<in> {Down, HalfUp, HalfEven}" using ok z by auto
      moreover from this have "away mode 0 (A mod B = 0) True 0 = away mode 0 (A mod B = 0) n 0"
        by (rule away_unsigned)
      moreover have "\<not> away mode 0 e m 0" if "mode \<in> {Down, HalfUp, HalfEven}" for e m
        using that by (auto simp: away_def)
      ultimately show ?thesis
        using negc z small by simp
    qed
  qed
qed

theorem bd_divide_rounds:
  assumes "bd_wf x" "bd_wf y"
    and "unat (scale x) \<le> unat sc + 1 + unat (scale y)"
    and "unat sc + 1 + unat (scale y) < 2 ^ 32 + unat (scale x)"
  defines "z \<equiv> bd_val x / bd_val y * 10 ^ unat sc"
  assumes "bd_val y \<noteq> 0" "mode \<in> {Down, HalfUp, HalfEven} \<or> 0 \<le> z \<or> z \<le> - 1 / 10"
  shows "\<exists>d. bd_divide x y sc mode = Some d \<and> bd_wf d \<and> scale d = sc
    \<and> bi_val (coef d) = round_spec mode z"
proof -
  define num where "num = bi_mul (coef x) (bi_pow10 (unat sc + 1 + unat (scale y) - unat (scale x)))"
  define A B where "A = mag_val (mag num)" and "B = mag_val (mag (coef y))"
  have wf: "bi_wf num" "bi_wf (coef y)" "bi_wf (coef x)" using assms(1,2) by (simp_all add: num_def bd_wf_def)
  have "bi_val (coef y) \<noteq> 0" using assms(6) by (auto simp: bd_val_def)
  then have nz: "\<not> bi_is_zero (coef y)" "0 < B"
    using wf(2) abs_bi_val [of "coef y"] by (auto simp: bi_is_zero_iff B_def)
  obtain q r where qr: "bi_divmod num (coef y) = Some (q, r)" "bi_wf q" "bi_wf r"
    "mag_val (mag q) = A div B" "mag_val (mag r) = A mod B"
    "neg q \<longleftrightarrow> mag_val (mag q) \<noteq> 0 \<and> neg num \<noteq> neg (coef y)"
    by (rule bi_divmod_mag [OF wf(1,2) nz(1)]) (simp add: A_def B_def)
  have sgn: "neg num = neg (coef x)" if "A \<noteq> 0"
    using wf unfolding neg_iff_bi_val [OF wf(1)] neg_iff_bi_val [OF wf(3)]
    by (simp add: num_def bi.rescale_val mult_less_0_iff)
  have A0: "A div B \<noteq> 0 \<Longrightarrow> A \<noteq> 0" by (cases "A = 0") auto
  have val: "bi_val num = (if neg num then - int A else int A)"
    "bi_val (coef y) = (if neg (coef y) then - int B else int B)"
    by (simp_all add: bi_val_def A_def B_def)
  have "z = of_int (bi_val num) / (10 * of_int (bi_val (coef y)))"
    unfolding z_def bd_val_def num_def by (rule bd_quotient_scaled [OF assms(3) wf(3)])
  also have "\<dots> = (if neg (coef x) \<noteq> neg (coef y) then -1 else 1) * (of_nat A / (10 * of_nat B))"
    using sgn by (cases "A = 0") (auto simp: val)
  finally have z: "z = (if neg (coef x) \<noteq> neg (coef y) then -1 else 1) * (of_nat A / (10 * of_nat B))" .
  have q: "neg q \<longleftrightarrow> mag_val (mag q) \<noteq> 0 \<and> (neg (coef x) \<noteq> neg (coef y))"
    using qr(4,6) sgn A0 by (cases "A = 0") simp_all
  have "bi_val (divide_tail mode (neg (coef x) \<noteq> neg (coef y)) q r) = round_spec mode z"
    unfolding divide_tail_val(1) [OF qr(2,3) q] qr(4,5) z
    using assms(7) z by (intro divide_digits_round nz) simp
  then show ?thesis
    using bd_divide_tail [OF nz(1) assms(3,4) qr(1) [unfolded num_def]]
      divide_tail_val(2) [OF qr(2,3) q] by (simp add: bd_wf_def)
qed

section \<open>Printing and parsing\<close>

lemma split_first_none: "(\<And>c. c \<in> set s \<Longrightarrow> \<not> P c) \<Longrightarrow> split_first P s = (s, None)"
proof -
  assume a: "\<And>c. c \<in> set s \<Longrightarrow> \<not> P c"
  then have "takeWhile (\<lambda>c. \<not> P c) s = s" "dropWhile (\<lambda>c. \<not> P c) s = []"
    by (simp_all add: takeWhile_eq_all_conv dropWhile_eq_Nil_conv)
  then show ?thesis by (simp only: split_first_def list.case)
qed

lemma split_first_some:
  "(\<And>c. c \<in> set a \<Longrightarrow> \<not> P c) \<Longrightarrow> P x \<Longrightarrow> split_first P (a @ x # b) = (a, Some b)"
  by (simp add: split_first_def takeWhile_append dropWhile_append3)

lemma bi_parse_digits:
  assumes "digits_val 10 0 s = Some (mag_val (mag c))" "bi_wf c" "\<not> neg c"
  shows "bi_parse s 10 = Some c"
proof -
  obtain r where r: "bi_parse s 10 = Some r" "bi_val r = int (mag_val (mag c))"
    using bi_parse_val(1) [of 10 s] assms(1) by auto
  moreover have "bi_wf r" using bi_parse_val(2) [OF _ r(1)] by simp
  ultimately show ?thesis
    using assms(2,3) bi_val_inject [of r c] by (simp add: bi_val_def)
qed

lemma digits_val_zeros: "digits_val 10 0 (replicate k (ch CHR ''0'') @ s) = digits_val 10 0 s"
  by (induction k) (simp_all add: to_digit_def)

lemma digit_chars:
  assumes "c \<in> set (dec_nat n) \<or> c \<in> set (replicate k (ch CHR ''0''))"
  shows "c \<noteq> ch CHR ''e''" "c \<noteq> ch CHR ''E''" "c \<noteq> ch CHR ''.''"
  using assms dec_nat_digits [of c n] by auto

text \<open>A literal \<open>int.frac\<close> of digits.\<close>

lemma bd_parse_point:
  assumes "\<And>c. c \<in> set a \<union> set b \<Longrightarrow> ch CHR ''0'' \<le> c \<and> c \<le> ch CHR ''9''"
    and "digits_val 10 0 (a @ b) = Some (mag_val (mag (coef d)))" "bd_wf d" "\<not> neg (coef d)"
    and "length b = unat (scale d)"
  shows "bd_parse (a @ str ''.'' @ b) = Some d"
proof -
  have "split_first (\<lambda>c. c = ch CHR ''e'' \<or> c = ch CHR ''E'') (a @ str ''.'' @ b) = (a @ str ''.'' @ b, None)"
    using assms(1) by (intro split_first_none) fastforce
  moreover have "split_first (\<lambda>c. c = ch CHR ''.'') (a @ str ''.'' @ b) = (a, Some b)"
    using assms(1) split_first_some [of a "\<lambda>c. c = ch CHR ''.''" "ch CHR ''.''" b] by fastforce
  moreover have "bi_parse (a @ b) 10 = Some (coef d)"
    using assms(2-4) by (intro bi_parse_digits) (auto simp: bd_wf_def)
  ultimately show ?thesis
    using assms(5) uint_u32 [of "scale d"] by (simp add: bd_parse_def Let_def)
qed

lemma bd_parse_whole:
  assumes "\<And>c. c \<in> set a \<Longrightarrow> ch CHR ''0'' \<le> c \<and> c \<le> ch CHR ''9''"
    and "digits_val 10 0 a = Some (mag_val (mag (coef d)))" "bd_wf d" "\<not> neg (coef d)" "scale d = 0"
  shows "bd_parse a = Some d"
proof -
  have "split_first (\<lambda>c. c = ch CHR ''e'' \<or> c = ch CHR ''E'') a = (a, None)"
    "split_first (\<lambda>c. c = ch CHR ''.'') a = (a, None)"
    using assms(1) by (force intro: split_first_none)+
  moreover have "bi_parse a 10 = Some (coef d)"
    using assms(2-4) by (intro bi_parse_digits) (auto simp: bd_wf_def)
  ultimately show ?thesis
    using assms(5) by (simp add: bd_parse_def Let_def)
qed

lemma bd_to_decimal_parse:
  assumes "bd_wf d" "\<not> neg (coef d)"
  shows "bd_parse (bd_to_decimal d) = Some d"
proof -
  define ds where "ds = dec_nat (mag_val (mag (coef d)))"
  have "bi_wf \<lparr>neg = False, mag = mag (coef d)\<rparr>" using assms(1) by (simp add: bd_wf_def bi_wf_def)
  then have ds: "bi_to_decimal \<lparr>neg = False, mag = mag (coef d)\<rparr> = ds"
    by (simp add: bi_to_decimal_eq ds_def)
  have val: "digits_val 10 0 ds = Some (mag_val (mag (coef d)))"
    by (simp add: ds_def digits_val_dec_nat)
  have dig: "ch CHR ''0'' \<le> c \<and> c \<le> ch CHR ''9''"
    if "c \<in> set ds \<or> c \<in> set (replicate k (ch CHR ''0''))" for c k
    using that dec_nat_digits by (auto simp: ds_def)
  consider "scale d = 0" | "scale d \<noteq> 0" "length ds \<le> unat (scale d)" | "scale d \<noteq> 0" "unat (scale d) < length ds"
    by linarith
  then show ?thesis
  proof cases
    case 1
    then show ?thesis using assms dig val bd_parse_whole [of ds d] by (simp add: bd_to_decimal_def ds)
  next
    case 2
    define z where "z = replicate (unat (scale d) - length ds) (ch CHR ''0'') @ ds"
    have "bd_parse (str ''0'' @ str ''.'' @ z) = Some d"
    proof (rule bd_parse_point [OF _ _ assms])
      show "digits_val 10 0 (str ''0'' @ z) = Some (mag_val (mag (coef d)))"
        using val digits_val_zeros [of "Suc (unat (scale d) - length ds)" ds] by (simp add: z_def)
    qed (use 2 dig in \<open>auto simp: z_def\<close>)
    then show ?thesis using 2 assms by (simp add: bd_to_decimal_def ds z_def)
  next
    case 3
    define k where "k = length ds - unat (scale d)"
    have "bd_parse (take k ds @ str ''.'' @ drop k ds) = Some d"
    proof (rule bd_parse_point [OF _ _ assms])
      show "ch CHR ''0'' \<le> c \<and> c \<le> ch CHR ''9''" if "c \<in> set (take k ds) \<union> set (drop k ds)" for c
        using that dig by (auto dest: in_set_takeD in_set_dropD)
    qed (use 3 val in \<open>auto simp: k_def\<close>)
    then show ?thesis using 3 assms by (simp add: bd_to_decimal_def ds k_def Let_def)
  qed
qed

section \<open>Where \<open>divide\<close> departs from its rounding modes\<close>

lemma divide_tail_divmod:
  assumes "bi_wf num" "bi_wf y" "\<not> bi_is_zero y"
    and "mag_val (mag num) div mag_val (mag y) \<noteq> 0 \<Longrightarrow> neg num = s"
  obtains q r where "bi_divmod num y = Some (q, r)" "bi_wf q" "bi_wf r"
    "mag_val (mag q) = mag_val (mag num) div mag_val (mag y)"
    "mag_val (mag r) = mag_val (mag num) mod mag_val (mag y)"
    "neg q \<longleftrightarrow> mag_val (mag q) \<noteq> 0 \<and> s \<noteq> neg y"
  by (rule bi_divmod_mag [OF assms(1-3)], rule that) (use assms(4) in auto)

text \<open>
  A negative quotient that is zero at the working scale has lost its sign: whenever
  \<open>|x| * 10^(sc + 1) < |y|\<close>, \<open>FLOOR\<close> returns 0 and \<open>UP\<close> and \<open>CEILING\<close> return \<open>+1\<close>.
\<close>

lemma divide_tiny_negative:
  assumes "bi_wf a" "bi_wf b" "bi_val a < 0" "0 < bi_val b" "- bi_val a * 10 < bi_val b"
  shows "\<exists>d. bd_divide \<lparr>coef = a, scale = 0\<rparr> \<lparr>coef = b, scale = 0\<rparr> 0 mode = Some d
    \<and> bi_val (coef d) = (if mode \<in> {Up, Ceiling} then 1 else 0)"
proof -
  define num where "num = bi_mul a (bi_pow10 1)"
  have num: "bi_wf num" "bi_val num = bi_val a * 10"
    using assms(1) bi.rescale_val [of a 1] by (simp_all add: num_def)
  have lt: "mag_val (mag num) < mag_val (mag b)"
    using assms abs_bi_val [of num] abs_bi_val [of b] num by linarith
  have pos: "mag_val (mag num) \<noteq> 0" using assms(3) abs_bi_val [of num] num by linarith
  have nz: "\<not> bi_is_zero b" using assms by (simp add: bi_is_zero_iff)
  obtain q r where qr: "bi_divmod num b = Some (q, r)" "bi_wf q" "bi_wf r"
    "mag_val (mag q) = 0" "mag_val (mag r) = mag_val (mag num)"
    "neg q \<longleftrightarrow> mag_val (mag q) \<noteq> 0 \<and> neg a \<noteq> neg b"
    by (rule divide_tail_divmod [OF num(1) assms(2) nz, of "neg a"]) (use lt in simp_all)
  have "bi_divmod (bi_mul a (bi_pow10 (unat (0 :: u32) + 1 + unat (0 :: u32) - unat (0 :: u32)))) b = Some (q, r)"
    using qr(1) by (simp add: num_def)
  then have "bd_divide \<lparr>coef = a, scale = 0\<rparr> \<lparr>coef = b, scale = 0\<rparr> 0 mode
      = Some \<lparr>coef = divide_tail mode (neg a \<noteq> neg b) q r, scale = 0\<rparr>"
    using bd_divide_tail [of "\<lparr>coef = b, scale = 0\<rparr>" "\<lparr>coef = a, scale = 0\<rparr>" 0 q r mode] nz by simp
  then show ?thesis
    using divide_tail_val(1) [OF qr(2,3,6), of mode] qr(4,5) pos by (cases mode) (simp_all add: away_def)
qed

text \<open>
  A dividend with more digits than the working scale is truncated before the division, so
  its dropped digits no longer count as inexact: with two digits too many, \<open>(10 * k + j) / 100\<close>
  over 1 at scale 0 gives the same result under \<open>UP\<close> for every dropped last digit \<open>j\<close>.
\<close>

lemma divide_up_drops_sticky:
  assumes "bi_wf a" "bi_wf a'" "0 \<le> bi_val a" "0 \<le> bi_val a'" "bi_val a div 10 = bi_val a' div 10"
    and "bi_wf b" "0 < bi_val b"
  shows "bd_divide \<lparr>coef = a, scale = 2\<rparr> \<lparr>coef = b, scale = 0\<rparr> 0 Up
    = bd_divide \<lparr>coef = a', scale = 2\<rparr> \<lparr>coef = b, scale = 0\<rparr> 0 Up"
proof -
  have num: "\<exists>q. divide_num \<lparr>coef = c, scale = 2\<rparr> \<lparr>coef = b, scale = 0\<rparr> 0 = Some q \<and> bi_wf q
      \<and> bi_val q = bi_val c div 10 \<and> \<not> neg c" if "bi_wf c" "0 \<le> bi_val c" for c
  proof -
    define p where "p = bi_pow10 1"
    have p: "bi_wf p" "bi_val p = 10" using bi_pow10_wf [of 1] bi_pow10_val [of 1] by (simp_all add: p_def)
    obtain q r where q: "bi_divmod c p = Some (q, r)" "bi_wf q" "bi_val q = bi_val c sdiv bi_val p"
      by (rule bi_divmod_cases [OF \<open>bi_wf c\<close> p(1)]) (simp_all add: p(2))
    have "divide_num \<lparr>coef = c, scale = 2\<rparr> \<lparr>coef = b, scale = 0\<rparr> 0 = map_option fst (bi_divmod c p)"
      unfolding divide_num_def p_def by (simp del: bi_pow10.simps)
    moreover have "bi_val c sdiv 10 = bi_val c div 10"
      using \<open>0 \<le> bi_val c\<close> by (auto simp: signed_divide_int_def sgn_if)
    moreover have "\<not> neg c" using that by (simp add: neg_iff_bi_val)
    ultimately show ?thesis using q p(2) by simp
  qed
  obtain q q' where
    q: "divide_num \<lparr>coef = a, scale = 2\<rparr> \<lparr>coef = b, scale = 0\<rparr> 0 = Some q" "bi_wf q" "bi_val q = bi_val a div 10"
    and q': "divide_num \<lparr>coef = a', scale = 2\<rparr> \<lparr>coef = b, scale = 0\<rparr> 0 = Some q'" "bi_wf q'"
      "bi_val q' = bi_val a' div 10"
    and "\<not> neg a" "\<not> neg a'"
    using num [OF assms(1,3)] num [OF assms(2,4)] by auto
  have "q = q'" by (rule bi_val_inject [OF q(2) q'(2)]) (simp add: q(3) q'(3) assms(5))
  then show ?thesis
    using q(1) q'(1) \<open>\<not> neg a\<close> \<open>\<not> neg a'\<close> by (simp add: bd_divide_def split: option.split)
qed

section \<open>What the component promises\<close>

text \<open>
  C4: sums, differences and comparisons of decimals are exact on the rationals they
  denote whatever their scales, and so is a product whose scales add up within \<open>u32\<close>.
\<close>

theorem bigdec_exact:
  assumes "bd_wf x" "bd_wf y"
  shows "bd_val (bd_add x y) = bd_val x + bd_val y \<and> bd_val (bd_sub x y) = bd_val x - bd_val y
    \<and> bd_cmp x y = cmp_of (bd_val x) (bd_val y)
    \<and> (unat (scale x) + unat (scale y) < 2 ^ 32 \<longrightarrow> bd_val (bd_mul x y) = bd_val x * bd_val y)
    \<and> bd_wf (bd_add x y) \<and> bd_wf (bd_sub x y) \<and> bd_wf (bd_mul x y)"
  using assms by (simp add: bd_add_val bd_sub_val bd_mul_val bd_cmp_val bd_ops_wf)

theorem bigdec_exact_witness:
  "bd_val (bd_mul \<lparr>coef = \<lparr>neg = True, mag = [1999]\<rparr>, scale = 2\<rparr> \<lparr>coef = \<lparr>neg = False, mag = [5]\<rparr>, scale = 1\<rparr>)
     = - 9995 / 1000"
  using bigdec_exact [of "\<lparr>coef = \<lparr>neg = True, mag = [1999]\<rparr>, scale = 2\<rparr>"
      "\<lparr>coef = \<lparr>neg = False, mag = [5]\<rparr>, scale = 1\<rparr>"]
  by (simp add: bd_wf_def bd_val_def [of "\<lparr>coef = _, scale = _\<rparr>"] bi_wf_make bi_val_make)

text \<open>
  C5: \<open>div_exact\<close> succeeds exactly when one of the first 35 decimal extensions of the
  dividend's coefficient is a multiple of the divisor's, and then returns the exact
  quotient.
\<close>

theorem bigdec_div_exact:
  assumes "bd_wf x" "bd_wf y" "unat (scale x) + 35 \<le> 2 ^ 32"
  shows "(bd_div_exact x y \<noteq> None \<longleftrightarrow>
      bi_val (coef y) \<noteq> 0 \<and> (\<exists>k \<le> 34. bi_val (coef y) dvd bi_val (coef x) * 10 ^ k))
    \<and> (\<forall>d. bd_div_exact x y = Some d \<longrightarrow> bd_wf d \<and> bd_val d = bd_val x / bd_val y)"
proof (cases "bi_val (coef y) = 0")
  case True
  then show ?thesis using assms by (simp add: bd_div_exact_def bd_wf_def bi_is_zero_iff)
next
  case False
  have "(case div_exact_loop (Suc MAX_EXTRA) 0 (coef x) (coef y) (int (unat (scale x)) - int (unat (scale y))) of
        Some d \<Rightarrow> bd_wf d \<and> (\<exists>k < 0 + Suc MAX_EXTRA. bi_val (coef y) dvd bi_val (coef x) * 10 ^ k)
          \<and> bd_val d = of_int (bi_val (coef x)) / of_int (bi_val (coef y)) * 10 ^ unat (scale y) / 10 ^ unat (scale x)
      | None \<Rightarrow> \<forall>k. 0 \<le> k \<and> k < 0 + Suc MAX_EXTRA \<longrightarrow> \<not> bi_val (coef y) dvd bi_val (coef x) * 10 ^ k)"
    using assms False by (intro div_exact_loop_val) (simp_all add: bd_wf_def MAX_EXTRA_def)
  moreover have "bd_div_exact x y
      = div_exact_loop (Suc MAX_EXTRA) 0 (coef x) (coef y) (int (unat (scale x)) - int (unat (scale y)))"
    using False assms by (simp add: bd_div_exact_def bd_wf_def bi_is_zero_iff)
  moreover have "k < 0 + Suc MAX_EXTRA \<longleftrightarrow> k \<le> 34" for k by (auto simp: MAX_EXTRA_def)
  ultimately show ?thesis
    using False by (auto simp del: div_exact_loop.simps simp: bd_val_def split: option.splits)
qed

theorem bigdec_div_exact_witness:
  "\<exists>d. bd_div_exact \<lparr>coef = \<lparr>neg = False, mag = [1]\<rparr>, scale = 0\<rparr> \<lparr>coef = \<lparr>neg = False, mag = [8]\<rparr>, scale = 0\<rparr> = Some d
     \<and> bd_val d = 1 / 8"
proof -
  have "\<exists>k \<le> 34. (8 :: int) dvd 10 ^ k" by (intro exI [of _ 3]) simp
  then show ?thesis
    using bigdec_div_exact [of "\<lparr>coef = \<lparr>neg = False, mag = [1]\<rparr>, scale = 0\<rparr>"
      "\<lparr>coef = \<lparr>neg = False, mag = [8]\<rparr>, scale = 0\<rparr>"]
    by (auto simp: bd_wf_def bi_wf_make bi_val_make bd_val_def [of "\<lparr>coef = _, scale = _\<rparr>"])
qed

text \<open>
  C6: \<open>divide\<close> returns the exact quotient rounded to \<open>sc\<close> digits by the mode, under three
  conditions: the digits by which the code shifts the dividend number fewer than 2 to the 32;
  the dividend has at most one digit more than the working scale keeps (its scale is
  at most \<open>sc + 1\<close> plus the divisor's); and, for the modes \<open>Up\<close>, \<open>Ceiling\<close> and \<open>Floor\<close>, the quotient
  is not a negative one closer to zero than a tenth of the last digit kept, where the next
  property shows what the code answers instead.
\<close>

theorem bigdec_divide_rounds:
  assumes "bd_wf x" "bd_wf y" "bd_val y \<noteq> 0"
    and "unat (scale x) \<le> unat sc + 1 + unat (scale y)"
    and "unat sc + 1 + unat (scale y) < 2 ^ 32 + unat (scale x)"
    and "mode \<in> {Down, HalfUp, HalfEven} \<or> 0 \<le> bd_val x / bd_val y * 10 ^ unat sc
      \<or> bd_val x / bd_val y * 10 ^ unat sc \<le> - 1 / 10"
  shows "\<exists>d. bd_divide x y sc mode = Some d \<and> bd_wf d \<and> scale d = sc
    \<and> bi_val (coef d) = round_spec mode (bd_val x / bd_val y * 10 ^ unat sc)"
  using assms by (intro bd_divide_rounds)

theorem bigdec_divide_rounds_witness:
  "\<exists>d. bd_divide \<lparr>coef = \<lparr>neg = True, mag = [1]\<rparr>, scale = 0\<rparr> \<lparr>coef = \<lparr>neg = False, mag = [3]\<rparr>, scale = 0\<rparr> 2 Floor = Some d
     \<and> scale d = 2 \<and> bi_val (coef d) = - 34"
  using bigdec_divide_rounds [of "\<lparr>coef = \<lparr>neg = True, mag = [1]\<rparr>, scale = 0\<rparr>"
      "\<lparr>coef = \<lparr>neg = False, mag = [3]\<rparr>, scale = 0\<rparr>" 2 Floor]
  by (auto simp: bd_wf_def bi_wf_make bi_val_make bd_val_def [of "\<lparr>coef = _, scale = _\<rparr>"] round_spec_def floor_eq_iff)

text \<open>
  A non-negative decimal printed by \<open>to_decimal\<close> is read back by \<open>parse\<close> with the
  same coefficient and the same scale, trailing zeros included.
\<close>

theorem bigdec_decimal_roundtrip:
  assumes "bd_wf d" "\<not> neg (coef d)"
  shows "bd_parse (bd_to_decimal d) = Some d"
  using assms by (rule bd_to_decimal_parse)

theorem bigdec_decimal_roundtrip_example:
  "bd_parse (bd_to_decimal \<lparr>coef = \<lparr>neg = False, mag = [500]\<rparr>, scale = 4\<rparr>)
     = Some \<lparr>coef = \<lparr>neg = False, mag = [500]\<rparr>, scale = 4\<rparr>"
  using bigdec_decimal_roundtrip [of "\<lparr>coef = \<lparr>neg = False, mag = [500]\<rparr>, scale = 4\<rparr>"]
  by (simp add: bd_wf_def bi_wf_make)

lemma round_spec_tiny:
  fixes w :: rat
  assumes "0 < w" "w < 1 / 10"
  shows "round_spec mode (- w) = (if mode \<in> {Up, Floor} then - 1 else 0)"
proof -
  have fl: "\<lfloor>w\<rfloor> = 0" "\<lceil>w\<rceil> = 1" "\<lfloor>w + 1 / 2\<rfloor> = 0"
    using assms by (auto simp: floor_eq_iff ceiling_eq_iff)
  have ab: "\<bar>- w\<bar> = w" using assms by simp
  have "1 / 2 - - w = w + 1 / 2" by simp
  then show ?thesis
    using assms fl unfolding round_spec_def Let_def
    by (cases mode; simp only: rounding_mode.case fl floor_minus ceiling_minus ab) auto
qed

text \<open>
  C7: a negative quotient below one unit of the working scale loses its sign before it
  is rounded: when \<open>|a| * 10 < b\<close>, \<open>divide\<close> at scale 0 gives \<open>+1\<close> under \<open>UP\<close> and
  \<open>CEILING\<close> and 0 under every other mode, where the modes ask for \<open>-1\<close> under \<open>UP\<close> and
  \<open>FLOOR\<close> and 0 otherwise.
\<close>

theorem bigdec_divide_tiny_negative:
  assumes "bi_wf a" "bi_wf b" "bi_val a < 0" "0 < bi_val b" "- bi_val a * 10 < bi_val b"
  shows "\<exists>d. bd_divide \<lparr>coef = a, scale = 0\<rparr> \<lparr>coef = b, scale = 0\<rparr> 0 mode = Some d
    \<and> bi_val (coef d) = (if mode \<in> {Up, Ceiling} then 1 else 0)
    \<and> round_spec mode (of_int (bi_val a) / of_int (bi_val b)) = (if mode \<in> {Up, Floor} then - 1 else 0)"
proof -
  have w: "10 * (of_int (- bi_val a) :: rat) < of_int (bi_val b)"
    using assms(5) by (metis of_int_less_iff of_int_mult of_int_numeral mult.commute)
  have "0 < (of_int (- bi_val a) :: rat) / of_int (bi_val b)" "(of_int (- bi_val a) :: rat) / of_int (bi_val b) < 1 / 10"
    using assms(3,4) w by (simp_all add: field_simps)
  from round_spec_tiny [OF this, of mode]
  have "round_spec mode (of_int (bi_val a) / of_int (bi_val b)) = (if mode \<in> {Up, Floor} then - 1 else 0)"
    by simp
  then show ?thesis using divide_tiny_negative [OF assms, of mode] by blast
qed

theorem bigdec_divide_tiny_negative_witness:
  "\<exists>d. bd_divide \<lparr>coef = \<lparr>neg = True, mag = [1]\<rparr>, scale = 0\<rparr> \<lparr>coef = \<lparr>neg = False, mag = [1000]\<rparr>, scale = 0\<rparr> 0 Floor = Some d
     \<and> bi_val (coef d) = 0 \<and> round_spec Floor (- 1 / 1000) = - 1"
  using bigdec_divide_tiny_negative [of "\<lparr>neg = True, mag = [1]\<rparr>" "\<lparr>neg = False, mag = [1000]\<rparr>" Floor]
  by (auto simp: bi_wf_make bi_val_make)

end
