(* ===== verification/IEEE_Float.thy ===== *)
theory IEEE_Float
  imports Complex_Main Prelude
begin

text \<open>
  The IEEE 754 binary formats behind Rust's \<open>f32\<close> and \<open>f64\<close>: a value is a NaN, an infinity
  or a sign, a mantissa and an exponent.  Results are the exact rational result rounded to
  the nearest value, ties to even.  NaN payloads are not distinguished.
\<close>

section \<open>Formats and values\<close>

record fmt =
  f_prec :: nat
  f_emin :: int
  f_emax :: int

definition f64 :: fmt where
  "f64 = \<lparr>f_prec = 53, f_emin = - 1074, f_emax = 971\<rparr>"

definition f32 :: fmt where
  "f32 = \<lparr>f_prec = 24, f_emin = - 149, f_emax = 104\<rparr>"

datatype fl = NaN | Infinite bool | Fin bool nat int

definition pow2 :: "int \<Rightarrow> rat" where
  "pow2 e = (if 0 \<le> e then 2 ^ nat e else 1 / 2 ^ nat (- e))"

fun fval :: "fl \<Rightarrow> rat" where
  "fval (Fin neg m e) = (if neg then - 1 else 1) * of_nat m * pow2 e"
| "fval _ = 0"

fun is_fin :: "fl \<Rightarrow> bool" where
  "is_fin (Fin _ _ _) = True"
| "is_fin _ = False"

text \<open>The values of a format: normal numbers use the whole mantissa, subnormal ones the least exponent.\<close>

fun fl_ok :: "fmt \<Rightarrow> fl \<Rightarrow> bool" where
  "fl_ok f (Fin neg m e) =
     (m < 2 ^ f_prec f \<and> f_emin f \<le> e \<and> e \<le> f_emax f \<and> (2 ^ (f_prec f - 1) \<le> m \<or> e = f_emin f))"
| "fl_ok f _ = True"

definition fmt_ok :: "fmt \<Rightarrow> bool" where
  "fmt_ok f \<longleftrightarrow> 0 < f_prec f \<and> f_emin f \<le> 1 - int (f_prec f) \<and> 1 \<le> f_emax f"

lemma fmt_ok_f64 [simp]: "fmt_ok f64" and fmt_ok_f32 [simp]: "fmt_ok f32"
  by (simp_all add: fmt_ok_def f64_def f32_def)

lemma pow2_pos [simp]: "0 < pow2 e"
  by (simp add: pow2_def)

lemma pow2_nonzero [simp]: "pow2 e \<noteq> 0"
  by (simp add: pow2_def)

lemma pow2_powi: "pow2 e = 2 powi e"
  by (simp add: pow2_def power_int_def power_one_over inverse_eq_divide)

lemma pow2_add: "pow2 (a + b) = pow2 a * pow2 b"
  by (simp add: pow2_powi power_int_add)

lemma pow2_minus: "pow2 (- a) = 1 / pow2 a"
  by (simp add: pow2_powi power_int_minus divide_inverse)

lemma pow2_diff: "pow2 (a - b) = pow2 a / pow2 b"
  using pow2_add [of a "- b"] by (simp add: pow2_minus)

lemma pow2_of_nat: "pow2 (int n) = 2 ^ n"
  by (simp add: pow2_def)

lemma pow2_strict: "a < b \<Longrightarrow> pow2 a < pow2 b"
proof -
  assume "a < b"
  then have "1 < pow2 (b - a)" by (simp add: pow2_def)
  then show ?thesis using pow2_add [of a "b - a"] pow2_pos [of a]
    by (metis add.commute diff_add_cancel mult.right_neutral mult_strict_left_mono)
qed

lemma pow2_less_iff [simp]: "pow2 a < pow2 b \<longleftrightarrow> a < b"
  using pow2_strict by (metis less_asym linorder_neqE_linordered_idom less_irrefl)

lemma pow2_le_iff [simp]: "pow2 a \<le> pow2 b \<longleftrightarrow> a \<le> b"
  by (simp only: not_less [symmetric] pow2_less_iff)

section \<open>Rounding\<close>

fun bits :: "nat \<Rightarrow> nat" where
  "bits n = (if n = 0 then 0 else Suc (bits (n div 2)))"

declare bits.simps [simp del]

lemma bits_0 [simp]: "bits 0 = 0"
  by (simp add: bits.simps)

lemma bits_bounds: "0 < n \<Longrightarrow> 0 < bits n \<and> 2 ^ (bits n - 1) \<le> n \<and> n < 2 ^ bits n"
proof (induction n rule: bits.induct)
  case (1 n)
  show ?case
  proof (cases "n = 1")
    case True
    then show ?thesis by (simp add: bits.simps)
  next
    case False
    then have "0 < n div 2" using "1.prems" by auto
    with 1 have IH: "0 < bits (n div 2)" "2 ^ (bits (n div 2) - 1) \<le> n div 2" "n div 2 < 2 ^ bits (n div 2)"
      by auto
    have b: "bits n = Suc (bits (n div 2))" using "1.prems" by (simp add: bits.simps)
    obtain k where k: "bits (n div 2) = Suc k" using IH(1) by (cases "bits (n div 2)") auto
    show ?thesis using IH(2,3) unfolding b k by auto
  qed
qed

lemma bits_less: "bits n \<le> k \<Longrightarrow> n < 2 ^ k"
  using bits_bounds [of n] by (cases "n = 0") (auto intro: less_le_trans power_increasing)

lemma bits_le: "n < 2 ^ k \<Longrightarrow> bits n \<le> k"
proof (cases "n = 0")
  case False
  assume "n < 2 ^ k"
  then have "(2::nat) ^ (bits n - 1) < 2 ^ k" using bits_bounds [of n] False by linarith
  then show ?thesis using power_less_imp_less_exp [of 2 "bits n - 1" k] by simp
qed simp

text \<open>The exponent of the leading bit of \<open>num / den\<close>.\<close>

definition ilog2 :: "nat \<Rightarrow> nat \<Rightarrow> int" where
  "ilog2 num den =
     (let k = int (bits num) - int (bits den)
      in if pow2 k * of_nat den \<le> of_nat num then k else k - 1)"

lemma ilog2_bounds:
  assumes "0 < num" "0 < den"
  shows "pow2 (ilog2 num den) * of_nat den \<le> of_nat num" "of_nat num < pow2 (ilog2 num den + 1) * of_nat den"
proof -
  define k where "k = int (bits num) - int (bits den)"
  have up: "of_nat n < pow2 (int (bits n))" if "0 < n" for n :: nat
    using bits_bounds [OF that] by (simp add: pow2_of_nat)
  have lo: "pow2 (int (bits n) - 1) \<le> of_nat n" if "0 < n" for n :: nat
  proof -
    have "int (bits n) - 1 = int (bits n - 1)" using bits_bounds [OF that] by simp
    then have "pow2 (int (bits n) - 1) = 2 ^ (bits n - 1)" by (simp only: pow2_of_nat)
    also have "\<dots> \<le> of_nat n" using bits_bounds [OF that] by simp
    finally show ?thesis .
  qed
  have "of_nat num < pow2 (k + 1) * pow2 (int (bits den) - 1)"
    using up [OF assms(1)] by (simp add: k_def flip: pow2_add)
  also have "\<dots> \<le> pow2 (k + 1) * of_nat den"
    using lo [OF assms(2)] by (simp add: mult_left_mono less_imp_le)
  finally have 1: "of_nat num < pow2 (k + 1) * of_nat den" .
  have "pow2 (k - 1) * of_nat den \<le> pow2 (k - 1) * pow2 (int (bits den))"
    using up [OF assms(2)] by (simp add: less_imp_le)
  also have "\<dots> \<le> of_nat num"
    using lo [OF assms(1)] by (simp add: k_def flip: pow2_add)
  finally have 2: "pow2 (k - 1) * of_nat den \<le> of_nat num" .
  show "pow2 (ilog2 num den) * of_nat den \<le> of_nat num" "of_nat num < pow2 (ilog2 num den + 1) * of_nat den"
    using 1 2 by (auto simp: ilog2_def Let_def simp flip: k_def)
qed

definition round_ties_even :: "nat \<Rightarrow> nat \<Rightarrow> nat" where
  "round_ties_even n d =
     (let q = n div d; r = n mod d
      in if d < 2 * r \<or> d = 2 * r \<and> odd q then q + 1 else q)"

definition round_fl :: "fmt \<Rightarrow> bool \<Rightarrow> nat \<Rightarrow> nat \<Rightarrow> fl" where
  "round_fl f neg num den =
     (if num = 0 then Fin neg 0 (f_emin f)
      else
        let e = max (f_emin f) (ilog2 num den - int (f_prec f - 1));
            m = (if 0 \<le> e then round_ties_even num (den * 2 ^ nat e)
                 else round_ties_even (num * 2 ^ nat (- e)) den);
            (m, e) = (if m = 2 ^ f_prec f then (2 ^ (f_prec f - 1), e + 1) else (m, e))
        in if f_emax f < e then Infinite neg else Fin neg m e)"

lemma round_ties_even_exact [simp]: "0 < d \<Longrightarrow> round_ties_even (m * d) d = m"
  by (simp add: round_ties_even_def)

text \<open>A rational that is a value of the format rounds to that value.\<close>

lemma round_fl_exact:
  assumes f: "fmt_ok f" and den: "0 < den" and x: "of_nat num = of_nat m * pow2 e * of_nat den"
    and ok: "fl_ok f (Fin neg m e)" and nz: "0 < m"
  shows "round_fl f neg num den = Fin neg m e"
proof -
  define p where "p = f_prec f"
  have p: "0 < p" using f by (simp add: fmt_ok_def p_def)
  have num: "0 < num" using x nz den by (cases num) auto
  have ok': "m < 2 ^ p" "f_emin f \<le> e" "e \<le> f_emax f" "2 ^ (p - 1) \<le> m \<or> e = f_emin f"
    using ok by (auto simp: p_def)
  note lb = ilog2_bounds [OF num den, unfolded x]
  have rd: "(0::rat) < of_nat den" using den by simp
  have lo: "pow2 (ilog2 num den) \<le> of_nat m * pow2 e" using lb(1) rd by (simp add: mult_le_cancel_right)
  have hi: "of_nat m * pow2 e < pow2 (ilog2 num den + 1)" using lb(2) rd by (simp add: mult_less_cancel_right)
  have "of_nat m < (pow2 (int p) :: rat)"
    using ok'(1) by (simp add: pow2_of_nat)
  then have "of_nat m * pow2 e < pow2 (int p + e)" by (simp add: pow2_add)
  with lo have "pow2 (ilog2 num den) < pow2 (int p + e)" by (rule le_less_trans)
  then have u: "ilog2 num den < int p + e" by simp
  have l: "int (p - 1) + e \<le> ilog2 num den" if "2 ^ (p - 1) \<le> m"
  proof -
    have "pow2 (int (p - 1)) \<le> (of_nat m :: rat)"
      using that by (simp add: pow2_of_nat)
    then have "pow2 (int (p - 1) + e) \<le> of_nat m * pow2 e" by (simp add: pow2_add)
    with hi have "pow2 (int (p - 1) + e) < pow2 (ilog2 num den + 1)" by (simp only: le_less_trans)
    then show ?thesis by simp
  qed
  have e: "max (f_emin f) (ilog2 num den - int (p - 1)) = e"
    using u l ok' p by (auto simp: max_def of_nat_diff)
  have m: "(if 0 \<le> e then round_ties_even num (den * 2 ^ nat e) else round_ties_even (num * 2 ^ nat (- e)) den) = m"
  proof (cases "0 \<le> e")
    case True
    then have "of_nat num = (of_nat (m * (den * 2 ^ nat e)) :: rat)" using x by (simp add: pow2_def)
    then have "num = m * (den * 2 ^ nat e)" by (simp only: of_nat_eq_iff)
    then show ?thesis using True den by simp
  next
    case False
    then have "of_nat (num * 2 ^ nat (- e)) = (of_nat (m * den) :: rat)" using x by (simp add: pow2_def)
    then have "num * 2 ^ nat (- e) = m * den" by (simp only: of_nat_eq_iff)
    then show ?thesis using False den by simp
  qed
  show ?thesis
    unfolding round_fl_def using num e m ok' by (simp add: Let_def flip: p_def)
qed

section \<open>Integers as floats\<close>

definition fl_of_int :: "fmt \<Rightarrow> int \<Rightarrow> fl" where
  "fl_of_int f n = round_fl f (n < 0) (nat \<bar>n\<bar>) 1"

lemma fl_of_int_0 [simp]: "fl_of_int f 0 = Fin False 0 (f_emin f)"
  by (simp add: fl_of_int_def round_fl_def)

text \<open>An integer of at most \<open>f_prec\<close> bits is a value of the format.\<close>

lemma fl_of_int_exact:
  assumes f: "fmt_ok f" and n: "\<bar>n\<bar> < 2 ^ f_prec f" "n \<noteq> 0"
  defines "j \<equiv> f_prec f - bits (nat \<bar>n\<bar>)"
  shows "fl_of_int f n = Fin (n < 0) (nat \<bar>n\<bar> * 2 ^ j) (- int j)"
  unfolding fl_of_int_def
proof (rule round_fl_exact [OF f])
  let ?a = "nat \<bar>n\<bar>" and ?p = "f_prec f"
  have a: "0 < ?a" using n(2) by simp
  have "?a < 2 ^ ?p" using n(1) by (metis abs_ge_zero nat_less_numeral_power_cancel_iff)
  then have b: "bits ?a \<le> ?p" by (rule bits_le)
  note bb = bits_bounds [OF a]
  show "of_nat ?a = of_nat (?a * 2 ^ j) * pow2 (- int j) * of_nat 1"
    by (simp add: pow2_minus pow2_of_nat)
  have "?a * 2 ^ j < 2 ^ (bits ?a + j)" using bb by (simp add: power_add)
  moreover have "2 ^ (bits ?a - 1 + j) \<le> ?a * 2 ^ j" unfolding power_add using bb by simp
  moreover have "bits ?a + j = ?p" "bits ?a - 1 + j = ?p - 1" using b bb by (simp_all add: j_def)
  moreover have "f_emin f \<le> - int j" using f bb b by (auto simp: fmt_ok_def j_def of_nat_diff)
  ultimately show "fl_ok f (Fin (n < 0) (?a * 2 ^ j) (- int j))"
    using f by (simp add: fmt_ok_def)
  show "0 < ?a * 2 ^ j" using a by simp
qed simp

lemma fval_of_int: "fmt_ok f \<Longrightarrow> \<bar>n\<bar> < 2 ^ f_prec f \<Longrightarrow> fval (fl_of_int f n) = of_int n"
  by (cases "n = 0") (auto simp: fl_of_int_exact pow2_minus pow2_of_nat of_nat_nat)
section \<open>Operations\<close>

text \<open>\<open>\<plusminus>m * 2 ^ e\<close> rounded to the format.\<close>

definition round_scaled :: "fmt \<Rightarrow> bool \<Rightarrow> nat \<Rightarrow> int \<Rightarrow> fl" where
  "round_scaled f neg m e =
     (if 0 \<le> e then round_fl f neg (m * 2 ^ nat e) 1 else round_fl f neg m (2 ^ nat (- e)))"

fun fl_conv :: "fmt \<Rightarrow> fl \<Rightarrow> fl" where
  "fl_conv f (Fin neg m e) = round_scaled f neg m e"
| "fl_conv f x = x"

fun fl_neg :: "fl \<Rightarrow> fl" where
  "fl_neg (Fin neg m e) = Fin (\<not> neg) m e"
| "fl_neg (Infinite neg) = Infinite (\<not> neg)"
| "fl_neg NaN = NaN"

fun fl_eq :: "fl \<Rightarrow> fl \<Rightarrow> bool" where
  "fl_eq NaN y = False"
| "fl_eq x NaN = False"
| "fl_eq (Infinite s) (Infinite t) = (s = t)"
| "fl_eq (Infinite s) (Fin _ _ _) = False"
| "fl_eq (Fin _ _ _) (Infinite t) = False"
| "fl_eq (Fin s m d) (Fin t n e) = (fval (Fin s m d) = fval (Fin t n e))"

fun fl_lt :: "fl \<Rightarrow> fl \<Rightarrow> bool" where
  "fl_lt NaN y = False"
| "fl_lt x NaN = False"
| "fl_lt (Infinite s) (Infinite t) = (s \<and> \<not> t)"
| "fl_lt (Infinite s) (Fin _ _ _) = s"
| "fl_lt (Fin _ _ _) (Infinite t) = (\<not> t)"
| "fl_lt (Fin s m d) (Fin t n e) = (fval (Fin s m d) < fval (Fin t n e))"

definition fl_le :: "fl \<Rightarrow> fl \<Rightarrow> bool" where
  "fl_le x y \<longleftrightarrow> fl_lt x y \<or> fl_eq x y"

fun fl_is_nan :: "fl \<Rightarrow> bool" where
  "fl_is_nan NaN = True"
| "fl_is_nan _ = False"

fun fl_is_zero :: "fl \<Rightarrow> bool" where
  "fl_is_zero (Fin _ m _) = (m = 0)"
| "fl_is_zero _ = False"

text \<open>The sum of two finite values as an integer times a power of two.\<close>

definition signed :: "bool \<Rightarrow> nat \<Rightarrow> int" where
  "signed neg m = (if neg then - int m else int m)"

fun fl_add :: "fmt \<Rightarrow> fl \<Rightarrow> fl \<Rightarrow> fl" where
  "fl_add f NaN y = NaN"
| "fl_add f x NaN = NaN"
| "fl_add f (Infinite s) (Infinite t) = (if s = t then Infinite s else NaN)"
| "fl_add f (Infinite s) (Fin _ _ _) = Infinite s"
| "fl_add f (Fin _ _ _) (Infinite t) = Infinite t"
| "fl_add f (Fin s m d) (Fin t n e) =
     (let g = min d e;
          v = signed s (m * 2 ^ nat (d - g)) + signed t (n * 2 ^ nat (e - g))
      in if v = 0 then Fin (s \<and> t) 0 (f_emin f) else round_scaled f (v < 0) (nat \<bar>v\<bar>) g)"

definition fl_sub :: "fmt \<Rightarrow> fl \<Rightarrow> fl \<Rightarrow> fl" where
  "fl_sub f x y = fl_add f x (fl_neg y)"

fun fl_mul :: "fmt \<Rightarrow> fl \<Rightarrow> fl \<Rightarrow> fl" where
  "fl_mul f NaN y = NaN"
| "fl_mul f x NaN = NaN"
| "fl_mul f (Infinite s) (Infinite t) = Infinite (s \<noteq> t)"
| "fl_mul f (Infinite s) (Fin t n e) = (if n = 0 then NaN else Infinite (s \<noteq> t))"
| "fl_mul f (Fin s m d) (Infinite t) = (if m = 0 then NaN else Infinite (s \<noteq> t))"
| "fl_mul f (Fin s m d) (Fin t n e) = round_scaled f (s \<noteq> t) (m * n) (d + e)"

fun fl_div :: "fmt \<Rightarrow> fl \<Rightarrow> fl \<Rightarrow> fl" where
  "fl_div f NaN y = NaN"
| "fl_div f x NaN = NaN"
| "fl_div f (Infinite s) (Infinite t) = NaN"
| "fl_div f (Infinite s) (Fin t n e) = Infinite (s \<noteq> t)"
| "fl_div f (Fin s m d) (Infinite t) = Fin (s \<noteq> t) 0 (f_emin f)"
| "fl_div f (Fin s m d) (Fin t n e) =
     (if n = 0 then (if m = 0 then NaN else Infinite (s \<noteq> t))
      else if e \<le> d then round_fl f (s \<noteq> t) (m * 2 ^ nat (d - e)) n
      else round_fl f (s \<noteq> t) m (n * 2 ^ nat (e - d)))"

text \<open>The \<open>%\<close> of Rust is the exact remainder with the sign of the dividend.\<close>

fun fl_rem :: "fmt \<Rightarrow> fl \<Rightarrow> fl \<Rightarrow> fl" where
  "fl_rem f (Fin s m d) (Fin t n e) =
     (if n = 0 then NaN
      else let g = min d e in round_scaled f s ((m * 2 ^ nat (d - g)) mod (n * 2 ^ nat (e - g))) g)"
| "fl_rem f (Fin s m d) (Infinite t) = Fin s m d"
| "fl_rem f x y = NaN"

text \<open>Rounding towards zero; \<open>as\<close> an integer type saturates, and takes a NaN to 0.\<close>

fun fl_trunc_int :: "fl \<Rightarrow> int" where
  "fl_trunc_int (Fin s m e) = signed s (if 0 \<le> e then m * 2 ^ nat e else m div 2 ^ nat (- e))"
| "fl_trunc_int _ = 0"

fun fl_trunc :: "fmt \<Rightarrow> fl \<Rightarrow> fl" where
  "fl_trunc f (Fin s m e) =
     (if 0 \<le> e then Fin s m e else round_fl f s (m div 2 ^ nat (- e)) 1)"
| "fl_trunc f x = x"

fun fl_to_int :: "int \<Rightarrow> int \<Rightarrow> fl \<Rightarrow> int" where
  "fl_to_int lo hi NaN = 0"
| "fl_to_int lo hi (Infinite neg) = (if neg then lo else hi)"
| "fl_to_int lo hi (Fin s m e) = max lo (min hi (fl_trunc_int (Fin s m e)))"

fun fl_is_integral :: "fl \<Rightarrow> bool" where
  "fl_is_integral (Fin s m e) = (0 \<le> e \<or> m mod 2 ^ nat (- e) = 0)"
| "fl_is_integral _ = False"

text \<open>\<open>f64::to_bits\<close>, with one NaN.\<close>

fun f64_to_bits :: "fl \<Rightarrow> u64" where
  "f64_to_bits NaN = 0x7ff8000000000000"
| "f64_to_bits (Infinite neg) = (if neg then 0xfff0000000000000 else 0x7ff0000000000000)"
| "f64_to_bits (Fin neg m e) =
     of_nat ((if neg then 2 ^ 63 else 0)
       + (if 2 ^ 52 \<le> m then nat (e + 1075) * 2 ^ 52 + (m - 2 ^ 52) else m))"

section \<open>Integers through a float and back\<close>

lemma fl_of_int_to_int:
  assumes f: "fmt_ok f" and n: "\<bar>n\<bar> < 2 ^ f_prec f" "lo \<le> n" "n \<le> hi"
  shows "fl_to_int lo hi (fl_of_int f n) = n" "fl_is_integral (fl_of_int f n)"
    "fl_trunc_int (fl_of_int f n) = n"
proof -
  have "fl_trunc_int (fl_of_int f n) = n \<and> is_fin (fl_of_int f n) \<and> fl_is_integral (fl_of_int f n)"
  proof (cases "n = 0")
    case False
    then obtain j where "fl_of_int f n = Fin (n < 0) (nat \<bar>n\<bar> * 2 ^ j) (- int j)"
      using fl_of_int_exact [OF f n(1)] by blast
    then show ?thesis by (auto simp: signed_def)
  qed (simp add: signed_def)
  moreover from this have "fl_to_int lo hi (fl_of_int f n) = max lo (min hi (fl_trunc_int (fl_of_int f n)))"
    by (cases "fl_of_int f n") auto
  ultimately show "fl_to_int lo hi (fl_of_int f n) = n" "fl_is_integral (fl_of_int f n)"
    "fl_trunc_int (fl_of_int f n) = n"
    using n by auto
qed

lemma is_fin_of_int: "fmt_ok f \<Longrightarrow> \<bar>n\<bar> < 2 ^ f_prec f \<Longrightarrow> is_fin (fl_of_int f n)"
  using fl_of_int_exact [of f n] by (cases "n = 0") auto

lemma fl_compare_fin:
  "is_fin x \<Longrightarrow> is_fin y \<Longrightarrow> fl_eq x y \<longleftrightarrow> fval x = fval y"
  "is_fin x \<Longrightarrow> is_fin y \<Longrightarrow> fl_lt x y \<longleftrightarrow> fval x < fval y"
  "is_fin x \<Longrightarrow> is_fin y \<Longrightarrow> fl_le x y \<longleftrightarrow> fval x \<le> fval y"
  by (cases x; cases y; auto simp: fl_le_def)+

lemma fl_not_refl_iff_nan: "fl_eq x x \<longleftrightarrow> \<not> fl_is_nan x"
  by (cases x) auto

lemma fl_eq_sym: "fl_eq x y = fl_eq y x"
  by (cases x; cases y) auto

end
