(* ===== verification/Token.thy ===== *)
theory Token
  imports Prelude
begin

text \<open>
  Tokens and diagnostics of \<open>crates/mersey_front/src/token.rs\<close> and
  \<open>crates/mersey_front/src/diag.rs\<close>: the token kinds, keywords and punctuators with their
  spellings, positions, and the stable diagnostic codes with the display format.  Variants
  of the source's enums carry a prefix (\<open>Kw\<close>, \<open>P\<close>, \<open>Tk\<close>, \<open>Sfx\<close>) where their name alone
  would be ambiguous.
\<close>

section \<open>Diagnostics\<close>

text \<open>A position: 1-based line and code-point column, both \<open>u32\<close>.\<close>

record pos =
  p_line :: u32
  p_col :: u32

text \<open>\<open>Name\<close> of \<open>ast.rs\<close>: a text and where it stands.\<close>

record nm =
  n_text :: rstr
  n_pos :: pos

datatype severity = Error

datatype (plugins only: size) code =
    WrongEncoding | InvalidUtf8 | UnexpectedChar | UnterminatedString | InvalidEscape
    | InvalidNumericSuffix | ExpectedDigitAfterDot | UnterminatedTemplate
    | InvalidCharLiteral | UnterminatedBlockComment | BadDigitSeparator | IntOutOfRange
    | UnexpectedToken | MisplacedDeclaration | InvalidLabel | InvalidAssignmentTarget
    | MixedCoalesce | AmbiguousExponent | ReservedBinding | UndefinedName
    | DuplicateDeclaration | UseBeforeDeclaration | AssignToConst | UndefinedLabel
    | AwaitOutsideAsync | InvalidThisSuper | UnknownTypeName | ReturnOutsideFunction
    | BreakOutsideLoop | TypeMismatch | BadCall | UnknownMember | AccessViolation
    | BadOperand | BadCondition | NullableMisuse | ReadonlyViolation | BadOverride | BadCast
    | BadReturn | BadThrow | YieldOutsideFunction | CircularTypeAlias

primrec code_as_str :: "code \<Rightarrow> rstr" where
  "code_as_str WrongEncoding = str ''E0001''"
| "code_as_str InvalidUtf8 = str ''E0002''"
| "code_as_str UnexpectedChar = str ''E0101''"
| "code_as_str UnterminatedString = str ''E0102''"
| "code_as_str InvalidEscape = str ''E0103''"
| "code_as_str InvalidNumericSuffix = str ''E0104''"
| "code_as_str ExpectedDigitAfterDot = str ''E0105''"
| "code_as_str UnterminatedTemplate = str ''E0106''"
| "code_as_str InvalidCharLiteral = str ''E0107''"
| "code_as_str UnterminatedBlockComment = str ''E0108''"
| "code_as_str BadDigitSeparator = str ''E0109''"
| "code_as_str IntOutOfRange = str ''E0110''"
| "code_as_str UnexpectedToken = str ''E0201''"
| "code_as_str MisplacedDeclaration = str ''E0202''"
| "code_as_str InvalidLabel = str ''E0203''"
| "code_as_str InvalidAssignmentTarget = str ''E0204''"
| "code_as_str MixedCoalesce = str ''E0205''"
| "code_as_str AmbiguousExponent = str ''E0206''"
| "code_as_str ReservedBinding = str ''E0207''"
| "code_as_str UndefinedName = str ''E0301''"
| "code_as_str DuplicateDeclaration = str ''E0302''"
| "code_as_str UseBeforeDeclaration = str ''E0303''"
| "code_as_str AssignToConst = str ''E0304''"
| "code_as_str UndefinedLabel = str ''E0305''"
| "code_as_str AwaitOutsideAsync = str ''E0306''"
| "code_as_str InvalidThisSuper = str ''E0307''"
| "code_as_str UnknownTypeName = str ''E0308''"
| "code_as_str ReturnOutsideFunction = str ''E0309''"
| "code_as_str BreakOutsideLoop = str ''E0310''"
| "code_as_str TypeMismatch = str ''E0401''"
| "code_as_str BadCall = str ''E0402''"
| "code_as_str UnknownMember = str ''E0403''"
| "code_as_str AccessViolation = str ''E0404''"
| "code_as_str BadOperand = str ''E0405''"
| "code_as_str BadCondition = str ''E0406''"
| "code_as_str NullableMisuse = str ''E0407''"
| "code_as_str ReadonlyViolation = str ''E0408''"
| "code_as_str BadOverride = str ''E0409''"
| "code_as_str BadCast = str ''E0410''"
| "code_as_str BadReturn = str ''E0411''"
| "code_as_str BadThrow = str ''E0412''"
| "code_as_str YieldOutsideFunction = str ''E0413''"
| "code_as_str CircularTypeAlias = str ''E0414''"

record diagnostic =
  d_severity :: severity
  d_code :: code
  d_message :: rstr
  d_pos :: pos

definition diagnostic_error :: "code \<Rightarrow> rstr \<Rightarrow> pos \<Rightarrow> diagnostic" where
  "diagnostic_error c message p = \<lparr>d_severity = Error, d_code = c, d_message = message, d_pos = p\<rparr>"

text \<open>\<open>impl Display for Diagnostic\<close>.\<close>

definition diagnostic_display :: "diagnostic \<Rightarrow> rstr" where
  "diagnostic_display d =
     str ''error['' @ code_as_str (d_code d) @ str ''] @ '' @ dec_nat (unat (p_line (d_pos d))) @ str '':''
     @ dec_nat (unat (p_col (d_pos d))) @ str '': '' @ d_message d"

section \<open>Tokens\<close>

text \<open>A byte range and the position of its start.\<close>

record span =
  sp_start :: nat
  sp_end :: nat
  sp_pos :: pos

datatype int_suffix = SfxU | SfxL | SfxUl | SfxI8 | SfxI16 | SfxI32 | SfxI64 | SfxU8 | SfxU16 | SfxU32 | SfxU64

datatype (plugins only: size) punct =
    PLParen | PRParen | PLBracket | PRBracket | PLBrace | PRBrace | PSemi | PComma | PDot
    | PDotDotDot | PQuestionDot | PColon | PQuestion | PArrow | PPlus | PMinus | PStar
    | PSlash | PPercent | PStarStar | PEq | PPlusEq | PMinusEq | PStarEq | PSlashEq
    | PPercentEq | PStarStarEq | PShlEq | PShrEq | PAmpEq | PPipeEq | PCaretEq | PAmpAmpEq
    | PPipePipeEq | PQuestionQuestionEq | PEqEq | PNotEq | PLt | PGt | PLtEq | PGtEq | PShl
    | PShr | PAmp | PPipe | PCaret | PTilde | PBang | PAmpAmp | PPipePipe
    | PQuestionQuestion | PPlusPlus | PMinusMinus

primrec punct_as_str :: "punct \<Rightarrow> rstr" where
  "punct_as_str PLParen = str ''(''"
| "punct_as_str PRParen = str '')''"
| "punct_as_str PLBracket = str ''[''"
| "punct_as_str PRBracket = str '']''"
| "punct_as_str PLBrace = str ''{''"
| "punct_as_str PRBrace = str ''}''"
| "punct_as_str PSemi = str '';''"
| "punct_as_str PComma = str '',''"
| "punct_as_str PDot = str ''.''"
| "punct_as_str PDotDotDot = str ''...''"
| "punct_as_str PQuestionDot = str ''?.''"
| "punct_as_str PColon = str '':''"
| "punct_as_str PQuestion = str ''?''"
| "punct_as_str PArrow = str ''=>''"
| "punct_as_str PPlus = str ''+''"
| "punct_as_str PMinus = str ''-''"
| "punct_as_str PStar = str ''*''"
| "punct_as_str PSlash = str ''/''"
| "punct_as_str PPercent = str ''%''"
| "punct_as_str PStarStar = str ''**''"
| "punct_as_str PEq = str ''=''"
| "punct_as_str PPlusEq = str ''+=''"
| "punct_as_str PMinusEq = str ''-=''"
| "punct_as_str PStarEq = str ''*=''"
| "punct_as_str PSlashEq = str ''/=''"
| "punct_as_str PPercentEq = str ''%=''"
| "punct_as_str PStarStarEq = str ''**=''"
| "punct_as_str PShlEq = str ''<<=''"
| "punct_as_str PShrEq = str ''>>=''"
| "punct_as_str PAmpEq = str ''&=''"
| "punct_as_str PPipeEq = str ''|=''"
| "punct_as_str PCaretEq = str ''^=''"
| "punct_as_str PAmpAmpEq = str ''&&=''"
| "punct_as_str PPipePipeEq = str ''||=''"
| "punct_as_str PQuestionQuestionEq = str ''??=''"
| "punct_as_str PEqEq = str ''==''"
| "punct_as_str PNotEq = str ''!=''"
| "punct_as_str PLt = str ''<''"
| "punct_as_str PGt = str ''>''"
| "punct_as_str PLtEq = str ''<=''"
| "punct_as_str PGtEq = str ''>=''"
| "punct_as_str PShl = str ''<<''"
| "punct_as_str PShr = str ''>>''"
| "punct_as_str PAmp = str ''&''"
| "punct_as_str PPipe = str ''|''"
| "punct_as_str PCaret = str ''^''"
| "punct_as_str PTilde = str ''~''"
| "punct_as_str PBang = str ''!''"
| "punct_as_str PAmpAmp = str ''&&''"
| "punct_as_str PPipePipe = str ''||''"
| "punct_as_str PQuestionQuestion = str ''??''"
| "punct_as_str PPlusPlus = str ''++''"
| "punct_as_str PMinusMinus = str ''--''"

datatype (plugins only: size) keyword =
    KwAbstract | KwAs | KwAsync | KwAwait | KwBreak | KwCase | KwCatch | KwClass | KwConst
    | KwContinue | KwDefault | KwDo | KwElse | KwEnum | KwExport | KwExtends | KwExtern
    | KwFalse | KwFinal | KwFinally | KwFor | KwFrom | KwFunction | KwGet | KwIf
    | KwImplements | KwImport | KwIn | KwInstanceof | KwInterface | KwLet | KwNew | KwNull
    | KwOf | KwOverride | KwPrivate | KwProtected | KwPublic | KwReadonly | KwReturn | KwSet
    | KwStatic | KwSuper | KwSwitch | KwThis | KwThrow | KwTrue | KwTry | KwTypeExpr
    | KwTypeof | KwVoid | KwWhile | KwWrapping | KwYield | KwBool | KwCharTy | KwStringTy
    | KwBigIntTy | KwBigDecTy | KwInt | KwInt8 | KwInt16 | KwInt32 | KwInt64 | KwUint
    | KwUint8 | KwUint16 | KwUint32 | KwUint64 | KwFloat | KwFloat32 | KwFloat64

primrec keyword_as_str :: "keyword \<Rightarrow> rstr" where
  "keyword_as_str KwAbstract = str ''abstract''"
| "keyword_as_str KwAs = str ''as''"
| "keyword_as_str KwAsync = str ''async''"
| "keyword_as_str KwAwait = str ''await''"
| "keyword_as_str KwBreak = str ''break''"
| "keyword_as_str KwCase = str ''case''"
| "keyword_as_str KwCatch = str ''catch''"
| "keyword_as_str KwClass = str ''class''"
| "keyword_as_str KwConst = str ''const''"
| "keyword_as_str KwContinue = str ''continue''"
| "keyword_as_str KwDefault = str ''default''"
| "keyword_as_str KwDo = str ''do''"
| "keyword_as_str KwElse = str ''else''"
| "keyword_as_str KwEnum = str ''enum''"
| "keyword_as_str KwExport = str ''export''"
| "keyword_as_str KwExtends = str ''extends''"
| "keyword_as_str KwExtern = str ''extern''"
| "keyword_as_str KwFalse = str ''false''"
| "keyword_as_str KwFinal = str ''final''"
| "keyword_as_str KwFinally = str ''finally''"
| "keyword_as_str KwFor = str ''for''"
| "keyword_as_str KwFrom = str ''from''"
| "keyword_as_str KwFunction = str ''function''"
| "keyword_as_str KwGet = str ''get''"
| "keyword_as_str KwIf = str ''if''"
| "keyword_as_str KwImplements = str ''implements''"
| "keyword_as_str KwImport = str ''import''"
| "keyword_as_str KwIn = str ''in''"
| "keyword_as_str KwInstanceof = str ''instanceof''"
| "keyword_as_str KwInterface = str ''interface''"
| "keyword_as_str KwLet = str ''let''"
| "keyword_as_str KwNew = str ''new''"
| "keyword_as_str KwNull = str ''null''"
| "keyword_as_str KwOf = str ''of''"
| "keyword_as_str KwOverride = str ''override''"
| "keyword_as_str KwPrivate = str ''private''"
| "keyword_as_str KwProtected = str ''protected''"
| "keyword_as_str KwPublic = str ''public''"
| "keyword_as_str KwReadonly = str ''readonly''"
| "keyword_as_str KwReturn = str ''return''"
| "keyword_as_str KwSet = str ''set''"
| "keyword_as_str KwStatic = str ''static''"
| "keyword_as_str KwSuper = str ''super''"
| "keyword_as_str KwSwitch = str ''switch''"
| "keyword_as_str KwThis = str ''this''"
| "keyword_as_str KwThrow = str ''throw''"
| "keyword_as_str KwTrue = str ''true''"
| "keyword_as_str KwTry = str ''try''"
| "keyword_as_str KwTypeExpr = str ''type''"
| "keyword_as_str KwTypeof = str ''typeof''"
| "keyword_as_str KwVoid = str ''void''"
| "keyword_as_str KwWhile = str ''while''"
| "keyword_as_str KwWrapping = str ''wrapping''"
| "keyword_as_str KwYield = str ''yield''"
| "keyword_as_str KwBool = str ''bool''"
| "keyword_as_str KwCharTy = str ''char''"
| "keyword_as_str KwStringTy = str ''string''"
| "keyword_as_str KwBigIntTy = str ''bigint''"
| "keyword_as_str KwBigDecTy = str ''bigdec''"
| "keyword_as_str KwInt = str ''int''"
| "keyword_as_str KwInt8 = str ''int8''"
| "keyword_as_str KwInt16 = str ''int16''"
| "keyword_as_str KwInt32 = str ''int32''"
| "keyword_as_str KwInt64 = str ''int64''"
| "keyword_as_str KwUint = str ''uint''"
| "keyword_as_str KwUint8 = str ''uint8''"
| "keyword_as_str KwUint16 = str ''uint16''"
| "keyword_as_str KwUint32 = str ''uint32''"
| "keyword_as_str KwUint64 = str ''uint64''"
| "keyword_as_str KwFloat = str ''float''"
| "keyword_as_str KwFloat32 = str ''float32''"
| "keyword_as_str KwFloat64 = str ''float64''"

text \<open>The arms of \<open>Keyword::from_str\<close>, in the order the macro expands them.\<close>

definition keyword_table :: "(rstr \<times> keyword) list" where
  "keyword_table =
     [(str ''abstract'', KwAbstract), (str ''as'', KwAs), (str ''async'', KwAsync)
      , (str ''await'', KwAwait), (str ''break'', KwBreak), (str ''case'', KwCase)
      , (str ''catch'', KwCatch), (str ''class'', KwClass), (str ''const'', KwConst)
      , (str ''continue'', KwContinue), (str ''default'', KwDefault), (str ''do'', KwDo)
      , (str ''else'', KwElse), (str ''enum'', KwEnum), (str ''export'', KwExport)
      , (str ''extends'', KwExtends), (str ''extern'', KwExtern), (str ''false'', KwFalse)
      , (str ''final'', KwFinal), (str ''finally'', KwFinally), (str ''for'', KwFor)
      , (str ''from'', KwFrom), (str ''function'', KwFunction), (str ''get'', KwGet)
      , (str ''if'', KwIf), (str ''implements'', KwImplements), (str ''import'', KwImport)
      , (str ''in'', KwIn), (str ''instanceof'', KwInstanceof)
      , (str ''interface'', KwInterface), (str ''let'', KwLet), (str ''new'', KwNew)
      , (str ''null'', KwNull), (str ''of'', KwOf), (str ''override'', KwOverride)
      , (str ''private'', KwPrivate), (str ''protected'', KwProtected)
      , (str ''public'', KwPublic), (str ''readonly'', KwReadonly)
      , (str ''return'', KwReturn), (str ''set'', KwSet), (str ''static'', KwStatic)
      , (str ''super'', KwSuper), (str ''switch'', KwSwitch), (str ''this'', KwThis)
      , (str ''throw'', KwThrow), (str ''true'', KwTrue), (str ''try'', KwTry)
      , (str ''type'', KwTypeExpr), (str ''typeof'', KwTypeof), (str ''void'', KwVoid)
      , (str ''while'', KwWhile), (str ''wrapping'', KwWrapping), (str ''yield'', KwYield)
      , (str ''bool'', KwBool), (str ''char'', KwCharTy), (str ''string'', KwStringTy)
      , (str ''bigint'', KwBigIntTy), (str ''bigdec'', KwBigDecTy), (str ''int'', KwInt)
      , (str ''int8'', KwInt8), (str ''int16'', KwInt16), (str ''int32'', KwInt32)
      , (str ''int64'', KwInt64), (str ''uint'', KwUint), (str ''uint8'', KwUint8)
      , (str ''uint16'', KwUint16), (str ''uint32'', KwUint32), (str ''uint64'', KwUint64)
      , (str ''float'', KwFloat), (str ''float32'', KwFloat32), (str ''float64'', KwFloat64)]"

definition keyword_from_str :: "rstr \<Rightarrow> keyword option" where
  "keyword_from_str s = map_of keyword_table s"

datatype token_kind =
    TkIdent
  | TkKeyword keyword
  | TkInt "int_suffix option"
  | TkFloat bool
  | TkBigInt
  | TkBigDec
  | TkStr
  | TkChar
  | TkTemplateNoSub
  | TkTemplateHead
  | TkTemplateMiddle
  | TkTemplateTail
  | TkPunct punct
  | TkEof

record token =
  t_kind :: token_kind
  t_span :: span

section \<open>Spellings\<close>

text \<open>A keyword's spelling determines it, and \<open>from_str\<close> is the inverse of \<open>as_str\<close>.\<close>

text \<open>Equality of the larger enums is equality of their spellings.\<close>

lemma keyword_table_spelling: "list_all (\<lambda>(s, k). keyword_as_str k = s) keyword_table"
  by (simp add: keyword_table_def)

lemma keyword_table_distinct: "distinct (map fst keyword_table)"
  by (simp add: keyword_table_def)

lemma keyword_table_all: "k \<in> set (map snd keyword_table)"
  by (cases k; simp only: keyword_table_def list.map snd_conv list.set insert_iff simp_thms)

lemma keyword_as_from_str: "keyword_from_str s = Some k \<Longrightarrow> keyword_as_str k = s"
  using map_of_SomeD [of keyword_table s k] keyword_table_spelling
  by (auto simp: keyword_from_str_def list_all_iff)

lemma keyword_from_as_str: "keyword_from_str (keyword_as_str k) = Some k"
proof -
  obtain s where s: "(s, k) \<in> set keyword_table" using keyword_table_all [of k] by auto
  then have "keyword_as_str k = s" using keyword_table_spelling by (auto simp: list_all_iff)
  then show ?thesis
    using map_of_is_SomeI [OF keyword_table_distinct s] by (simp add: keyword_from_str_def)
qed

lemma keyword_as_str_inject: "keyword_as_str k = keyword_as_str l \<longleftrightarrow> k = l"
  by (metis keyword_from_as_str option.inject)

instantiation keyword :: equal
begin

definition equal_keyword :: "keyword \<Rightarrow> keyword \<Rightarrow> bool" where
  "equal_keyword k l \<longleftrightarrow> keyword_as_str k = keyword_as_str l"

instance
  by standard (simp add: equal_keyword_def keyword_as_str_inject)

end

text \<open>
  \<open>from_str\<close> and \<open>as_str\<close> are inverse: a text is recognised as a keyword exactly when
  it is that keyword's spelling, and different keywords are spelled differently.
\<close>

lemma keyword_spelling:
  "(keyword_from_str s = Some k \<longleftrightarrow> s = keyword_as_str k)
   \<and> (keyword_as_str k = keyword_as_str l \<longleftrightarrow> k = l)"
  using keyword_as_from_str [of s k] keyword_from_as_str [of k] keyword_as_str_inject by auto

end
