(* ===== verification/Numeric.thy ===== *)
theory Numeric
  imports Bignum_Dec IEEE_Float Token
begin

unbundle bit_operations_syntax

text \<open>
  The scalar values of the interpreter and the operations on them
  (\<open>crates/mersey_interp/src/lib.rs\<close>): \<open>Value\<close>, the usual arithmetic conversions, the unary
  and binary operators, equality, casts, and the conversions the compiler emits
  (\<open>vm.rs\<close>, \<open>convert_num\<close>).  Integers are words of their width, floats the values of
  \<open>IEEE_Float\<close>; a payload behind an \<open>Rc\<close> is its address, and the store says what is there.
  An error is the class and the message of the exception that is thrown.
\<close>

section \<open>Values\<close>

type_synonym i32 = "32 word"
type_synonym i64 = "64 word"
type_synonym addr = nat
type_synonym units = "u16 list"

datatype (plugins only: size) mvalue =
    V_Null
  | V_Bool bool
  | V_I32 i32
  | V_I64 i64
  | V_U32 u32
  | V_U64 u64
  | V_F32 fl
  | V_F64 fl
  | V_Char rchar
  | V_Str units
  | V_BigInt bigint
  | V_BigDec bigdec
  | V_Array addr
  | V_Map addr
  | V_Set addr
  | V_Record addr
  | V_Closure addr
  | V_Class addr
  | V_Instance addr
  | V_Namespace addr
  | V_Dom addr
  | V_JsRef i64
  | V_Bytes addr
  | V_Regex addr
  | V_Iter addr
  | V_Promise addr
  | V_Resolve addr
  | V_Reject addr
  | V_AllSlot u32 bool
  | V_PromiseExec addr
  | V_Native rstr
  | V_Url addr

datatype thrown = Thrown (thrown_class: rstr) (thrown_message: rstr)

type_synonym 'a tres = "thrown + 'a"

definition type_error :: "rstr \<Rightarrow> 'a tres" where
  "type_error msg = Inl (Thrown (str ''TypeError'') msg)"

definition range_error :: "rstr \<Rightarrow> 'a tres" where
  "range_error msg = Inl (Thrown (str ''RangeError'') msg)"

primrec kind_of :: "mvalue \<Rightarrow> rstr" where
  "kind_of V_Null = (str ''null'')"
| "kind_of (V_Bool _) = (str ''bool'')"
| "kind_of (V_I32 _) = (str ''int32'')"
| "kind_of (V_I64 _) = (str ''int64'')"
| "kind_of (V_U32 _) = (str ''uint32'')"
| "kind_of (V_U64 _) = (str ''uint64'')"
| "kind_of (V_F32 _) = (str ''float32'')"
| "kind_of (V_F64 _) = (str ''float64'')"
| "kind_of (V_Char _) = (str ''char'')"
| "kind_of (V_Str _) = (str ''string'')"
| "kind_of (V_BigInt _) = (str ''bigint'')"
| "kind_of (V_BigDec _) = (str ''bigdec'')"
| "kind_of (V_Map _) = (str ''Map'')"
| "kind_of (V_Set _) = (str ''Set'')"
| "kind_of (V_Array _) = (str ''array'')"
| "kind_of (V_Record _) = (str ''record'')"
| "kind_of (V_Closure _) = (str ''function'')"
| "kind_of (V_Class _) = (str ''class'')"
| "kind_of (V_Instance _) = (str ''object'')"
| "kind_of (V_Namespace _) = (str ''namespace'')"
| "kind_of (V_Dom _) = (str ''dom element'')"
| "kind_of (V_JsRef _) = (str ''web object'')"
| "kind_of (V_Bytes _) = (str ''Bytes'')"
| "kind_of (V_Regex _) = (str ''Regex'')"
| "kind_of (V_Url _) = (str ''Url'')"
| "kind_of (V_Iter _) = (str ''Iter'')"
| "kind_of (V_Promise _) = (str ''Promise'')"
| "kind_of (V_Resolve _) = (str ''function'')"
| "kind_of (V_Reject _) = (str ''function'')"
| "kind_of (V_AllSlot _ _) = (str ''function'')"
| "kind_of (V_PromiseExec _) = (str ''function'')"
| "kind_of (V_Native _) = (str ''native function'')"

text \<open>\<open>as_num\<close>: the value as an \<open>f64\<close>; \<open>as_i64\<close>: an integer's low 64 bits.\<close>

fun as_num :: "mvalue \<Rightarrow> fl option" where
  "as_num (V_I32 n) = Some (fl_of_int f64 (sint n))"
| "as_num (V_I64 n) = Some (fl_of_int f64 (sint n))"
| "as_num (V_U32 n) = Some (fl_of_int f64 (uint n))"
| "as_num (V_U64 n) = Some (fl_of_int f64 (uint n))"
| "as_num (V_F32 f) = Some (fl_conv f64 f)"
| "as_num (V_F64 f) = Some f"
| "as_num _ = None"

fun as_i64 :: "mvalue \<Rightarrow> i64 option" where
  "as_i64 (V_I32 n) = Some (scast n)"
| "as_i64 (V_I64 n) = Some n"
| "as_i64 (V_U32 n) = Some (ucast n)"
| "as_i64 (V_U64 n) = Some n"
| "as_i64 _ = None"

section \<open>The usual arithmetic conversions\<close>

fun rank :: "mvalue \<Rightarrow> nat option" where
  "rank (V_I32 _) = Some 0"
| "rank (V_U32 _) = Some 1"
| "rank (V_I64 _) = Some 2"
| "rank (V_U64 _) = Some 3"
| "rank (V_F32 _) = Some 4"
| "rank (V_F64 _) = Some 5"
| "rank _ = None"

text \<open>\<open>conv\<close> of \<open>promote_pair\<close>; the pairs it marks unreachable are \<open>None\<close>.\<close>

definition conv_rank :: "nat \<Rightarrow> mvalue \<Rightarrow> mvalue option" where
  "conv_rank t v =
     (if t = 0 then (case v of V_I32 x \<Rightarrow> Some (V_I32 x) | _ \<Rightarrow> map_option V_F64 (as_num v))
      else if t = 1 then
        map_option V_U32 (case v of V_I32 x \<Rightarrow> Some x | V_U32 x \<Rightarrow> Some x | _ \<Rightarrow> None)
      else if t = 2 then
        map_option V_I64 (case v of V_I32 x \<Rightarrow> Some (scast x) | V_U32 x \<Rightarrow> Some (ucast x) | V_I64 x \<Rightarrow> Some x | _ \<Rightarrow> None)
      else if t = 3 then
        map_option V_U64 (case v of V_I32 x \<Rightarrow> Some (scast x) | V_U32 x \<Rightarrow> Some (ucast x)
                                  | V_I64 x \<Rightarrow> Some x | V_U64 x \<Rightarrow> Some x | _ \<Rightarrow> None)
      else if t = 4 then map_option (\<lambda>f. V_F32 (fl_conv f32 f)) (as_num v)
      else map_option V_F64 (as_num v))"

definition promote_pair :: "mvalue \<Rightarrow> mvalue \<Rightarrow> (mvalue \<times> mvalue) option" where
  "promote_pair a b =
     (case (rank a, rank b) of
        (Some ra, Some rb) \<Rightarrow>
          (case (conv_rank (max ra rb) a, conv_rank (max ra rb) b) of
             (Some x, Some y) \<Rightarrow> Some (x, y)
           | _ \<Rightarrow> None)
      | _ \<Rightarrow> None)"

definition num_eq :: "mvalue \<Rightarrow> mvalue \<Rightarrow> bool" where
  "num_eq a b =
     (case a of
        V_I32 x \<Rightarrow> (case b of V_I32 y \<Rightarrow> x = y | _ \<Rightarrow> False)
      | V_U32 x \<Rightarrow> (case b of V_U32 y \<Rightarrow> x = y | _ \<Rightarrow> False)
      | V_I64 x \<Rightarrow> (case b of V_I64 y \<Rightarrow> x = y | _ \<Rightarrow> False)
      | V_U64 x \<Rightarrow> (case b of V_U64 y \<Rightarrow> x = y | _ \<Rightarrow> False)
      | V_F32 x \<Rightarrow> (case b of V_F32 y \<Rightarrow> fl_eq x y | _ \<Rightarrow> False)
      | V_F64 x \<Rightarrow> (case b of V_F64 y \<Rightarrow> fl_eq x y | _ \<Rightarrow> False)
      | _ \<Rightarrow> False)"

section \<open>Operators\<close>

datatype unary_op = U_Plus | U_Neg | U_BitNot | U_Not | U_Await

datatype bin_op = O_Coalesce | O_Or | O_And | O_BitOr | O_BitXor | O_BitAnd | O_Eq | O_Ne
  | O_Lt | O_Gt | O_Le | O_Ge | O_Instanceof | O_Shl | O_Shr | O_Add | O_Sub | O_Mul | O_Div | O_Rem | O_Pow

primrec bin_op_as_str :: "bin_op \<Rightarrow> rstr" where
  "bin_op_as_str O_Coalesce = (str ''??'')"
| "bin_op_as_str O_Or = (str ''||'')"
| "bin_op_as_str O_And = (str ''&&'')"
| "bin_op_as_str O_BitOr = (str ''|'')"
| "bin_op_as_str O_BitXor = (str ''^'')"
| "bin_op_as_str O_BitAnd = (str ''&'')"
| "bin_op_as_str O_Eq = (str ''=='')"
| "bin_op_as_str O_Ne = (str ''!='')"
| "bin_op_as_str O_Lt = (str ''<'')"
| "bin_op_as_str O_Gt = (str ''>'')"
| "bin_op_as_str O_Le = (str ''<='')"
| "bin_op_as_str O_Ge = (str ''>='')"
| "bin_op_as_str O_Instanceof = (str ''instanceof'')"
| "bin_op_as_str O_Shl = (str ''<<'')"
| "bin_op_as_str O_Shr = (str ''>>'')"
| "bin_op_as_str O_Add = (str ''+'')"
| "bin_op_as_str O_Sub = (str ''-'')"
| "bin_op_as_str O_Mul = (str ''*'')"
| "bin_op_as_str O_Div = (str ''/'')"
| "bin_op_as_str O_Rem = (str ''%'')"
| "bin_op_as_str O_Pow = (str ''**'')"

fun value_truthy :: "mvalue \<Rightarrow> bool tres" where
  "value_truthy (V_Bool b) = Inr b"
| "value_truthy (V_I32 n) = Inr (n \<noteq> 0)"
| "value_truthy (V_I64 n) = Inr (n \<noteq> 0)"
| "value_truthy (V_U32 n) = Inr (n \<noteq> 0)"
| "value_truthy (V_U64 n) = Inr (n \<noteq> 0)"
| "value_truthy (V_F32 f) = Inr (\<not> fl_is_zero f)"
| "value_truthy (V_F64 f) = Inr (\<not> fl_is_zero f)"
| "value_truthy _ = type_error ((str ''condition must be bool or numeric ('') @ [0xA7] @ (str ''3.3); write the comparison''))"

definition eval_unary :: "unary_op \<Rightarrow> mvalue \<Rightarrow> mvalue tres" where
  "eval_unary uop v =
     (case uop of
        U_Not \<Rightarrow> map_sum id (\<lambda>b. V_Bool (\<not> b)) (value_truthy v)
      | U_Plus \<Rightarrow>
          (case v of
             V_I32 _ \<Rightarrow> Inr v | V_I64 _ \<Rightarrow> Inr v | V_U32 _ \<Rightarrow> Inr v | V_U64 _ \<Rightarrow> Inr v
           | V_F32 _ \<Rightarrow> Inr v | V_F64 _ \<Rightarrow> Inr v
           | _ \<Rightarrow> type_error (str ''unary `+` needs a number''))
      | U_Neg \<Rightarrow>
          (case v of
             V_BigInt b \<Rightarrow> Inr (V_BigInt (bi_negate b))
           | V_BigDec d \<Rightarrow> Inr (V_BigDec (d\<lparr>coef := bi_negate (coef d)\<rparr>))
           | V_I32 n \<Rightarrow> Inr (V_I32 (- n)) | V_I64 n \<Rightarrow> Inr (V_I64 (- n))
           | V_U32 n \<Rightarrow> Inr (V_U32 (- n)) | V_U64 n \<Rightarrow> Inr (V_U64 (- n))
           | V_F32 f \<Rightarrow> Inr (V_F32 (fl_neg f)) | V_F64 f \<Rightarrow> Inr (V_F64 (fl_neg f))
           | _ \<Rightarrow> type_error (str ''unary `-` needs a number''))
      | U_BitNot \<Rightarrow>
          (case v of
             V_I32 n \<Rightarrow> Inr (V_I32 (NOT n)) | V_I64 n \<Rightarrow> Inr (V_I64 (NOT n))
           | V_U32 n \<Rightarrow> Inr (V_U32 (NOT n)) | V_U64 n \<Rightarrow> Inr (V_U64 (NOT n))
           | _ \<Rightarrow> type_error (str ''`~` needs an integer''))
      | U_Await \<Rightarrow> type_error (str ''`await` is not in the MVP''))"
definition int_val :: "bool \<Rightarrow> 'a::len word \<Rightarrow> int" where
  "int_val s x = (if s then sint x else uint x)"

definition int_lo :: "bool \<Rightarrow> nat \<Rightarrow> int" where
  "int_lo s w = (if s then - (2 ^ (w - 1)) else 0)"

definition int_hi :: "bool \<Rightarrow> nat \<Rightarrow> int" where
  "int_hi s w = (if s then 2 ^ (w - 1) - 1 else 2 ^ w - 1)"

text \<open>Division of the source language's integers, towards zero, and its remainder.\<close>

definition tdiv :: "int \<Rightarrow> int \<Rightarrow> int" where
  "tdiv a b = sgn a * sgn b * (\<bar>a\<bar> div \<bar>b\<bar>)"

definition trem :: "int \<Rightarrow> int \<Rightarrow> int" where
  "trem a b = a - tdiv a b * b"

definition div_overflows :: "bool \<Rightarrow> 'a::len word \<Rightarrow> 'a word \<Rightarrow> bool" where
  "div_overflows s x y \<longleftrightarrow> s \<and> sint x = - (2 ^ (LENGTH('a) - 1)) \<and> sint y = - 1"

definition checked_div :: "bool \<Rightarrow> 'a::len word \<Rightarrow> 'a word \<Rightarrow> 'a word option" where
  "checked_div s x y =
     (if y = 0 \<or> div_overflows s x y then None
      else Some (word_of_int (tdiv (int_val s x) (int_val s y))))"

definition checked_rem :: "bool \<Rightarrow> 'a::len word \<Rightarrow> 'a word \<Rightarrow> 'a word option" where
  "checked_rem s x y =
     (if y = 0 \<or> div_overflows s x y then None
      else Some (word_of_int (trem (int_val s x) (int_val s y))))"

text \<open>The loop \<open>while i < n { acc = acc.wrapping_mul(x) }\<close>.\<close>

fun pow_loop :: "nat \<Rightarrow> 'a::len word \<Rightarrow> 'a word \<Rightarrow> 'a word" where
  "pow_loop 0 x acc = acc"
| "pow_loop (Suc n) x acc = pow_loop n x (acc * x)"

definition int_binop :: "bool \<Rightarrow> ('a::len word \<Rightarrow> mvalue) \<Rightarrow> bin_op \<Rightarrow> 'a word \<Rightarrow> 'a word \<Rightarrow> mvalue tres" where
  "int_binop s mk bop x y =
     (case bop of
        O_Add \<Rightarrow> Inr (mk (x + y))
      | O_Sub \<Rightarrow> Inr (mk (x - y))
      | O_Mul \<Rightarrow> Inr (mk (x * y))
      | O_Div \<Rightarrow>
          if y = 0 then range_error (str ''division by zero'')
          else (case checked_div s x y of
                  Some q \<Rightarrow> Inr (mk q)
                | None \<Rightarrow> range_error (str ''integer overflow in division''))
      | O_Rem \<Rightarrow>
          if y = 0 then range_error (str ''division by zero'')
          else (case checked_rem s x y of Some q \<Rightarrow> Inr (mk q) | None \<Rightarrow> Inr (mk 0))
      | O_Pow \<Rightarrow>
          let n = sint (if s then scast y else ucast y :: i64) in
          if n < 0 then range_error (str ''negative integer exponent'')
          else Inr (mk (pow_loop (nat n) x 1))
      | O_Shl \<Rightarrow> Inr (mk (push_bit (unat (ucast y :: u32) mod LENGTH('a)) x))
      | O_Shr \<Rightarrow>
          let k = unat (ucast y :: u32) mod LENGTH('a)
          in Inr (mk (if s then signed_drop_bit k x else drop_bit k x))
      | O_BitAnd \<Rightarrow> Inr (mk (x AND y))
      | O_BitOr \<Rightarrow> Inr (mk (x OR y))
      | O_BitXor \<Rightarrow> Inr (mk (x XOR y))
      | O_Lt \<Rightarrow> Inr (V_Bool (int_val s x < int_val s y))
      | O_Gt \<Rightarrow> Inr (V_Bool (int_val s y < int_val s x))
      | O_Le \<Rightarrow> Inr (V_Bool (int_val s x \<le> int_val s y))
      | O_Ge \<Rightarrow> Inr (V_Bool (int_val s y \<le> int_val s x))
      | _ \<Rightarrow> type_error (str ''bad operator''))"

text \<open>\<open>powf\<close> is the platform's; it is an argument.\<close>

type_synonym libm_pow = "fmt \<Rightarrow> fl \<Rightarrow> fl \<Rightarrow> fl"

definition float_binop :: "libm_pow \<Rightarrow> fmt \<Rightarrow> (fl \<Rightarrow> mvalue) \<Rightarrow> bin_op \<Rightarrow> fl \<Rightarrow> fl \<Rightarrow> mvalue tres" where
  "float_binop pw f mk bop x y =
     (case bop of
        O_Add \<Rightarrow> Inr (mk (fl_add f x y))
      | O_Sub \<Rightarrow> Inr (mk (fl_sub f x y))
      | O_Mul \<Rightarrow> Inr (mk (fl_mul f x y))
      | O_Div \<Rightarrow> Inr (mk (fl_div f x y))
      | O_Rem \<Rightarrow> Inr (mk (fl_rem f x y))
      | O_Pow \<Rightarrow> Inr (mk (pw f x y))
      | O_Lt \<Rightarrow> Inr (V_Bool (fl_lt x y))
      | O_Gt \<Rightarrow> Inr (V_Bool (fl_lt y x))
      | O_Le \<Rightarrow> Inr (V_Bool (fl_le x y))
      | O_Ge \<Rightarrow> Inr (V_Bool (fl_le y x))
      | _ \<Rightarrow> type_error (str ''floats do not support this operator''))"

definition promoted_binop :: "libm_pow \<Rightarrow> bin_op \<Rightarrow> mvalue \<Rightarrow> mvalue \<Rightarrow> mvalue tres" where
  "promoted_binop pw bop a b =
     (let bad = type_error (str ''operands did not promote to a common type'') in
      case a of
        V_I32 x \<Rightarrow> (case b of V_I32 y \<Rightarrow> int_binop True V_I32 bop x y | _ \<Rightarrow> bad)
      | V_U32 x \<Rightarrow> (case b of V_U32 y \<Rightarrow> int_binop False V_U32 bop x y | _ \<Rightarrow> bad)
      | V_I64 x \<Rightarrow> (case b of V_I64 y \<Rightarrow> int_binop True V_I64 bop x y | _ \<Rightarrow> bad)
      | V_U64 x \<Rightarrow> (case b of V_U64 y \<Rightarrow> int_binop False V_U64 bop x y | _ \<Rightarrow> bad)
      | V_F32 x \<Rightarrow> (case b of V_F32 y \<Rightarrow> float_binop pw f32 V_F32 bop x y | _ \<Rightarrow> bad)
      | V_F64 x \<Rightarrow> (case b of V_F64 y \<Rightarrow> float_binop pw f64 V_F64 bop x y | _ \<Rightarrow> bad)
      | _ \<Rightarrow> bad)"

definition bigint_op :: "bin_op \<Rightarrow> bigint \<Rightarrow> bigint \<Rightarrow> mvalue tres" where
  "bigint_op bop a b =
     (case bop of
        O_Add \<Rightarrow> Inr (V_BigInt (bi_add a b))
      | O_Sub \<Rightarrow> Inr (V_BigInt (bi_sub a b))
      | O_Mul \<Rightarrow> Inr (V_BigInt (bi_mul a b))
      | O_Div \<Rightarrow> (case bi_divmod a b of Some (q, r) \<Rightarrow> Inr (V_BigInt q) | None \<Rightarrow> range_error (str ''division by zero''))
      | O_Rem \<Rightarrow> (case bi_divmod a b of Some (q, r) \<Rightarrow> Inr (V_BigInt r) | None \<Rightarrow> range_error (str ''division by zero''))
      | O_Lt \<Rightarrow> Inr (V_Bool (bi_cmp a b = Less))
      | O_Gt \<Rightarrow> Inr (V_Bool (bi_cmp a b = Greater))
      | O_Le \<Rightarrow> Inr (V_Bool (bi_cmp a b \<noteq> Greater))
      | O_Ge \<Rightarrow> Inr (V_Bool (bi_cmp a b \<noteq> Less))
      | _ \<Rightarrow> type_error (str ''operator not defined for bigint''))"

definition bigdec_op :: "bin_op \<Rightarrow> bigdec \<Rightarrow> bigdec \<Rightarrow> mvalue tres" where
  "bigdec_op bop a b =
     (case bop of
        O_Add \<Rightarrow> Inr (V_BigDec (bd_add a b))
      | O_Sub \<Rightarrow> Inr (V_BigDec (bd_sub a b))
      | O_Mul \<Rightarrow> Inr (V_BigDec (bd_mul a b))
      | O_Div \<Rightarrow>
          (case bd_div_exact a b of
             Some q \<Rightarrow> Inr (V_BigDec q)
           | None \<Rightarrow> range_error ((str ''inexact bigdec division needs a rounding context ('') @ [0xA7] @ (str ''3.7)'')))
      | O_Lt \<Rightarrow> Inr (V_Bool (bd_cmp a b = Less))
      | O_Gt \<Rightarrow> Inr (V_Bool (bd_cmp a b = Greater))
      | O_Le \<Rightarrow> Inr (V_Bool (bd_cmp a b \<noteq> Greater))
      | O_Ge \<Rightarrow> Inr (V_Bool (bd_cmp a b \<noteq> Less))
      | _ \<Rightarrow> type_error (str ''operator not defined for bigdec''))"

text \<open>Strings compare by their code units, \<open>Vec<u16>::cmp\<close>.\<close>

fun units_less :: "units \<Rightarrow> units \<Rightarrow> bool" where
  "units_less [] [] = False"
| "units_less [] (y # ys) = True"
| "units_less (x # xs) [] = False"
| "units_less (x # xs) (y # ys) = (x < y \<or> x = y \<and> units_less xs ys)"

definition order_op :: "bin_op \<Rightarrow> bool \<Rightarrow> bool \<Rightarrow> mvalue option" where
  "order_op bop lt gt =
     (case bop of
        O_Lt \<Rightarrow> Some (V_Bool lt) | O_Gt \<Rightarrow> Some (V_Bool gt)
      | O_Le \<Rightarrow> Some (V_Bool (\<not> gt)) | O_Ge \<Rightarrow> Some (V_Bool (\<not> lt))
      | _ \<Rightarrow> None)"

text \<open>The strings and characters that \<open>numeric_binop\<close> answers first.\<close>

definition text_binop :: "bin_op \<Rightarrow> mvalue \<Rightarrow> mvalue \<Rightarrow> mvalue option" where
  "text_binop bop l r =
     (case l of
        V_Str a \<Rightarrow>
          (case r of
             V_Str b \<Rightarrow> if bop = O_Add then Some (V_Str (a @ b)) else order_op bop (units_less a b) (units_less b a)
           | _ \<Rightarrow> None)
      | V_Char a \<Rightarrow> (case r of V_Char b \<Rightarrow> order_op bop (a < b) (b < a) | _ \<Rightarrow> None)
      | _ \<Rightarrow> None)"

definition numeric_binop :: "libm_pow \<Rightarrow> bin_op \<Rightarrow> mvalue \<Rightarrow> mvalue \<Rightarrow> mvalue tres" where
  "numeric_binop pw bop l r =
     (let numeric = (case promote_pair l r of
                       Some (a, b) \<Rightarrow> promoted_binop pw bop a b
                     | None \<Rightarrow> type_error ((str ''`'') @ bin_op_as_str bop @ (str ''` needs numeric operands, got '')
                         @ kind_of l @ (str '' and '') @ kind_of r))
      in case text_binop bop l r of
           Some v \<Rightarrow> Inr v
         | None \<Rightarrow>
             (case l of
                V_BigInt a \<Rightarrow> (case r of V_BigInt b \<Rightarrow> bigint_op bop a b | _ \<Rightarrow> numeric)
              | V_BigDec a \<Rightarrow> (case r of V_BigDec b \<Rightarrow> bigdec_op bop a b | _ \<Rightarrow> numeric)
              | _ \<Rightarrow> numeric))"

text \<open>The scalars and references \<open>values_equal\<close> compares directly.\<close>

definition same_kind_equal :: "mvalue \<Rightarrow> mvalue \<Rightarrow> bool option" where
  "same_kind_equal a b =
     (case a of
        V_Bool x \<Rightarrow> (case b of V_Bool y \<Rightarrow> Some (x = y) | _ \<Rightarrow> None)
      | V_Char x \<Rightarrow> (case b of V_Char y \<Rightarrow> Some (x = y) | _ \<Rightarrow> None)
      | V_Str x \<Rightarrow> (case b of V_Str y \<Rightarrow> Some (x = y) | _ \<Rightarrow> None)
      | V_BigInt x \<Rightarrow> (case b of V_BigInt y \<Rightarrow> Some (bi_cmp x y = Equal) | _ \<Rightarrow> None)
      | V_BigDec x \<Rightarrow> (case b of V_BigDec y \<Rightarrow> Some (bd_cmp x y = Equal) | _ \<Rightarrow> None)
      | V_JsRef x \<Rightarrow> (case b of V_JsRef y \<Rightarrow> Some (x = y) | _ \<Rightarrow> None)
      | V_Bytes x \<Rightarrow> (case b of V_Bytes y \<Rightarrow> Some (x = y) | _ \<Rightarrow> None)
      | V_Map x \<Rightarrow> (case b of V_Map y \<Rightarrow> Some (x = y) | _ \<Rightarrow> None)
      | V_Set x \<Rightarrow> (case b of V_Set y \<Rightarrow> Some (x = y) | _ \<Rightarrow> None)
      | V_Array x \<Rightarrow> (case b of V_Array y \<Rightarrow> Some (x = y) | _ \<Rightarrow> None)
      | V_Record x \<Rightarrow> (case b of V_Record y \<Rightarrow> Some (x = y) | _ \<Rightarrow> None)
      | V_Instance x \<Rightarrow> (case b of V_Instance y \<Rightarrow> Some (x = y) | _ \<Rightarrow> None)
      | V_Closure x \<Rightarrow> (case b of V_Closure y \<Rightarrow> Some (x = y) | _ \<Rightarrow> None)
      | _ \<Rightarrow> None)"

definition values_equal :: "mvalue \<Rightarrow> mvalue \<Rightarrow> bool tres" where
  "values_equal a b =
     (if a = V_Null \<and> b = V_Null then Inr True
      else if a = V_Null \<or> b = V_Null then Inr False
      else case same_kind_equal a b of
        Some r \<Rightarrow> Inr r
      | None \<Rightarrow>
          if as_num a \<noteq> None \<and> as_num b \<noteq> None then
            (case promote_pair a b of
               Some (x, y) \<Rightarrow> Inr (num_eq x y)
             | None \<Rightarrow> type_error (str ''cannot compare these values''))
          else type_error ((str ''`==` between '') @ kind_of a @ (str '' and '') @ kind_of b @ (str '' (no coercion, '') @ [0xA7] @ (str ''3.3)'')))"
section \<open>Types at run time\<close>

text \<open>Types as written (\<open>ast.rs\<close>), without their positions' owners.\<close>

datatype (plugins only: size) type_expr =
    TE_Named rstr pos "type_expr list"
  | TE_Nullable type_expr
  | TE_ArrayOf type_expr
  | TE_Union "type_expr list"
  | TE_Tuple "type_expr list"
  | TE_Record "(bool \<times> rstr \<times> bool \<times> type_expr) list"
  | TE_Function "(nm \<times> type_expr option) list" "(bool \<times> rstr \<times> bool \<times> type_expr) list" type_expr

datatype class_def = Class_Def (cd_name: rstr) (cd_parent: "class_def option")

record store =
  st_array :: "addr \<Rightarrow> mvalue list"
  st_class :: "addr \<Rightarrow> class_def"

text \<open>The walk \<open>while let Some(c) = cls\<close> up the chain of parents.\<close>

fun class_is :: "rstr \<Rightarrow> class_def \<Rightarrow> bool" where
  "class_is name (Class_Def n parent) =
     (n = name \<or> (case parent of None \<Rightarrow> False | Some p \<Rightarrow> class_is name p))"

definition value_is_named :: "store \<Rightarrow> rstr \<Rightarrow> mvalue \<Rightarrow> bool" where
  "value_is_named st name v =
     (case v of
        V_Str _ \<Rightarrow> name = (str ''string'')
      | V_Bool _ \<Rightarrow> name = (str ''bool'')
      | V_Char _ \<Rightarrow> name = (str ''char'')
      | V_BigInt _ \<Rightarrow> name = (str ''bigint'')
      | V_BigDec _ \<Rightarrow> name = (str ''bigdec'')
      | V_F64 _ \<Rightarrow> name = (str ''float64'')
      | V_F32 _ \<Rightarrow> name = (str ''float32'')
      | V_I32 _ \<Rightarrow> name = (str ''int32'') \<or> name = (str ''int'')
      | V_I64 _ \<Rightarrow> name = (str ''int64'')
      | V_U32 _ \<Rightarrow> name = (str ''uint32'') \<or> name = (str ''uint'')
      | V_U64 _ \<Rightarrow> name = (str ''uint64'')
      | V_Instance a \<Rightarrow> class_is name (st_class st a)
      | _ \<Rightarrow> False)"

fun value_is :: "store \<Rightarrow> mvalue \<Rightarrow> type_expr \<Rightarrow> bool" where
  "value_is st v (TE_ArrayOf inner) =
     (case v of V_Array a \<Rightarrow> list_all (\<lambda>e. value_is st e inner) (st_array st a) | _ \<Rightarrow> False)"
| "value_is st v (TE_Named name p args) = value_is_named st name v"
| "value_is st v _ = False"

definition is_numeric_type_name :: "rstr \<Rightarrow> bool" where
  "is_numeric_type_name name \<longleftrightarrow>
     name \<in> set [(str ''int8''), (str ''int16''), (str ''int32''), (str ''int''), (str ''int64''), (str ''uint8''), (str ''uint16''), (str ''uint32''), (str ''uint''),
       (str ''uint64''), (str ''float32''), (str ''float64'')]"

section \<open>Casts\<close>

definition out_of_range :: "rstr \<Rightarrow> 'a tres" where
  "out_of_range name = range_error ((str ''value does not fit `'') @ name @ (str ''` (use `as wrapping`)''))"

text \<open>\<open>i as $t\<close> of a 64-bit integer.\<close>

definition wrap_int :: "bool \<Rightarrow> nat \<Rightarrow> int \<Rightarrow> int" where
  "wrap_int s w i = (if s then signed_take_bit (w - 1) i else take_bit w i)"

text \<open>The macro \<open>to_int\<close>, for a target of \<open>w\<close> bits.\<close>

definition to_int_cast :: "rstr \<Rightarrow> bool \<Rightarrow> i64 option \<Rightarrow> fl \<Rightarrow> bool \<Rightarrow> nat \<Rightarrow> int tres" where
  "to_int_cast name wrapping as_i as_f s w =
     (if wrapping then
        (case as_i of
           Some i \<Rightarrow> Inr (wrap_int s w (sint i))
         | None \<Rightarrow> Inr (fl_to_int (int_lo s w) (int_hi s w) as_f))
      else
        (case as_i of
           Some i \<Rightarrow>
             if int_lo s w \<le> sint i \<and> sint i \<le> int_hi s w then Inr (sint i) else out_of_range name
         | None \<Rightarrow>
             let t = fl_trunc f64 as_f in
             if fl_le (fl_of_int f64 (int_lo s w)) t \<and> fl_le t (fl_of_int f64 (int_hi s w))
             then Inr (fl_to_int (int_lo s w) (int_hi s w) t)
             else out_of_range name))"

definition to_u64_cast :: "rstr \<Rightarrow> bool \<Rightarrow> mvalue \<Rightarrow> i64 option \<Rightarrow> fl \<Rightarrow> mvalue tres" where
  "to_u64_cast name wrapping v as_i as_f =
     (let sat = V_U64 (word_of_int (fl_to_int 0 (2 ^ 64 - 1) as_f)) in
      if wrapping then
        Inr (case v of
               V_I64 i \<Rightarrow> V_U64 i
             | V_I32 i \<Rightarrow> V_U64 (scast i)
             | _ \<Rightarrow> sat)
      else
        (case as_i of
           Some i \<Rightarrow> if 0 \<le> sint i then Inr (V_U64 i) else out_of_range name
         | None \<Rightarrow> Inr (case v of V_U64 u \<Rightarrow> V_U64 u | _ \<Rightarrow> sat)))"

definition cast_number :: "rstr \<Rightarrow> bool \<Rightarrow> mvalue \<Rightarrow> fl \<Rightarrow> mvalue tres" where
  "cast_number name wrapping v as_f =
     (let to_int = to_int_cast name wrapping (as_i64 v) as_f;
          small = map_sum id (\<lambda>i. V_I32 (word_of_int i)) in
      if name = (str ''int32'') \<or> name = (str ''int'') then map_sum id (\<lambda>i. V_I32 (word_of_int i)) (to_int True 32)
      else if name = (str ''uint32'') \<or> name = (str ''uint'') then map_sum id (\<lambda>i. V_U32 (word_of_int i)) (to_int False 32)
      else if name = (str ''int64'') then map_sum id (\<lambda>i. V_I64 (word_of_int i)) (to_int True 64)
      else if name = (str ''uint64'') then to_u64_cast name wrapping v (as_i64 v) as_f
      else if name = (str ''int8'') then small (to_int True 8)
      else if name = (str ''int16'') then small (to_int True 16)
      else if name = (str ''uint8'') then small (to_int False 8)
      else if name = (str ''uint16'') then small (to_int False 16)
      else if name = (str ''float64'') \<or> name = (str ''float'') then Inr (V_F64 as_f)
      else if name = (str ''float32'') then Inr (V_F32 (fl_conv f32 as_f))
      else Inr v)"

text \<open>The casts to \<open>string\<close>, \<open>bool\<close>, \<open>char\<close>, \<open>bigint\<close> and \<open>bigdec\<close>: is the value one?\<close>

definition plain_cast :: "rstr \<Rightarrow> mvalue \<Rightarrow> bool option" where
  "plain_cast name v =
     (if name = (str ''string'') then Some (case v of V_Str _ \<Rightarrow> True | _ \<Rightarrow> False)
      else if name = (str ''bool'') then Some (case v of V_Bool _ \<Rightarrow> True | _ \<Rightarrow> False)
      else if name = (str ''char'') then Some (case v of V_Char _ \<Rightarrow> True | _ \<Rightarrow> False)
      else if name = (str ''bigint'') then Some (case v of V_BigInt _ \<Rightarrow> True | _ \<Rightarrow> False)
      else if name = (str ''bigdec'') then Some (case v of V_BigDec _ \<Rightarrow> True | _ \<Rightarrow> False)
      else None)"

fun eval_cast :: "store \<Rightarrow> mvalue \<Rightarrow> bool \<Rightarrow> type_expr \<Rightarrow> mvalue tres" where
  "eval_cast st v wrapping (TE_Named name p args) =
     (case plain_cast name v of
        Some True \<Rightarrow> Inr v
      | Some False \<Rightarrow> type_error ((str ''cannot cast '') @ kind_of v @ (str '' to `'') @ name @ (str ''`''))
      | None \<Rightarrow>
          (case as_num v of
             Some as_f \<Rightarrow> cast_number name wrapping v as_f
           | None \<Rightarrow>
               if is_numeric_type_name name
               then type_error ((str ''cannot cast '') @ kind_of v @ (str '' to `'') @ name @ (str ''`''))
               else (case v of
                       V_Instance a \<Rightarrow>
                         if class_is name (st_class st a) then Inr v
                         else type_error ((str ''cannot cast a `'') @ cd_name (st_class st a) @ (str ''` to `'') @ name @ (str ''`''))
                     | _ \<Rightarrow> Inr v)))"
| "eval_cast st v wrapping _ = Inr v"

section \<open>Recorded conversions\<close>

datatype int_kind = I8 | I16 | I32 | I64 | U8 | U16 | U32 | U64

datatype num = Num_Int int_kind | Num_F32 | Num_F64

text \<open>The value read as an \<open>i128\<close> and as an \<open>f64\<close>, and whether it was a float.\<close>

definition convert_source :: "mvalue \<Rightarrow> (int \<times> fl \<times> bool) option" where
  "convert_source v =
     (let i128 = fl_to_int (- (2 ^ 127)) (2 ^ 127 - 1) in
      case v of
        V_I32 n \<Rightarrow> Some (sint n, fl_of_int f64 (sint n), False)
      | V_I64 n \<Rightarrow> Some (sint n, fl_of_int f64 (sint n), False)
      | V_U32 n \<Rightarrow> Some (uint n, fl_of_int f64 (uint n), False)
      | V_U64 n \<Rightarrow> Some (uint n, fl_of_int f64 (uint n), False)
      | V_F32 x \<Rightarrow> Some (i128 x, fl_conv f64 x, True)
      | V_F64 x \<Rightarrow> Some (i128 x, x, True)
      | _ \<Rightarrow> None)"

definition convert_num :: "mvalue \<Rightarrow> num \<Rightarrow> mvalue" where
  "convert_num v target =
     (case convert_source v of
        None \<Rightarrow> v
      | Some (i, f, is_float) \<Rightarrow>
          (case target of
             Num_F32 \<Rightarrow> V_F32 (fl_conv f32 f)
           | Num_F64 \<Rightarrow> V_F64 f
           | Num_Int I8 \<Rightarrow> V_I32 (word_of_int (wrap_int True 8 i))
           | Num_Int I16 \<Rightarrow> V_I32 (word_of_int (wrap_int True 16 i))
           | Num_Int I32 \<Rightarrow> V_I32 (word_of_int i)
           | Num_Int I64 \<Rightarrow> V_I64 (word_of_int i)
           | Num_Int U8 \<Rightarrow> V_I32 (word_of_int (wrap_int False 8 i))
           | Num_Int U16 \<Rightarrow> V_I32 (word_of_int (wrap_int False 16 i))
           | Num_Int U32 \<Rightarrow> V_U32 (word_of_int (if is_float then fl_to_int 0 (2 ^ 32 - 1) f else i))
           | Num_Int U64 \<Rightarrow> V_U64 (word_of_int (if is_float then fl_to_int 0 (2 ^ 64 - 1) f else i))))"
section \<open>Literals\<close>

definition ends_with :: "'a list \<Rightarrow> 'a list \<Rightarrow> bool" where
  "ends_with s suf \<longleftrightarrow> length suf \<le> length s \<and> drop (length s - length suf) s = suf"

definition strip_prefix :: "'a list \<Rightarrow> 'a list \<Rightarrow> 'a list option" where
  "strip_prefix pre s = (if take (length pre) s = pre then Some (drop (length pre) s) else None)"

definition no_underscores :: "rstr \<Rightarrow> rstr" where
  "no_underscores s = filter (\<lambda>c. c \<noteq> (ch CHR ''_'')) s"

text \<open>The digits of a radix, most significant first; \<open>u64::from_str_radix\<close>.\<close>

definition radix_value :: "nat \<Rightarrow> rstr \<Rightarrow> nat option" where
  "radix_value radix s =
     fold (\<lambda>c acc. case (acc, to_digit c radix) of (Some v, Some d) \<Rightarrow> Some (v * radix + d) | _ \<Rightarrow> None) s (Some 0)"

definition u64_from_str_radix :: "rstr \<Rightarrow> nat \<Rightarrow> nat option" where
  "u64_from_str_radix s radix =
     (let body = (case s of c # rest \<Rightarrow> if c = (ch CHR ''+'') then rest else s | [] \<Rightarrow> []) in
      if body = [] then None
      else case radix_value radix body of
        Some v \<Rightarrow> if v < 2 ^ 64 then Some v else None
      | None \<Rightarrow> None)"

definition split_radix :: "rstr \<Rightarrow> nat \<times> rstr" where
  "split_radix digits =
     (case strip_prefix (str ''0x'') digits of
        Some b \<Rightarrow> (16, b)
      | None \<Rightarrow>
          (case strip_prefix (str ''0o'') digits of
             Some b \<Rightarrow> (8, b)
           | None \<Rightarrow>
               (case strip_prefix (str ''0b'') digits of
                  Some b \<Rightarrow> (2, b)
                | None \<Rightarrow> (10, digits))))"

definition literal_suffixes :: "rstr list" where
  "literal_suffixes = [(str ''u64''), (str ''u32''), (str ''u16''), (str ''ul''), (str ''u8''), (str ''i64''), (str ''i32''), (str ''i16''), (str ''i8''), (str ''l''), (str ''u'')]"

definition literal_suffix :: "rstr \<Rightarrow> rstr" where
  "literal_suffix t = (case find (ends_with t) literal_suffixes of Some s \<Rightarrow> s | None \<Rightarrow> [])"

text \<open>The type a suffix stands for: the arms of the final \<open>match suffix\<close>.\<close>

definition suffix_int :: "rstr \<Rightarrow> int_kind option" where
  "suffix_int s =
     (if s = [] \<or> s = (str ''i32'') then Some I32
      else if s = (str ''u'') \<or> s = (str ''u32'') then Some U32
      else if s = (str ''l'') \<or> s = (str ''i64'') then Some I64
      else if s = (str ''ul'') \<or> s = (str ''u64'') then Some U64
      else if s = (str ''i8'') then Some I8
      else if s = (str ''i16'') then Some I16
      else if s = (str ''u8'') then Some U8
      else if s = (str ''u16'') then Some U16
      else None)"

primrec kind_signed :: "int_kind \<Rightarrow> bool" where
  "kind_signed I8 = True" | "kind_signed I16 = True" | "kind_signed I32 = True" | "kind_signed I64 = True"
| "kind_signed U8 = False" | "kind_signed U16 = False" | "kind_signed U32 = False" | "kind_signed U64 = False"

primrec kind_bits :: "int_kind \<Rightarrow> nat" where
  "kind_bits I8 = 8" | "kind_bits I16 = 16" | "kind_bits I32 = 32" | "kind_bits I64 = 64"
| "kind_bits U8 = 8" | "kind_bits U16 = 16" | "kind_bits U32 = 32" | "kind_bits U64 = 64"

definition kind_fits :: "int_kind \<Rightarrow> int \<Rightarrow> bool" where
  "kind_fits k v \<longleftrightarrow> int_lo (kind_signed k) (kind_bits k) \<le> v \<and> v \<le> int_hi (kind_signed k) (kind_bits k)"

text \<open>The value that carries an integer of a kind; the small kinds travel as an \<open>I32\<close>.\<close>

primrec kind_value :: "int_kind \<Rightarrow> int \<Rightarrow> mvalue" where
  "kind_value I8 v = V_I32 (word_of_int v)" | "kind_value I16 v = V_I32 (word_of_int v)"
| "kind_value I32 v = V_I32 (word_of_int v)" | "kind_value I64 v = V_I64 (word_of_int v)"
| "kind_value U8 v = V_I32 (word_of_int v)" | "kind_value U16 v = V_I32 (word_of_int v)"
| "kind_value U32 v = V_U32 (word_of_int v)" | "kind_value U64 v = V_U64 (word_of_int v)"

definition parse_int_literal_signed :: "rstr \<Rightarrow> bool \<Rightarrow> mvalue tres" where
  "parse_int_literal_signed txt negated =
     (let t = no_underscores txt;
          suffix = literal_suffix t;
          digits = take (length t - length suffix) t;
          (radix, body) = split_radix digits
      in case u64_from_str_radix body radix of
           None \<Rightarrow> range_error ((str ''integer literal `'') @ txt @ (str ''` overflows''))
         | Some raw \<Rightarrow>
             let v = (if negated then - int raw else int raw) in
             case suffix_int suffix of
               None \<Rightarrow> type_error ((str ''unsupported suffix on `'') @ txt @ (str ''`''))
             | Some k \<Rightarrow>
                 if kind_fits k v then Inr (kind_value k v)
                 else range_error ((str ''literal `'') @ (if negated then (str ''-'') else []) @ txt @ (str ''` does not fit its type'')))"

definition parse_int_literal :: "rstr \<Rightarrow> mvalue tres" where
  "parse_int_literal txt = parse_int_literal_signed txt False"

definition negated_int_literal :: "rstr \<Rightarrow> mvalue tres" where
  "negated_int_literal txt = parse_int_literal_signed txt True"

text \<open>The escapes of a string: \<open>unescape\<close>, with the inner loop over the hexadecimal
  digits, whose \<open>u32\<close> wraps in a release build.\<close>

fun unescape_unicode :: "nat \<Rightarrow> rstr \<Rightarrow> nat \<times> rstr" where
  "unescape_unicode val [] = (val, [])"
| "unescape_unicode val (c # rest) =
     (if c = (ch CHR ''{'') then unescape_unicode val rest
      else if c = (ch CHR ''}'') then (val, rest)
      else unescape_unicode
             ((val * 16 + (case to_digit c 16 of Some d \<Rightarrow> d | None \<Rightarrow> 0)) mod 2 ^ 32) rest)"

lemma unescape_unicode_length: "length (snd (unescape_unicode val s)) \<le> length s"
  by (induction val s rule: unescape_unicode.induct) auto

function unescape :: "rstr \<Rightarrow> rstr" where
  "unescape [] = []"
| "unescape (c # rest) =
     (if c \<noteq> 0x5C then c # unescape rest
      else case rest of
        [] \<Rightarrow> []
      | d # rest' \<Rightarrow>
          if d = (ch CHR ''n'') then 10 # unescape rest'
          else if d = (ch CHR ''r'') then 13 # unescape rest'
          else if d = (ch CHR ''t'') then 9 # unescape rest'
          else if d = (ch CHR ''0'') then 0 # unescape rest'
          else if d = (ch CHR ''u'') then
            let (val, rest'') = unescape_unicode 0 rest'
            in (if is_scalar val then [val] else []) @ unescape rest''
          else d # unescape rest')"
  by pat_completeness auto
termination
proof (relation "measure length")
  fix c :: rchar and rest d rest' x val rest''
  assume "rest = d # rest'" "x = unescape_unicode 0 rest'" "(val, rest'') = x"
  then show "(rest'', c # rest) \<in> measure length"
    using unescape_unicode_length [of 0 rest'] by (cases "unescape_unicode 0 rest'") auto
qed auto

declare unescape.simps [simp del]

section \<open>Numbers as JavaScript prints them\<close>

definition dec_int :: "int \<Rightarrow> rstr" where
  "dec_int n = (if n < 0 then (str ''-'') @ dec_nat (nat (- n)) else dec_nat (nat n))"

text \<open>\<open>js_number_envelope\<close>, given the digits and the exponent of the \<open>{:e}\<close> form.\<close>

definition js_envelope :: "rstr \<Rightarrow> int \<Rightarrow> rstr" where
  "js_envelope digits ex =
     (let n = ex + 1; k = int (length digits) in
      if k \<le> n \<and> n \<le> 21 then digits @ replicate (nat (n - k)) (ch CHR ''0'')
      else if 1 \<le> n \<and> n \<le> 21 then take (nat n) digits @ (str ''.'') @ drop (nat n) digits
      else if - 5 \<le> n \<and> n \<le> 0 then (str ''0.'') @ replicate (nat (- n)) (ch CHR ''0'') @ digits
      else
        let e = n - 1; sign = (if e < 0 then (ch CHR ''-'') else (ch CHR ''+'')); mag = dec_nat (nat \<bar>e\<bar>) in
        if k = 1 then digits @ [(ch CHR ''e''), sign] @ mag
        else take 1 digits @ (str ''.'') @ drop 1 digits @ [(ch CHR ''e''), sign] @ mag)"

text \<open>
  The shortest digits that round-trip and their exponent are what the standard library's
  \<open>{:e}\<close> prints; they are an argument.
\<close>

fun float_to_js_string :: "(nat \<Rightarrow> int \<Rightarrow> rstr \<times> int) \<Rightarrow> fl \<Rightarrow> rstr" where
  "float_to_js_string sci NaN = (str ''NaN'')"
| "float_to_js_string sci (Infinite s) = (if s then (str ''-Infinity'') else (str ''Infinity''))"
| "float_to_js_string sci (Fin s m e) =
     (if m = 0 then (str ''0'')
      else (if s then (str ''-'') else []) @ (let (digits, ex) = sci m e in js_envelope digits ex))"

section \<open>Map keys\<close>

definition num_key :: "mvalue \<Rightarrow> (bool \<times> i64 \<times> u64) option" where
  "num_key v =
     (case as_num v of
        None \<Rightarrow> None
      | Some f \<Rightarrow>
          if fl_is_integral f \<and> fl_le (fl_of_int f64 (- (2 ^ 63))) f \<and> fl_le f (fl_of_int f64 (2 ^ 63 - 1))
          then Some (True, word_of_int (fl_to_int (- (2 ^ 63)) (2 ^ 63 - 1) f), 0)
          else Some (False, 0, f64_to_bits f))"

definition bits_is_nan :: "u64 \<Rightarrow> bool" where
  "bits_is_nan b \<longleftrightarrow> b AND 0x7fffffffffffffff > 0x7ff0000000000000"

definition key_eq :: "mvalue \<Rightarrow> mvalue \<Rightarrow> bool" where
  "key_eq a b =
     (if a = V_Null \<and> b = V_Null then True
      else case same_kind_equal a b of
        Some r \<Rightarrow> r
      | None \<Rightarrow>
          (case (num_key a, num_key b) of
             (Some (p, x, xb), Some (q, y, yb)) \<Rightarrow>
               if p \<and> q then x = y
               else if \<not> p \<and> \<not> q then xb = yb \<and> \<not> bits_is_nan xb
               else False
           | _ \<Rightarrow> False))"

text \<open>What \<open>Hash::hash\<close> feeds to the hasher.\<close>

datatype hash_input =
    Hash_Tag nat
  | Hash_Bool bool
  | Hash_Char rchar
  | Hash_Str units
  | Hash_Text nat rstr
  | Hash_Ref i64
  | Hash_Addr addr
  | Hash_Number u64

definition key_hash :: "mvalue \<Rightarrow> hash_input" where
  "key_hash v =
     (case v of
        V_Null \<Rightarrow> Hash_Tag 0
      | V_Bool b \<Rightarrow> Hash_Bool b
      | V_Char c \<Rightarrow> Hash_Char c
      | V_Str s \<Rightarrow> Hash_Str s
      | V_BigInt b \<Rightarrow> Hash_Text 4 (bi_to_decimal b)
      | V_BigDec d \<Rightarrow> Hash_Text 5 (bd_to_decimal d)
      | V_JsRef r \<Rightarrow> Hash_Ref r
      | V_Bytes a \<Rightarrow> Hash_Addr a
      | V_Map a \<Rightarrow> Hash_Addr a
      | V_Set a \<Rightarrow> Hash_Addr a
      | V_Array a \<Rightarrow> Hash_Addr a
      | V_Record a \<Rightarrow> Hash_Addr a
      | V_Instance a \<Rightarrow> Hash_Addr a
      | V_Closure a \<Rightarrow> Hash_Addr a
      | _ \<Rightarrow>
          (case num_key v of
             Some (True, i, _) \<Rightarrow> Hash_Number i
           | Some (False, _, b) \<Rightarrow> Hash_Number b
           | None \<Rightarrow> Hash_Tag 9))"
section \<open>Integer arithmetic against the integers\<close>

text \<open>
  The operators on mathematical integers: \<open>None\<close> for an operator integers do not have,
  otherwise an error or the unbounded result, an integer or a truth value.
\<close>

definition int_ref :: "bool \<Rightarrow> nat \<Rightarrow> bin_op \<Rightarrow> int \<Rightarrow> int \<Rightarrow> (rstr + (int + bool)) option" where
  "int_ref s w bop a b =
     (case bop of
        O_Add \<Rightarrow> Some (Inr (Inl (a + b)))
      | O_Sub \<Rightarrow> Some (Inr (Inl (a - b)))
      | O_Mul \<Rightarrow> Some (Inr (Inl (a * b)))
      | O_Div \<Rightarrow> Some (if b = 0 then Inl (str ''division by zero'')
                     else if int_hi s w < tdiv a b then Inl (str ''integer overflow in division'')
                     else Inr (Inl (tdiv a b)))
      | O_Rem \<Rightarrow> Some (if b = 0 then Inl (str ''division by zero'') else Inr (Inl (trem a b)))
      | O_Pow \<Rightarrow> Some (if b < 0 \<or> 2 ^ 63 \<le> b then Inl (str ''negative integer exponent'') else Inr (Inl (a ^ nat b)))
      | O_Shl \<Rightarrow> Some (Inr (Inl (a * 2 ^ nat (b mod int w))))
      | O_Shr \<Rightarrow> Some (Inr (Inl (a div 2 ^ nat (b mod int w))))
      | O_BitAnd \<Rightarrow> Some (Inr (Inl (a AND b)))
      | O_BitOr \<Rightarrow> Some (Inr (Inl (a OR b)))
      | O_BitXor \<Rightarrow> Some (Inr (Inl (a XOR b)))
      | O_Lt \<Rightarrow> Some (Inr (Inr (a < b)))
      | O_Gt \<Rightarrow> Some (Inr (Inr (b < a)))
      | O_Le \<Rightarrow> Some (Inr (Inr (a \<le> b)))
      | O_Ge \<Rightarrow> Some (Inr (Inr (b \<le> a)))
      | _ \<Rightarrow> None)"

definition int_answer :: "(int \<Rightarrow> mvalue) \<Rightarrow> (rstr + (int + bool)) option \<Rightarrow> mvalue tres" where
  "int_answer mk r =
     (case r of
        None \<Rightarrow> type_error (str ''bad operator'')
      | Some (Inl msg) \<Rightarrow> range_error msg
      | Some (Inr (Inl v)) \<Rightarrow> Inr (mk v)
      | Some (Inr (Inr b)) \<Rightarrow> Inr (V_Bool b))"

lemma word_of_int_val [simp]: "word_of_int (int_val s x) = x"
  by (simp add: int_val_def)

lemma sint_eq_0_iff [simp]: "sint x = 0 \<longleftrightarrow> x = 0"
proof
  assume h: "sint x = 0"
  have "x = word_of_int (sint x)" by simp
  then show "x = 0" unfolding h by simp
qed simp

lemma int_div_le: "0 \<le> a \<Longrightarrow> 0 < b \<Longrightarrow> a div b \<le> (a::int)"
  using zdiv_mono2 [of a 1 b] by simp

lemma int_val_0_iff [simp]: "int_val s x = 0 \<longleftrightarrow> x = 0"
  by (simp add: int_val_def uint_0_iff)

lemma pow_loop_power: "pow_loop n x acc = acc * x ^ n"
  by (induction n x acc rule: pow_loop.induct) (simp_all add: mult.assoc)

lemma int_val_bounds:
  fixes x :: "'a::len word"
  shows "int_lo s LENGTH('a) \<le> int_val s x" "int_val s x \<le> int_hi s LENGTH('a)"
  using sint_greater_eq [of x] sint_less [of x] uint_ge_0 [of x] uint_lt2p [of x]
  by (auto simp: int_val_def int_lo_def int_hi_def)

lemma tdiv_le_hi:
  fixes x y :: "'a::len word"
  assumes "y \<noteq> 0"
  shows "int_hi s LENGTH('a) < tdiv (int_val s x) (int_val s y) \<longleftrightarrow> div_overflows s x y"
proof (cases s)
  case True
  define a where "a = sint x"
  define b where "b = sint y"
  define B where "B = (2 :: int) ^ (LENGTH('a) - 1)"
  have B: "0 < B" by (simp add: B_def)
  have a: "- B \<le> a" "a < B" using sint_greater_eq [of x] sint_less [of x] by (simp_all add: a_def B_def)
  have b: "b \<noteq> 0" using assms by (simp add: b_def)
  have "\<bar>tdiv a b\<bar> \<le> \<bar>a\<bar> div \<bar>b\<bar>"
    using b by (auto simp: tdiv_def abs_mult abs_sgn_eq pos_imp_zdiv_nonneg_iff)
  also have "\<dots> \<le> \<bar>a\<bar>" using b by (intro int_div_le) auto
  finally have q: "\<bar>tdiv a b\<bar> \<le> \<bar>a\<bar>" .
  have "B - 1 < tdiv a b \<longleftrightarrow> a = - B \<and> b = - 1"
  proof
    assume h: "B - 1 < tdiv a b"
    then have "\<bar>a\<bar> = B" using q a by auto
    then have a': "a = - B" using a by auto
    have "b < 0"
    proof (rule ccontr)
      assume "\<not> b < 0"
      then have "0 < b" using b by simp
      then have "0 \<le> B div b" using B by (simp add: pos_imp_zdiv_nonneg_iff)
      moreover have "tdiv a b = - (B div b)" using a' B \<open>0 < b\<close> by (simp add: tdiv_def)
      ultimately show False using h B by simp
    qed
    then have "tdiv a b = B div - b" using a' B by (simp add: tdiv_def sgn_if)
    then have "B \<le> B div - b" using h by simp
    then have "- b = 1" using int_div_less_self [of B "- b"] B \<open>b < 0\<close> by linarith
    then show "a = - B \<and> b = - 1" using a' by simp
  qed (use B in \<open>simp add: tdiv_def\<close>)
  then show ?thesis using True
    by (simp add: int_hi_def int_val_def div_overflows_def a_def b_def B_def)
next
  case False
  have y: "0 < uint y" using assms uint_ge_0 [of y] by (simp add: less_le uint_0_iff)
  have "tdiv (uint x) (uint y) = uint x div uint y"
    using y by (cases "uint x = 0") (simp_all add: tdiv_def sgn_if)
  then have "tdiv (uint x) (uint y) \<le> uint x" using y by (simp add: int_div_le)
  then have "tdiv (uint x) (uint y) < 2 ^ LENGTH('a)" using uint_lt2p [of x] by (rule le_less_trans)
  then show ?thesis using False by (simp add: int_hi_def int_val_def div_overflows_def)
qed

lemma trem_overflow:
  fixes x y :: "'a::len word"
  assumes "div_overflows s x y"
  shows "trem (int_val s x) (int_val s y) = 0"
  using assms by (simp add: div_overflows_def int_val_def trem_def tdiv_def)

lemma shift_amount:
  fixes y :: "'a::len word"
  assumes "LENGTH('a) = 32 \<or> LENGTH('a) = 64"
  shows "unat (ucast y :: u32) mod LENGTH('a) = nat (int_val s y mod int LENGTH('a))"
proof -
  have d: "int LENGTH('a) dvd 2 ^ 32" "int LENGTH('a) dvd 2 ^ LENGTH('a)" using assms by auto
  have "int_val s y mod int LENGTH('a) = uint y mod int LENGTH('a)"
    using mod_mod_cancel [OF d(2), of "sint y"] by (auto simp: int_val_def uint_sint take_bit_eq_mod)
  also have "\<dots> = uint (ucast y :: u32) mod int LENGTH('a)"
    using mod_mod_cancel [OF d(1), of "uint y"] by (simp add: unsigned_ucast_eq take_bit_eq_mod)
  finally have e: "int_val s y mod int LENGTH('a) = uint (ucast y :: u32) mod int LENGTH('a)" .
  show ?thesis unfolding e by (metis nat_int of_nat_mod unat_eq_nat_uint uint_nat)
qed

lemma exponent_value:
  fixes y :: "'a::len word" and s :: bool
  assumes "LENGTH('a) = 32 \<or> LENGTH('a) = 64"
  defines "n \<equiv> sint (if s then scast y else ucast y :: i64)"
  shows "n < 0 \<longleftrightarrow> int_val s y < 0 \<or> 2 ^ 63 \<le> int_val s y"
    "\<not> n < 0 \<Longrightarrow> n = int_val s y"
proof -
  define v where "v = int_val s y"
  have "n = sint (word_of_int v :: i64)"
    by (cases s) (simp_all add: n_def v_def int_val_def)
  also have "\<dots> = (v + 2 ^ 63) mod 2 ^ 64 - 2 ^ 63"
    by (simp add: signed_of_int signed_take_bit_eq_take_bit_shift take_bit_eq_mod)
  finally have n: "n = (v + 2 ^ 63) mod 2 ^ 64 - 2 ^ 63" .
  have lo: "- (2 ^ 63) \<le> v" and hi: "v < 2 ^ 64"
    using int_val_bounds [of s y] assms(1) by (auto simp: v_def int_lo_def int_hi_def split: if_splits)
  have "(v + 2 ^ 63) mod 2 ^ 64 = (if v < 2 ^ 63 then v + 2 ^ 63 else v + 2 ^ 63 - 2 ^ 64)"
    using lo hi minus_mod_self2 [of "v + 2 ^ 63" "2 ^ 64"] mod_pos_pos_trivial [of "v + 2 ^ 63 - 2 ^ 64" "2 ^ 64"]
    by simp
  then show "n < 0 \<longleftrightarrow> int_val s y < 0 \<or> 2 ^ 63 \<le> int_val s y" "\<not> n < 0 \<Longrightarrow> n = int_val s y"
    using n lo hi by (auto simp flip: v_def split: if_splits)
qed

lemma int_binop_div:
  fixes x y :: "'a::len word"
  assumes w: "LENGTH('a) = 32 \<or> LENGTH('a) = 64"
  shows "int_binop s mk O_Div x y = int_answer (\<lambda>v. mk (word_of_int v)) (int_ref s LENGTH('a) O_Div (int_val s x) (int_val s y))"
  using tdiv_le_hi [of y s x] by (simp add: int_binop_def int_ref_def int_answer_def checked_div_def)

lemma int_binop_rem:
  fixes x y :: "'a::len word"
  assumes w: "LENGTH('a) = 32 \<or> LENGTH('a) = 64"
  shows "int_binop s mk O_Rem x y = int_answer (\<lambda>v. mk (word_of_int v)) (int_ref s LENGTH('a) O_Rem (int_val s x) (int_val s y))"
  by (simp add: int_binop_def int_ref_def int_answer_def checked_rem_def trem_overflow)

lemma int_binop_pow:
  fixes x y :: "'a::len word"
  assumes w: "LENGTH('a) = 32 \<or> LENGTH('a) = 64"
  shows "int_binop s mk O_Pow x y = int_answer (\<lambda>v. mk (word_of_int v)) (int_ref s LENGTH('a) O_Pow (int_val s x) (int_val s y))"
proof -
  define n where "n = sint (if s then scast y else ucast y :: i64)"
  have e: "n < 0 \<longleftrightarrow> int_val s y < 0 \<or> 2 ^ 63 \<le> int_val s y" "\<not> n < 0 \<Longrightarrow> n = int_val s y"
    unfolding n_def by (rule exponent_value [OF w], erule exponent_value [OF w])
  have "int_binop s mk O_Pow x y =
      (if n < 0 then range_error (str ''negative integer exponent'') else Inr (mk (pow_loop (nat n) x 1)))"
    by (simp only: int_binop_def Let_def bin_op.case n_def)
  also have "\<dots> = int_answer (\<lambda>v. mk (word_of_int v)) (int_ref s LENGTH('a) O_Pow (int_val s x) (int_val s y))"
  proof (cases "n < 0")
    case True
    then have c: "int_val s y < 0 \<or> 2 ^ 63 \<le> int_val s y" using e(1) by blast
    show ?thesis unfolding int_ref_def int_answer_def bin_op.case if_P [OF True] if_P [OF c] by simp
  next
    case False
    then have c: "\<not> (int_val s y < 0 \<or> 2 ^ 63 \<le> int_val s y)" using e(1) by blast
    have "pow_loop (nat n) x 1 = word_of_int (int_val s x ^ nat (int_val s y))"
      unfolding e(2) [OF False] by (simp add: pow_loop_power)
    then show ?thesis unfolding int_ref_def int_answer_def bin_op.case if_not_P [OF False] if_not_P [OF c] by simp
  qed
  finally show ?thesis .
qed

lemma int_binop_shl:
  fixes x y :: "'a::len word"
  assumes w: "LENGTH('a) = 32 \<or> LENGTH('a) = 64"
  shows "int_binop s mk O_Shl x y = int_answer (\<lambda>v. mk (word_of_int v)) (int_ref s LENGTH('a) O_Shl (int_val s x) (int_val s y))"
  by (simp add: int_binop_def int_ref_def int_answer_def push_bit_eq_mult shift_amount [OF w, of y s])

lemma int_binop_shr:
  fixes x y :: "'a::len word"
  assumes w: "LENGTH('a) = 32 \<or> LENGTH('a) = 64"
  shows "int_binop s mk O_Shr x y = int_answer (\<lambda>v. mk (word_of_int v)) (int_ref s LENGTH('a) O_Shr (int_val s x) (int_val s y))"
proof -
  have "signed_drop_bit k x = word_of_int (sint x div 2 ^ k)" "drop_bit k x = word_of_int (uint x div 2 ^ k)" for k
  proof -
    show "signed_drop_bit k x = word_of_int (sint x div 2 ^ k)"
    proof -
      have "sint (signed_drop_bit k x) = sint x div 2 ^ k" by (simp add: sint_signed_drop_bit_eq drop_bit_eq_div)
      then have "(word_of_int (sint (signed_drop_bit k x)) :: 'a word) = word_of_int (sint x div 2 ^ k)"
        by (rule arg_cong)
      then show ?thesis by simp
    qed
    have "uint (drop_bit k x) = uint x div 2 ^ k" 
    proof -
      have "take_bit LENGTH('a) (uint x) = uint x"
        using uint_lt2p [of x] uint_ge_0 [of x] by (intro take_bit_int_eq_self) auto
      then have "uint (drop_bit k x) = drop_bit k (uint x)" by (simp only: unsigned_drop_bit_eq)
      then show ?thesis by (simp only: drop_bit_eq_div)
    qed
    then have "(word_of_int (uint (drop_bit k x)) :: 'a word) = word_of_int (uint x div 2 ^ k)"
      by (rule arg_cong)
    then show "drop_bit k x = word_of_int (uint x div 2 ^ k)" by simp
  qed
  then show ?thesis 
    by (auto simp: int_binop_def int_ref_def int_answer_def Let_def int_val_def shift_amount [OF w, of y s])
qed

lemma int_binop_ref:
  fixes x y :: "'a::len word"
  assumes w: "LENGTH('a) = 32 \<or> LENGTH('a) = 64"
  shows "int_binop s mk bop x y = int_answer (\<lambda>v. mk (word_of_int v)) (int_ref s LENGTH('a) bop (int_val s x) (int_val s y))"
proof (cases bop)
  case O_Div then show ?thesis using int_binop_div [OF w] by simp
next
  case O_Rem then show ?thesis using int_binop_rem [OF w] by simp
next
  case O_Pow then show ?thesis using int_binop_pow [OF w] by simp
next
  case O_Shl then show ?thesis using int_binop_shl [OF w] by simp
next
  case O_Shr then show ?thesis using int_binop_shr [OF w] by simp
qed (simp_all add: int_binop_def int_ref_def int_answer_def of_int_and_eq of_int_or_eq of_int_xor_eq)
text \<open>The kinds an operand has after promotion.\<close>

definition wide_kinds :: "int_kind set" where
  "wide_kinds = {I32, I64, U32, U64}"

lemma signed_word_of_int:
  "- (2 ^ (LENGTH('a) - 1)) \<le> i \<Longrightarrow> i < 2 ^ (LENGTH('a) - 1) \<Longrightarrow> sint (word_of_int i :: 'a::len word) = i"
  by (simp add: signed_of_int signed_take_bit_int_eq_self)

lemma unsigned_word_of_int: "0 \<le> i \<Longrightarrow> i < 2 ^ LENGTH('a) \<Longrightarrow> uint (word_of_int i :: 'a::len word) = i"
  by (simp add: unsigned_of_int take_bit_int_eq_self)

lemma kind_fits_val:
  "kind_fits I32 a \<Longrightarrow> int_val True (word_of_int a :: i32) = a"
  "kind_fits I64 a \<Longrightarrow> int_val True (word_of_int a :: i64) = a"
  "kind_fits U32 a \<Longrightarrow> int_val False (word_of_int a :: u32) = a"
  "kind_fits U64 a \<Longrightarrow> int_val False (word_of_int a :: u64) = a"
  by (simp_all add: kind_fits_def int_lo_def int_hi_def int_val_def signed_word_of_int unsigned_word_of_int)

lemma kind_value_eqs:
  "kind_value I32 = (\<lambda>v. V_I32 (word_of_int v))" "kind_value I64 = (\<lambda>v. V_I64 (word_of_int v))"
  "kind_value U32 = (\<lambda>v. V_U32 (word_of_int v))" "kind_value U64 = (\<lambda>v. V_U64 (word_of_int v))"
  by (rule ext, simp)+

lemma promoted_int_arith:
  assumes k: "k \<in> wide_kinds" and fits: "kind_fits k a" "kind_fits k b"
  shows "promoted_binop pw bop (kind_value k a) (kind_value k b)
    = int_answer (kind_value k) (int_ref (kind_signed k) (kind_bits k) bop a b)"
proof -
  consider "k = I32" | "k = I64" | "k = U32" | "k = U64" using k by (auto simp: wide_kinds_def)
  then show ?thesis
    by cases (use fits in \<open>simp_all add: promoted_binop_def int_binop_ref kind_fits_val kind_value_eqs\<close>)
qed

section \<open>Casts against the integers\<close>

text \<open>The integer a value holds.\<close>

definition int_of :: "mvalue \<Rightarrow> int option" where
  "int_of v =
     (case v of V_I32 n \<Rightarrow> Some (sint n) | V_I64 n \<Rightarrow> Some (sint n)
              | V_U32 n \<Rightarrow> Some (uint n) | V_U64 n \<Rightarrow> Some (uint n) | _ \<Rightarrow> None)"

text \<open>\<open>IntKind::name\<close>.\<close>

primrec kind_name :: "int_kind \<Rightarrow> rstr" where
  "kind_name I8 = (str ''int8'')" | "kind_name I16 = (str ''int16'')" | "kind_name I32 = (str ''int32'')" | "kind_name I64 = (str ''int64'')"
| "kind_name U8 = (str ''uint8'')" | "kind_name U16 = (str ''uint16'')" | "kind_name U32 = (str ''uint32'')" | "kind_name U64 = (str ''uint64'')"

lemma as_i64_exact: "int_of v = Some i \<Longrightarrow> i < 2 ^ 63 \<Longrightarrow> \<exists>w. as_i64 v = Some w \<and> sint w = i"
proof -
  assume v: "int_of v = Some i" and i: "i < 2 ^ 63"
  have "as_i64 v = Some (word_of_int i)" using v by (cases v) (auto simp: int_of_def)
  moreover have "- (2 ^ 63) \<le> i"
  proof -
    have b32: "- (2 ^ 31) \<le> sint x" for x :: i32 using sint_greater_eq [of x] by simp
    have b64: "- (2 ^ 63) \<le> sint x" for x :: i64 using sint_greater_eq [of x] by simp
    show ?thesis using v
      by (cases v) (auto simp: int_of_def intro: order_trans [OF _ b32] order_trans [OF _ b64] order_trans [OF _ uint_ge_0])
  qed
  ultimately show ?thesis using i signed_word_of_int [where 'a = 64, of i] by simp
qed

lemma as_num_int: "int_of v = Some i \<Longrightarrow> as_num v = Some (fl_of_int f64 i)"
  by (cases v) (auto simp: int_of_def)

lemma cast_int_checked:
  assumes v: "int_of v = Some i" and i: "i < 2 ^ 63"
  shows "eval_cast st v False (TE_Named (kind_name k) p args) =
    (if kind_fits k i then Inr (kind_value k i) else out_of_range (kind_name k))"
proof -
  obtain w where w: "as_i64 v = Some w" "sint w = i" using as_i64_exact [OF assms] by blast
  have n: "plain_cast (kind_name k) v = None" by (cases k) (simp_all add: plain_cast_def)
  show ?thesis using w as_num_int [OF v] n i
    by (cases k) (auto simp: cast_number_def to_int_cast_def to_u64_cast_def kind_fits_def int_lo_def int_hi_def out_of_range_def range_error_def)
qed

text \<open>A \<open>uint64\<close> above the range of \<open>i64\<close> is read as a negative number by the checked casts.\<close>

lemma cast_uint64_wraps:
  assumes "2 ^ 63 \<le> uint u"
  shows "eval_cast st (V_U64 u) False (TE_Named (str ''int64'') p args) = Inr (V_I64 u)" "sint u = uint u - 2 ^ 64"
proof -
  have b: "- (2 ^ 63) \<le> sint u" "sint u \<le> 2 ^ 63 - 1"
    using sint_greater_eq [of u] sint_less [of u] by simp_all
  show "eval_cast st (V_U64 u) False (TE_Named (str ''int64'') p args) = Inr (V_I64 u)"
    using b by (simp add: plain_cast_def cast_number_def to_int_cast_def int_lo_def int_hi_def)
  have "sint u = (uint u + 2 ^ 63) mod 2 ^ 64 - 2 ^ 63"
    by (simp add: sint_uint signed_take_bit_eq_take_bit_shift take_bit_eq_mod)
  also have "(uint u + 2 ^ 63) mod 2 ^ 64 = (uint u + 2 ^ 63 - 2 ^ 64) mod 2 ^ 64"
    using minus_mod_self2 [of "uint u + 2 ^ 63" "2 ^ 64"] by simp
  also have "\<dots> = uint u + 2 ^ 63 - 2 ^ 64"
    using assms uint_lt2p [of u] by (intro mod_pos_pos_trivial) auto
  finally show "sint u = uint u - 2 ^ 64" by simp
qed

section \<open>The contract of map keys\<close>

definition key_wf :: "mvalue \<Rightarrow> bool" where
  "key_wf v \<longleftrightarrow> (case v of V_BigInt b \<Rightarrow> bi_wf b | V_BigDec d \<Rightarrow> False | _ \<Rightarrow> True)"

lemma bi_decimal_cong:
  assumes "bi_wf a" "bi_wf b" "bi_val a = bi_val b"
  shows "bi_to_decimal a = bi_to_decimal b"
proof -
  have "neg x \<longleftrightarrow> bi_val x < 0" "mag_val (mag x) = nat \<bar>bi_val x\<bar>" if "bi_wf x" for x
    using neg_iff_bi_val [OF that] by (auto simp: bi_val_def)
  then show ?thesis using assms by (simp add: bi_to_decimal_eq)
qed

lemma num_key_hash: "num_key a = Some (p, i, b) \<Longrightarrow> key_hash a = Hash_Number (if p then i else b)"
  by (cases a) (auto simp: key_hash_def num_key_def)

lemma key_eq_hash:
  assumes "key_wf a" "key_wf b" "key_eq a b"
  shows "key_hash a = key_hash b"
proof (cases "same_kind_equal a b")
  case (Some r)
  then have "a \<noteq> V_Null" by (auto simp: same_kind_equal_def)
  then have r: "same_kind_equal a b = Some True" using assms(3) Some by (simp add: key_eq_def)
  show ?thesis using r assms(1,2)
    by (cases a) (auto simp: same_kind_equal_def key_hash_def key_wf_def bi_cmp_val intro: bi_decimal_cong
        split: mvalue.splits)
next
  case None
  show ?thesis
  proof (cases "a = V_Null \<and> b = V_Null")
    case False
    with None assms(3) obtain p x xb q y yb where "num_key a = Some (p, x, xb)" "num_key b = Some (q, y, yb)"
      "p = q" "p \<Longrightarrow> x = y" "\<not> p \<Longrightarrow> xb = yb"
      by (auto simp: key_eq_def split: if_splits option.splits prod.splits)
    then show ?thesis by (simp add: num_key_hash)
  qed auto
qed
section \<open>Integer operators on mixed operands\<close>

text \<open>The rank of a kind in the usual arithmetic conversions, and the kind two operands share.\<close>

primrec kind_rank :: "int_kind \<Rightarrow> nat" where
  "kind_rank I8 = 0" | "kind_rank I16 = 0" | "kind_rank I32 = 0" | "kind_rank I64 = 2"
| "kind_rank U8 = 0" | "kind_rank U16 = 0" | "kind_rank U32 = 1" | "kind_rank U64 = 3"

definition join_kind :: "int_kind \<Rightarrow> int_kind \<Rightarrow> int_kind" where
  "join_kind k l = (if kind_rank k < kind_rank l then l else k)"

definition wrap_kind :: "int_kind \<Rightarrow> int \<Rightarrow> int" where
  "wrap_kind k v = wrap_int (kind_signed k) (kind_bits k) v"

lemma wrap_kind_fits: "kind_fits k (wrap_kind k v)"
proof (cases "kind_signed k")
  case True
  have b: "0 < kind_bits k" by (cases k) auto
  have "- (2 ^ (kind_bits k - 1)) \<le> signed_take_bit (kind_bits k - 1) v"
    "signed_take_bit (kind_bits k - 1) v < 2 ^ (kind_bits k - 1)"
    using signed_take_bit_int_greater_eq_minus_exp [of "kind_bits k - 1" v]
      signed_take_bit_int_less_exp [of "kind_bits k - 1" v] by auto
  then show ?thesis using True by (simp add: kind_fits_def wrap_kind_def wrap_int_def int_lo_def int_hi_def)
next
  case False
  then show ?thesis using take_bit_int_less_exp [of "kind_bits k" v]
    by (simp add: kind_fits_def wrap_kind_def wrap_int_def int_lo_def int_hi_def)
qed

lemma word_of_wrap:
  "(word_of_int (signed_take_bit 31 v) :: i32) = word_of_int v"
  "(word_of_int (signed_take_bit 63 v) :: i64) = word_of_int v"
  "(word_of_int (take_bit 32 v) :: u32) = word_of_int v"
  "(word_of_int (take_bit 64 v) :: u64) = word_of_int v"
  by (simp_all add: word_of_int_eq_iff take_bit_signed_take_bit)

lemma wrap_kind_value: "k \<in> wide_kinds \<Longrightarrow> kind_value k (wrap_kind k v) = kind_value k v"
  by (auto simp: wide_kinds_def wrap_kind_def wrap_int_def word_of_wrap)

lemma kind_fits_sint: "kind_fits I32 a \<Longrightarrow> sint (word_of_int a :: i32) = a"
  and kind_fits_uint: "kind_fits U32 a \<Longrightarrow> uint (word_of_int a :: u32) = a"
  using kind_fits_val(1) [of a] kind_fits_val(3) [of a] by (simp_all add: int_val_def)

lemma widen_words:
  "kind_fits I32 a \<Longrightarrow> (scast (word_of_int a :: i32) :: i64) = word_of_int a"
  "kind_fits U32 a \<Longrightarrow> (ucast (word_of_int a :: u32) :: i64) = word_of_int a"
  using kind_fits_sint [of a] kind_fits_uint [of a] by (simp_all add: scast_eq ucast_eq)

lemma conv_kind:
  assumes "k \<in> wide_kinds" "j \<in> wide_kinds" "kind_fits k a" "kind_rank k \<le> kind_rank j"
  shows "conv_rank (kind_rank j) (kind_value k a) = Some (kind_value j a)"
  using assms by (auto simp: wide_kinds_def conv_rank_def widen_words)

lemma rank_kind: "k \<in> wide_kinds \<Longrightarrow> rank (kind_value k a) = Some (kind_rank k)"
  by (auto simp: wide_kinds_def)

lemma join_wide: "k \<in> wide_kinds \<Longrightarrow> l \<in> wide_kinds \<Longrightarrow> join_kind k l \<in> wide_kinds"
  by (simp add: join_kind_def)

lemma promote_ints:
  assumes "k \<in> wide_kinds" "l \<in> wide_kinds" "kind_fits k a" "kind_fits l b"
  shows "promote_pair (kind_value k a) (kind_value l b) = Some (kind_value (join_kind k l) a, kind_value (join_kind k l) b)"
proof -
  have m: "max (kind_rank k) (kind_rank l) = kind_rank (join_kind k l)" by (auto simp: join_kind_def)
  have "kind_rank k \<le> kind_rank (join_kind k l)" "kind_rank l \<le> kind_rank (join_kind k l)" by (auto simp: join_kind_def)
  then show ?thesis using assms by (simp add: promote_pair_def rank_kind m conv_kind join_wide)
qed

lemma text_binop_ints: "k \<in> wide_kinds \<Longrightarrow> text_binop bop (kind_value k a) w = None"
  by (auto simp: wide_kinds_def text_binop_def)

lemma not_big:
  "k \<in> wide_kinds \<Longrightarrow>
    (case kind_value k a of V_BigInt x \<Rightarrow> f x | V_BigDec y \<Rightarrow> g y | _ \<Rightarrow> (z :: mvalue tres)) = z"
  by (auto simp: wide_kinds_def)

lemma numeric_binop_ints:
  assumes "k \<in> wide_kinds" "l \<in> wide_kinds" "kind_fits k a" "kind_fits l b"
  defines "j \<equiv> join_kind k l"
  shows "numeric_binop pw bop (kind_value k a) (kind_value l b)
    = int_answer (kind_value j) (int_ref (kind_signed j) (kind_bits j) bop (wrap_kind j a) (wrap_kind j b))"
proof -
  have j: "j \<in> wide_kinds" using assms(1,2) by (simp add: j_def join_wide)
  have "numeric_binop pw bop (kind_value k a) (kind_value l b) = promoted_binop pw bop (kind_value j a) (kind_value j b)"
    unfolding numeric_binop_def text_binop_ints [OF assms(1)] promote_ints [OF assms(1-4)] j_def Let_def option.case prod.case
    by (rule not_big [OF assms(1)])
  also have "\<dots> = promoted_binop pw bop (kind_value j (wrap_kind j a)) (kind_value j (wrap_kind j b))"
    by (simp add: wrap_kind_value [OF j])
  finally show ?thesis by (simp add: promoted_int_arith [OF j wrap_kind_fits wrap_kind_fits])
qed

lemma int_of_kind: "j \<in> wide_kinds \<Longrightarrow> kind_fits j a \<Longrightarrow> int_of (kind_value j a) = Some a"
  by (auto simp: wide_kinds_def int_of_def dest: kind_fits_val simp flip: int_val_def) (auto dest: kind_fits_val simp: int_val_def)

lemma kind_value_inj: "j \<in> wide_kinds \<Longrightarrow> kind_fits j a \<Longrightarrow> kind_fits j b \<Longrightarrow> kind_value j a = kind_value j b \<longleftrightarrow> a = b"
  by (rule iffI, drule arg_cong [of _ _ int_of]) (simp_all add: int_of_kind)

lemma values_equal_ints:
  assumes "k \<in> wide_kinds" "l \<in> wide_kinds" "kind_fits k a" "kind_fits l b"
  defines "j \<equiv> join_kind k l"
  shows "values_equal (kind_value k a) (kind_value l b) = Inr (wrap_kind j a = wrap_kind j b)"
proof -
  have j: "j \<in> wide_kinds" using assms(1,2) by (simp add: j_def join_wide)
  have n: "kind_value i x \<noteq> V_Null" "same_kind_equal (kind_value i x) w = None" "as_num (kind_value i x) \<noteq> None"
    if "i \<in> wide_kinds" for i x w
    using that by (auto simp: wide_kinds_def same_kind_equal_def)
  have "values_equal (kind_value k a) (kind_value l b) = Inr (num_eq (kind_value j a) (kind_value j b))"
    using promote_ints [OF assms(1-4)] n [OF assms(1)] n [OF assms(2)] by (simp add: values_equal_def j_def)
  also have "num_eq (kind_value j a) (kind_value j b) \<longleftrightarrow> kind_value j (wrap_kind j a) = kind_value j (wrap_kind j b)"
    using j by (auto simp: wide_kinds_def num_eq_def wrap_kind_value)
  finally show ?thesis using kind_value_inj [OF j wrap_kind_fits wrap_kind_fits] by simp
qed

text \<open>
  C15: The integer operators compute with the mathematical integers: two operands of the
  kinds \<open>k\<close> and \<open>l\<close> are read modulo the width of their common kind \<open>j\<close>, the operation
  is the one on the integers, and its result is stored modulo that width; a zero divisor,
  the one quotient that does not fit and a negative exponent are the only errors.  Equality
  is equality of the two wrapped integers.
\<close>

theorem int_operators_wrap:
  assumes "k \<in> wide_kinds" "l \<in> wide_kinds" "kind_fits k a" "kind_fits l b"
  shows "numeric_binop pw bop (kind_value k a) (kind_value l b) =
      (let j = join_kind k l in int_answer (kind_value j) (int_ref (kind_signed j) (kind_bits j) bop (wrap_kind j a) (wrap_kind j b)))
    \<and> values_equal (kind_value k a) (kind_value l b) = Inr (wrap_kind (join_kind k l) a = wrap_kind (join_kind k l) b)"
  using numeric_binop_ints [OF assms] values_equal_ints [OF assms] by (simp add: Let_def)

theorem int_operators_wrap_witness:
  "numeric_binop (\<lambda>_ x y. x) O_Sub (V_I32 3) (V_U32 5) = Inr (V_U32 4294967294)
    \<and> numeric_binop (\<lambda>_ x y. x) O_Div (V_I32 7) (V_I64 0) = range_error (str ''division by zero'')"
  using int_operators_wrap [of I32 U32 3 5 "\<lambda>_ x y. x" O_Sub] int_operators_wrap [of I32 I64 7 0 "\<lambda>_ x y. x" O_Div]
  by (simp add: wide_kinds_def kind_fits_def int_lo_def int_hi_def join_kind_def Let_def int_answer_def int_ref_def
      wrap_kind_def wrap_int_def)
section \<open>Casts and recorded conversions\<close>

definition no_store :: store where
  "no_store = \<lparr>st_array = \<lambda>_. [], st_class = \<lambda>_. Class_Def [] None\<rparr>"

text \<open>
  A \<open>uint64\<close> of 2 to the 63 or more breaks the promise of the checked cast: to \<open>int64\<close> it
  passes and comes out negative, and to its own type it throws \<open>RangeError\<close>.
\<close>

lemma uint64_checked_cast_wraps:
  assumes "2 ^ 63 \<le> uint u"
  shows "eval_cast st (V_U64 u) False (TE_Named (str ''int64'') p args) = Inr (V_I64 u) \<and> sint u = uint u - 2 ^ 64
    \<and> eval_cast st (V_U64 u) False (TE_Named (str ''uint64'') p args) = out_of_range (str ''uint64'')"
  using cast_uint64_wraps [OF assms] uint_lt2p [of u]
  by (simp add: plain_cast_def cast_number_def to_u64_cast_def out_of_range_def range_error_def)

lemma uint64_checked_cast_wraps_example:
  "eval_cast no_store (V_U64 18446744073709551615) False (TE_Named (str ''int64'') \<lparr>p_line = 1, p_col = 1\<rparr> []) = Inr (V_I64 18446744073709551615)
    \<and> eval_cast no_store (V_U64 18446744073709551615) False (TE_Named (str ''uint64'') \<lparr>p_line = 1, p_col = 1\<rparr> []) = out_of_range (str ''uint64'')"
  using uint64_checked_cast_wraps [of 18446744073709551615 no_store "\<lparr>p_line = 1, p_col = 1\<rparr>" "[]"] by simp

lemma only_uint64_past_63:
  assumes "int_of v = Some i" "2 ^ 63 \<le> i"
  shows "\<exists>u. v = V_U64 u \<and> uint u = i"
proof (cases v)
  case (V_I32 n)
  then show ?thesis using assms sint_less [of n] by (simp add: int_of_def)
next
  case (V_I64 n)
  then show ?thesis using assms sint_less [of n] by (simp add: int_of_def)
next
  case (V_U32 n)
  then show ?thesis using assms uint_lt2p [of n] by (simp add: int_of_def)
qed (use assms in \<open>simp_all add: int_of_def\<close>)

text \<open>
  C16: A cast \<open>v as K\<close> of an integer below 2 to the 63 to an integer type answers the same
  integer when it fits the type and throws \<open>RangeError\<close> when it does not.  The cast of a
  \<open>uint64\<close> of 2 to the 63 or more is wrong: to \<open>int64\<close> it succeeds and answers the integer less 2
  to the 64, a negative one, and to \<open>uint64\<close>, its own type, it throws \<open>RangeError\<close>.
\<close>

theorem checked_cast_exact:
  assumes "int_of v = Some i"
  shows "if i < 2 ^ 63 then
      eval_cast st v False (TE_Named (kind_name k) p args) =
        (if kind_fits k i then Inr (kind_value k i) else out_of_range (kind_name k))
    else eval_cast st v False (TE_Named (str ''int64'') p args) = Inr (V_I64 (word_of_int i))
      \<and> sint (word_of_int i :: i64) = i - 2 ^ 64
      \<and> eval_cast st v False (TE_Named (str ''uint64'') p args) = out_of_range (str ''uint64'')"
proof (cases "i < 2 ^ 63")
  case True
  then show ?thesis using cast_int_checked [OF assms True] by simp
next
  case False
  then obtain u where u: "v = V_U64 u" "uint u = i" using only_uint64_past_63 [OF assms] by auto
  then have "word_of_int i = u" by (simp add: word_of_int_uint flip: u(2))
  then show ?thesis using uint64_checked_cast_wraps [of u st p args] False u by simp
qed

theorem checked_cast_exact_witness:
  "eval_cast no_store (V_I64 300) False (TE_Named (str ''uint8'') \<lparr>p_line = 1, p_col = 1\<rparr> []) = out_of_range (str ''uint8'')
    \<and> eval_cast no_store (V_I64 200) False (TE_Named (str ''uint8'') \<lparr>p_line = 1, p_col = 1\<rparr> []) = Inr (V_I32 200)"
  using checked_cast_exact [of "V_I64 300" 300 no_store U8 "\<lparr>p_line = 1, p_col = 1\<rparr>" "[]"] checked_cast_exact [of "V_I64 200" 200 no_store U8 "\<lparr>p_line = 1, p_col = 1\<rparr>" "[]"]
  by (simp add: int_of_def kind_fits_def int_lo_def int_hi_def)

lemma i128_range: "int_of v = Some i \<Longrightarrow> convert_source v = Some (i, fl_of_int f64 i, False)"
  by (cases v) (auto simp: int_of_def convert_source_def)

lemma convert_int:
  assumes "int_of v = Some i"
  shows "convert_num v (Num_Int k) = kind_value k (wrap_kind k i)"
  by (cases k) (simp_all add: convert_num_def i128_range [OF assms] wrap_kind_def wrap_int_def word_of_wrap)

lemma wrap_kind_id: "kind_fits k i \<Longrightarrow> wrap_kind k i = i"
proof (cases "kind_signed k")
  case True
  assume "kind_fits k i"
  then show ?thesis using True by (simp add: kind_fits_def int_lo_def int_hi_def wrap_kind_def wrap_int_def signed_take_bit_int_eq_self)
next
  case False
  assume "kind_fits k i"
  then show ?thesis using False by (simp add: kind_fits_def int_lo_def int_hi_def wrap_kind_def wrap_int_def take_bit_int_eq_self)
qed

text \<open>
  C17: The conversion the compiler emits between integer types wraps modulo the width of the
  target and so keeps every integer that fits it; converting twice is converting once when
  the first target is the wider one of the same signedness.
\<close>

theorem convert_num_wraps:
  assumes "int_of v = Some i"
  shows "convert_num v (Num_Int k) = kind_value k (wrap_kind k i)
    \<and> (kind_fits k i \<longrightarrow> int_of (convert_num v (Num_Int k)) = Some i)"
proof -
  have "int_of (kind_value k i) = Some i" if f: "kind_fits k i"
    using f kind_fits_val [of i]
    by (cases k) (auto simp: int_of_def kind_fits_def int_lo_def int_hi_def int_val_def)
  then show ?thesis by (simp add: convert_int [OF assms] wrap_kind_id)
qed

theorem convert_num_wraps_witness:
  "convert_num (V_I32 300) (Num_Int U8) = V_I32 44 \<and> convert_num (V_I64 (- 1)) (Num_Int U32) = V_U32 4294967295"
  using convert_num_wraps [of "V_I32 300" 300 U8] convert_num_wraps [of "V_I64 (- 1)" "- 1" U32]
  by (simp add: int_of_def wrap_kind_def wrap_int_def mask_eq_exp_minus_1)

section \<open>Integer literals\<close>

lemma radix_value_snoc:
  "radix_value r (s @ [c]) = (case (radix_value r s, to_digit c r) of (Some v, Some d) \<Rightarrow> Some (v * r + d) | _ \<Rightarrow> None)"
  by (simp add: radix_value_def)

lemma radix_value_dec_nat: "radix_value 10 (dec_nat n) = Some n"
proof (induction n rule: less_induct)
  case (less n)
  show ?case
  proof (cases "n < 10")
    case True
    then show ?thesis using radix_value_snoc [of 10 "[]" "ch CHR ''0'' + n"] to_digit_decimal [OF True]
      by (simp add: dec_nat_small radix_value_def)
  next
    case False
    then have "radix_value 10 (dec_nat (n div 10)) = Some (n div 10)" by (intro less.IH) simp
    then show ?thesis using False to_digit_decimal [of "n mod 10"]
      unfolding dec_nat_step [OF False [unfolded not_less]] radix_value_snoc by simp
  qed
qed

definition is_digits :: "rstr \<Rightarrow> bool" where
  "is_digits s \<longleftrightarrow> (\<forall>c\<in>set s. 48 \<le> c \<and> c \<le> 57)"

lemma dec_nat_is_digits: "is_digits (dec_nat n)"
  using dec_nat_digits [of _ n] by (auto simp: is_digits_def)

lemma no_underscores_digits: "is_digits s \<Longrightarrow> no_underscores (s @ t) = s @ no_underscores t"
  by (auto simp: no_underscores_def is_digits_def filter_id_conv)

lemma ends_with_rev: "ends_with s t \<longleftrightarrow> take (length t) (rev s) = rev t"
proof (cases "length t \<le> length s")
  case True
  then show ?thesis by (simp add: ends_with_def take_rev)
next
  case False
  then have "take (length t) (rev s) = rev s" "rev s \<noteq> rev t" by auto
  then show ?thesis using False by (simp add: ends_with_def)
qed

lemma split_radix_digits:
  assumes "is_digits s"
  shows "split_radix s = (10, s)"
proof -
  have "strip_prefix [48, x] s = None" if "x > 57" for x
  proof -
    have "take 2 s \<noteq> [48, x]"
    proof
      assume "take 2 s = [48, x]"
      then have "x \<in> set (take 2 s)" by simp
      then have "x \<in> set s" by (rule in_set_takeD)
      then show False using assms that by (auto simp: is_digits_def)
    qed
    then show ?thesis by (simp add: strip_prefix_def numeral_2_eq_2)
  qed
  then show ?thesis by (simp add: split_radix_def)
qed

text \<open>The suffixes and the type each stands for.\<close>

primrec kind_suffix :: "int_kind \<Rightarrow> rstr" where
  "kind_suffix I8 = (str ''i8'')" | "kind_suffix I16 = (str ''i16'')" | "kind_suffix I32 = (str ''i32'')" | "kind_suffix I64 = (str ''i64'')"
| "kind_suffix U8 = (str ''u8'')" | "kind_suffix U16 = (str ''u16'')" | "kind_suffix U32 = (str ''u32'')" | "kind_suffix U64 = (str ''u64'')"

lemma digits_rev:
  assumes "is_digits s" "s \<noteq> []"
  obtains d r where "rev s = d # r" "48 \<le> d" "d \<le> 57"
  using assms by (cases "rev s") (auto simp: is_digits_def dest!: arg_cong [of "rev s" _ "\<lambda>x. set x"])

lemma suffix_of_digits:
  assumes "is_digits s" "s \<noteq> []"
  shows "literal_suffix (s @ kind_suffix k) = kind_suffix k"
proof -
  obtain d r where "rev s = d # r" "48 \<le> d" "d \<le> 57" using digits_rev [OF assms] .
  then show ?thesis
    by (cases k) (simp_all add: literal_suffix_def literal_suffixes_def ends_with_rev)
qed

lemma no_suffix_of_digits:
  assumes "is_digits s"
  shows "literal_suffix s = []"
proof -
  have "\<not> ends_with s t" if "x \<in> set t" "57 < x" for t x
  proof
    assume "ends_with s t"
    then have "set t \<subseteq> set s" by (metis ends_with_def set_drop_subset)
    then show False using assms that unfolding is_digits_def by (meson leD subsetD)
  qed
  then have "\<not> ends_with s t" if "list_ex (\<lambda>x. 57 < x) t" for t
    using that by (auto simp: list_ex_iff)
  then show ?thesis by (simp add: literal_suffix_def literal_suffixes_def)
qed

lemma u64_of_dec_nat:
  "u64_from_str_radix (dec_nat n) 10 = (if n < 2 ^ 64 then Some n else None)"
proof -
  have b: "(case dec_nat n of c # rest \<Rightarrow> if c = (ch CHR ''+'') then rest else dec_nat n | [] \<Rightarrow> []) = dec_nat n"
    using dec_nat_digits [of _ n] by (cases "dec_nat n") force+
  show ?thesis unfolding u64_from_str_radix_def Let_def b by (simp add: radix_value_dec_nat)
qed

lemma parse_digits:
  fixes negated :: bool
  assumes "suf = kind_suffix k \<or> suf = [] \<and> k = I32" "n < 2 ^ 64"
  defines "v \<equiv> (if negated then - int n else int n)"
  shows "parse_int_literal_signed (dec_nat n @ suf) negated =
    (if kind_fits k v then Inr (kind_value k v)
     else range_error ((str ''literal `'') @ (if negated then (str ''-'') else []) @ (dec_nat n @ suf) @ (str ''` does not fit its type'')))"
proof -
  have dig: "is_digits (dec_nat n)" by (rule dec_nat_is_digits)
  have nu: "no_underscores (dec_nat n @ suf) = dec_nat n @ suf"
    using assms(1) by (auto simp: no_underscores_digits [OF dig]) (cases k; simp add: no_underscores_def)+
  have suf: "literal_suffix (dec_nat n @ suf) = suf"
    using assms(1) suffix_of_digits [OF dig] no_suffix_of_digits [OF dig] by auto
  have kind: "suffix_int suf = Some k"
    using assms(1) by (auto simp: suffix_int_def) (cases k; simp add: suffix_int_def)+
  show ?thesis using assms(2)
    unfolding parse_int_literal_signed_def Let_def nu suf
    by (simp add: split_radix_digits [OF dig] u64_of_dec_nat kind v_def)
qed

lemma parse_digits_overflow:
  assumes "suf = kind_suffix k \<or> suf = []" "2 ^ 64 \<le> n"
  shows "\<exists>m. parse_int_literal_signed (dec_nat n @ suf) negated = range_error m"
proof -
  have dig: "is_digits (dec_nat n)" by (rule dec_nat_is_digits)
  have nu: "no_underscores (dec_nat n @ suf) = dec_nat n @ suf"
    using assms(1) by (auto simp: no_underscores_digits [OF dig]) (cases k; simp add: no_underscores_def)+
  have suf: "literal_suffix (dec_nat n @ suf) = suf"
    using assms(1) suffix_of_digits [OF dig] no_suffix_of_digits [OF dig] by auto
  show ?thesis using assms(2)
    unfolding parse_int_literal_signed_def Let_def nu suf by (auto simp: split_radix_digits [OF dig] u64_of_dec_nat)
qed

lemma parse_fits:
  fixes negated :: bool and n :: nat
  assumes "suf = kind_suffix k \<or> suf = [] \<and> k = I32"
  defines "v \<equiv> (if negated then - int n else int n)"
  shows "(if kind_fits k v then parse_int_literal_signed (dec_nat n @ suf) negated = Inr (kind_value k v)
    else \<exists>m. parse_int_literal_signed (dec_nat n @ suf) negated = range_error m)"
proof (cases "n < 2 ^ 64")
  case True
  then show ?thesis using parse_digits [OF assms(1) True, of negated] by (auto simp: v_def)
next
  case False
  then have "\<not> kind_fits k v" by (cases k) (auto simp: v_def kind_fits_def int_lo_def int_hi_def)
  then show ?thesis using parse_digits_overflow [of suf k n negated] assms(1) False by auto
qed

text \<open>
  C18: An integer written in decimal with the suffix of a type, or with none for \<open>int32\<close>, reads
  back as that integer in that type, with the sign in front when it is negated, exactly when
  it fits the type; otherwise the literal is a \<open>RangeError\<close>, also past 64 bits.
\<close>

theorem int_literal_reads_back:
  assumes "suf = kind_suffix k \<or> suf = [] \<and> k = I32"
  shows "(if kind_fits k (int n) then parse_int_literal (dec_nat n @ suf) = Inr (kind_value k (int n))
      else \<exists>m. parse_int_literal (dec_nat n @ suf) = range_error m)
    \<and> (if kind_fits k (- int n) then negated_int_literal (dec_nat n @ suf) = Inr (kind_value k (- int n))
      else \<exists>m. negated_int_literal (dec_nat n @ suf) = range_error m)"
  using parse_fits [OF assms, where n = n and negated = False] parse_fits [OF assms, where n = n and negated = True]
  by (simp_all add: parse_int_literal_def negated_int_literal_def)

theorem int_literal_reads_back_witness:
  "negated_int_literal (dec_nat 128 @ (str ''i8'')) = Inr (V_I32 (- 128)) \<and> (\<exists>m. parse_int_literal (dec_nat 128 @ (str ''i8'')) = range_error m)"
  using int_literal_reads_back [of "(str ''i8'')" I8 128] by (simp add: kind_fits_def int_lo_def int_hi_def)
section \<open>Keys of maps and sets\<close>

text \<open>
  What a table that looks in the bucket of a hash asks of its keys: an equality that the hash
  respects, on the keys that satisfy \<open>ok\<close>.
\<close>

locale hashed_keys =
  fixes eq :: "'k \<Rightarrow> 'k \<Rightarrow> bool" and hsh :: "'k \<Rightarrow> 'h" and ok :: "'k \<Rightarrow> bool"
  assumes hash_respects: "ok a \<Longrightarrow> ok b \<Longrightarrow> eq a b \<Longrightarrow> hsh a = hsh b"
    and eq_sym: "ok a \<Longrightarrow> ok b \<Longrightarrow> eq a b = eq b a"
begin

lemma bucket_search:
  assumes "ok k" "\<And>e. e \<in> set es \<Longrightarrow> ok (fst e)"
  shows "find (\<lambda>e. hsh (fst e) = hsh k \<and> eq (fst e) k) es = find (\<lambda>e. eq (fst e) k) es"
  using assms(2) by (induction es) (auto dest: hash_respects [OF _ assms(1)])

lemma bucket_search_sym:
  assumes "ok k" "\<And>e. e \<in> set es \<Longrightarrow> ok (fst e)"
  shows "find (\<lambda>e. hsh (fst e) = hsh k \<and> eq k (fst e)) es = find (\<lambda>e. eq (fst e) k) es"
  using assms(2) by (induction es) (auto simp: eq_sym [OF assms(1)] dest: hash_respects [OF _ assms(1)])

end

lemma bi_cmp_sym: "bi_wf a \<Longrightarrow> bi_wf b \<Longrightarrow> bi_cmp a b = Equal \<longleftrightarrow> bi_cmp b a = Equal"
  by (auto simp: bi_cmp_val)

lemma same_kind_equal_sym:
  assumes "key_wf a" "key_wf b"
  shows "same_kind_equal a b = same_kind_equal b a"
  using assms by (cases a; cases b) (auto simp: same_kind_equal_def key_wf_def bi_cmp_sym)

lemma key_eq_sym: "key_wf a \<Longrightarrow> key_wf b \<Longrightarrow> key_eq a b = key_eq b a"
  unfolding key_eq_def same_kind_equal_sym [of a b] by (auto split: option.splits)

interpretation value_keys: hashed_keys key_eq key_hash key_wf
  by unfold_locales (auto intro: key_eq_hash simp: key_eq_sym)

text \<open>The decimals 1.0 and 1.00: equal as keys, and hashed by their texts.\<close>

definition one_dot_0 :: bigdec where
  "one_dot_0 = \<lparr>coef = \<lparr>neg = False, mag = [10]\<rparr>, scale = 1\<rparr>"

definition one_dot_00 :: bigdec where
  "one_dot_00 = \<lparr>coef = \<lparr>neg = False, mag = [100]\<rparr>, scale = 2\<rparr>"

lemma bigdec_keys_hash_apart:
  "key_eq (V_BigDec one_dot_0) (V_BigDec one_dot_00)" "key_hash (V_BigDec one_dot_0) \<noteq> key_hash (V_BigDec one_dot_00)"
proof -
  have c: "bd_cmp one_dot_0 one_dot_00 = Equal" by code_simp
  have d: "bd_to_decimal one_dot_0 = (str ''1.0'')" "bd_to_decimal one_dot_00 = (str ''1.00'')" by code_simp+
  show "key_eq (V_BigDec one_dot_0) (V_BigDec one_dot_00)" using c by (simp add: key_eq_def same_kind_equal_def)
  show "key_hash (V_BigDec one_dot_0) \<noteq> key_hash (V_BigDec one_dot_00)" by (simp add: key_hash_def d)
qed

text \<open>
  C19: Among keys other than decimals (and with well-formed \<open>bigint\<close>s), equal keys feed the same
  input to the hasher, whatever their kinds, so a table that searches only the bucket of a key's
  hash finds the entry a search of all entries finds.  Of two equal \<open>bigdec\<close> keys it is false:
  1.0 is not found by the key 1.00.
\<close>

theorem keys_found_by_hash:
  assumes "key_wf k" "\<forall>e\<in>set es. key_wf (fst e)"
  shows "find (\<lambda>e. key_hash (fst e) = key_hash k \<and> key_eq (fst e) k) es = find (\<lambda>e. key_eq (fst e) k) es
    \<and> find (\<lambda>e. key_eq (fst e) (V_BigDec one_dot_00)) [(V_BigDec one_dot_0, V_Null)] \<noteq> None
    \<and> find (\<lambda>e. key_hash (fst e) = key_hash (V_BigDec one_dot_00) \<and> key_eq (fst e) (V_BigDec one_dot_00))
        [(V_BigDec one_dot_0, V_Null)] = None"
  using assms bigdec_keys_hash_apart by (intro conjI value_keys.bucket_search) auto

lemma bits_numeral: "bits (numeral w) = Suc (bits (numeral w div 2))"
  by (simp add: bits.simps [of "numeral w"])

lemma limits_f64:
  "fl_of_int f64 (- (2 ^ 63)) = Fin True (2 ^ 52) 11"
  "fl_of_int f64 (2 ^ 63 - 1) = Fin False (2 ^ 52) 11"
  by (simp_all add: fl_of_int_def round_fl_def ilog2_def bits_numeral f64_def round_ties_even_def pow2_def Let_def)

lemma prec_f64: "f_prec f64 = 53"
  by (simp add: f64_def)

lemma num_key_small:
  assumes v: "int_of v = Some i" and i: "\<bar>i\<bar> < 2 ^ 53"
  shows "num_key v = Some (True, word_of_int i, 0)"
proof -
  have fin: "is_fin (fl_of_int f64 i)" and val: "fval (fl_of_int f64 i) = of_int i"
    using is_fin_of_int [of f64 i] fval_of_int [of f64 i] i by (simp_all add: prec_f64)
  have ti: "fl_to_int (- (2 ^ 63)) (2 ^ 63 - 1) (fl_of_int f64 i) = i" "fl_is_integral (fl_of_int f64 i)"
    using fl_of_int_to_int [of f64 i "- (2 ^ 63)" "2 ^ 63 - 1"] i by (auto simp: prec_f64)
  have b: "- (2 ^ 63) \<le> (of_int i :: rat)" "(of_int i :: rat) \<le> 2 ^ 63"
  proof -
    have "- (2 ^ 63) \<le> i" "i \<le> 2 ^ 63" using i by auto
    then have "(of_int (- (2 ^ 63)) :: rat) \<le> of_int i" "(of_int i :: rat) \<le> of_int (2 ^ 63)"
      by (simp_all only: of_int_le_iff)
    then show "- (2 ^ 63) \<le> (of_int i :: rat)" "(of_int i :: rat) \<le> 2 ^ 63" by simp_all
  qed
  have "fl_le (fl_of_int f64 (- (2 ^ 63))) (fl_of_int f64 i)" "fl_le (fl_of_int f64 i) (fl_of_int f64 (2 ^ 63 - 1))"
    unfolding limits_f64 using fin b by (simp_all add: fl_compare_fin val pow2_def)
  then show ?thesis using ti by (simp only: num_key_def as_num_int [OF v] option.case if_True simp_thms)
qed

lemma key_eq_nums:
  assumes "int_of a = Some i" "num_key a = Some (p, x, xb)" "num_key b = Some (q, y, yb)"
  shows "key_eq a b \<longleftrightarrow> (if p \<and> q then x = y else if \<not> p \<and> \<not> q then xb = yb \<and> \<not> bits_is_nan xb else False)"
proof -
  have "a \<noteq> V_Null" "same_kind_equal a b = None" using assms(1) by (cases a; simp add: int_of_def same_kind_equal_def)+
  then show ?thesis using assms(2,3) by (simp add: key_eq_def)
qed

lemma word_of_int_inj64:
  assumes "\<bar>i\<bar> < 2 ^ 53" "\<bar>j\<bar> < 2 ^ 53"
  shows "(word_of_int i :: i64) = word_of_int j \<longleftrightarrow> i = j"
proof
  assume "(word_of_int i :: i64) = word_of_int j"
  then have "sint (word_of_int i :: i64) = sint (word_of_int j :: i64)" by (rule arg_cong)
  then show "i = j" using assms by (simp add: signed_word_of_int)
qed simp

lemma big_ints_f64:
  "fl_of_int f64 9007199254740992 = Fin False (2 ^ 52) 1"
  "fl_of_int f64 9007199254740993 = Fin False (2 ^ 52) 1"
  by (simp_all add: fl_of_int_def round_fl_def ilog2_def bits_numeral f64_def round_ties_even_def pow2_def Let_def)

lemma keys_past_53_bits:
  "key_eq (V_I64 9007199254740992) (V_I64 9007199254740993)"
  "values_equal (V_I64 9007199254740992) (V_I64 9007199254740993) = Inr False"
  by (simp_all add: key_eq_def same_kind_equal_def num_key_def big_ints_f64 limits_f64 [simplified] fl_le_def pow2_def
      values_equal_def promote_pair_def conv_rank_def num_eq_def)

lemma int_keys_eq_2: "key_eq (V_I32 2) (V_I64 2)" "\<not> key_eq (V_Bool True) (V_I64 2)"
  using key_eq_nums [of "V_I32 2" 2 True 2 0 "V_I64 2" True 2 0] num_key_small [of "V_I32 2" 2] num_key_small [of "V_I64 2" 2]
  by (simp_all add: int_of_def key_eq_def same_kind_equal_def num_key_def)

text \<open>
  Integers of different types are the same key exactly when they are the same integer, up
  to 53 bits; past 53 bits they are compared as \<open>f64\<close>, and the \<open>int64\<close> keys 2 to the 53 and
  its successor, which \<open>==\<close> tells apart, are one key.
\<close>

lemma int_keys:
  assumes "int_of a = Some i" "int_of b = Some j" "\<bar>i\<bar> < 2 ^ 53" "\<bar>j\<bar> < 2 ^ 53"
  shows "(key_eq a b \<longleftrightarrow> i = j)
    \<and> key_eq (V_I64 9007199254740992) (V_I64 9007199254740993)
    \<and> values_equal (V_I64 9007199254740992) (V_I64 9007199254740993) = Inr False"
  using key_eq_nums [OF assms(1) num_key_small [OF assms(1,3)] num_key_small [OF assms(2,4)]] keys_past_53_bits
  by (simp add: word_of_int_inj64 [OF assms(3,4)])

lemma int_keys_example: "key_eq (V_I32 (- 7)) (V_I64 (- 7)) \<and> \<not> key_eq (V_U64 5) (V_I32 6)"
  using int_keys [of "V_I32 (- 7)" "- 7" "V_I64 (- 7)" "- 7"] int_keys [of "V_U64 5" 5 "V_I32 6" 6]
  by (simp add: int_of_def)

theorem keys_found_by_hash_witness:
  "find (\<lambda>e. key_hash (fst e) = key_hash (V_I64 2) \<and> key_eq (fst e) (V_I64 2)) [(V_Bool True, V_Null), (V_I32 2, V_Char 65)]
    = Some (V_I32 2, V_Char 65)"
  using keys_found_by_hash [of "V_I64 2" "[(V_Bool True, V_Null), (V_I32 2, V_Char 65)]"] int_keys_eq_2
  by (simp add: key_wf_def)

text \<open>
  The wrapping cast of a \<open>uint64\<close> to its own type goes through an \<open>f64\<close> and rounds.
\<close>

lemma uint64_wrapping_identity_rounds:
  "eval_cast no_store (V_U64 9007199254740993) True (TE_Named (str ''uint64'') p []) = Inr (V_U64 9007199254740992)"
  by (simp add: plain_cast_def cast_number_def to_u64_cast_def big_ints_f64 signed_def)

end
