(* ===== verification/Collector.thy ===== *)
theory Collector
  imports Numeric "HOL-Library.Finite_Map" "HOL-Library.Multiset"
begin

text \<open>
  The collectors of \<open>crates/mersey_interp/src/gc.rs\<close>: the objects of the heap and the handles
  they hold, the write barrier and the two generations, the trace and the sweep of a
  collection, and the cycle collection that derives liveness from the reference counts.  An
  object is its address, and the heap says what is there; a weak handle is an address that may
  no longer be in the heap.
\<close>

section \<open>Objects\<close>

record coro =
  co_gen :: "addr option"
  co_stack :: "mvalue list"
  co_scopes :: "addr list"
  co_frame :: "mvalue list"
  co_cls :: "addr option"
  co_result :: addr

type_synonym reaction = "mvalue option \<times> mvalue option \<times> addr"

datatype (plugins only: size) gobj =
    Scope "(rstr \<times> mvalue) list" "addr option"
  | Instance addr "mvalue list"
  | Array "mvalue list"
  | Record "(rstr \<times> mvalue) list"
  | Map_Data "(mvalue \<times> mvalue) list"
  | Set_Data "mvalue list"
  | Promise_State mvalue "coro list" "reaction list"
  | Gen_State "coro option" "addr option" "(addr \<times> mvalue option) option"
  | Closure addr "mvalue option" "addr option"
  | Class_Def_Obj "addr option" "mvalue list" "addr option"
  | Namespace "mvalue list"

type_synonym heap = "(addr, gobj) fmap"

text \<open>The kinds that are registered with the collector (\<open>GcObj\<close>), and the closures that join
  them in the cycle scan (\<open>Node\<close>).\<close>

definition tracked_kind :: "gobj \<Rightarrow> bool" where
  "tracked_kind ob = (case ob of Closure _ _ _ \<Rightarrow> False | Class_Def_Obj _ _ _ \<Rightarrow> False | Namespace _ \<Rightarrow> False | _ \<Rightarrow> True)"

definition is_class :: "gobj \<Rightarrow> bool" where
  "is_class ob = (case ob of Class_Def_Obj _ _ _ \<Rightarrow> True | _ \<Rightarrow> False)"

definition is_closure :: "gobj \<Rightarrow> bool" where
  "is_closure ob = (case ob of Closure _ _ _ \<Rightarrow> True | _ \<Rightarrow> False)"

definition node_kind :: "gobj \<Rightarrow> bool" where
  "node_kind ob \<longleftrightarrow> tracked_kind ob \<or> is_closure ob"

section \<open>Edges\<close>

text \<open>\<open>value_edge\<close>: the node a value points at.\<close>

definition value_edge :: "mvalue \<Rightarrow> addr list" where
  "value_edge v =
     (case v of
        V_Array a \<Rightarrow> [a] | V_Set a \<Rightarrow> [a] | V_Record a \<Rightarrow> [a] | V_Map a \<Rightarrow> [a] | V_Instance a \<Rightarrow> [a]
      | V_Closure a \<Rightarrow> [a] | V_Iter a \<Rightarrow> [a] | V_Promise a \<Rightarrow> [a] | V_Resolve a \<Rightarrow> [a] | V_Reject a \<Rightarrow> [a]
      | V_PromiseExec a \<Rightarrow> [a]
      | _ \<Rightarrow> [])"

text \<open>The shared handles the cycle scan leaves out and the trace follows.\<close>

definition shared_edge :: "mvalue \<Rightarrow> addr list" where
  "shared_edge v = (case v of V_Class a \<Rightarrow> [a] | V_Namespace a \<Rightarrow> [a] | _ \<Rightarrow> [])"

definition opt_list :: "'a option \<Rightarrow> 'a list" where
  "opt_list x = (case x of None \<Rightarrow> [] | Some a \<Rightarrow> [a])"

definition coro_edges :: "coro \<Rightarrow> addr list" where
  "coro_edges c =
     opt_list (co_gen c) @ co_scopes c @ concat (map value_edge (co_stack c)) @ concat (map value_edge (co_frame c))
     @ [co_result c]"

text \<open>\<open>Node::edges\<close> of an object that is not borrowed.\<close>

definition node_edges :: "gobj \<Rightarrow> addr list" where
  "node_edges ob =
     (case ob of
        Scope vars parent \<Rightarrow> concat (map (value_edge \<circ> snd) vars) @ opt_list parent
      | Instance cls slots \<Rightarrow> concat (map value_edge slots)
      | Array vs \<Rightarrow> concat (map value_edge vs)
      | Set_Data vs \<Rightarrow> concat (map value_edge vs)
      | Record fs \<Rightarrow> concat (map (value_edge \<circ> snd) fs)
      | Map_Data es \<Rightarrow> concat (map (\<lambda>(k, v). value_edge k @ value_edge v) es)
      | Promise_State v waiters reactions \<Rightarrow>
          value_edge v @ concat (map coro_edges waiters)
          @ concat (map (\<lambda>(good, bad, down). concat (map value_edge (opt_list good)) @ concat (map value_edge (opt_list bad)) @ [down]) reactions)
      | Gen_State c pending adapter \<Rightarrow>
          concat (map coro_edges (opt_list c)) @ opt_list pending
          @ concat (map (\<lambda>(inner, f). inner # concat (map value_edge (opt_list f))) (opt_list adapter))
      | Closure env self cls \<Rightarrow> env # concat (map value_edge (opt_list self))
      | Class_Def_Obj _ _ _ \<Rightarrow> []
      | Namespace _ \<Rightarrow> [])"

text \<open>The handles an object holds that are not edges of the scan: to classes and namespaces, and
  everything a class or a namespace holds.\<close>

definition coro_shared :: "coro \<Rightarrow> addr list" where
  "coro_shared c = opt_list (co_cls c) @ concat (map shared_edge (co_stack c)) @ concat (map shared_edge (co_frame c))"

definition value_handles :: "mvalue \<Rightarrow> addr list" where
  "value_handles v =
     (case v of
        V_Array a \<Rightarrow> [a] | V_Set a \<Rightarrow> [a] | V_Record a \<Rightarrow> [a] | V_Map a \<Rightarrow> [a] | V_Instance a \<Rightarrow> [a]
      | V_Closure a \<Rightarrow> [a] | V_Class a \<Rightarrow> [a] | V_Namespace a \<Rightarrow> [a] | V_Iter a \<Rightarrow> [a]
      | V_Promise a \<Rightarrow> [a] | V_Resolve a \<Rightarrow> [a] | V_Reject a \<Rightarrow> [a] | V_PromiseExec a \<Rightarrow> [a]
      | _ \<Rightarrow> [])"

definition shared_handles :: "gobj \<Rightarrow> addr list" where
  "shared_handles ob =
     (case ob of
        Scope vars parent \<Rightarrow> concat (map (shared_edge \<circ> snd) vars)
      | Instance cls slots \<Rightarrow> cls # concat (map shared_edge slots)
      | Array vs \<Rightarrow> concat (map shared_edge vs)
      | Set_Data vs \<Rightarrow> concat (map shared_edge vs)
      | Record fs \<Rightarrow> concat (map (shared_edge \<circ> snd) fs)
      | Map_Data es \<Rightarrow> concat (map (\<lambda>(k, v). shared_edge k @ shared_edge v) es)
      | Promise_State v waiters reactions \<Rightarrow>
          shared_edge v @ concat (map coro_shared waiters)
          @ concat (map (\<lambda>(good, bad, down). concat (map shared_edge (opt_list good)) @ concat (map shared_edge (opt_list bad))) reactions)
      | Gen_State c pending adapter \<Rightarrow>
          concat (map coro_shared (opt_list c))
          @ concat (map (\<lambda>(inner, f). concat (map shared_edge (opt_list f))) (opt_list adapter))
      | Closure env self cls \<Rightarrow> concat (map shared_edge (opt_list self)) @ opt_list cls
      | Class_Def_Obj env statics parent \<Rightarrow> opt_list env @ concat (map value_handles statics) @ opt_list parent
      | Namespace vs \<Rightarrow> concat (map value_handles vs))"

text \<open>Every handle an object holds, once per handle, read off its fields.\<close>

definition coro_handles :: "coro \<Rightarrow> addr list" where
  "coro_handles c =
     opt_list (co_gen c) @ concat (map value_handles (co_stack c)) @ co_scopes c @ concat (map value_handles (co_frame c))
     @ opt_list (co_cls c) @ [co_result c]"

definition reaction_handles :: "reaction \<Rightarrow> addr list" where
  "reaction_handles r =
     (case r of (good, bad, down) \<Rightarrow>
        concat (map value_handles (opt_list good)) @ concat (map value_handles (opt_list bad)) @ [down])"

definition handles :: "gobj \<Rightarrow> addr list" where
  "handles ob =
     (case ob of
        Scope vars parent \<Rightarrow> concat (map (value_handles \<circ> snd) vars) @ opt_list parent
      | Instance cls slots \<Rightarrow> cls # concat (map value_handles slots)
      | Array vs \<Rightarrow> concat (map value_handles vs)
      | Record fs \<Rightarrow> concat (map (value_handles \<circ> snd) fs)
      | Map_Data es \<Rightarrow> concat (map (\<lambda>(k, v). value_handles k @ value_handles v) es)
      | Set_Data vs \<Rightarrow> concat (map value_handles vs)
      | Promise_State v waiters reactions \<Rightarrow>
          value_handles v @ concat (map coro_handles waiters) @ concat (map reaction_handles reactions)
      | Gen_State c pending adapter \<Rightarrow>
          concat (map coro_handles (opt_list c)) @ opt_list pending
          @ concat (map (\<lambda>(inner, f). inner # concat (map value_handles (opt_list f))) (opt_list adapter))
      | Closure env self cls \<Rightarrow> env # concat (map value_handles (opt_list self)) @ opt_list cls
      | Class_Def_Obj env statics parent \<Rightarrow> opt_list env @ concat (map value_handles statics) @ opt_list parent
      | Namespace vs \<Rightarrow> concat (map value_handles vs))"

text \<open>What the marker goes on to from an object: \<open>scan\<close>, \<open>env_contents\<close>, \<open>class\<close>,
  \<open>promise_contents\<close>, \<open>coro\<close>, \<open>gen_contents\<close> and \<open>value_step\<close>.\<close>

definition coro_traced :: "coro \<Rightarrow> addr list" where
  "coro_traced c =
     opt_list (co_gen c) @ co_scopes c @ concat (map value_handles (co_stack c)) @ concat (map value_handles (co_frame c))
     @ opt_list (co_cls c) @ [co_result c]"

definition traced :: "gobj \<Rightarrow> addr list" where
  "traced ob =
     (case ob of
        Scope vars parent \<Rightarrow> concat (map (value_handles \<circ> snd) vars) @ opt_list parent
      | Instance cls slots \<Rightarrow> concat (map value_handles slots) @ [cls]
      | Array vs \<Rightarrow> concat (map value_handles vs)
      | Set_Data vs \<Rightarrow> concat (map value_handles vs)
      | Record fs \<Rightarrow> concat (map (value_handles \<circ> snd) fs)
      | Map_Data es \<Rightarrow> concat (map (\<lambda>(k, v). value_handles k @ value_handles v) es)
      | Promise_State v waiters reactions \<Rightarrow>
          value_handles v @ concat (map coro_traced waiters)
          @ concat (map (\<lambda>(good, bad, down). concat (map value_handles (opt_list good)) @ concat (map value_handles (opt_list bad)) @ [down]) reactions)
      | Gen_State c pending adapter \<Rightarrow>
          concat (map (\<lambda>(inner, f). inner # concat (map value_handles (opt_list f))) (opt_list adapter))
          @ concat (map coro_traced (opt_list c)) @ opt_list pending
      | Closure env self cls \<Rightarrow> env # concat (map value_handles (opt_list self)) @ opt_list cls
      | Class_Def_Obj env statics parent \<Rightarrow> opt_list env @ concat (map value_handles statics) @ opt_list parent
      | Namespace vs \<Rightarrow> concat (map value_handles vs))"

text \<open>The three readings agree: the edges of the scan and the shared handles are the handles, each
  as often as it is held, and the marker goes on to all of them.\<close>

lemma count_concat_split:
  "(\<And>x. x \<in> set xs \<Longrightarrow> count_list (f x) a = count_list (g x) a + count_list (h x) a) \<Longrightarrow>
     count_list (concat (map f xs)) a = count_list (concat (map g xs)) a + count_list (concat (map h xs)) a"
  by (induction xs) auto

lemma count_value: "count_list (value_handles v) a = count_list (value_edge v) a + count_list (shared_edge v) a"
  by (cases v) (simp_all add: value_handles_def value_edge_def shared_edge_def)

lemmas count_values = count_concat_split [where f = value_handles and g = value_edge and h = shared_edge, OF count_value]

lemma count_snds:
  "count_list (concat (map (value_handles \<circ> snd) fs)) a
     = count_list (concat (map (value_edge \<circ> snd) fs)) a + count_list (concat (map (shared_edge \<circ> snd) fs)) a"
  by (rule count_concat_split) (simp add: count_value)

lemma count_coro: "count_list (coro_handles c) a = count_list (coro_edges c) a + count_list (coro_shared c) a"
  by (simp add: coro_handles_def coro_edges_def coro_shared_def count_values)

lemmas count_coros = count_concat_split [where f = coro_handles and g = coro_edges and h = coro_shared, OF count_coro]

lemma count_handles: "count_list (handles ob) a = count_list (node_edges ob) a + count_list (shared_handles ob) a"
proof (cases ob)
  case (Map_Data es)
  have "count_list (concat (map (\<lambda>(k, v). value_handles k @ value_handles v) es)) a
      = count_list (concat (map (\<lambda>(k, v). value_edge k @ value_edge v) es)) a
        + count_list (concat (map (\<lambda>(k, v). shared_edge k @ shared_edge v) es)) a"
    by (rule count_concat_split) (auto simp: count_value)
  then show ?thesis using Map_Data by (simp add: handles_def node_edges_def shared_handles_def)
next
  case (Promise_State v waiters reactions)
  have "count_list (concat (map reaction_handles reactions)) a
      = count_list (concat (map (\<lambda>(good, bad, down). concat (map value_edge (opt_list good)) @ concat (map value_edge (opt_list bad)) @ [down]) reactions)) a
        + count_list (concat (map (\<lambda>(good, bad, down). concat (map shared_edge (opt_list good)) @ concat (map shared_edge (opt_list bad))) reactions)) a"
    by (rule count_concat_split) (auto simp: reaction_handles_def count_values)
  then show ?thesis
    using Promise_State by (simp add: handles_def node_edges_def shared_handles_def count_value count_coros)
next
  case (Gen_State c pending adapter)
  have "count_list (concat (map (\<lambda>(inner, f). inner # concat (map value_handles (opt_list f))) (opt_list adapter))) a
      = count_list (concat (map (\<lambda>(inner, f). inner # concat (map value_edge (opt_list f))) (opt_list adapter))) a
        + count_list (concat (map (\<lambda>(inner, f). concat (map shared_edge (opt_list f))) (opt_list adapter))) a"
    by (rule count_concat_split) (auto simp: count_values)
  then show ?thesis
    using Gen_State by (simp add: handles_def node_edges_def shared_handles_def count_coros)
qed (simp_all add: handles_def node_edges_def shared_handles_def count_values count_snds)

lemma set_handles: "set (handles ob) = set (node_edges ob) \<union> set (shared_handles ob)"
proof -
  have "a \<in> set (handles ob) \<longleftrightarrow> a \<in> set (node_edges ob) \<union> set (shared_handles ob)" for a
    using count_handles [of ob a] by (metis Un_iff add_is_0 count_list_0_iff)
  then show ?thesis by blast
qed

lemma set_traced: "set (traced ob) = set (handles ob)"
proof -
  have "set (coro_traced c) = set (coro_handles c)" for c by (auto simp: coro_traced_def coro_handles_def)
  then show ?thesis by (cases ob) (auto simp: traced_def handles_def reaction_handles_def)
qed

text \<open>\<open>clear\<close> and \<open>clear_node\<close>: what is left of a swept object.\<close>

definition clear_obj :: "gobj \<Rightarrow> gobj" where
  "clear_obj ob =
     (case ob of
        Scope _ _ \<Rightarrow> Scope [] None
      | Instance cls _ \<Rightarrow> Instance cls []
      | Array _ \<Rightarrow> Array []
      | Set_Data _ \<Rightarrow> Set_Data []
      | Record _ \<Rightarrow> Record []
      | Map_Data _ \<Rightarrow> Map_Data []
      | Promise_State _ _ _ \<Rightarrow> Promise_State V_Null [] []
      | Gen_State _ _ _ \<Rightarrow> Gen_State None None None
      | ob \<Rightarrow> ob)"

section \<open>The generations\<close>

text \<open>The thread's state: the young list and the map of the old generation hold weak handles,
  \<open>g_flag\<close> is the \<open>old\<close> flag of the cells.\<close>

record gc =
  g_heap :: heap
  g_flag :: "addr set"
  g_young :: "addr list"
  g_old :: "addr set"
  g_rem :: "addr set"
  g_classes :: "addr list"
  g_since :: nat
  g_minors :: nat
  g_old_at_major :: nat
  g_prune_at :: nat
  g_cycle_at :: nat

record gc_config =
  gc_every :: nat
  major_every :: nat

definition alive :: "gc \<Rightarrow> addr \<Rightarrow> bool" where
  "alive s a \<longleftrightarrow> a |\<in>| fmdom (g_heap s)"

text \<open>\<open>prune\<close> and \<open>register\<close>.\<close>

definition prune :: "gc_config \<Rightarrow> gc \<Rightarrow> gc" where
  "prune cfg s =
     (let young = filter (alive s) (g_young s)
      in s\<lparr>g_young := young, g_prune_at := max (length young * 2) (gc_every cfg)\<rparr>)"

definition register :: "gc_config \<Rightarrow> addr \<Rightarrow> gc \<Rightarrow> gc" where
  "register cfg a s =
     (let s' = s\<lparr>g_young := g_young s @ [a], g_since := g_since s + 1\<rparr>
      in if g_prune_at s \<le> length (g_young s') then prune cfg s' else s')"

text \<open>A new object of a tracked kind is registered, a class goes on the list of classes.\<close>

definition gc_alloc :: "gc_config \<Rightarrow> addr \<Rightarrow> gobj \<Rightarrow> gc \<Rightarrow> gc" where
  "gc_alloc cfg a ob s =
     (let s' = s\<lparr>g_heap := fmupd a ob (g_heap s), g_flag := g_flag s - {a}\<rparr>
      in if tracked_kind ob then register cfg a s'
         else if is_class ob then s'\<lparr>g_classes := g_classes s @ [a]\<rparr>
         else s')"

definition note_write :: "addr \<Rightarrow> gc \<Rightarrow> gc" where
  "note_write a s = (if a \<in> g_old s then s\<lparr>g_rem := insert a (g_rem s)\<rparr> else s)"

text \<open>\<open>borrow_mut\<close>, and the store through it.\<close>

definition write_obj :: "addr \<Rightarrow> gobj \<Rightarrow> gc \<Rightarrow> gc" where
  "write_obj a ob s =
     (let s' = (if a \<in> g_flag s then note_write a s else s)
      in s'\<lparr>g_heap := fmupd a ob (g_heap s')\<rparr>)"

text \<open>\<open>GcCell::drop\<close>, when the last handle is gone.\<close>

definition drop_obj :: "addr \<Rightarrow> gc \<Rightarrow> gc" where
  "drop_obj a s =
     (let s' = s\<lparr>g_heap := fmdrop a (g_heap s)\<rparr>
      in if a \<in> g_flag s then s'\<lparr>g_old := g_old s - {a}, g_rem := g_rem s - {a}\<rparr> else s')"

definition should_collect :: "gc_config \<Rightarrow> gc \<Rightarrow> bool" where
  "should_collect cfg s \<longleftrightarrow> gc_every cfg \<le> g_since s"

section \<open>The trace\<close>

text \<open>
  The marker.  Its recursion over values, its work list of values, of scopes and of promises
  are one work list of addresses here, as the order does not matter to the set it marks.
  \<open>enter\<close> says whether to go on into an object; classes, closures and namespaces are inserted
  without asking for their generation, which they do not have.
\<close>

definition enter :: "gc \<Rightarrow> bool \<Rightarrow> addr \<Rightarrow> addr set \<Rightarrow> bool" where
  "enter s minor a marked \<longleftrightarrow>
     \<not> (minor \<and> a \<in> g_old s \<and> a \<notin> g_rem s) \<and> a \<notin> marked"

definition children :: "gc \<Rightarrow> addr \<Rightarrow> addr list" where
  "children s a = (case fmlookup (g_heap s) a of Some ob \<Rightarrow> traced ob | None \<Rightarrow> [])"

function mark_loop :: "gc \<Rightarrow> bool \<Rightarrow> addr set \<Rightarrow> addr list \<Rightarrow> addr set" where
  "mark_loop s minor marked [] = marked"
| "mark_loop s minor marked (a # work) =
     (if enter s minor a marked then mark_loop s minor (insert a marked) (children s a @ work)
      else mark_loop s minor (insert a marked) work)"
  by pat_completeness auto
termination
proof (relation "measures [\<lambda>(s, minor, marked, work). card (fset (fmdom (g_heap s)) - marked), \<lambda>(s, minor, marked, work). length work]", goal_cases)
  case (2 s minor marked a work)
  show ?case
  proof (cases "a |\<in>| fmdom (g_heap s)")
    case True
    then have "fset (fmdom (g_heap s)) - insert a marked \<subset> fset (fmdom (g_heap s)) - marked"
      using 2 by (auto simp: enter_def)
    then show ?thesis by (simp add: psubset_card_mono)
  next
    case False
    then have "children s a = []" by (auto simp: children_def fmdom_notD split: option.split)
    moreover have "fset (fmdom (g_heap s)) - insert a marked = fset (fmdom (g_heap s)) - marked" using False by auto
    ultimately show ?thesis by simp
  qed
next
  case (3 s minor marked a work)
  have "card (fset (fmdom (g_heap s)) - insert a marked) \<le> card (fset (fmdom (g_heap s)) - marked)"
    by (rule card_mono) auto
  then show ?case by (auto simp: le_less)
qed auto

declare mark_loop.simps [simp del]

text \<open>\<open>mark\<close>: the classes, the roots, and, when minor, the remembered objects and what they hold.
  The roots (values, scopes, promises and classes) are the addresses they point at.\<close>

definition mark :: "gc \<Rightarrow> addr list \<Rightarrow> bool \<Rightarrow> addr set" where
  "mark s roots minor =
     (let marked = mark_loop s minor {} (filter (alive s) (g_classes s) @ roots)
      in if minor then
           (let dirty = sorted_list_of_set {a \<in> fset (fmdom (g_heap s)). a \<in> g_rem s \<and> a \<in> g_old s}
            in mark_loop s minor (marked \<union> set dirty) (concat (map (children s) dirty)))
         else marked)"

section \<open>The sweep\<close>

text \<open>Clearing drops handles; the objects they were the last ones of are dropped in steps of
  their own (\<open>drop_obj\<close>), and the counters a collection reports are not modelled.\<close>

definition clear_all :: "addr set \<Rightarrow> heap \<Rightarrow> heap" where
  "clear_all dead H = fmmap_keys (\<lambda>a ob. if a \<in> dead then clear_obj ob else ob) H"

definition collect_gen :: "gc \<Rightarrow> addr list \<Rightarrow> bool \<Rightarrow> gc" where
  "collect_gen s roots major =
     (let marked = mark s roots (\<not> major);
          young = filter (alive s) (g_young s);
          promoted = filter (\<lambda>a. a \<in> marked) young;
          swept = filter (\<lambda>a. a \<notin> marked) young;
          doomed = (if major then {a \<in> g_old s. \<not> alive s a \<or> a \<notin> marked} else {});
          dead = {a \<in> doomed. alive s a};
          old = (g_old s - doomed) \<union> set promoted
      in s\<lparr>g_heap := clear_all (set swept \<union> dead) (g_heap s), g_flag := g_flag s \<union> set promoted, g_young := [],
           g_old := old, g_rem := {}, g_classes := filter (alive s) (g_classes s), g_since := 0,
           g_minors := (if major then 0 else g_minors s + 1),
           g_old_at_major := (if major then card old else g_old_at_major s)\<rparr>)"

text \<open>\<open>collect\<close> decides what kind of collection to run: the comparison in \<open>f64\<close> is exact on the
  sizes of a heap.\<close>

definition is_major :: "gc_config \<Rightarrow> gc \<Rightarrow> bool" where
  "is_major cfg s \<longleftrightarrow>
     major_every cfg = 0 \<or> major_every cfg \<le> g_minors s \<or> max (g_old_at_major s * 2) 1000 \<le> card (g_old s)"

definition collect :: "gc_config \<Rightarrow> gc \<Rightarrow> addr list \<Rightarrow> gc" where
  "collect cfg s roots = collect_gen s roots (is_major cfg s)"

text \<open>\<open>verify_minor\<close>: the young objects the full trace reaches and the minor one missed.\<close>

definition verify_minor :: "gc \<Rightarrow> addr list \<Rightarrow> addr list" where
  "verify_minor s roots =
     filter (\<lambda>a. a \<in> mark s roots False \<and> a \<notin> mark s roots True) (filter (alive s) (g_young s))"

section \<open>Cycle collection from the reference counts\<close>

text \<open>
  \<open>counts\<close> gives the strong count of an object, without the handle the scan holds;
  \<open>borrowed\<close> the objects the interpreter is inside of.
\<close>

definition readable_edges :: "heap \<Rightarrow> addr set \<Rightarrow> addr \<Rightarrow> addr list" where
  "readable_edges H borrowed a =
     (case fmlookup H a of Some ob \<Rightarrow> if a \<in> borrowed \<and> tracked_kind ob then [] else node_edges ob | None \<Rightarrow> [])"

definition is_pinned :: "heap \<Rightarrow> addr set \<Rightarrow> addr \<Rightarrow> bool" where
  "is_pinned H borrowed a = (case fmlookup H a of Some ob \<Rightarrow> a \<in> borrowed \<and> tracked_kind ob | None \<Rightarrow> False)"

definition coro_values :: "coro \<Rightarrow> mvalue list" where
  "coro_values c = co_stack c @ co_frame c"

text \<open>\<open>node_values\<close> and \<open>value_closures\<close>.\<close>

definition node_values :: "gobj \<Rightarrow> mvalue list" where
  "node_values ob =
     (case ob of
        Scope vars parent \<Rightarrow> map snd vars
      | Instance cls slots \<Rightarrow> slots
      | Array vs \<Rightarrow> vs
      | Set_Data vs \<Rightarrow> vs
      | Record fs \<Rightarrow> map snd fs
      | Map_Data es \<Rightarrow> concat (map (\<lambda>(k, v). [k, v]) es)
      | Promise_State v waiters reactions \<Rightarrow>
          v # concat (map coro_values waiters) @ concat (map (\<lambda>(good, bad, down). opt_list good @ opt_list bad) reactions)
      | Gen_State c pending adapter \<Rightarrow>
          concat (map coro_values (opt_list c)) @ concat (map (\<lambda>(inner, f). opt_list f) (opt_list adapter))
      | Closure env self cls \<Rightarrow> opt_list self
      | _ \<Rightarrow> [])"

definition value_closures :: "mvalue \<Rightarrow> addr list" where
  "value_closures v = (case v of V_Closure a \<Rightarrow> [a] | _ \<Rightarrow> [])"

definition found_closures :: "heap \<Rightarrow> addr set \<Rightarrow> addr \<Rightarrow> addr list" where
  "found_closures H borrowed a =
     (case fmlookup H a of
        Some ob \<Rightarrow> if a \<in> borrowed \<and> tracked_kind ob then [] else concat (map value_closures (node_values ob))
      | None \<Rightarrow> [])"

text \<open>\<open>add\<close>: a node once, at its first place.\<close>

fun add_nodes :: "addr list \<Rightarrow> addr list \<Rightarrow> addr list" where
  "add_nodes nodes [] = nodes"
| "add_nodes nodes (a # as) = add_nodes (if a \<in> set nodes then nodes else nodes @ [a]) as"

lemma set_add_nodes: "set (add_nodes nodes as) = set nodes \<union> set as"
  by (induction nodes as rule: add_nodes.induct) auto

lemma add_nodes_prefix: "\<exists>new. add_nodes nodes as = nodes @ new"
  by (induction nodes as rule: add_nodes.induct) auto

lemma add_nodes_same: "set as \<subseteq> set nodes \<Longrightarrow> add_nodes nodes as = nodes"
  by (induction nodes as rule: add_nodes.induct) auto

lemma distinct_add_nodes: "distinct nodes \<Longrightarrow> distinct (add_nodes nodes as)"
  by (induction nodes as rule: add_nodes.induct) auto

definition all_closures :: "heap \<Rightarrow> addr set \<Rightarrow> addr set" where
  "all_closures H borrowed = (\<Union>a\<in>fset (fmdom H). set (found_closures H borrowed a))"

lemma found_all_closures: "set (found_closures H borrowed a) \<subseteq> all_closures H borrowed"
proof (cases "a |\<in>| fmdom H")
  case False
  then show ?thesis by (simp add: found_closures_def fmdom_notD)
qed (auto simp: all_closures_def)

text \<open>The hunt for closures: \<open>scan_from\<close> is the number of nodes that have been looked into.\<close>

function closure_hunt :: "heap \<Rightarrow> addr set \<Rightarrow> nat \<Rightarrow> addr list \<Rightarrow> addr list" where
  "closure_hunt H borrowed scan_from nodes =
     (let found = concat (map (found_closures H borrowed) (drop scan_from nodes));
          nodes' = add_nodes nodes found
      in if found = [] \<or> length nodes' = length nodes then nodes
         else closure_hunt H borrowed (length nodes) nodes')"
  by pat_completeness auto
termination
proof (relation "measure (\<lambda>(H, borrowed, scan_from, nodes). card (all_closures H borrowed - set nodes))", goal_cases)
  case (2 H borrowed scan_from nodes found nodes')
  have f: "set found \<subseteq> all_closures H borrowed" using 2(1) found_all_closures by auto
  have n: "set nodes' = set nodes \<union> set found" using 2(2) by (simp add: set_add_nodes)
  have "\<not> set found \<subseteq> set nodes" using 2(2,3) add_nodes_same [of found nodes] by auto
  then have "all_closures H borrowed - set nodes' \<subset> all_closures H borrowed - set nodes" using f n by auto
  moreover have "finite (all_closures H borrowed)" by (simp add: all_closures_def)
  ultimately show ?case by (simp add: psubset_card_mono)
qed auto

declare closure_hunt.simps [simp del]

text \<open>The nodes: what is tracked and still there, once, and the closures found from it.\<close>

definition scan_nodes :: "gc \<Rightarrow> addr set \<Rightarrow> addr list" where
  "scan_nodes s borrowed =
     closure_hunt (g_heap s) borrowed 0
       (add_nodes [] (filter (alive s) (g_young s @ sorted_list_of_set {a \<in> fset (fmdom (g_heap s)). a \<in> g_old s})))"

text \<open>\<open>internal\<close>, the references the nodes hold.\<close>

definition internal_refs :: "heap \<Rightarrow> addr set \<Rightarrow> addr list \<Rightarrow> addr \<Rightarrow> nat" where
  "internal_refs H borrowed nodes x = sum_list (map (\<lambda>n. count_list (readable_edges H borrowed n) x) nodes)"

text \<open>The work list that spreads liveness along the edges.\<close>

function live_loop :: "heap \<Rightarrow> addr set \<Rightarrow> addr list \<Rightarrow> addr set \<Rightarrow> addr list \<Rightarrow> addr set" where
  "live_loop H borrowed nodes live [] = live"
| "live_loop H borrowed nodes live (a # work) =
     (let new = remdups (filter (\<lambda>b. b \<in> set nodes \<and> b \<notin> live) (readable_edges H borrowed a))
      in live_loop H borrowed nodes (live \<union> set new) (rev new @ work))"
  by pat_completeness auto
termination
proof (relation "measures [\<lambda>(H, borrowed, nodes, live, work). card (set nodes - live), \<lambda>(H, borrowed, nodes, live, work). length work]", goal_cases)
  case (2 H borrowed nodes live a work new)
  show ?case
  proof (cases "new = []")
    case False
    then obtain b where "b \<in> set new" by (cases new) auto
    then have "set nodes - (live \<union> set new) \<subset> set nodes - live" using 2 by auto
    then show ?thesis by (simp add: psubset_card_mono)
  qed simp
qed auto

declare live_loop.simps [simp del]

definition live_roots :: "heap \<Rightarrow> (addr \<Rightarrow> nat) \<Rightarrow> addr set \<Rightarrow> addr list \<Rightarrow> addr list" where
  "live_roots H counts borrowed nodes =
     filter (\<lambda>a. is_pinned H borrowed a \<or> internal_refs H borrowed nodes a < counts a) nodes"

definition analyse :: "gc \<Rightarrow> (addr \<Rightarrow> nat) \<Rightarrow> addr set \<Rightarrow> addr list \<times> addr set" where
  "analyse s counts borrowed =
     (let nodes = scan_nodes s borrowed;
          roots = live_roots (g_heap s) counts borrowed nodes
      in (nodes, live_loop (g_heap s) borrowed nodes (set roots) (rev roots)))"

text \<open>Clearing is a write, which the barrier notes for an old object.\<close>

definition collect_cycles :: "gc_config \<Rightarrow> gc \<Rightarrow> (addr \<Rightarrow> nat) \<Rightarrow> addr set \<Rightarrow> gc" where
  "collect_cycles cfg s counts borrowed =
     (case analyse s counts borrowed of (nodes, live) \<Rightarrow>
        let dead = set nodes - live;
            s' = prune cfg (s\<lparr>g_heap := clear_all dead (g_heap s), g_rem := g_rem s \<union> (dead \<inter> g_flag s \<inter> g_old s)\<rparr>)
        in s'\<lparr>g_since := 0, g_cycle_at := max (length nodes - card dead) (gc_every cfg)\<rparr>)"

text \<open>\<open>verify_cycles\<close>: what the trace reaches and the counts call garbage.\<close>

definition verify_cycles :: "gc \<Rightarrow> (addr \<Rightarrow> nat) \<Rightarrow> addr set \<Rightarrow> addr list \<Rightarrow> addr set" where
  "verify_cycles s counts borrowed roots =
     (case analyse s counts borrowed of (nodes, live) \<Rightarrow> {a \<in> mark s roots False. a \<in> set nodes \<and> a \<notin> live})"

definition should_collect_cycles :: "gc \<Rightarrow> bool" where
  "should_collect_cycles s \<longleftrightarrow> g_cycle_at s \<le> g_since s"

section \<open>The cycle collection is exact\<close>

text \<open>Every handle leads to an object, of the kind its place asks for.\<close>

definition obj_ok :: "heap \<Rightarrow> gobj \<Rightarrow> bool" where
  "obj_ok H ob \<longleftrightarrow>
     (\<forall>b\<in>set (node_edges ob). \<exists>ob'. fmlookup H b = Some ob' \<and> node_kind ob')
     \<and> (\<forall>b\<in>set (shared_handles ob). \<exists>ob'. fmlookup H b = Some ob' \<and> (node_kind ob \<longrightarrow> \<not> node_kind ob'))"

definition heap_ok :: "heap \<Rightarrow> bool" where
  "heap_ok H \<longleftrightarrow> (\<forall>a ob. fmlookup H a = Some ob \<longrightarrow> obj_ok H ob)"

text \<open>The handles the heap holds on an object.  The strong count is that and the handles of
  everything outside: locals, globals, the interpreter.\<close>

definition handles_at :: "heap \<Rightarrow> addr \<Rightarrow> addr list" where
  "handles_at H a = (case fmlookup H a of Some ob \<Rightarrow> handles ob | None \<Rightarrow> [])"

definition held :: "heap \<Rightarrow> addr \<Rightarrow> nat" where
  "held H x = (\<Sum>a\<in>fset (fmdom H). count_list (handles_at H a) x)"

definition counted :: "heap \<Rightarrow> (addr \<Rightarrow> nat) \<Rightarrow> (addr \<Rightarrow> nat) \<Rightarrow> bool" where
  "counted H counts outside \<longleftrightarrow> (\<forall>x. counts x = outside x + held H x)"

lemma handles_at_dom:
  assumes "heap_ok H" "b \<in> set (handles_at H a)"
  shows "a |\<in>| fmdom H" "b |\<in>| fmdom H"
proof -
  obtain ob where ob: "fmlookup H a = Some ob" "b \<in> set (handles ob)"
    using assms(2) by (cases "fmlookup H a") (auto simp: handles_at_def)
  then have "\<exists>ob'. fmlookup H b = Some ob'" using assms(1) unfolding heap_ok_def obj_ok_def set_handles by fastforce
  then show "a |\<in>| fmdom H" "b |\<in>| fmdom H" using ob by (auto intro: fmdomI)
qed

lemma readable_handles: "count_list (readable_edges H borrowed a) x \<le> count_list (handles_at H a) x"
  by (auto simp: readable_edges_def handles_at_def count_handles split: option.split)

lemma readable_in_handles: "set (readable_edges H borrowed a) \<subseteq> set (handles_at H a)"
  by (auto simp: readable_edges_def handles_at_def set_handles split: option.split)

lemma value_closures_edge: "set (value_closures v) \<subseteq> set (value_edge v)"
  by (cases v) (auto simp: value_closures_def value_edge_def)

lemma node_values_edges: "v \<in> set (node_values ob) \<Longrightarrow> set (value_edge v) \<subseteq> set (node_edges ob)"
  by (cases ob) (fastforce simp: node_values_def node_edges_def coro_values_def coro_edges_def opt_list_def split: option.splits)+

lemma found_in_handles: "set (found_closures H borrowed a) \<subseteq> set (readable_edges H borrowed a)"
  using value_closures_edge node_values_edges
  by (fastforce simp: found_closures_def readable_edges_def split: option.splits if_splits)

lemma closure_hunt_spec:
  "distinct nodes \<Longrightarrow> set nodes \<subseteq> fset (fmdom H) \<Longrightarrow> heap_ok H \<Longrightarrow>
     distinct (closure_hunt H borrowed k nodes) \<and> set (closure_hunt H borrowed k nodes) \<subseteq> fset (fmdom H)
     \<and> set nodes \<subseteq> set (closure_hunt H borrowed k nodes)"
proof (induction H borrowed k nodes rule: closure_hunt.induct)
  case (1 H borrowed k nodes)
  define found where "found = concat (map (found_closures H borrowed) (drop k nodes))"
  show ?case
  proof (cases "found = [] \<or> length (add_nodes nodes found) = length nodes")
    case True
    then have "closure_hunt H borrowed k nodes = nodes"
      by (subst closure_hunt.simps) (simp add: found_def [symmetric] Let_def)
    then show ?thesis using "1.prems" by simp
  next
    case False
    then have eq: "closure_hunt H borrowed k nodes = closure_hunt H borrowed (length nodes) (add_nodes nodes found)"
      by (subst closure_hunt.simps) (simp only: found_def [symmetric] Let_def if_False)
    have "set found \<subseteq> fset (fmdom H)"
      using found_in_handles readable_in_handles handles_at_dom(2) [OF "1.prems"(3)] unfolding found_def by fastforce
    then have "distinct (add_nodes nodes found)" "set (add_nodes nodes found) \<subseteq> fset (fmdom H)"
      using "1.prems" by (auto simp: distinct_add_nodes set_add_nodes)
    from "1.IH" [OF found_def refl _ this "1.prems"(3)] False show ?thesis by (auto simp: eq set_add_nodes)
  qed
qed

lemma scan_nodes_spec:
  assumes "heap_ok (g_heap s)"
  shows "distinct (scan_nodes s borrowed)" "set (scan_nodes s borrowed) \<subseteq> fset (fmdom (g_heap s))"
    "\<And>a. alive s a \<Longrightarrow> a \<in> set (g_young s) \<union> g_old s \<Longrightarrow> a \<in> set (scan_nodes s borrowed)"
proof -
  let ?t = "filter (alive s) (g_young s @ sorted_list_of_set {a \<in> fset (fmdom (g_heap s)). a \<in> g_old s})"
  have "distinct (add_nodes [] ?t)" by (simp add: distinct_add_nodes)
  moreover have t: "set ?t \<subseteq> fset (fmdom (g_heap s))" by (auto simp: alive_def)
  then have "set (add_nodes [] ?t) \<subseteq> fset (fmdom (g_heap s))" by (simp add: set_add_nodes)
  ultimately have *: "distinct (scan_nodes s borrowed) \<and> set (scan_nodes s borrowed) \<subseteq> fset (fmdom (g_heap s))
      \<and> set (add_nodes [] ?t) \<subseteq> set (scan_nodes s borrowed)"
    unfolding scan_nodes_def by (rule closure_hunt_spec [OF _ _ assms])
  then show "distinct (scan_nodes s borrowed)" "set (scan_nodes s borrowed) \<subseteq> fset (fmdom (g_heap s))" by blast+
  fix a
  assume "alive s a" "a \<in> set (g_young s) \<union> g_old s"
  then have "a \<in> set ?t" by (auto simp: alive_def)
  then show "a \<in> set (scan_nodes s borrowed)" using * by (auto simp: set_add_nodes)
qed

text \<open>What the work list computes.\<close>

lemma live_loop_spec:
  "set work \<subseteq> live \<Longrightarrow> (\<And>a b. a \<in> live - set work \<Longrightarrow> b \<in> set (readable_edges H borrowed a) \<Longrightarrow> b \<in> set nodes \<Longrightarrow> b \<in> live) \<Longrightarrow>
     live \<subseteq> live_loop H borrowed nodes live work
     \<and> (\<forall>a\<in>live_loop H borrowed nodes live work. \<forall>b\<in>set (readable_edges H borrowed a). b \<in> set nodes \<longrightarrow> b \<in> live_loop H borrowed nodes live work)"
proof (induction H borrowed nodes live work rule: live_loop.induct)
  case (2 H borrowed nodes live a work)
  define new where "new = remdups (filter (\<lambda>b. b \<in> set nodes \<and> b \<notin> live) (readable_edges H borrowed a))"
  have eq: "live_loop H borrowed nodes live (a # work) = live_loop H borrowed nodes (live \<union> set new) (rev new @ work)"
    by (subst live_loop.simps) (simp add: new_def [symmetric] Let_def)
  have "set (rev new @ work) \<subseteq> live \<union> set new" using "2.prems"(1) by auto
  moreover have "c \<in> live \<union> set new"
    if "b \<in> live \<union> set new - set (rev new @ work)" "c \<in> set (readable_edges H borrowed b)" "c \<in> set nodes" for b c
    using that "2.prems"(2) [of b c] by (cases "b = a") (auto simp: new_def)
  ultimately show ?case using "2.IH" [OF new_def] unfolding eq by blast
qed (auto simp: live_loop.simps)

lemma live_loop_avoids:
  "live \<inter> S = {} \<Longrightarrow> (\<And>a b. a \<notin> S \<Longrightarrow> b \<in> set (readable_edges H borrowed a) \<Longrightarrow> b \<notin> S) \<Longrightarrow> set work \<inter> S = {} \<Longrightarrow>
     live_loop H borrowed nodes live work \<inter> S = {}"
proof (induction H borrowed nodes live work rule: live_loop.induct)
  case (2 H borrowed nodes live a work)
  define new where "new = remdups (filter (\<lambda>b. b \<in> set nodes \<and> b \<notin> live) (readable_edges H borrowed a))"
  have eq: "live_loop H borrowed nodes live (a # work) = live_loop H borrowed nodes (live \<union> set new) (rev new @ work)"
    by (subst live_loop.simps) (simp add: new_def [symmetric] Let_def)
  have "set new \<inter> S = {}" using "2.prems" by (auto simp: new_def)
  then have "(live \<union> set new) \<inter> S = {}" "set (rev new @ work) \<inter> S = {}" using "2.prems"(1,3) by auto
  from "2.IH" [OF new_def this(1) "2.prems"(2) this(2)] show ?case unfolding eq by assumption
qed (simp add: live_loop.simps)

lemma sum_squeeze:
  fixes F G :: "'a \<Rightarrow> nat"
  assumes "finite D" "N \<subseteq> D" "\<And>a. a \<in> D \<Longrightarrow> G a \<le> F a" "e + sum F D \<le> sum G N"
  shows "e = 0" "a \<in> D - N \<Longrightarrow> F a = 0" "a \<in> N \<Longrightarrow> F a = G a"
proof -
  have N: "finite N" using assms(1,2) finite_subset by blast
  have "sum G N \<le> sum F N" using assms(2,3) by (intro sum_mono) auto
  moreover have d: "sum F D = sum F N + sum F (D - N)" using sum.subset_diff [OF assms(2,1)] by (simp add: add.commute)
  ultimately have z: "e = 0" "sum F (D - N) = 0" "sum G N = sum F N" using assms(4) by auto
  then show "e = 0" by simp
  show "a \<in> D - N \<Longrightarrow> F a = 0" using z(2) assms(1) by simp
  assume a: "a \<in> N"
  have "sum G N = G a + sum G (N - {a})" "sum F N = F a + sum F (N - {a})" using sum.remove [OF N a] by auto
  moreover have "sum G (N - {a}) \<le> sum F (N - {a})" using assms(2,3) by (intro sum_mono) auto
  ultimately have "F a \<le> G a" using z(3) by linarith
  moreover have "G a \<le> F a" using assms(2,3) a by blast
  ultimately show "F a = G a" by simp
qed

lemma internal_sum:
  "distinct nodes \<Longrightarrow> internal_refs H borrowed nodes x = (\<Sum>n\<in>set nodes. count_list (readable_edges H borrowed n) x)"
  by (simp add: internal_refs_def sum_list_distinct_conv_sum_set)

text \<open>Nothing but garbage holds garbage.\<close>

lemma dead_unheld:
  assumes ok: "heap_ok (g_heap s)" and c: "counted (g_heap s) counts outside"
    and a: "analyse s counts borrowed = (nodes, live)" and x: "x \<in> set nodes" "x \<notin> live"
  shows "outside x = 0" "x \<in> set (handles_at (g_heap s) b) \<Longrightarrow> b \<in> set nodes \<and> b \<notin> live"
proof -
  let ?H = "g_heap s"
  have nodes: "nodes = scan_nodes s borrowed"
    and live: "live = live_loop ?H borrowed nodes (set (live_roots ?H counts borrowed nodes)) (rev (live_roots ?H counts borrowed nodes))"
    using a by (auto simp: analyse_def Let_def)
  note n = scan_nodes_spec(1,2) [OF ok, of borrowed, folded nodes]
  have "set (live_roots ?H counts borrowed nodes) \<subseteq> live
      \<and> (\<forall>a\<in>live. \<forall>b\<in>set (readable_edges ?H borrowed a). b \<in> set nodes \<longrightarrow> b \<in> live)"
    unfolding live by (rule live_loop_spec) simp_all
  then have l: "set (live_roots ?H counts borrowed nodes) \<subseteq> live"
    and l2: "\<And>a b. a \<in> live \<Longrightarrow> b \<in> set (readable_edges ?H borrowed a) \<Longrightarrow> b \<in> set nodes \<Longrightarrow> b \<in> live"
    by simp_all
  have "x \<notin> set (live_roots ?H counts borrowed nodes)" using l x(2) by (rule contra_subsetD)
  then have "counts x \<le> internal_refs ?H borrowed nodes x" using x(1) by (auto simp: live_roots_def)
  then have le: "outside x + (\<Sum>a\<in>fset (fmdom ?H). count_list (handles_at ?H a) x) \<le> (\<Sum>n\<in>set nodes. count_list (readable_edges ?H borrowed n) x)"
    using c by (simp add: counted_def held_def internal_sum [OF n(1)])
  note sq = sum_squeeze [OF finite_fset n(2) readable_handles le]
  show "outside x = 0" by (rule sq(1))
  assume b: "x \<in> set (handles_at ?H b)"
  then have "count_list (handles_at ?H b) x \<noteq> 0" by (simp add: count_list_0_iff)
  moreover have "b |\<in>| fmdom ?H" by (rule handles_at_dom(1) [OF ok b])
  ultimately have bn: "b \<in> set nodes" using sq(2) [of b] by auto
  then have "count_list (readable_edges ?H borrowed b) x \<noteq> 0" using sq(3) [OF bn] \<open>count_list (handles_at ?H b) x \<noteq> 0\<close> by simp
  then have "x \<in> set (readable_edges ?H borrowed b)" by (simp add: count_list_0_iff)
  then have "b \<notin> live" using l2 x by metis
  then show "b \<in> set nodes \<and> b \<notin> live" using bn by simp
qed

text \<open>What the handles lead to from a set of addresses.\<close>

inductive reached :: "heap \<Rightarrow> addr set \<Rightarrow> addr \<Rightarrow> bool" for H :: heap and R :: "addr set" where
  start: "a \<in> R \<Longrightarrow> reached H R a"
| hop: "reached H R a \<Longrightarrow> b \<in> set (handles_at H a) \<Longrightarrow> reached H R b"

definition registered :: "gc \<Rightarrow> bool" where
  "registered s \<longleftrightarrow> (\<forall>a ob. a \<in> set (g_young s) \<union> g_old s \<longrightarrow> fmlookup (g_heap s) a = Some ob \<longrightarrow> tracked_kind ob)"

text \<open>What keeps a node: a handle from outside the heap, a borrow, an object that is no node.\<close>

definition anchors :: "gc \<Rightarrow> (addr \<Rightarrow> nat) \<Rightarrow> addr set \<Rightarrow> addr set" where
  "anchors s outside borrowed =
     {r \<in> fset (fmdom (g_heap s)). 0 < outside r \<or> is_pinned (g_heap s) borrowed r \<or> r \<notin> set (scan_nodes s borrowed)}"

lemma closure_hunt_kinds:
  "heap_ok H \<Longrightarrow> (\<And>a ob. a \<in> set nodes \<Longrightarrow> fmlookup H a = Some ob \<Longrightarrow> node_kind ob) \<Longrightarrow>
     a \<in> set (closure_hunt H borrowed k nodes) \<Longrightarrow> fmlookup H a = Some ob \<Longrightarrow> node_kind ob"
proof (induction H borrowed k nodes rule: closure_hunt.induct)
  case (1 H borrowed k nodes)
  define found where "found = concat (map (found_closures H borrowed) (drop k nodes))"
  show ?case
  proof (cases "found = [] \<or> length (add_nodes nodes found) = length nodes")
    case True
    then have "closure_hunt H borrowed k nodes = nodes"
      by (subst closure_hunt.simps) (simp add: found_def [symmetric] Let_def)
    then show ?thesis using "1.prems" by simp
  next
    case False
    then have eq: "closure_hunt H borrowed k nodes = closure_hunt H borrowed (length nodes) (add_nodes nodes found)"
      by (subst closure_hunt.simps) (simp only: found_def [symmetric] Let_def if_False)
    have found: "node_kind ob" if "c \<in> set found" "fmlookup H c = Some ob" for c ob
    proof -
      obtain n where "c \<in> set (found_closures H borrowed n)" using \<open>c \<in> set found\<close> by (auto simp: found_def)
      then have "c \<in> set (readable_edges H borrowed n)" using found_in_handles by blast
      then obtain obn where "fmlookup H n = Some obn" "c \<in> set (node_edges obn)"
        by (cases "fmlookup H n") (auto simp: readable_edges_def split: if_splits)
      then show ?thesis using "1.prems"(1) that(2) unfolding heap_ok_def obj_ok_def by fastforce
    qed
    have "node_kind ob" if "c \<in> set (add_nodes nodes found)" "fmlookup H c = Some ob" for c ob
      using that found "1.prems"(2) by (auto simp: set_add_nodes)
    from "1.IH" [OF found_def refl False "1.prems"(1) this "1.prems"(3) [unfolded eq] "1.prems"(4)] show ?thesis .
  qed
qed

lemma scan_nodes_kinds:
  assumes "heap_ok (g_heap s)" "registered s" "a \<in> set (scan_nodes s borrowed)" "fmlookup (g_heap s) a = Some ob"
  shows "node_kind ob"
  using assms(3,4) unfolding scan_nodes_def
proof (rule closure_hunt_kinds [OF assms(1), rotated])
  fix c obc
  assume "c \<in> set (add_nodes [] (filter (alive s) (g_young s @ sorted_list_of_set {a \<in> fset (fmdom (g_heap s)). a \<in> g_old s})))"
    and "fmlookup (g_heap s) c = Some obc"
  then show "node_kind obc" using assms(2) by (auto simp: set_add_nodes registered_def node_kind_def)
qed

lemma analyse_parts:
  "fst (analyse s counts borrowed) = scan_nodes s borrowed"
  "snd (analyse s counts borrowed) =
     (let roots = live_roots (g_heap s) counts borrowed (scan_nodes s borrowed)
      in live_loop (g_heap s) borrowed (scan_nodes s borrowed) (set roots) (rev roots))"
  by (simp_all add: analyse_def Let_def)

text \<open>A reference that the nodes do not account for comes from an anchor.\<close>

lemma live_root_anchored:
  assumes ok: "heap_ok (g_heap s)" and reg: "registered s" and c: "counted (g_heap s) counts outside"
    and x: "x \<in> set (live_roots (g_heap s) counts borrowed (scan_nodes s borrowed))"
  shows "reached (g_heap s) (anchors s outside borrowed) x"
proof -
  let ?H = "g_heap s" and ?N = "scan_nodes s borrowed"
  note n = scan_nodes_spec(1,2) [OF ok, of borrowed]
  have xn: "x \<in> set ?N" using x by (simp add: live_roots_def)
  then have xd: "x |\<in>| fmdom ?H" using n(2) by blast
  show ?thesis
  proof (cases "is_pinned ?H borrowed x \<or> 0 < outside x")
    case True
    then have "x \<in> anchors s outside borrowed" using xd by (auto simp: anchors_def)
    then show ?thesis by (rule reached.start)
  next
    case False
    then have lt: "(\<Sum>n\<in>set ?N. count_list (readable_edges ?H borrowed n) x) < (\<Sum>a\<in>fset (fmdom ?H). count_list (handles_at ?H a) x)"
      using x c by (simp add: live_roots_def counted_def held_def internal_sum [OF n(1)])
    have "\<exists>a. a |\<in>| fmdom ?H \<and> x \<in> set (handles_at ?H a) \<and> (a \<in> set ?N \<longrightarrow> count_list (readable_edges ?H borrowed a) x \<noteq> count_list (handles_at ?H a) x)"
    proof (rule ccontr)
      assume "\<not> ?thesis"
      then have *: "\<And>a. a |\<in>| fmdom ?H \<Longrightarrow> x \<in> set (handles_at ?H a) \<Longrightarrow> a \<in> set ?N \<and> count_list (readable_edges ?H borrowed a) x = count_list (handles_at ?H a) x"
        by blast
      have "(\<Sum>a\<in>fset (fmdom ?H). count_list (handles_at ?H a) x) = (\<Sum>n\<in>set ?N. count_list (handles_at ?H n) x)"
        using n(2) * by (intro sum.mono_neutral_right) (auto simp: count_list_0_iff)
      also have "... = (\<Sum>n\<in>set ?N. count_list (readable_edges ?H borrowed n) x)"
      proof (rule sum.cong)
        fix a
        assume "a \<in> set ?N"
        then show "count_list (handles_at ?H a) x = count_list (readable_edges ?H borrowed a) x"
          using * [of a] n(2) readable_handles [of ?H borrowed a x] by (cases "x \<in> set (handles_at ?H a)") (auto simp: count_list_0_iff)
      qed simp
      finally show False using lt by simp
    qed
    then obtain a where a: "a |\<in>| fmdom ?H" "x \<in> set (handles_at ?H a)"
      "a \<in> set ?N \<Longrightarrow> count_list (readable_edges ?H borrowed a) x \<noteq> count_list (handles_at ?H a) x" by blast
    have "a \<in> anchors s outside borrowed"
    proof (cases "a \<in> set ?N \<and> \<not> is_pinned ?H borrowed a")
      case True
      obtain ob where ob: "fmlookup ?H a = Some ob" using a(1) by (auto dest: fmdomE)
      then have "readable_edges ?H borrowed a = node_edges ob" using True by (auto simp: readable_edges_def is_pinned_def)
      then have "x \<in> set (shared_handles ob)" using a(3) True ob by (auto simp: handles_at_def count_handles count_list_0_iff)
      moreover have "node_kind ob" using True ob by (auto intro: scan_nodes_kinds [OF ok reg])
      ultimately obtain ob' where "fmlookup ?H x = Some ob'" "\<not> node_kind ob'"
        using ok ob unfolding heap_ok_def obj_ok_def by blast
      then show ?thesis using scan_nodes_kinds [OF ok reg xn] by blast
    qed (use a(1) in \<open>auto simp: anchors_def\<close>)
    then show ?thesis by (rule reached.hop [OF reached.start a(2)])
  qed
qed

lemma live_anchored:
  assumes ok: "heap_ok (g_heap s)" and reg: "registered s" and c: "counted (g_heap s) counts outside"
    and x: "x \<in> snd (analyse s counts borrowed)"
  shows "reached (g_heap s) (anchors s outside borrowed) x"
proof (rule ccontr)
  let ?H = "g_heap s" and ?S = "{y. \<not> reached (g_heap s) (anchors s outside borrowed) y}"
  let ?R = "live_roots ?H counts borrowed (scan_nodes s borrowed)"
  assume "\<not> ?thesis"
  moreover have "live_loop ?H borrowed (scan_nodes s borrowed) (set ?R) (rev ?R) \<inter> ?S = {}"
  proof (rule live_loop_avoids)
    show "set ?R \<inter> ?S = {}" "set (rev ?R) \<inter> ?S = {}" using live_root_anchored [OF ok reg c] by auto
    fix a b
    assume "a \<notin> ?S" "b \<in> set (readable_edges ?H borrowed a)"
    then have "reached ?H (anchors s outside borrowed) a" "b \<in> set (handles_at ?H a)"
      using readable_in_handles by auto
    then have "reached ?H (anchors s outside borrowed) b" by (rule reached.hop)
    then show "b \<notin> ?S" by simp
  qed
  ultimately show False using x by (auto simp: analyse_parts Let_def)
qed

lemma anchored_live:
  assumes ok: "heap_ok (g_heap s)" and c: "counted (g_heap s) counts outside"
    and x: "reached (g_heap s) (anchors s outside borrowed) x"
  shows "x \<in> set (scan_nodes s borrowed) \<Longrightarrow> x \<in> snd (analyse s counts borrowed)"
  using x
proof (induction rule: reached.induct)
  case (start a)
  have a: "analyse s counts borrowed = (scan_nodes s borrowed, snd (analyse s counts borrowed))"
    using analyse_parts(1) [of s counts borrowed] by (metis prod.collapse)
  show ?case
  proof (rule ccontr)
    assume n: "a \<notin> snd (analyse s counts borrowed)"
    have "outside a = 0" by (rule dead_unheld(1) [OF ok c a start(2) n])
    then have p: "is_pinned (g_heap s) borrowed a" using start by (auto simp: anchors_def)
    let ?R = "live_roots (g_heap s) counts borrowed (scan_nodes s borrowed)"
    have "set ?R \<subseteq> live_loop (g_heap s) borrowed (scan_nodes s borrowed) (set ?R) (rev ?R)"
      using live_loop_spec [of "rev ?R" "set ?R"] by simp
    moreover have "a \<in> set ?R" using p start(2) by (simp add: live_roots_def)
    ultimately show False using n by (auto simp: analyse_parts Let_def)
  qed
next
  case (hop a b)
  have a: "analyse s counts borrowed = (scan_nodes s borrowed, snd (analyse s counts borrowed))"
    using analyse_parts(1) [of s counts borrowed] by (metis prod.collapse)
  show ?case
    using dead_unheld(2) [OF ok c a hop(4) _ hop(2)] hop(3) by blast
qed

lemma prune_heap [simp]: "g_heap (prune cfg s) = g_heap s" "g_old (prune cfg s) = g_old s" "g_rem (prune cfg s) = g_rem s"
  "g_flag (prune cfg s) = g_flag s" "g_young (prune cfg s) = filter (alive s) (g_young s)"
  "g_classes (prune cfg s) = g_classes s"
  by (simp_all add: prune_def Let_def)

lemma clear_all_lookup:
  "fmlookup (clear_all dead H) a = (if a \<in> dead then map_option clear_obj (fmlookup H a) else fmlookup H a)"
  by (cases "fmlookup H a") (auto simp: clear_all_def)

lemma collect_cycles_heap:
  "g_heap (collect_cycles cfg s counts borrowed) = clear_all (set (scan_nodes s borrowed) - snd (analyse s counts borrowed)) (g_heap s)"
  using analyse_parts(1) [of s counts borrowed] by (auto simp: collect_cycles_def Let_def split: prod.split)

lemma cycle_collection_heap:
  assumes "heap_ok (g_heap s)" "registered s" "counted (g_heap s) counts outside"
  shows "fmlookup (g_heap (collect_cycles cfg s counts borrowed)) x =
    (if x \<in> set (scan_nodes s borrowed) \<and> \<not> reached (g_heap s) (anchors s outside borrowed) x
     then map_option clear_obj (fmlookup (g_heap s) x) else fmlookup (g_heap s) x)"
  using live_anchored [OF assms, of x borrowed] anchored_live [OF assms(1,3), of borrowed x]
  by (auto simp: collect_cycles_heap clear_all_lookup)

text \<open>The same test on the objects the trace reaches: it finds nothing.\<close>

lemma mark_loop_reached:
  "marked \<subseteq> Collect (reached (g_heap s) R) \<Longrightarrow> set work \<subseteq> Collect (reached (g_heap s) R) \<Longrightarrow>
     mark_loop s minor marked work \<subseteq> Collect (reached (g_heap s) R)"
proof (induction s minor marked work rule: mark_loop.induct)
  case (2 s minor marked a work)
  have "set (children s a) \<subseteq> Collect (reached (g_heap s) R)"
    using "2.prems"(2) reached.hop by (fastforce simp: children_def handles_at_def set_traced split: option.splits)
  then show ?case using "2.IH" "2.prems" by (auto simp: mark_loop.simps(2) [of s minor marked a work])
qed (simp add: mark_loop.simps)

text \<open>The roots are what is held from outside, and the classes of the list.\<close>

definition roots_held :: "gc \<Rightarrow> addr list \<Rightarrow> (addr \<Rightarrow> nat) \<Rightarrow> bool" where
  "roots_held s roots outside \<longleftrightarrow>
     (\<forall>r\<in>set roots. r |\<in>| fmdom (g_heap s) \<and> 0 < outside r)
     \<and> (\<forall>r\<in>set (g_classes s). \<forall>ob. fmlookup (g_heap s) r = Some ob \<longrightarrow> \<not> node_kind ob)"

lemma scan_agrees:
  assumes "heap_ok (g_heap s)" "registered s" "counted (g_heap s) counts outside" "roots_held s roots outside"
  shows "verify_cycles s counts borrowed roots = {}"
proof -
  let ?A = "anchors s outside borrowed"
  have "set (filter (alive s) (g_classes s) @ roots) \<subseteq> ?A"
    using assms(4) scan_nodes_kinds [OF assms(1,2)]
    by (fastforce simp: roots_held_def anchors_def alive_def)
  then have "mark s roots False \<subseteq> Collect (reached (g_heap s) ?A)"
    using mark_loop_reached [of "{}" s ?A "filter (alive s) (g_classes s) @ roots" False]
    by (auto simp: mark_def Let_def intro: reached.start)
  then show ?thesis
    using anchored_live [OF assms(1,3), of borrowed] analyse_parts(1) [of s counts borrowed]
    by (auto simp: verify_cycles_def split: prod.split)
qed

lemma dead_cycles_go:
  assumes "heap_ok (g_heap s)" "registered s" "counted (g_heap s) counts outside"
    and "S \<subseteq> set (scan_nodes s borrowed)" "\<And>x. x \<in> S \<Longrightarrow> outside x = 0 \<and> x \<notin> borrowed"
    and "\<And>a x. x \<in> S \<Longrightarrow> x \<in> set (handles_at (g_heap s) a) \<Longrightarrow> a \<in> S" "x \<in> S"
  shows "fmlookup (g_heap (collect_cycles cfg s counts borrowed)) x = map_option clear_obj (fmlookup (g_heap s) x)"
proof -
  have "y \<notin> S" if "reached (g_heap s) (anchors s outside borrowed) y" for y
    using that
  proof (induction rule: reached.induct)
    case (start a)
    then show ?case using assms(4) assms(5) [of a] by (auto simp: anchors_def is_pinned_def split: option.splits)
  next
    case (hop a b)
    then show ?case using assms(6) by blast
  qed
  then show ?thesis using assms(4,7) cycle_collection_heap [OF assms(1,2,3)] by auto
qed

section \<open>The two generations\<close>

text \<open>What a minor trace does not see: what is held by the old objects that have not been
  written to, directly or through objects of no generation.\<close>

inductive behind :: "gc \<Rightarrow> addr \<Rightarrow> bool" for s :: gc where
  held: "a \<in> g_old s \<Longrightarrow> a \<notin> g_rem s \<Longrightarrow> b \<in> set (handles_at (g_heap s) a) \<Longrightarrow> behind s b"
| through: "behind s a \<Longrightarrow> fmlookup (g_heap s) a = Some ob \<Longrightarrow> \<not> tracked_kind ob \<Longrightarrow> \<not> is_class ob \<Longrightarrow>
    b \<in> set (handles ob) \<Longrightarrow> behind s b"

text \<open>The invariant of the collector, for the objects held from outside.\<close>

definition generations_ok :: "gc \<Rightarrow> addr set \<Rightarrow> bool" where
  "generations_ok s R \<longleftrightarrow>
     heap_ok (g_heap s) \<and> registered s \<and> R \<subseteq> fset (fmdom (g_heap s))
     \<and> (\<forall>a ob. reached (g_heap s) R a \<longrightarrow> fmlookup (g_heap s) a = Some ob \<longrightarrow> tracked_kind ob \<longrightarrow> a \<in> set (g_young s) \<union> g_old s)
     \<and> (\<forall>a ob. fmlookup (g_heap s) a = Some ob \<longrightarrow> is_class ob \<longrightarrow> a \<in> set (g_classes s))
     \<and> (\<forall>a ob. a \<in> set (g_classes s) \<longrightarrow> fmlookup (g_heap s) a = Some ob \<longrightarrow> is_class ob)
     \<and> set (g_young s) \<inter> g_old s = {} \<and> g_old s \<subseteq> g_flag s
     \<and> (\<forall>b. behind s b \<longrightarrow> b \<notin> set (g_young s))"

lemma generations_okD:
  assumes "generations_ok s R"
  shows "heap_ok (g_heap s)" "registered s" "R \<subseteq> fset (fmdom (g_heap s))"
    "reached (g_heap s) R a \<Longrightarrow> fmlookup (g_heap s) a = Some ob \<Longrightarrow> tracked_kind ob \<Longrightarrow> a \<in> set (g_young s) \<union> g_old s"
    "fmlookup (g_heap s) a = Some ob \<Longrightarrow> is_class ob \<Longrightarrow> a \<in> set (g_classes s)"
    "a \<in> set (g_classes s) \<Longrightarrow> fmlookup (g_heap s) a = Some ob \<Longrightarrow> is_class ob"
    "set (g_young s) \<inter> g_old s = {}" "g_old s \<subseteq> g_flag s" "behind s b \<Longrightarrow> b \<notin> set (g_young s)"
  using assms unfolding generations_ok_def by blast+

lemma mark_loop_mono: "marked \<union> set work \<subseteq> mark_loop s minor marked work"
proof (induction s minor marked work rule: mark_loop.induct)
  case (2 s minor marked a work)
  then show ?case unfolding mark_loop.simps(2) [of s minor marked a work] by (simp only: split: if_splits) auto
qed (simp add: mark_loop.simps)

definition passed :: "gc \<Rightarrow> bool \<Rightarrow> addr \<Rightarrow> bool" where
  "passed s minor a \<longleftrightarrow> \<not> (minor \<and> a \<in> g_old s \<and> a \<notin> g_rem s)"

lemma mark_loop_closed:
  "(\<And>a. a \<in> marked \<Longrightarrow> passed s minor a \<Longrightarrow> set (children s a) \<subseteq> marked \<union> set work) \<Longrightarrow>
     a \<in> mark_loop s minor marked work \<Longrightarrow> passed s minor a \<Longrightarrow> set (children s a) \<subseteq> mark_loop s minor marked work"
proof (induction s minor marked work rule: mark_loop.induct)
  case (2 s minor marked c work)
  show ?case
  proof (cases "enter s minor c marked")
    case True
    have eq: "mark_loop s minor marked (c # work) = mark_loop s minor (insert c marked) (children s c @ work)"
      using True by (simp add: mark_loop.simps(2))
    show ?thesis unfolding eq
    proof (rule "2.IH"(1) [OF True _ "2.prems"(2) [unfolded eq] "2.prems"(3)])
      fix b
      assume "b \<in> insert c marked" "passed s minor b"
      then show "set (children s b) \<subseteq> insert c marked \<union> set (children s c @ work)"
        using "2.prems"(1) [of b] by auto
    qed
  next
    case False
    have eq: "mark_loop s minor marked (c # work) = mark_loop s minor (insert c marked) work"
      using False by (simp add: mark_loop.simps(2))
    show ?thesis unfolding eq
    proof (rule "2.IH"(2) [OF False _ "2.prems"(2) [unfolded eq] "2.prems"(3)])
      fix b
      assume b: "b \<in> insert c marked" "passed s minor b"
      then have "b \<in> marked" using False by (auto simp: passed_def enter_def)
      then show "set (children s b) \<subseteq> insert c marked \<union> set work"
        using "2.prems"(1) [of b] b(2) by auto
    qed
  qed
qed (simp add: mark_loop.simps)

lemma children_handles_at: "set (children s a) = set (handles_at (g_heap s) a)"
  by (simp add: children_def handles_at_def set_traced split: option.split)

text \<open>What a trace marks: its roots, and what a marked object holds unless the trace stops there.\<close>

lemma mark_spec:
  "set roots \<subseteq> mark s roots minor"
  "a \<in> set (g_classes s) \<Longrightarrow> alive s a \<Longrightarrow> a \<in> mark s roots minor"
  "minor \<Longrightarrow> alive s a \<Longrightarrow> a \<in> g_old s \<Longrightarrow> a \<in> g_rem s \<Longrightarrow> a \<in> mark s roots minor"
  "a \<in> mark s roots minor \<Longrightarrow> passed s minor a \<Longrightarrow> set (handles_at (g_heap s) a) \<subseteq> mark s roots minor"
proof -
  define W where "W = filter (alive s) (g_classes s) @ roots"
  define M where "M = mark_loop s minor {} W"
  define D where "D = sorted_list_of_set {a \<in> fset (fmdom (g_heap s)). a \<in> g_rem s \<and> a \<in> g_old s}"
  have D: "a \<in> set D \<longleftrightarrow> alive s a \<and> a \<in> g_old s \<and> a \<in> g_rem s" for a by (auto simp: D_def alive_def)
  have eq: "mark s roots minor = (if minor then mark_loop s minor (M \<union> set D) (concat (map (children s) D)) else M)"
    by (auto simp: mark_def Let_def M_def W_def D_def)
  have "M \<subseteq> mark s roots minor" using mark_loop_mono [of "M \<union> set D"] by (auto simp: eq)
  moreover have "set W \<subseteq> M" using mark_loop_mono [of "{}" W s minor] by (simp add: M_def)
  ultimately have W: "set W \<subseteq> mark s roots minor" by blast
  then show "set roots \<subseteq> mark s roots minor" by (simp add: W_def)
  show "a \<in> set (g_classes s) \<Longrightarrow> alive s a \<Longrightarrow> a \<in> mark s roots minor" using W by (auto simp: W_def)
  show "a \<in> mark s roots minor" if minor "alive s a" "a \<in> g_old s" "a \<in> g_rem s"
  proof -
    have "a \<in> set D" using that D by simp
    then show ?thesis
      using mark_loop_mono [of "M \<union> set D" "concat (map (children s) D)" s minor] \<open>minor\<close> unfolding eq by auto
  qed
  assume a: "a \<in> mark s roots minor" "passed s minor a"
  have M: "set (children s b) \<subseteq> M" if "b \<in> M" "passed s minor b" for b
    using mark_loop_closed [of "{}" s minor W b] that by (simp add: M_def)
  show "set (handles_at (g_heap s) a) \<subseteq> mark s roots minor"
  proof (cases minor)
    case True
    have "set (children s a) \<subseteq> mark_loop s minor (M \<union> set D) (concat (map (children s) D))"
    proof (rule mark_loop_closed [OF _ _ a(2)])
      fix b
      assume "b \<in> M \<union> set D" "passed s minor b"
      then show "set (children s b) \<subseteq> M \<union> set D \<union> set (concat (map (children s) D))" using M [of b] by auto
    qed (use a(1) True eq in simp)
    then show ?thesis using True eq by (simp add: children_handles_at)
  next
    case False
    then show ?thesis using M [of a] a eq by (simp add: children_handles_at)
  qed
qed

text \<open>The classes that are still there are roots of every trace.\<close>

definition live_classes :: "gc \<Rightarrow> addr set" where
  "live_classes s = {a \<in> set (g_classes s). alive s a}"

text \<open>A minor trace misses nothing that is young.\<close>

lemma minor_reaches:
  assumes ok: "generations_ok s R" and R: "R \<subseteq> set roots \<union> live_classes s" and x: "reached (g_heap s) R x"
  shows "x \<in> mark s roots True \<or> behind s x"
  using x
proof (induction rule: reached.induct)
  case (start a)
  then show ?case using mark_spec(1) [of roots s True] mark_spec(2) [where s = s and roots = roots and minor = True] R unfolding live_classes_def by blast
next
  case (hop a b)
  have dom: "a |\<in>| fmdom (g_heap s)" by (rule handles_at_dom(1) [OF generations_okD(1) [OF ok] hop(2)])
  then obtain ob where ob: "fmlookup (g_heap s) a = Some ob" by (auto dest: fmdomE)
  then have b: "b \<in> set (handles ob)" using hop(2) by (simp add: handles_at_def)
  consider "a \<in> mark s roots True" "passed s True a" | "a \<in> g_old s" "a \<notin> g_rem s"
    | "behind s a" "\<not> tracked_kind ob" "\<not> is_class ob"
    | "behind s a" "is_class ob" "\<not> tracked_kind ob" | "behind s a" "tracked_kind ob"
    using hop(3) unfolding passed_def by blast
  then show ?case
  proof cases
    case 1
    then show ?thesis using mark_spec(4) [of a s roots True] hop(2) by blast
  next
    case 2
    then show ?thesis using behind.held [OF _ _ hop(2)] by blast
  next
    case 3
    then show ?thesis using behind.through [OF _ ob _ _ b] by blast
  next
    case 4
    have "a \<in> mark s roots True"
      using mark_spec(2) [of a s roots True] generations_okD(5) [OF ok ob 4(2)] dom by (simp add: alive_def)
    moreover have "passed s True a"
      using generations_okD(2) [OF ok] ob 4(3) unfolding registered_def passed_def by blast
    ultimately show ?thesis using mark_spec(4) [of a s roots True] hop(2) by blast
  next
    case 5
    then have "a \<in> g_old s" using generations_okD(4) [OF ok hop(1) ob] generations_okD(9) [OF ok] by blast
    then show ?thesis
    proof (cases "a \<in> g_rem s")
      case True
      then have "a \<in> mark s roots True"
        using mark_spec(3) [of True s a roots] dom \<open>a \<in> g_old s\<close> by (simp add: alive_def)
      then show ?thesis using mark_spec(4) [of a s roots True] hop(2) True by (auto simp: passed_def)
    next
      case False
      then show ?thesis using behind.held [OF \<open>a \<in> g_old s\<close> _ hop(2)] by blast
    qed
  qed
qed

lemma full_reaches:
  assumes "R \<subseteq> set roots \<union> live_classes s" "reached (g_heap s) R x"
  shows "x \<in> mark s roots False"
  using assms(2)
proof (induction rule: reached.induct)
  case (start a)
  then show ?case using mark_spec(1) [of roots s False] mark_spec(2) [where s = s and roots = roots and minor = False] assms(1) unfolding live_classes_def by blast
next
  case (hop a b)
  then show ?case using mark_spec(4) [of a s roots False] by (auto simp: passed_def)
qed

text \<open>The objects are of the kinds they were, and hold no more than they did.\<close>

lemma handles_clear: "set (handles (clear_obj ob)) \<subseteq> set (handles ob)" "set (node_edges (clear_obj ob)) \<subseteq> set (node_edges ob)"
  "set (shared_handles (clear_obj ob)) \<subseteq> set (shared_handles ob)"
  by (cases ob; simp add: set_handles clear_obj_def node_edges_def shared_handles_def value_edge_def shared_edge_def opt_list_def)+

lemma kinds_clear [simp]: "tracked_kind (clear_obj ob) = tracked_kind ob" "is_class (clear_obj ob) = is_class ob"
  "node_kind (clear_obj ob) = node_kind ob" "is_closure (clear_obj ob) = is_closure ob"
  by (cases ob; simp add: clear_obj_def tracked_kind_def is_class_def node_kind_def is_closure_def)+

definition shrunk :: "heap \<Rightarrow> heap \<Rightarrow> bool" where
  "shrunk H H' \<longleftrightarrow> fmdom H' = fmdom H
     \<and> (\<forall>a ob ob'. fmlookup H a = Some ob \<longrightarrow> fmlookup H' a = Some ob' \<longrightarrow> ob' = ob \<or> ob' = clear_obj ob)"

lemma shrunk_clear_all: "shrunk H (clear_all dead H)"
  by (auto simp: shrunk_def clear_all_lookup clear_all_def)

lemma shrunkE:
  assumes "shrunk H H'" "fmlookup H' a = Some ob'"
  obtains ob where "fmlookup H a = Some ob" "ob' = ob \<or> ob' = clear_obj ob"
  using assms unfolding shrunk_def by (metis fmdomE fmdomI)

lemma shrunk_lookup:
  assumes "shrunk H H'" "fmlookup H a = Some ob"
  obtains ob' where "fmlookup H' a = Some ob'" "ob' = ob \<or> ob' = clear_obj ob"
  using assms unfolding shrunk_def by (metis fmdomE fmdomI)

lemma shrunk_handles: "shrunk H H' \<Longrightarrow> set (handles_at H' a) \<subseteq> set (handles_at H a)"
  using handles_clear(1) by (cases "fmlookup H' a") (fastforce simp: handles_at_def elim: shrunkE)+

lemma shrunk_reached: "shrunk H H' \<Longrightarrow> reached H' R x \<Longrightarrow> reached H R x"
  by (rotate_tac 1, induction rule: reached.induct) (use shrunk_handles in \<open>blast intro: reached.intros\<close>)+

lemma shrunk_heap_ok:
  assumes "shrunk H H'" "heap_ok H"
  shows "heap_ok H'"
  unfolding heap_ok_def
proof (intro allI impI)
  fix a ob'
  assume "fmlookup H' a = Some ob'"
  then obtain ob where ob: "fmlookup H a = Some ob" "ob' = ob \<or> ob' = clear_obj ob" using assms(1) by (auto elim: shrunkE)
  have k: "set (node_edges ob') \<subseteq> set (node_edges ob)" "set (shared_handles ob') \<subseteq> set (shared_handles ob)" "node_kind ob' = node_kind ob"
    using ob(2) handles_clear [of ob] by auto
  have ok: "obj_ok H ob" using assms(2) ob(1) by (simp add: heap_ok_def)
  have l: "\<exists>c'. fmlookup H' b = Some c' \<and> node_kind c' = node_kind c" if "fmlookup H b = Some c" for b c
    using shrunk_lookup [OF assms(1) that] by (metis kinds_clear(3))
  show "obj_ok H' ob'"
    unfolding obj_ok_def
  proof (intro conjI ballI)
    fix b
    assume "b \<in> set (node_edges ob')"
    then obtain c where "fmlookup H b = Some c" "node_kind c" using ok k(1) unfolding obj_ok_def by blast
    then show "\<exists>c'. fmlookup H' b = Some c' \<and> node_kind c'" using l by blast
  next
    fix b
    assume "b \<in> set (shared_handles ob')"
    then obtain c where "fmlookup H b = Some c" "node_kind ob \<longrightarrow> \<not> node_kind c" using ok k(2) unfolding obj_ok_def by blast
    then show "\<exists>c'. fmlookup H' b = Some c' \<and> (node_kind ob' \<longrightarrow> \<not> node_kind c')" using l [of b c] k(3) by auto
  qed
qed

text \<open>A collection leaves everything that is held from outside as it is.\<close>

lemma collect_gen_parts:
  "g_young (collect_gen s roots major) = []"
  "g_rem (collect_gen s roots major) = {}"
  "g_classes (collect_gen s roots major) = filter (alive s) (g_classes s)"
  "g_flag (collect_gen s roots major) = g_flag s \<union> {a \<in> set (g_young s). alive s a \<and> a \<in> mark s roots (\<not> major)}"
  "g_old (collect_gen s roots major) =
     {a \<in> g_old s. major \<longrightarrow> alive s a \<and> a \<in> mark s roots False} \<union> {a \<in> set (g_young s). alive s a \<and> a \<in> mark s roots (\<not> major)}"
  "g_heap (collect_gen s roots major) =
     clear_all ({a \<in> set (g_young s). alive s a \<and> a \<notin> mark s roots (\<not> major)} \<union> {a \<in> g_old s. major \<and> alive s a \<and> a \<notin> mark s roots False}) (g_heap s)"
  by (auto simp: collect_gen_def Let_def intro!: arg_cong2 [where f = clear_all])

lemma reached_marked:
  assumes "generations_ok s R" "R \<subseteq> set roots \<union> live_classes s" "reached (g_heap s) R a"
  shows "a \<in> mark s roots False" "a \<in> set (g_young s) \<Longrightarrow> a \<in> mark s roots minor"
proof -
  show f: "a \<in> mark s roots False" by (rule full_reaches [OF assms(2,3)])
  assume "a \<in> set (g_young s)"
  then have "a \<in> mark s roots True" using minor_reaches [OF assms] generations_okD(9) [OF assms(1)] by blast
  with f show "a \<in> mark s roots minor" by (cases minor) simp_all
qed

lemma collect_gen_keeps:
  assumes "generations_ok s R" "R \<subseteq> set roots \<union> live_classes s" "reached (g_heap s) R a"
  shows "fmlookup (g_heap (collect_gen s roots major)) a = fmlookup (g_heap s) a"
  using reached_marked [OF assms] generations_okD(7) [OF assms(1)]
  by (auto simp: collect_gen_parts clear_all_lookup)

lemma collect_gen_ok:
  assumes ok: "generations_ok s R" and R: "R \<subseteq> set roots \<union> live_classes s"
  shows "generations_ok (collect_gen s roots major) R"
proof -
  let ?t = "collect_gen s roots major"
  have sh: "shrunk (g_heap s) (g_heap ?t)" by (simp add: collect_gen_parts shrunk_clear_all)
  have kinds: "\<exists>ob0. fmlookup (g_heap s) a = Some ob0 \<and> tracked_kind ob0 = tracked_kind ob \<and> is_class ob0 = is_class ob"
    if "fmlookup (g_heap ?t) a = Some ob" for a ob
    using shrunkE [OF sh that] by (metis kinds_clear(1,2))
  show ?thesis
    unfolding generations_ok_def
  proof (intro conjI allI impI)
    show "heap_ok (g_heap ?t)" by (rule shrunk_heap_ok [OF sh generations_okD(1) [OF ok]])
    show "registered ?t"
      unfolding registered_def
    proof (intro allI impI)
      fix a ob
      assume "a \<in> set (g_young ?t) \<union> g_old ?t" "fmlookup (g_heap ?t) a = Some ob"
      moreover from this have "a \<in> set (g_young s) \<union> g_old s" by (auto simp: collect_gen_parts)
      ultimately show "tracked_kind ob" using kinds generations_okD(2) [OF ok] unfolding registered_def by metis
    qed
    show "R \<subseteq> fset (fmdom (g_heap ?t))" using generations_okD(3) [OF ok] sh by (simp add: shrunk_def)
    fix a ob
    show "a \<in> set (g_young ?t) \<union> g_old ?t"
      if t: "reached (g_heap ?t) R a" "fmlookup (g_heap ?t) a = Some ob" "tracked_kind ob"
    proof -
      have r: "reached (g_heap s) R a" by (rule shrunk_reached [OF sh t(1)])
      obtain ob0 where "fmlookup (g_heap s) a = Some ob0" "tracked_kind ob0" using kinds [OF t(2)] t(3) by blast
      then have "a \<in> set (g_young s) \<union> g_old s" "alive s a"
        using generations_okD(4) [OF ok r] by (auto simp: alive_def intro: fmdomI)
      then show ?thesis using reached_marked [OF ok R r] by (auto simp: collect_gen_parts)
    qed
    show "a \<in> set (g_classes ?t)" if t: "fmlookup (g_heap ?t) a = Some ob" "is_class ob"
      using kinds [OF t(1)] t(2) generations_okD(5) [OF ok] by (auto simp: collect_gen_parts alive_def intro: fmdomI)
    show "is_class ob" if t: "a \<in> set (g_classes ?t)" "fmlookup (g_heap ?t) a = Some ob"
    proof -
      have "a \<in> set (g_classes s)" using t(1) by (simp add: collect_gen_parts)
      then show ?thesis using kinds [OF t(2)] generations_okD(6) [OF ok] by metis
    qed
    show "set (g_young ?t) \<inter> g_old ?t = {}" by (simp add: collect_gen_parts)
    show "g_old ?t \<subseteq> g_flag ?t" using generations_okD(8) [OF ok] by (auto simp: collect_gen_parts)
    show "b \<notin> set (g_young ?t)" for b by (simp add: collect_gen_parts)
  qed
qed

lemma collect_cycles_parts:
  "g_young (collect_cycles cfg s counts borrowed) = filter (alive s) (g_young s)"
  "g_old (collect_cycles cfg s counts borrowed) = g_old s" "g_rem s \<subseteq> g_rem (collect_cycles cfg s counts borrowed)"
  "g_flag (collect_cycles cfg s counts borrowed) = g_flag s"
  "g_classes (collect_cycles cfg s counts borrowed) = g_classes s"
  by (simp_all add: collect_cycles_def Let_def alive_def [abs_def] clear_all_def split: prod.split)

lemma collect_cycles_keeps:
  assumes "generations_ok s R" "counted (g_heap s) counts outside" "\<forall>r\<in>R. 0 < outside r" "reached (g_heap s) R a"
  shows "fmlookup (g_heap (collect_cycles cfg s counts borrowed)) a = fmlookup (g_heap s) a"
proof -
  have "R \<subseteq> anchors s outside borrowed" using generations_okD(3) [OF assms(1)] assms(3) by (auto simp: anchors_def)
  have "reached (g_heap s) (anchors s outside borrowed) a"
    using assms(4)
  proof (induction rule: reached.induct)
    case (start a)
    then show ?case using \<open>R \<subseteq> anchors s outside borrowed\<close> by (blast intro: reached.start)
  qed (rule reached.hop)
  then show ?thesis
    using cycle_collection_heap [OF generations_okD(1,2) [OF assms(1)] assms(2)] by auto
qed

text \<open>What the rest of the program does to the heap: it makes objects from what it holds, stores
  what it holds into what it holds, changes what it holds, and frees what nothing holds.  Only
  the objects of a generation are written to, and the static fields of a class.\<close>

inductive gc_step :: "gc_config \<Rightarrow> gc \<times> addr set \<Rightarrow> gc \<times> addr set \<Rightarrow> bool" for cfg :: gc_config where
  alloc: "a |\<notin>| fmdom (g_heap s) \<Longrightarrow> a \<notin> set (g_young s) \<union> g_old s \<union> set (g_classes s) \<Longrightarrow> obj_ok (g_heap s) ob \<Longrightarrow>
    set (handles ob) \<subseteq> Collect (reached (g_heap s) R) \<Longrightarrow> gc_step cfg (s, R) (gc_alloc cfg a ob s, insert a R)"
| store: "reached (g_heap s) R a \<Longrightarrow> fmlookup (g_heap s) a = Some ob \<Longrightarrow> tracked_kind ob \<Longrightarrow> tracked_kind ob' \<Longrightarrow>
    obj_ok (g_heap s) ob' \<Longrightarrow> set (handles ob') \<subseteq> Collect (reached (g_heap s) R) \<Longrightarrow> gc_step cfg (s, R) (write_obj a ob' s, R)"
| static: "reached (g_heap s) R a \<Longrightarrow> fmlookup (g_heap s) a = Some ob \<Longrightarrow> is_class ob \<Longrightarrow> is_class ob' \<Longrightarrow>
    obj_ok (g_heap s) ob' \<Longrightarrow> set (handles ob') \<subseteq> Collect (reached (g_heap s) R) \<Longrightarrow>
    gc_step cfg (s, R) (s\<lparr>g_heap := fmupd a ob' (g_heap s)\<rparr>, R)"
| hold: "R' \<subseteq> Collect (reached (g_heap s) R) \<Longrightarrow> gc_step cfg (s, R) (s, R')"
| free: "a \<notin> R \<Longrightarrow> (\<forall>c. a \<notin> set (handles_at (g_heap s) c)) \<Longrightarrow> gc_step cfg (s, R) (drop_obj a s, R)"
| trace: "set roots = R \<Longrightarrow> gc_step cfg (s, R) (collect_gen s roots major, R)"
| cycles: "counted (g_heap s) counts outside \<Longrightarrow> \<forall>r\<in>R. 0 < outside r \<Longrightarrow>
    gc_step cfg (s, R) (collect_cycles cfg s counts borrowed, R)"

inductive gc_run :: "gc_config \<Rightarrow> gc \<times> addr set \<Rightarrow> bool" for cfg :: gc_config where
  first: "g_heap s = fmempty \<Longrightarrow> g_young s = [] \<Longrightarrow> g_old s = {} \<Longrightarrow> g_classes s = [] \<Longrightarrow> gc_run cfg (s, {})"
| more: "gc_run cfg p \<Longrightarrow> gc_step cfg p q \<Longrightarrow> gc_run cfg q"

lemma behind_mono:
  assumes "\<And>a b. a \<in> g_old t \<Longrightarrow> a \<notin> g_rem t \<Longrightarrow> b \<in> set (handles_at (g_heap t) a) \<Longrightarrow> behind s b"
    and "\<And>a ob b. behind s a \<Longrightarrow> fmlookup (g_heap t) a = Some ob \<Longrightarrow> \<not> tracked_kind ob \<Longrightarrow> \<not> is_class ob \<Longrightarrow>
      b \<in> set (handles ob) \<Longrightarrow> behind s b"
    and "behind t b"
  shows "behind s b"
  using assms(3)
proof (induction rule: behind.induct)
  case (held a b)
  then show ?case by (rule assms(1))
next
  case (through a ob b)
  then show ?case using assms(2) by blast
qed

lemma reached_dom: "reached H R x \<Longrightarrow> heap_ok H \<Longrightarrow> R \<subseteq> fset (fmdom H) \<Longrightarrow> x |\<in>| fmdom H"
  by (induction rule: reached.induct) (use handles_at_dom(2) in blast)+

text \<open>A heap that changed at one object, which holds only what was reached.\<close>

lemma handles_at_upd: "handles_at (fmupd a ob H) c = (if c = a then handles ob else handles_at H c)"
  by (simp add: handles_at_def)

lemma reached_upd:
  assumes "reached (fmupd a ob H) (insert a R) x" "set (handles ob) \<subseteq> Collect (reached H R)"
  shows "reached H R x \<or> x = a"
  using assms(1)
proof (induction rule: reached.induct)
  case (hop c d)
  then show ?case using assms(2) reached.hop by (auto simp: handles_at_upd split: if_splits)
qed (auto intro: reached.start)

lemma reached_mono: "reached H R x \<Longrightarrow> R \<subseteq> Collect (reached H R') \<Longrightarrow> reached H R' x"
  by (induction rule: reached.induct) (auto intro: reached.hop)

lemma heap_ok_upd:
  assumes "heap_ok H" "obj_ok H ob"
    and "\<And>old. fmlookup H a = Some old \<Longrightarrow> node_kind ob = node_kind old"
  shows "heap_ok (fmupd a ob H)"
proof -
  have "obj_ok (fmupd a ob H) obc" if "obj_ok H obc" for obc
    using that assms(3) unfolding obj_ok_def by (auto split: if_splits; blast)
  then show ?thesis using assms(1,2) by (auto simp: heap_ok_def)
qed

lemma gc_alloc_parts:
  "g_heap (gc_alloc cfg a ob s) = fmupd a ob (g_heap s)" "g_old (gc_alloc cfg a ob s) = g_old s"
  "g_rem (gc_alloc cfg a ob s) = g_rem s" "g_flag (gc_alloc cfg a ob s) = g_flag s - {a}"
  "g_classes (gc_alloc cfg a ob s) = (if \<not> tracked_kind ob \<and> is_class ob then g_classes s @ [a] else g_classes s)"
  "set (g_young (gc_alloc cfg a ob s)) \<subseteq> (if tracked_kind ob then insert a (set (g_young s)) else set (g_young s))"
  "tracked_kind ob \<Longrightarrow> a \<in> set (g_young (gc_alloc cfg a ob s))"
  "b \<in> set (g_young s) \<Longrightarrow> b |\<in>| fmdom (g_heap s) \<Longrightarrow> b \<in> set (g_young (gc_alloc cfg a ob s))"
  by (auto simp: gc_alloc_def register_def Let_def alive_def)

lemma class_untracked: "is_class ob \<Longrightarrow> \<not> tracked_kind ob"
  by (cases ob) (simp_all add: is_class_def tracked_kind_def)

lemma behind_dom: "behind s b \<Longrightarrow> heap_ok (g_heap s) \<Longrightarrow> b |\<in>| fmdom (g_heap s)"
proof (induction rule: behind.induct)
  case (through a ob b)
  then have "b \<in> set (handles_at (g_heap s) a)" by (simp add: handles_at_def)
  then show ?case by (rule handles_at_dom(2) [OF through.prems])
qed (rule handles_at_dom(2))

lemma alloc_ok:
  assumes ok: "generations_ok s R" and a: "a |\<notin>| fmdom (g_heap s)" "a \<notin> set (g_young s) \<union> g_old s \<union> set (g_classes s)"
    and ob: "obj_ok (g_heap s) ob" "set (handles ob) \<subseteq> Collect (reached (g_heap s) R)"
  shows "generations_ok (gc_alloc cfg a ob s) (insert a R)"
proof -
  let ?t = "gc_alloc cfg a ob s"
  note D = generations_okD [OF ok]
  note young = gc_alloc_parts(6) [of cfg a ob s]
  have r: "reached (g_heap s) R x \<or> x = a" if "reached (g_heap ?t) (insert a R) x" for x
    using reached_upd [OF _ ob(2)] that by (simp add: gc_alloc_parts)
  have r_dom: "reached (g_heap s) R x \<Longrightarrow> x |\<in>| fmdom (g_heap s)" for x by (rule reached_dom [OF _ D(1,3)])
  have bh: "behind s b" if "behind ?t b" for b
  proof (rule behind_mono [OF _ _ that])
    fix c d
    assume "c \<in> g_old ?t" "c \<notin> g_rem ?t" "d \<in> set (handles_at (g_heap ?t) c)"
    moreover from this have "c \<noteq> a" using a(2) by (auto simp: gc_alloc_parts)
    ultimately show "behind s d" using behind.held [of c s d] by (simp add: gc_alloc_parts handles_at_upd)
  next
    fix c obc d
    assume *: "behind s c" "fmlookup (g_heap ?t) c = Some obc" "\<not> tracked_kind obc" "\<not> is_class obc" "d \<in> set (handles obc)"
    then have "c \<noteq> a" using behind_dom [OF _ D(1)] a(1) by blast
    then show "behind s d" using * behind.through [of s c obc d] by (simp add: gc_alloc_parts)
  qed
  show ?thesis
    unfolding generations_ok_def
  proof (intro conjI allI impI)
    show "heap_ok (g_heap ?t)"
      unfolding gc_alloc_parts by (rule heap_ok_upd [OF D(1) ob(1)]) (use a(1) in \<open>auto dest: fmdomI\<close>)
    show "registered ?t"
      unfolding registered_def
    proof (intro allI impI)
      fix x obx
      assume x: "x \<in> set (g_young ?t) \<union> g_old ?t" "fmlookup (g_heap ?t) x = Some obx"
      show "tracked_kind obx"
      proof (cases "x = a")
        case True
        then have "a \<in> set (g_young ?t)" using x(1) a(2) by (simp add: gc_alloc_parts(2))
        then show ?thesis using True x(2) young a(2) by (auto simp: gc_alloc_parts(1) split: if_splits)
      next
        case False
        then have "x \<in> set (g_young s) \<union> g_old s" "fmlookup (g_heap s) x = Some obx"
          using x young by (auto simp: gc_alloc_parts(1,2) split: if_splits)
        then show ?thesis using D(2) unfolding registered_def by blast
      qed
    qed
    show "insert a R \<subseteq> fset (fmdom (g_heap ?t))" using D(3) by (auto simp: gc_alloc_parts)
    fix x obx
    show "x \<in> set (g_young ?t) \<union> g_old ?t"
      if t: "reached (g_heap ?t) (insert a R) x" "fmlookup (g_heap ?t) x = Some obx" "tracked_kind obx"
    proof (cases "x = a")
      case True
      then show ?thesis using t gc_alloc_parts(7) by (simp add: gc_alloc_parts(1))
    next
      case False
      then have "reached (g_heap s) R x" "fmlookup (g_heap s) x = Some obx" using r t by (auto simp: gc_alloc_parts(1))
      then show ?thesis using D(4) [of x obx] r_dom [of x] t(3) gc_alloc_parts(8) [of x s cfg a ob]
        by (auto simp: gc_alloc_parts(2))
    qed
    show "x \<in> set (g_classes ?t)" if "fmlookup (g_heap ?t) x = Some obx" "is_class obx"
      using that D(5) [of x obx] class_untracked [of obx] by (simp add: gc_alloc_parts split: if_splits)
    show "is_class obx" if "x \<in> set (g_classes ?t)" "fmlookup (g_heap ?t) x = Some obx"
      using that D(6) [of x obx] a(2) by (simp add: gc_alloc_parts split: if_splits)
    show "set (g_young ?t) \<inter> g_old ?t = {}"
      using D(7) a(2) young unfolding gc_alloc_parts(2) by (simp split: if_splits) blast+
    show "g_old ?t \<subseteq> g_flag ?t" using D(8) a(2) unfolding gc_alloc_parts(2,4) by blast
    show "b \<notin> set (g_young ?t)" if "behind ?t b" for b
    proof -
      have "b \<notin> set (g_young s)" "b \<noteq> a" using D(9) [OF bh [OF that]] behind_dom [OF bh [OF that] D(1)] a(1) by auto
      then show ?thesis using young by (auto split: if_splits)
    qed
  qed
qed

text \<open>A store changes one object, which is remembered when it is old.\<close>

lemma upd_ok:
  assumes ok: "generations_ok s R" and a: "reached (g_heap s) R a" "fmlookup (g_heap s) a = Some old"
    and k: "tracked_kind ob = tracked_kind old" "is_class ob = is_class old" "node_kind ob = node_kind old"
      "tracked_kind ob \<or> is_class ob"
    and ob: "obj_ok (g_heap s) ob" "set (handles ob) \<subseteq> Collect (reached (g_heap s) R)"
    and t: "g_heap t = fmupd a ob (g_heap s)" "g_young t = g_young s" "g_old t = g_old s" "g_flag t = g_flag s"
      "g_classes t = g_classes s" "g_rem s \<subseteq> g_rem t" "a \<in> g_old s \<Longrightarrow> a \<in> g_rem t"
  shows "generations_ok t R"
proof -
  note D = generations_okD [OF ok]
  have r: "reached (g_heap s) R x" if "reached (g_heap t) R x" for x
  proof -
    have "reached (fmupd a ob (g_heap s)) (insert a R) x"
      using that unfolding t by (rule reached_mono) (auto intro: reached.start)
    then show ?thesis using reached_upd [OF _ ob(2)] a(1) by blast
  qed
  have bh: "behind s b" if "behind t b" for b
  proof (rule behind_mono [OF _ _ that])
    fix c d
    assume "c \<in> g_old t" "c \<notin> g_rem t" "d \<in> set (handles_at (g_heap t) c)"
    moreover from this have "c \<noteq> a" using t by auto
    ultimately show "behind s d" using t behind.held [of c s d] by (simp add: handles_at_upd subset_iff) blast
  next
    fix c obc d
    assume *: "behind s c" "fmlookup (g_heap t) c = Some obc" "\<not> tracked_kind obc" "\<not> is_class obc" "d \<in> set (handles obc)"
    then have "c \<noteq> a" using k(4) t(1) by auto
    then show "behind s d" using * t(1) behind.through [of s c obc d] by simp
  qed
  have l: "\<exists>obs. fmlookup (g_heap s) x = Some obs \<and> tracked_kind obs = tracked_kind obx \<and> is_class obs = is_class obx"
    if "fmlookup (g_heap t) x = Some obx" for x obx
    using that a(2) k unfolding t by (cases "x = a") auto
  show ?thesis
    unfolding generations_ok_def t(2-5)
  proof (intro conjI allI impI)
    show "heap_ok (g_heap t)" unfolding t by (rule heap_ok_upd [OF D(1) ob(1)]) (use a(2) k in simp)
    show "registered t" using D(2) l unfolding registered_def t(2,3) by metis
    show "R \<subseteq> fset (fmdom (g_heap t))" using D(3) by (auto simp: t(1))
    show "set (g_young s) \<inter> g_old s = {}" "g_old s \<subseteq> g_flag s" by (rule D(7), rule D(8))
    show "b \<notin> set (g_young s)" if "behind t b" for b by (rule D(9) [OF bh [OF that]])
    fix x obx
    show "x \<in> set (g_young s) \<union> g_old s" if "reached (g_heap t) R x" "fmlookup (g_heap t) x = Some obx" "tracked_kind obx"
      using D(4) [OF r [OF that(1)]] l [OF that(2)] that(3) by blast
    show "x \<in> set (g_classes s)" if "fmlookup (g_heap t) x = Some obx" "is_class obx"
      using D(5) l [OF that(1)] that(2) by blast
    show "is_class obx" if "x \<in> set (g_classes s)" "fmlookup (g_heap t) x = Some obx"
      using D(6) [OF that(1)] l [OF that(2)] by blast
  qed
qed

lemma hold_ok:
  assumes ok: "generations_ok s R" and R: "R' \<subseteq> Collect (reached (g_heap s) R)"
  shows "generations_ok s R'"
proof -
  have "reached (g_heap s) R a" if "reached (g_heap s) R' a" for a by (rule reached_mono [OF that R])
  moreover have "R' \<subseteq> fset (fmdom (g_heap s))"
    using R reached_dom [OF _ generations_okD(1,3) [OF ok]] by blast
  ultimately show ?thesis using ok unfolding generations_ok_def by blast
qed

lemma free_ok:
  assumes ok: "generations_ok s R" and a: "a \<notin> R" "\<forall>c. a \<notin> set (handles_at (g_heap s) c)"
  shows "generations_ok (drop_obj a s) R"
proof -
  let ?t = "drop_obj a s"
  note D = generations_okD [OF ok]
  have p: "g_heap ?t = fmdrop a (g_heap s)" "g_young ?t = g_young s" "g_classes ?t = g_classes s" "g_flag ?t = g_flag s"
    "g_old ?t = g_old s - {a}" "g_old s - g_rem s - {a} = g_old ?t - g_rem ?t"
    using D(8) by (auto simp: drop_obj_def Let_def)
  have h: "handles_at (g_heap ?t) c = (if c = a then [] else handles_at (g_heap s) c)" for c
    by (simp add: handles_at_def p)
  have r: "reached (g_heap s) R x \<and> x \<noteq> a" if "reached (g_heap ?t) R x" for x
    using that
  proof (induction rule: reached.induct)
    case (hop c d)
    then show ?case using a(2) reached.hop [of "g_heap s" R c d] by (auto simp: h split: if_splits)
  qed (use a(1) in \<open>auto intro: reached.start\<close>)
  have bh: "behind s b" if "behind ?t b" for b
  proof (rule behind_mono [OF _ _ that])
    fix c d
    assume "c \<in> g_old ?t" "c \<notin> g_rem ?t" "d \<in> set (handles_at (g_heap ?t) c)"
    then show "behind s d" using p(6) behind.held [of c s d] by (auto simp: h split: if_splits)
  next
    fix c obc d
    assume "behind s c" "fmlookup (g_heap ?t) c = Some obc" "\<not> tracked_kind obc" "\<not> is_class obc" "d \<in> set (handles obc)"
    then show "behind s d" using behind.through [of s c obc d] by (simp add: p(1) split: if_splits)
  qed
  have keep: "obj_ok (g_heap ?t) ob" if "fmlookup (g_heap s) c = Some ob" for c ob
  proof -
    have "a \<notin> set (node_edges ob) \<union> set (shared_handles ob)"
      using a(2) [rule_format, of c] that by (simp add: handles_at_def set_handles)
    then have "b \<noteq> a" if "b \<in> set (node_edges ob) \<union> set (shared_handles ob)" for b using that by blast
    then show ?thesis using that D(1) unfolding heap_ok_def obj_ok_def p(1) by simp
  qed
  show ?thesis
    unfolding generations_ok_def p(2,3,4,5)
  proof (intro conjI allI impI)
    show "heap_ok (g_heap ?t)"
      unfolding heap_ok_def
    proof (intro allI impI)
      fix c ob
      assume "fmlookup (g_heap ?t) c = Some ob"
      then show "obj_ok (g_heap ?t) ob" by (intro keep) (simp add: p(1) split: if_splits)
    qed
    show "registered ?t" using D(2) unfolding registered_def p(1,2,5) by (auto split: if_splits)
    show "R \<subseteq> fset (fmdom (g_heap ?t))" using D(3) a(1) by (auto simp: p(1))
    show "set (g_young s) \<inter> (g_old s - {a}) = {}" "g_old s - {a} \<subseteq> g_flag s" using D(7,8) by blast+
    show "b \<notin> set (g_young s)" if "behind ?t b" for b by (rule D(9) [OF bh [OF that]])
    fix x obx
    show "x \<in> set (g_young s) \<union> (g_old s - {a})"
      if t: "reached (g_heap ?t) R x" "fmlookup (g_heap ?t) x = Some obx" "tracked_kind obx"
      using D(4) [of x obx] r [OF t(1)] t(2,3) by (simp add: p(1))
    show "x \<in> set (g_classes s)" if "fmlookup (g_heap ?t) x = Some obx" "is_class obx"
      using D(5) [of x obx] that by (simp add: p(1) split: if_splits)
    show "is_class obx" if "x \<in> set (g_classes s)" "fmlookup (g_heap ?t) x = Some obx"
      using D(6) [OF that(1)] that(2) by (simp add: p(1) split: if_splits)
  qed
qed

lemma cycles_ok:
  assumes ok: "generations_ok s R"
  shows "generations_ok (collect_cycles cfg s counts borrowed) R"
proof -
  let ?t = "collect_cycles cfg s counts borrowed"
  note D = generations_okD [OF ok]
  have sh: "shrunk (g_heap s) (g_heap ?t)" unfolding collect_cycles_heap by (rule shrunk_clear_all)
  have kinds: "\<exists>ob0. fmlookup (g_heap s) a = Some ob0 \<and> tracked_kind ob0 = tracked_kind ob \<and> is_class ob0 = is_class ob
      \<and> set (handles ob) \<subseteq> set (handles ob0)" if "fmlookup (g_heap ?t) a = Some ob" for a ob
    using shrunkE [OF sh that] handles_clear(1) by (metis kinds_clear(1,2) order_refl)
  have bh: "behind s b" if "behind ?t b" for b
  proof (rule behind_mono [OF _ _ that])
    fix c d
    assume "c \<in> g_old ?t" "c \<notin> g_rem ?t" "d \<in> set (handles_at (g_heap ?t) c)"
    then show "behind s d"
      using behind.held [of c s d] shrunk_handles [OF sh, of c] collect_cycles_parts(3) [of s cfg counts borrowed]
      by (auto simp: collect_cycles_parts(2))
  next
    fix c obc d
    assume *: "behind s c" "fmlookup (g_heap ?t) c = Some obc" "\<not> tracked_kind obc" "\<not> is_class obc" "d \<in> set (handles obc)"
    then obtain ob0 where "fmlookup (g_heap s) c = Some ob0" "\<not> tracked_kind ob0" "\<not> is_class ob0" "d \<in> set (handles ob0)"
      using kinds [OF *(2)] by blast
    then show "behind s d" by (rule behind.through [OF *(1)])
  qed
  show ?thesis
    unfolding generations_ok_def collect_cycles_parts(2,4,5)
  proof (intro conjI allI impI)
    show "heap_ok (g_heap ?t)" by (rule shrunk_heap_ok [OF sh D(1)])
    show "registered ?t"
      unfolding registered_def
    proof (intro allI impI)
      fix a ob
      assume a: "a \<in> set (g_young ?t) \<union> g_old ?t" "fmlookup (g_heap ?t) a = Some ob"
      then have "a \<in> set (g_young s) \<union> g_old s" by (auto simp: collect_cycles_parts)
      then show "tracked_kind ob" using kinds [OF a(2)] D(2) unfolding registered_def by blast
    qed
    show "R \<subseteq> fset (fmdom (g_heap ?t))" using D(3) sh by (simp add: shrunk_def)
    show "set (g_young ?t) \<inter> g_old s = {}" using D(7) by (auto simp: collect_cycles_parts)
    show "g_old s \<subseteq> g_flag s" by (rule D(8))
    show "b \<notin> set (g_young ?t)" if "behind ?t b" for b
      using D(9) [OF bh [OF that]] by (simp add: collect_cycles_parts)
    fix x obx
    show "x \<in> set (g_young ?t) \<union> g_old s"
      if t: "reached (g_heap ?t) R x" "fmlookup (g_heap ?t) x = Some obx" "tracked_kind obx"
    proof -
      obtain ob0 where ob0: "fmlookup (g_heap s) x = Some ob0" "tracked_kind ob0" using kinds [OF t(2)] t(3) by blast
      then show ?thesis
        using D(4) [OF shrunk_reached [OF sh t(1)] ob0] by (auto simp: collect_cycles_parts alive_def intro: fmdomI)
    qed
    show "x \<in> set (g_classes s)" if "fmlookup (g_heap ?t) x = Some obx" "is_class obx"
      using D(5) kinds [OF that(1)] that(2) by blast
    show "is_class obx" if "x \<in> set (g_classes s)" "fmlookup (g_heap ?t) x = Some obx"
      using D(6) [OF that(1)] kinds [OF that(2)] by blast
  qed
qed

lemma node_kind_tracked: "tracked_kind ob \<Longrightarrow> node_kind ob" "tracked_kind ob \<Longrightarrow> \<not> is_class ob"
  "is_class ob \<Longrightarrow> \<not> node_kind ob"
  by (cases ob; simp add: node_kind_def tracked_kind_def is_class_def is_closure_def)+

lemma write_obj_parts:
  assumes "g_old s \<subseteq> g_flag s"
  shows "g_heap (write_obj a ob s) = fmupd a ob (g_heap s)" "g_young (write_obj a ob s) = g_young s"
    "g_old (write_obj a ob s) = g_old s" "g_flag (write_obj a ob s) = g_flag s" "g_classes (write_obj a ob s) = g_classes s"
    "g_rem s \<subseteq> g_rem (write_obj a ob s)" "a \<in> g_old s \<Longrightarrow> a \<in> g_rem (write_obj a ob s)"
  using assms by (auto simp: write_obj_def note_write_def Let_def)

lemma generations_ok_less: "generations_ok s R \<Longrightarrow> R' \<subseteq> R \<Longrightarrow> generations_ok s R'"
  by (rule hold_ok) (auto intro: reached.start)

lemma reached_more: "reached H R x \<Longrightarrow> reached H (R \<union> C) x"
  by (rule reached_mono) (auto intro: reached.start)

lemma gc_step_ok:
  "gc_step cfg p q \<Longrightarrow> generations_ok (fst p) (snd p \<union> live_classes (fst p)) \<Longrightarrow> generations_ok (fst q) (snd q \<union> live_classes (fst q))"
proof (induction rule: gc_step.induct)
  case (alloc a s ob R)
  let ?t = "gc_alloc cfg a ob s"
  have "set (handles ob) \<subseteq> Collect (reached (g_heap s) (R \<union> live_classes s))"
    using alloc(4) reached_more by blast
  then have "generations_ok ?t (insert a (R \<union> live_classes s))"
    using alloc by (intro alloc_ok) simp_all
  moreover have "insert a R \<union> live_classes ?t \<subseteq> insert a (R \<union> live_classes s)"
    by (auto simp: live_classes_def alive_def gc_alloc_parts split: if_splits)
  ultimately show ?case by (simp add: generations_ok_less)
next
  case (store s R a ob ob')
  let ?R = "R \<union> live_classes s"
  note r = reached_more [of "g_heap s" R _ "live_classes s"]
  have fl: "g_old s \<subseteq> g_flag s" using store.prems generations_okD(8) by simp
  have "generations_ok (write_obj a ob' s) ?R"
    by (rule upd_ok [OF _ r [OF store(1)] store(2) _ _ _ _ store(5) _ write_obj_parts [OF fl]])
      (use store r in \<open>auto simp: node_kind_tracked\<close>)
  moreover have "live_classes (write_obj a ob' s) = live_classes s"
    using store(2) by (auto simp: live_classes_def alive_def write_obj_parts [OF fl] intro: fmdomI)
  ultimately show ?case by simp
next
  case (static s R a ob ob')
  let ?R = "R \<union> live_classes s" and ?t = "s\<lparr>g_heap := fmupd a ob' (g_heap s)\<rparr>"
  note r = reached_more [of "g_heap s" R _ "live_classes s"]
  have ok: "generations_ok s ?R" using static.prems by simp
  have "a \<notin> g_old s" using generations_okD(2) [OF ok] static(2,3) class_untracked unfolding registered_def by blast
  then have "generations_ok ?t ?R"
    by (intro upd_ok [OF ok r [OF static(1)] static(2) _ _ _ _ static(5)])
      (use static r in \<open>auto simp: node_kind_tracked class_untracked\<close>)
  moreover have "live_classes ?t = live_classes s"
    using static(2) by (auto simp: live_classes_def alive_def intro: fmdomI)
  ultimately show ?case by simp
next
  case (hold R' s R)
  have "R' \<union> live_classes s \<subseteq> Collect (reached (g_heap s) (R \<union> live_classes s))"
    using hold(1) reached_more by (auto intro: reached.start)
  then show ?case using hold.prems by (simp add: hold_ok)
next
  case (free a R s)
  have "generations_ok s (R \<union> live_classes s - {a})" by (rule generations_ok_less [OF free.prems [simplified]]) auto
  then have "generations_ok (drop_obj a s) (R \<union> live_classes s - {a})" using free(2) by (intro free_ok) auto
  moreover have "R \<union> live_classes (drop_obj a s) \<subseteq> R \<union> live_classes s - {a}"
    using free(1) by (auto simp: live_classes_def alive_def drop_obj_def Let_def split: if_splits)
  ultimately show ?case by (simp add: generations_ok_less)
next
  case (trace roots R s major)
  have "generations_ok (collect_gen s roots major) (R \<union> live_classes s)"
    using trace by (intro collect_gen_ok) auto
  moreover have "live_classes (collect_gen s roots major) \<subseteq> live_classes s"
    by (auto simp: live_classes_def alive_def collect_gen_parts clear_all_def)
  ultimately show ?case by (auto intro: generations_ok_less)
next
  case (cycles s counts outside R borrowed)
  have "generations_ok (collect_cycles cfg s counts borrowed) (R \<union> live_classes s)"
    using cycles by (intro cycles_ok) auto
  moreover have "live_classes (collect_cycles cfg s counts borrowed) \<subseteq> live_classes s"
    by (auto simp: live_classes_def alive_def collect_cycles_parts collect_cycles_heap clear_all_def)
  ultimately show ?case by (auto intro: generations_ok_less)
qed

lemma gc_run_ok: "gc_run cfg p \<Longrightarrow> generations_ok (fst p) (snd p \<union> live_classes (fst p))"
proof (induction rule: gc_run.induct)
  case (first s)
  have "\<not> reached fmempty {} a" for a
  proof
    assume "reached fmempty {} a"
    then show False by (induction rule: reached.induct) (auto simp: handles_at_def)
  qed
  moreover have "b \<in> fset (fmdom fmempty)" if "behind s b" for b
    using behind_dom [OF that] first by (simp add: heap_ok_def)
  ultimately show ?case using first by (auto simp: generations_ok_def heap_ok_def registered_def live_classes_def)
qed (simp add: gc_step_ok)

inductive_cases gc_stepE: "gc_step cfg (s, R) q"
inductive_simps reached_iff: "reached H R a"

section \<open>What the collectors promise\<close>

lemma mark_reached:
  "mark s roots minor \<subseteq> Collect (reached (g_heap s) (set roots \<union> live_classes s \<union> {a. minor \<and> alive s a \<and> a \<in> g_rem s \<and> a \<in> g_old s}))"
  (is "_ \<subseteq> Collect (reached _ ?R)")
proof -
  let ?W = "filter (alive s) (g_classes s) @ roots"
  let ?D = "sorted_list_of_set {a \<in> fset (fmdom (g_heap s)). a \<in> g_rem s \<and> a \<in> g_old s}"
  have "set ?W \<subseteq> Collect (reached (g_heap s) ?R)" by (auto simp: live_classes_def intro: reached.start)
  then have m: "mark_loop s minor {} ?W \<subseteq> Collect (reached (g_heap s) ?R)" by (intro mark_loop_reached) auto
  show ?thesis
  proof (cases minor)
    case True
    then have d: "set ?D \<subseteq> Collect (reached (g_heap s) ?R)" by (auto simp: alive_def intro: reached.start)
    then have "set (concat (map (children s) ?D)) \<subseteq> Collect (reached (g_heap s) ?R)"
      by (auto simp: children_handles_at simp del: set_sorted_list_of_set intro: reached.hop)
    then have "mark_loop s minor (mark_loop s minor {} ?W \<union> set ?D) (concat (map (children s) ?D)) \<subseteq> Collect (reached (g_heap s) ?R)"
      using m d by (intro mark_loop_reached) auto
    then show ?thesis using True by (simp add: mark_def Let_def)
  qed (use m in \<open>simp add: mark_def Let_def\<close>)
qed

lemma verify_minor_empty:
  assumes ok: "generations_ok s (set roots \<union> live_classes s)"
  shows "verify_minor s roots = []"
proof -
  have "a \<in> mark s roots True" if a: "a \<in> mark s roots False" "a \<in> set (g_young s)" for a
  proof -
    have "reached (g_heap s) (set roots \<union> live_classes s) a" using a(1) mark_reached [of s roots False] by auto
    then show ?thesis using reached_marked(2) [OF ok] a(2) by blast
  qed
  then show ?thesis by (auto simp: verify_minor_def filter_empty_conv)
qed

text \<open>
  C32: in every state the program can bring the collector to, a collection, minor or major, leaves
  each object that the roots or the classes reach as it is, promotes it when it is of a generation,
  and the minor trace misses no young object: the barrier is complete.
\<close>

theorem collector_keeps_live:
  assumes "gc_run cfg (s, R)" "set roots = R" "reached (g_heap s) (R \<union> live_classes s) a"
  shows "fmlookup (g_heap (collect cfg s roots)) a = fmlookup (g_heap s) a
    \<and> (\<forall>ob. fmlookup (g_heap s) a = Some ob \<and> tracked_kind ob \<longrightarrow> a \<in> g_old (collect cfg s roots))
    \<and> verify_minor s roots = []"
proof (intro conjI allI impI)
  have ok: "generations_ok s (R \<union> live_classes s)" using gc_run_ok [OF assms(1)] by simp
  have R: "R \<union> live_classes s \<subseteq> set roots \<union> live_classes s" using assms(2) by simp
  show "fmlookup (g_heap (collect cfg s roots)) a = fmlookup (g_heap s) a"
    unfolding collect_def by (rule collect_gen_keeps [OF ok R assms(3)])
  show "a \<in> g_old (collect cfg s roots)" if "fmlookup (g_heap s) a = Some ob \<and> tracked_kind ob" for ob
    using generations_okD(4) [OF ok assms(3)] reached_marked [OF ok R assms(3)] that
    by (auto simp: collect_def collect_gen_parts alive_def intro: fmdomI)
  show "verify_minor s roots = []" using ok assms(2) by (simp add: verify_minor_empty)
qed

text \<open>
  C33: a major collection clears exactly the registered objects that neither the roots nor the
  classes reach.
\<close>

theorem major_collects_garbage:
  assumes "gc_run cfg (s, R)" "set roots = R"
  shows "fmlookup (g_heap (collect_gen s roots True)) a =
    (if alive s a \<and> a \<in> set (g_young s) \<union> g_old s \<and> \<not> reached (g_heap s) (R \<union> live_classes s) a
     then map_option clear_obj (fmlookup (g_heap s) a) else fmlookup (g_heap s) a)"
proof -
  have ok: "generations_ok s (R \<union> live_classes s)" using gc_run_ok [OF assms(1)] by simp
  have "a \<in> mark s roots False \<longleftrightarrow> reached (g_heap s) (R \<union> live_classes s) a"
    using full_reaches [of "R \<union> live_classes s" roots s a] mark_reached [of s roots False] assms(2) by auto
  then show ?thesis by (auto simp: collect_gen_parts clear_all_lookup alive_def)
qed

text \<open>
  C34: the cycle collection, which sees only reference counts and the edges it can read, clears
  exactly the nodes that nothing outside the heap, no borrow and no object outside the scan leads to.
\<close>

theorem cycle_collection_exact:
  assumes "gc_run cfg (s, R)" "counted (g_heap s) counts outside"
  shows "fmlookup (g_heap (collect_cycles cfg s counts borrowed)) a =
    (if a \<in> set (scan_nodes s borrowed) \<and> \<not> reached (g_heap s) (anchors s outside borrowed) a
     then map_option clear_obj (fmlookup (g_heap s) a) else fmlookup (g_heap s) a)"
proof -
  have ok: "generations_ok s (R \<union> live_classes s)" using gc_run_ok [OF assms(1)] by simp
  show ?thesis by (rule cycle_collection_heap [OF generations_okD(1,2) [OF ok] assms(2)])
qed

text \<open>
  The cycle scan never calls garbage what a full trace reaches.
\<close>

theorem cycle_scan_agrees_with_trace:
  assumes "gc_run cfg (s, R)" "set roots = R" "counted (g_heap s) counts outside" "\<forall>r\<in>R. 0 < outside r"
  shows "verify_cycles s counts borrowed roots = {}"
proof -
  have ok: "generations_ok s (R \<union> live_classes s)" using gc_run_ok [OF assms(1)] by simp
  have "roots_held s roots outside"
    using assms(2,4) generations_okD(3,6) [OF ok] node_kind_tracked(3) unfolding roots_held_def by blast
  then show ?thesis by (rule scan_agrees [OF generations_okD(1,2) [OF ok] assms(3)])
qed

section \<open>A run\<close>

text \<open>An object is promoted, and a young one is stored into it: only the barrier keeps the young
  one.  Then two objects hold each other and nothing else holds them.\<close>

definition demo_cfg :: gc_config where
  "demo_cfg = \<lparr>gc_every = 100, major_every = 4\<rparr>"

definition demo_start :: gc where
  "demo_start = \<lparr>g_heap = fmempty, g_flag = {}, g_young = [], g_old = {}, g_rem = {}, g_classes = [], g_since = 0,
     g_minors = 0, g_old_at_major = 0, g_prune_at = 100, g_cycle_at = 100\<rparr>"

definition demo_promoted :: gc where
  "demo_promoted = demo_start\<lparr>g_heap := fmupd 2 (Array []) fmempty, g_flag := {2}, g_old := {2}, g_minors := 1\<rparr>"

definition demo_stored :: gc where
  "demo_stored = demo_promoted\<lparr>g_heap := fmupd 2 (Array [V_Array 3]) (fmupd 3 (Array []) (fmupd 2 (Array []) fmempty)),
     g_young := [3], g_since := 1, g_rem := {2}\<rparr>"

lemma sorted_list_of_none: "(\<And>a. \<not> P a) \<Longrightarrow> sorted_list_of_set {a \<in> A. P a} = []"
  by simp

lemma demo_promote: "collect_gen (gc_alloc demo_cfg 2 (Array []) demo_start) [2] False = demo_promoted"
proof -
  let ?s = "gc_alloc demo_cfg 2 (Array []) demo_start"
  have s: "g_heap ?s = fmupd 2 (Array []) fmempty" "g_young ?s = [2]" "g_old ?s = {}" "g_rem ?s = {}" "g_flag ?s = {}"
    "g_classes ?s = []" "g_minors ?s = 0" "g_old_at_major ?s = 0" "g_prune_at ?s = 100" "g_cycle_at ?s = 100"
    by (simp_all add: gc_alloc_def register_def demo_cfg_def demo_start_def tracked_kind_def Let_def)
  have c: "children ?s 2 = []" by (simp add: children_def s traced_def)
  have m: "mark ?s [2] True = {2}"
    by (simp add: mark_def s mark_loop.simps enter_def c Let_def)
  show ?thesis
    by (simp add: collect_gen_def Let_def m s alive_def) (simp add: demo_promoted_def demo_start_def clear_all_def gc_alloc_def register_def demo_cfg_def tracked_kind_def fmap_ext)
qed

lemma demo_store: "write_obj 2 (Array [V_Array 3]) (gc_alloc demo_cfg 3 (Array []) demo_promoted) = demo_stored"
  by (simp add: write_obj_def note_write_def gc_alloc_def register_def demo_cfg_def demo_promoted_def demo_stored_def
      demo_start_def tracked_kind_def Let_def)

lemma demo_run: "gc_run demo_cfg (demo_stored, {2})"
proof -
  let ?s1 = "gc_alloc demo_cfg 2 (Array []) demo_start" and ?s3 = "gc_alloc demo_cfg 3 (Array []) demo_promoted"
  note ev = handles_def node_edges_def shared_handles_def obj_ok_def value_edge_def shared_edge_def value_handles_def
  have 0: "gc_run demo_cfg (demo_start, {})" by (rule gc_run.first) (simp_all add: demo_start_def)
  have 1: "gc_run demo_cfg (?s1, {2})"
    using gc_run.more [OF 0 gc_step.alloc [of 2 demo_start "Array []" "{}" demo_cfg]] by (simp add: demo_start_def ev)
  have 2: "gc_run demo_cfg (demo_promoted, {2})"
    using gc_run.more [OF 1 gc_step.trace [of "[2]" "{2}" demo_cfg ?s1 False]] by (simp add: demo_promote)
  have 3: "gc_run demo_cfg (?s3, {3, 2})"
    using gc_run.more [OF 2 gc_step.alloc [of 3 demo_promoted "Array []" "{2}" demo_cfg]]
    by (simp add: demo_promoted_def demo_start_def ev)
  have h: "g_heap ?s3 = fmupd 3 (Array []) (fmupd 2 (Array []) fmempty)" by (simp add: gc_alloc_parts demo_promoted_def)
  have 4: "gc_run demo_cfg (demo_stored, {3, 2})"
    unfolding demo_store [symmetric]
    by (rule gc_run.more [OF 3 gc_step.store [where ob = "Array []"]])
      (simp_all add: h ev tracked_kind_def node_kind_def reached.start)
  show ?thesis by (rule gc_run.more [OF 4 gc_step.hold]) (auto intro: reached.start)
qed

lemma demo_holds: "handles_at (g_heap demo_stored) 2 = [3]"
  by (simp add: demo_stored_def handles_at_def handles_def node_edges_def shared_handles_def value_edge_def shared_edge_def value_handles_def)

lemma demo_reached: "reached (g_heap demo_stored) ({2} \<union> live_classes demo_stored) 3"
  by (rule reached.hop [of _ _ 2]) (auto simp: demo_holds intro: reached.start)

lemma collector_keeps_live_witness:
  "fmlookup (g_heap (collect demo_cfg demo_stored [2])) 3 = Some (Array [])
    \<and> 3 \<in> g_old (collect demo_cfg demo_stored [2]) \<and> verify_minor demo_stored [2] = []"
  using collector_keeps_live [OF demo_run _ demo_reached, of "[2]"]
  by (simp add: demo_stored_def tracked_kind_def)

text \<open>With 2 let go, nothing holds it.\<close>

lemma demo_dropped: "gc_run demo_cfg (demo_stored, {})"
  by (rule gc_run.more [OF demo_run gc_step.hold]) simp

lemma nothing_reached: "live_classes s = {} \<Longrightarrow> \<not> reached H ({} \<union> live_classes s) a"
proof
  assume "live_classes s = {}" "reached H ({} \<union> live_classes s) a"
  then have "reached H {} a" by simp
  then show False by (induction rule: reached.induct) auto
qed

lemma major_collects_garbage_witness:
  "fmlookup (g_heap (collect_gen demo_stored [] True)) 2 = Some (Array [])"
  using major_collects_garbage [OF demo_dropped, of "[]" 2] nothing_reached [of demo_stored]
  by (simp add: demo_stored_def demo_promoted_def demo_start_def alive_def clear_obj_def live_classes_def)

lemma cycle_scan_agrees_with_trace_example:
  "verify_cycles demo_stored (\<lambda>x. (if x = 2 then 1 else 0) + held (g_heap demo_stored) x) {} [2] = {}"
  by (rule cycle_scan_agrees_with_trace [OF demo_run, where outside = "\<lambda>x. if x = 2 then 1 else 0"])
    (simp_all add: counted_def)

text \<open>The two hold each other: the counts are 1 and 1, and both come from inside.\<close>

definition demo_ring :: gc where
  "demo_ring = write_obj 3 (Array [V_Array 2]) demo_stored"

lemma demo_ring_run: "gc_run demo_cfg (demo_ring, {})"
proof -
  have "reached (g_heap demo_stored) {2} 3"
    by (rule reached.hop [of _ _ 2]) (auto simp: demo_holds intro: reached.start)
  then have "gc_run demo_cfg (demo_ring, {2})"
    unfolding demo_ring_def
    by (intro gc_run.more [OF demo_run gc_step.store [where ob = "Array []"]])
      (simp_all add: demo_stored_def tracked_kind_def node_kind_def obj_ok_def handles_def node_edges_def shared_handles_def
        value_edge_def shared_edge_def value_handles_def reached.start)
  then show ?thesis by (rule gc_run.more [OF _ gc_step.hold]) simp
qed

lemma cycle_collection_exact_witness:
  "fmlookup (g_heap (collect_cycles demo_cfg demo_ring (held (g_heap demo_ring)) {})) 3 = Some (Array [])"
proof -
  have h: "g_heap demo_ring = fmupd 3 (Array [V_Array 2]) (g_heap demo_stored)" "g_young demo_ring = [3]" "g_old demo_ring = {2}"
    by (simp_all add: demo_ring_def write_obj_def note_write_def demo_stored_def demo_promoted_def Let_def)
  have ok: "heap_ok (g_heap demo_ring)" using gc_run_ok [OF demo_ring_run] generations_okD(1) by simp
  have "fset (fmdom (g_heap demo_ring)) = {2, 3}" by (auto simp: h demo_stored_def)
  moreover have n: "2 \<in> set (scan_nodes demo_ring {})" "3 \<in> set (scan_nodes demo_ring {})"
    by (rule scan_nodes_spec(3) [OF ok]; simp add: h alive_def demo_stored_def)+
  ultimately have a: "anchors demo_ring (\<lambda>_. 0) {} = {}" by (auto simp: anchors_def is_pinned_def split: option.splits)
  have "\<not> reached (g_heap demo_ring) {} x" for x
  proof
    assume "reached (g_heap demo_ring) {} x"
    then show False by (induction rule: reached.induct) auto
  qed
  moreover have "counted (g_heap demo_ring) (held (g_heap demo_ring)) (\<lambda>_. 0)" by (simp add: counted_def)
  ultimately show ?thesis
    using cycle_collection_exact [OF demo_ring_run, of "held (g_heap demo_ring)" "\<lambda>_. 0" "{}" 3] n a
    by (simp add: h clear_obj_def)
qed

end
