(* ===== verification/Graph.thy ===== *)
theory Graph
  imports Token "HOL-Library.Finite_Map" "HOL-Library.Multiset"
begin

text \<open>
  The module graph (\<open>crates/mersey_front/src/graph.rs\<close>, and the loader that closes it,
  \<open>load_graph\<close> of \<open>crates/mersey_cli/src/main.rs\<close>): specifiers and how they resolve, the
  dependency-first order, the work list that reads every module once, and the split into the
  modules that run at startup and the lazy ones.
\<close>

section \<open>Pieces of \<open>std::str\<close>\<close>

definition starts_with_str :: "rstr \<Rightarrow> rstr \<Rightarrow> bool" where
  "starts_with_str s pat \<longleftrightarrow> take (length pat) s = pat"

text \<open>\<open>s.split(c)\<close>: always at least one piece.\<close>

fun split_on :: "rchar \<Rightarrow> rstr \<Rightarrow> rstr list" where
  "split_on c [] = [[]]"
| "split_on c (x # s) =
     (if x = c then [] # split_on c s
      else (case split_on c s of [] \<Rightarrow> [[x]] | p # ps \<Rightarrow> (x # p) # ps))"

text \<open>\<open>parts.join(sep)\<close>.\<close>

fun join_with :: "rstr \<Rightarrow> rstr list \<Rightarrow> rstr" where
  "join_with sep [] = []"
| "join_with sep [p] = p"
| "join_with sep (p # ps) = p @ sep @ join_with sep ps"

text \<open>\<open>split_once\<close> at the first occurrence of a text.\<close>

fun split_once_str :: "rstr \<Rightarrow> rstr \<Rightarrow> (rstr \<times> rstr) option" where
  "split_once_str pat s =
     (if starts_with_str s pat then Some ([], drop (length pat) s)
      else (case s of [] \<Rightarrow> None
            | x # s' \<Rightarrow> (case split_once_str pat s' of None \<Rightarrow> None | Some (a, b) \<Rightarrow> Some (x # a, b))))"

declare split_once_str.simps [simp del]

text \<open>\<open>rsplit_once(c)\<close>: what comes before the last occurrence.\<close>

definition before_last :: "rchar \<Rightarrow> rstr \<Rightarrow> rstr option" where
  "before_last c s =
     (if c \<in> set s then Some (rev (tl (dropWhile (\<lambda>x. x \<noteq> c) (rev s)))) else None)"

section \<open>Specifiers\<close>

definition is_relative :: "rstr \<Rightarrow> bool" where
  "is_relative spec \<longleftrightarrow> starts_with_str spec (str ''./'') \<or> starts_with_str spec (str ''../'')"

definition is_remote :: "rstr \<Rightarrow> bool" where
  "is_remote spec \<longleftrightarrow> starts_with_str spec (str ''https://'') \<or> starts_with_str spec (str ''http://'')"

definition source_modules :: "rstr list" where
  "source_modules =
     [(str ''std:result''), (str ''std:url''), (str ''std:date''), (str ''std:abort''), (str ''std:test''), (str ''std:http''),
      (str ''std:semver''), (str ''std:path''), (str ''std:base64''), (str ''std:hex''), (str ''std:uuid''), (str ''std:mime''),
      (str ''std:csv''), (str ''std:cookie''), (str ''std:jwt''), (str ''std:base32''), (str ''std:totp'')]"

definition is_source_module :: "rstr \<Rightarrow> bool" where
  "is_source_module spec \<longleftrightarrow> spec \<in> set source_modules"

definition is_module :: "rstr \<Rightarrow> bool" where
  "is_module spec \<longleftrightarrow> is_relative spec \<or> is_remote spec \<or> is_source_module spec"

text \<open>The loop of \<open>resolve\<close> over the segments of the specifier, and its state \<open>parts\<close>.\<close>

definition seg_step :: "rstr \<Rightarrow> rstr list \<Rightarrow> rstr list" where
  "seg_step seg parts =
     (if seg = (str ''.'') \<or> seg = [] then parts
      else if seg = (str ''..'') then butlast parts
      else parts @ [seg])"

definition directory_of :: "rstr \<Rightarrow> rstr" where
  "directory_of referrer = (case before_last (ch CHR ''/'') referrer of Some d \<Rightarrow> d | None \<Rightarrow> [])"

definition dir_parts :: "rstr \<Rightarrow> rstr list" where
  "dir_parts dir = filter (\<lambda>p. p \<noteq> []) (split_on (ch CHR ''/'') dir)"

definition resolve_parts :: "rstr \<Rightarrow> rstr \<Rightarrow> rstr list" where
  "resolve_parts referrer spec = fold seg_step (split_on (ch CHR ''/'') spec) (dir_parts (directory_of referrer))"

definition resolve :: "rstr \<Rightarrow> rstr \<Rightarrow> rstr" where
  "resolve referrer spec =
     (let joined = join_with (str ''/'') (resolve_parts referrer spec)
      in if starts_with_str (directory_of referrer) (str ''/'') then (str ''/'') @ joined else joined)"

definition resolve_url :: "rstr \<Rightarrow> rstr \<Rightarrow> rstr" where
  "resolve_url referrer spec =
     (case split_once_str (str ''://'') referrer of
        None \<Rightarrow> spec
      | Some (scheme, rest) \<Rightarrow>
          (let (host, path) = (case split_once_str (str ''/'') rest of Some hp \<Rightarrow> hp | None \<Rightarrow> (rest, []))
           in scheme @ (str ''://'') @ host @ (str ''/'') @ resolve path spec))"

definition resolve_module :: "rstr \<Rightarrow> rstr \<Rightarrow> rstr" where
  "resolve_module referrer spec =
     (if is_source_module spec \<or> is_remote spec then spec
      else if is_remote referrer \<and> is_relative spec then resolve_url referrer spec
      else resolve referrer spec)"

section \<open>The order\<close>

type_synonym deps = "(rstr, rstr list) fmap"

text \<open>\<open>deps.get(spec)\<close>, no dependencies when absent.\<close>

definition deps_of :: "deps \<Rightarrow> rstr \<Rightarrow> rstr list" where
  "deps_of deps spec = (case fmlookup deps spec of Some ds \<Rightarrow> ds | None \<Rightarrow> [])"

definition cycle_error :: "rstr list \<Rightarrow> diagnostic" where
  "cycle_error path =
     diagnostic_error UnexpectedToken ((str ''import cycle: '') @ join_with (str '' '' @ [0x2192] @ str '' '') path)
       \<lparr>p_line = 1, p_col = 1\<rparr>"

definition unvisited :: "deps \<Rightarrow> rstr list \<Rightarrow> nat" where
  "unvisited deps path = card (fset (fmdom deps) - set path)"

lemma unvisited_push:
  assumes "spec \<notin> set path" "deps_of deps spec \<noteq> []"
  shows "unvisited deps (path @ [spec]) < unvisited deps path"
proof -
  have "spec \<in> fset (fmdom deps) - set path" using assms by (auto simp: deps_of_def fmlookup_dom_iff split: option.splits)
  then have "fset (fmdom deps) - set (path @ [spec]) \<subset> fset (fmdom deps) - set path" by auto
  then show ?thesis unfolding unvisited_def by (rule psubset_card_mono [rotated]) simp
qed

lemma unvisited_push_le: "unvisited deps (path @ [spec]) \<le> unvisited deps path"
  unfolding unvisited_def by (rule card_mono) auto

text \<open>\<open>visit\<close> and its loop over the dependencies; the state is \<open>out\<close> and \<open>done\<close>, and \<open>path\<close>,
  pushed before the loop and popped after it, is an argument.\<close>

function visit :: "deps \<Rightarrow> rstr \<Rightarrow> rstr list \<Rightarrow> rstr list \<times> rstr set \<Rightarrow> diagnostic + (rstr list \<times> rstr set)"
and visit_all :: "deps \<Rightarrow> rstr list \<Rightarrow> rstr list \<Rightarrow> rstr list \<times> rstr set \<Rightarrow> diagnostic + (rstr list \<times> rstr set)" where
  "visit deps spec path (out, dn) =
     (if spec \<in> dn then Inr (out, dn)
      else if spec \<in> set path then Inl (cycle_error (path @ [spec]))
      else (case visit_all deps (deps_of deps spec) (path @ [spec]) (out, dn) of
              Inl e \<Rightarrow> Inl e
            | Inr (out', dn') \<Rightarrow> Inr (out' @ [spec], insert spec dn')))"
| "visit_all deps [] path st = Inr st"
| "visit_all deps (d # ds) path st =
     (case visit deps d path st of Inl e \<Rightarrow> Inl e | Inr st' \<Rightarrow> visit_all deps ds path st')"
  by pat_completeness auto

termination
proof (relation "measures [\<lambda>x. case x of Inl (deps, _, path, _) \<Rightarrow> unvisited deps path | Inr (deps, _, path, _) \<Rightarrow> unvisited deps path,
      \<lambda>x. case x of Inl _ \<Rightarrow> 1 | Inr (_, ds, _, _) \<Rightarrow> 2 * length ds]", goal_cases)
  case (2 deps spec path out dn)
  then show ?case using unvisited_push [of spec path deps] unvisited_push_le [of deps path spec]
    by (cases "deps_of deps spec = []") (auto simp: le_less)
qed auto

declare visit.simps [simp del]

definition topo_order :: "rstr \<Rightarrow> deps \<Rightarrow> diagnostic + rstr list" where
  "topo_order entry deps = map_sum id fst (visit deps entry [] ([], {}))"

section \<open>The loader\<close>

text \<open>Reading, decoding and parsing a file is an argument: what it found of the imports, or
  that the file is missing (an I/O or encoding error); \<open>parsed_ok\<close> is false when the parser
  had diagnostics.\<close>

record source_module =
  parsed_ok :: bool
  static_imports :: "rstr list"
  dynamic_imports :: "rstr list"

datatype load_error = Unreadable rstr | Parse_Failed | Import_Cycle diagnostic

record module_graph =
  g_all :: "rstr list"
  g_eager :: "rstr list"

definition edges :: "rstr \<Rightarrow> rstr list \<Rightarrow> rstr list" where
  "edges spec imports = map (resolve_module spec) (filter is_module imports)"

partial_function (option) load_loop ::
  "(rstr \<Rightarrow> source_module option) \<Rightarrow> rstr list \<Rightarrow> deps \<Rightarrow> deps \<Rightarrow> bool \<Rightarrow> (load_error + deps \<times> deps \<times> bool) option" where
  "load_loop rd queue deps dyns failed =
     (case queue of
        [] \<Rightarrow> Some (Inr (deps, dyns, failed))
      | spec # rest \<Rightarrow>
          if spec |\<in>| fmdom deps then load_loop rd rest deps dyns failed
          else (case rd spec of
                  None \<Rightarrow> Some (Inl (Unreadable spec))
                | Some m \<Rightarrow>
                    (let es = edges spec (static_imports m);
                         ds = edges spec (dynamic_imports m)
                     in load_loop rd (rev (es @ ds) @ rest) (fmupd spec es deps) (fmupd spec ds dyns)
                          (failed \<or> \<not> parsed_ok m))))"

text \<open>\<open>all_deps\<close>: the static and the dynamic edges.\<close>

definition merge_deps :: "deps \<Rightarrow> deps \<Rightarrow> deps" where
  "merge_deps deps dyns = fmmap_keys (\<lambda>spec es. es @ deps_of dyns spec) deps"

definition slashes :: "rstr \<Rightarrow> rstr" where
  "slashes entry = map (\<lambda>c. if c = 0x5C then (ch CHR ''/'') else c) entry"

definition load_graph :: "(rstr \<Rightarrow> source_module option) \<Rightarrow> rstr \<Rightarrow> (load_error + module_graph) option" where
  "load_graph rd entry0 =
     (let entry = slashes entry0 in
      map_option (\<lambda>r. case r of
         Inl e \<Rightarrow> Inl e
       | Inr (deps, dyns, failed) \<Rightarrow>
           if failed then Inl Parse_Failed
           else (case topo_order entry (merge_deps deps dyns) of
                   Inl d \<Rightarrow> Inl (Import_Cycle d)
                 | Inr check_order \<Rightarrow>
                     (case topo_order entry deps of
                        Inl d \<Rightarrow> Inl (Import_Cycle d)
                      | Inr exec_order \<Rightarrow> Inr \<lparr>g_all = check_order, g_eager = exec_order\<rparr>)))
       (load_loop rd [entry] fmempty fmempty False))"

definition graph_split :: "module_graph \<Rightarrow> rstr list \<times> rstr list" where
  "graph_split g =
     (List.map_filter (\<lambda>s. List.find (\<lambda>t. t = s) (g_all g)) (g_eager g),
      filter (\<lambda>s. s \<notin> set (g_eager g)) (g_all g))"

section \<open>What the order guarantees\<close>

definition edge :: "deps \<Rightarrow> (rstr \<times> rstr) set" where
  "edge deps = {(a, b). b \<in> set (deps_of deps a)}"

text \<open>Every module comes after the ones it depends on.\<close>

definition deps_first :: "deps \<Rightarrow> rstr list \<Rightarrow> bool" where
  "deps_first deps out \<longleftrightarrow> list_all (\<lambda>i. set (deps_of deps (out ! i)) \<subseteq> set (take i out)) [0..<length out]"

lemma deps_first_Nil [simp]: "deps_first deps []"
  by (simp add: deps_first_def)

lemma deps_first_snoc: "deps_first deps (out @ [x]) \<longleftrightarrow> deps_first deps out \<and> set (deps_of deps x) \<subseteq> set out"
  by (auto simp: deps_first_def list_all_iff nth_append)

text \<open>A path of the graph.\<close>

fun chain :: "deps \<Rightarrow> rstr list \<Rightarrow> bool" where
  "chain deps (a # b # p) \<longleftrightarrow> b \<in> set (deps_of deps a) \<and> chain deps (b # p)"
| "chain deps _ \<longleftrightarrow> True"

lemma chain_snoc: "chain deps (p @ [a, b]) \<longleftrightarrow> chain deps (p @ [a]) \<and> b \<in> set (deps_of deps a)"
  by (induction deps p rule: chain.induct) auto

text \<open>The lists of a state: what is out, is out once and in order, and is not being visited.\<close>

definition sorted_state :: "deps \<Rightarrow> rstr list \<Rightarrow> rstr list \<times> rstr set \<Rightarrow> bool" where
  "sorted_state deps path st \<longleftrightarrow>
     snd st = set (fst st) \<and> distinct (fst st) \<and> deps_first deps (fst st) \<and> set path \<inter> set (fst st) = {}"

text \<open>What a visit adds: modules that can be reached from where it starts, and not on the path.\<close>

definition extends :: "deps \<Rightarrow> rstr set \<Rightarrow> rstr list \<Rightarrow> rstr list \<times> rstr set \<Rightarrow> rstr list \<times> rstr set \<Rightarrow> bool" where
  "extends deps roots path st st' \<longleftrightarrow>
     (\<exists>new. fst st' = fst st @ new \<and> set new \<inter> set path = {} \<and> set new \<subseteq> (edge deps)\<^sup>* `` roots)
     \<and> sorted_state deps path st' \<and> roots \<subseteq> set (fst st')"

lemma extends_trans:
  assumes "extends deps R path st st'" "extends deps S path st' st''"
  shows "extends deps (R \<union> S) path st st''"
proof -
  from assms obtain n m where "fst st' = fst st @ n" "fst st'' = fst st' @ m"
    "set n \<inter> set path = {}" "set m \<inter> set path = {}"
    "set n \<subseteq> (edge deps)\<^sup>* `` R" "set m \<subseteq> (edge deps)\<^sup>* `` S" "R \<subseteq> set (fst st')" "S \<subseteq> set (fst st'')"
    "sorted_state deps path st''"
    unfolding extends_def by auto
  then show ?thesis unfolding extends_def by (intro conjI exI [of _ "n @ m"]) auto
qed

lemma visit_extends:
  "visit deps spec path st = Inr st' \<Longrightarrow> sorted_state deps path st \<Longrightarrow>
     extends deps {spec} path st st' \<and> (spec \<notin> snd st \<longrightarrow> last (fst st') = spec)"
  "visit_all deps ds path st = Inr st' \<Longrightarrow> sorted_state deps path st \<Longrightarrow> extends deps (set ds) path st st'"
proof (induction deps spec path st and deps ds path st arbitrary: st' and st' rule: visit_visit_all.induct)
  case (1 deps spec path out dn)
  have dn: "dn = set out" and o: "distinct out" "deps_first deps out" "set path \<inter> set out = {}"
    using "1.prems"(2) by (auto simp: sorted_state_def)
  show ?case
  proof (cases "spec \<in> dn")
    case True
    then have "st' = (out, dn)" using "1.prems"(1) by (simp add: visit.simps)
    then show ?thesis using True "1.prems"(2) dn by (auto simp: extends_def)
  next
    case new: False
    then have path: "spec \<notin> set path" using "1.prems"(1) by (auto simp: visit.simps split: if_splits)
    then obtain out' dn' where v: "visit_all deps (deps_of deps spec) (path @ [spec]) (out, dn) = Inr (out', dn')"
      and st': "st' = (out' @ [spec], insert spec dn')"
      using "1.prems"(1) new by (auto simp: visit.simps split: sum.splits prod.splits)
    have "sorted_state deps (path @ [spec]) (out, dn)" using dn o new by (auto simp: sorted_state_def)
    from "1.IH" [OF new path v this] obtain n where n: "out' = out @ n" "set n \<inter> set (path @ [spec]) = {}"
      "set n \<subseteq> (edge deps)\<^sup>* `` set (deps_of deps spec)"
      and s: "sorted_state deps (path @ [spec]) (out', dn')" "set (deps_of deps spec) \<subseteq> set out'"
      by (auto simp: extends_def)
    have "set n \<subseteq> (edge deps)\<^sup>* `` {spec}"
      using n(3) by (fastforce simp: edge_def intro: converse_rtrancl_into_rtrancl)
    moreover have "deps_first deps (out' @ [spec])" using s by (simp add: deps_first_snoc sorted_state_def)
    ultimately show ?thesis using n s path o unfolding extends_def st' sorted_state_def
      by (auto intro!: exI [of _ "n @ [spec]"])
  qed
next
  case (2 deps path st)
  then show ?case by (auto simp: visit.simps extends_def)
next
  case (3 deps d ds path st)
  then obtain st1 where v: "visit deps d path st = Inr st1" "visit_all deps ds path st1 = Inr st'"
    by (auto simp: visit.simps split: sum.splits)
  then have 1: "extends deps {d} path st st1" using "3.IH"(1) "3.prems"(2) by blast
  then have "extends deps (set ds) path st1 st'" using "3.IH"(2) v unfolding extends_def by blast
  from extends_trans [OF 1 this] show ?case by simp
qed

text \<open>An error names a path of the graph that comes back to a module on it.\<close>

lemma visit_cycle:
  "visit deps spec path st = Inl e \<Longrightarrow> chain deps (path @ [spec]) \<Longrightarrow>
     \<exists>p x. e = cycle_error (path @ p @ [x]) \<and> chain deps (path @ p @ [x]) \<and> x \<in> set (path @ p) \<and> hd (path @ [spec]) = hd (path @ p @ [x])"
  "visit_all deps ds path st = Inl e \<Longrightarrow> chain deps path \<Longrightarrow> path \<noteq> [] \<Longrightarrow> set ds \<subseteq> set (deps_of deps (last path)) \<Longrightarrow>
     \<exists>p x. e = cycle_error (path @ p @ [x]) \<and> chain deps (path @ p @ [x]) \<and> x \<in> set (path @ p)"
proof (induction deps spec path st and deps ds path st rule: visit_visit_all.induct)
  case (1 deps spec path out dn)
  have new: "spec \<notin> dn" using "1.prems"(1) by (auto simp: visit.simps split: if_splits)
  show ?case
  proof (cases "spec \<in> set path")
    case True
    then show ?thesis using "1.prems" new by (intro exI [of _ "[]"] exI [of _ spec]) (auto simp: visit.simps split: if_splits)
  next
    case path: False
    then have v: "visit_all deps (deps_of deps spec) (path @ [spec]) (out, dn) = Inl e"
      using "1.prems"(1) new by (auto simp: visit.simps split: sum.splits prod.splits)
    from "1.IH" [OF new path v "1.prems"(2)] obtain p x where
      "e = cycle_error ((path @ [spec]) @ p @ [x])" "chain deps ((path @ [spec]) @ p @ [x])" "x \<in> set ((path @ [spec]) @ p)"
      by auto
    then show ?thesis by (intro exI [of _ "spec # p"] exI [of _ x]) (auto simp: hd_append)
  qed
next
  case (2 deps path st)
  then show ?case by (simp add: visit.simps)
next
  case (3 deps d ds path st)
  obtain q a where path: "path = q @ [a]" using "3.prems"(3) by (cases path rule: rev_cases) auto
  then have c: "chain deps (path @ [d])" using "3.prems"(2,4) by (simp add: chain_snoc)
  show ?case
  proof (cases "visit deps d path st")
    case (Inl e')
    then have "e' = e" using "3.prems"(1) by (simp add: visit.simps)
    then show ?thesis using "3.IH"(1) Inl c by blast
  next
    case (Inr st1)
    then show ?thesis using "3.IH"(2) [OF Inr] "3.prems" by (auto simp: visit.simps)
  qed
qed

lemma deps_first_nth: "deps_first deps out \<Longrightarrow> i < length out \<Longrightarrow> (out ! i, b) \<in> edge deps \<Longrightarrow> b \<in> set (take i out)"
  by (auto simp: deps_first_def list_all_iff edge_def)

lemma deps_first_down:
  assumes "deps_first deps out" "i < length out" "(out ! i, b) \<in> edge deps"
  shows "\<exists>j<i. out ! j = b"
proof -
  obtain j where "j < length (take i out)" "take i out ! j = b"
    using deps_first_nth [OF assms] unfolding in_set_conv_nth by blast
  then show ?thesis by (intro exI [of _ j]) simp
qed

lemma deps_first_closed:
  assumes "deps_first deps out" "(a, b) \<in> (edge deps)\<^sup>*" "a \<in> set out"
  shows "b \<in> set out"
  using assms(2,3)
proof (induction rule: rtrancl_induct)
  case (step y z)
  then obtain i where "i < length out" "out ! i = y" by (auto simp: in_set_conv_nth)
  then show ?case using deps_first_nth [OF assms(1), of i z] step(2) by (auto dest: in_set_takeD)
qed

text \<open>Along the edges the places in the list go down.\<close>

lemma deps_first_acyclic:
  assumes "deps_first deps out" "distinct out" "a \<in> set out"
  shows "(a, a) \<notin> (edge deps)\<^sup>+"
proof
  assume c: "(a, a) \<in> (edge deps)\<^sup>+"
  have down: "\<exists>j<i. out ! j = b" if "(out ! i, b) \<in> (edge deps)\<^sup>+" "i < length out" for i b
    using that
  proof (induction rule: trancl_induct)
    case (base y)
    then show ?case using deps_first_down [OF assms(1)] by blast
  next
    case (step y z)
    then obtain j where "j < i" "out ! j = y" by auto
    then show ?case using deps_first_down [OF assms(1), of j z] step(2) \<open>i < length out\<close>
      by (metis less_trans)
  qed
  obtain i where "i < length out" "out ! i = a" using assms(3) by (auto simp: in_set_conv_nth)
  then show False using down [of i a] c assms(2) by (auto simp: nth_eq_iff_index_eq)
qed

lemma chain_reaches: "chain deps p \<Longrightarrow> x \<in> set p \<Longrightarrow> (hd p, x) \<in> (edge deps)\<^sup>*"
proof (induction deps p rule: chain.induct)
  case (1 deps a b p)
  then show ?case by (auto simp: edge_def intro: converse_rtrancl_into_rtrancl)
qed auto

lemma chain_append: "chain deps (p @ q) \<Longrightarrow> chain deps q"
  by (induction p) (auto elim: chain.elims)

lemma chain_cycle:
  assumes "chain deps (p @ [x])" "x \<in> set p"
  shows "(x, x) \<in> (edge deps)\<^sup>+" "(hd p, x) \<in> (edge deps)\<^sup>*"
proof -
  obtain q r where p: "p = q @ x # r" using assms(2) by (auto simp: in_set_conv_decomp)
  then have c: "chain deps (x # r @ [x])" using assms(1) chain_append [of deps q] by simp
  then have "(x, hd (r @ [x])) \<in> edge deps" "chain deps (r @ [x])" by (cases r; auto simp: edge_def)+
  then show "(x, x) \<in> (edge deps)\<^sup>+" using chain_reaches [of deps "r @ [x]" x] by auto
  show "(hd p, x) \<in> (edge deps)\<^sup>*" using chain_reaches [OF assms(1), of x] assms(2) by (cases p) auto
qed

lemma topo_order_cycle:
  assumes "topo_order entry deps = Inl d"
  shows "\<exists>p x. d = cycle_error (p @ [x]) \<and> chain deps (p @ [x]) \<and> x \<in> set p \<and> hd p = entry"
proof -
  have "visit deps entry [] ([], {}) = Inl d"
    using assms by (auto simp: topo_order_def map_sum_def split: sum.splits)
  from visit_cycle(1) [OF this] obtain p x where "d = cycle_error (p @ [x])" "chain deps (p @ [x])" "x \<in> set p" "entry = hd (p @ [x])"
    by auto
  then show ?thesis by (intro exI [of _ p] exI [of _ x]) (cases p; auto)
qed

lemma topo_order_ok:
  assumes "topo_order entry deps = Inr out"
  shows "distinct out" "set out = (edge deps)\<^sup>* `` {entry}" "deps_first deps out" "out \<noteq> []" "last out = entry"
proof -
  obtain dn where v: "visit deps entry [] ([], {}) = Inr (out, dn)"
    using assms by (auto simp: topo_order_def map_sum_def split: sum.splits)
  have "extends deps {entry} [] ([], {}) (out, dn)" and "last out = entry"
    using visit_extends(1) [OF v] by (auto simp: sorted_state_def)
  then show "distinct out" and f: "deps_first deps out" and "last out = entry" and "out \<noteq> []"
    and "set out = (edge deps)\<^sup>* `` {entry}"
    by (auto simp: extends_def sorted_state_def intro: deps_first_closed)
qed


lemma topo_order_decides:
  "(\<exists>out. topo_order entry deps = Inr out) \<longleftrightarrow> \<not> (\<exists>x. (entry, x) \<in> (edge deps)\<^sup>* \<and> (x, x) \<in> (edge deps)\<^sup>+)"
proof (cases "topo_order entry deps")
  case (Inr out)
  then show ?thesis using deps_first_acyclic [of deps out] topo_order_ok [OF Inr] by auto
next
  case (Inl d)
  from topo_order_cycle [OF Inl] obtain p x where "chain deps (p @ [x])" "x \<in> set p" "hd p = entry"
    by blast
  then have "(x, x) \<in> (edge deps)\<^sup>+" "(entry, x) \<in> (edge deps)\<^sup>*" using chain_cycle by blast+
  then show ?thesis using Inl by auto
qed

text \<open>
  C29: \<open>topo_order\<close> answers an order exactly when no cycle of imports can be reached from the
  entry.  The order holds the modules that can be reached, each once, every module after all
  the modules it depends on, the entry last; otherwise the error names a path of imports that
  starts at the entry and comes back to a module on it.
\<close>

theorem topo_order_correct:
  "case topo_order entry deps of
     Inr out \<Rightarrow> distinct out \<and> set out = (edge deps)\<^sup>* `` {entry} \<and> deps_first deps out \<and> out \<noteq> [] \<and> last out = entry
       \<and> \<not> (\<exists>x. (entry, x) \<in> (edge deps)\<^sup>* \<and> (x, x) \<in> (edge deps)\<^sup>+)
   | Inl d \<Rightarrow> (\<exists>p x. d = cycle_error (p @ [x]) \<and> chain deps (p @ [x]) \<and> x \<in> set p \<and> hd p = entry)
       \<and> (\<exists>x. (entry, x) \<in> (edge deps)\<^sup>* \<and> (x, x) \<in> (edge deps)\<^sup>+)"
proof (cases "topo_order entry deps")
  case (Inl d)
  then show ?thesis using topo_order_cycle [OF Inl] topo_order_decides [of entry deps] by simp
next
  case (Inr out)
  then show ?thesis using topo_order_ok [OF Inr] topo_order_decides [of entry deps] by simp
qed

section \<open>What the loader guarantees\<close>

text \<open>The imports of the modules that can be read, static and of both kinds.\<close>

definition static_edge :: "(rstr \<Rightarrow> source_module option) \<Rightarrow> (rstr \<times> rstr) set" where
  "static_edge rd = {(a, b). \<exists>m. rd a = Some m \<and> b \<in> set (edges a (static_imports m))}"

definition import_edge :: "(rstr \<Rightarrow> source_module option) \<Rightarrow> (rstr \<times> rstr) set" where
  "import_edge rd = {(a, b). \<exists>m. rd a = Some m \<and> b \<in> set (edges a (static_imports m) @ edges a (dynamic_imports m))}"

definition in_graph :: "(rstr \<Rightarrow> source_module option) \<Rightarrow> rstr \<Rightarrow> rstr set" where
  "in_graph rd entry = (import_edge rd)\<^sup>* `` {entry}"

text \<open>The invariant of the work list.\<close>

definition recorded :: "(rstr \<Rightarrow> source_module option) \<Rightarrow> deps \<Rightarrow> deps \<Rightarrow> rstr set \<Rightarrow> rstr \<Rightarrow> bool" where
  "recorded rd deps dyns pending s \<longleftrightarrow>
     (\<exists>m. rd s = Some m \<and> fmlookup deps s = Some (edges s (static_imports m)) \<and> fmlookup dyns s = Some (edges s (dynamic_imports m))
        \<and> set (edges s (static_imports m) @ edges s (dynamic_imports m)) \<subseteq> fset (fmdom deps) \<union> pending)"

definition loading :: "(rstr \<Rightarrow> source_module option) \<Rightarrow> rstr \<Rightarrow> rstr list \<Rightarrow> deps \<Rightarrow> deps \<Rightarrow> bool \<Rightarrow> bool" where
  "loading rd entry queue deps dyns failed \<longleftrightarrow>
     (\<forall>s\<in>fset (fmdom deps). recorded rd deps dyns (set queue) s)
     \<and> entry \<in> fset (fmdom deps) \<union> set queue
     \<and> fset (fmdom deps) \<union> set queue \<subseteq> in_graph rd entry
     \<and> (failed \<longleftrightarrow> (\<exists>s\<in>fset (fmdom deps). \<exists>m. rd s = Some m \<and> \<not> parsed_ok m))"

lemma loading_start: "loading rd entry [entry] fmempty fmempty False"
  by (simp add: loading_def in_graph_def)

lemma recorded_mono: "recorded rd deps dyns A s \<Longrightarrow> A \<subseteq> B \<Longrightarrow> recorded rd deps dyns B s"
  unfolding recorded_def by blast

lemma loading_skip:
  assumes "loading rd entry (spec # rest) deps dyns failed" "spec |\<in>| fmdom deps"
  shows "loading rd entry rest deps dyns failed"
proof -
  have "recorded rd deps dyns (set rest) s" if "recorded rd deps dyns (set (spec # rest)) s" for s
    using that assms(2) unfolding recorded_def by auto
  then show ?thesis using assms unfolding loading_def by auto
qed

lemma loading_read:
  assumes l: "loading rd entry (spec # rest) deps dyns failed" and new: "spec |\<notin>| fmdom deps" and m: "rd spec = Some m"
  defines "es \<equiv> edges spec (static_imports m)" and "ds \<equiv> edges spec (dynamic_imports m)"
  shows "loading rd entry (rev (es @ ds) @ rest) (fmupd spec es deps) (fmupd spec ds dyns) (failed \<or> \<not> parsed_ok m)"
proof -
  have in_g: "spec \<in> in_graph rd entry" using l by (auto simp: loading_def)
  have "set (es @ ds) \<subseteq> import_edge rd `` {spec}" using m by (auto simp: import_edge_def es_def ds_def)
  then have "set (es @ ds) \<subseteq> in_graph rd entry" using in_g unfolding in_graph_def by (auto intro: rtrancl_into_rtrancl)
  moreover have "recorded rd (fmupd spec es deps) (fmupd spec ds dyns) (set (rev (es @ ds) @ rest)) s"
    if "s \<in> fset (fmdom (fmupd spec es deps))" for s
  proof (cases "s = spec")
    case True
    then show ?thesis using m by (auto simp: recorded_def es_def ds_def)
  next
    case False
    then have "recorded rd deps dyns (set (spec # rest)) s" using l that by (auto simp: loading_def)
    then show ?thesis using False unfolding recorded_def by auto
  qed
  ultimately show ?thesis using l m new unfolding loading_def by auto
qed

definition load_outcome :: "(rstr \<Rightarrow> source_module option) \<Rightarrow> rstr \<Rightarrow> load_error + deps \<times> deps \<times> bool \<Rightarrow> bool" where
  "load_outcome rd entry r \<longleftrightarrow>
     (case r of Inr (deps, dyns, failed) \<Rightarrow> loading rd entry [] deps dyns failed
      | Inl e \<Rightarrow> \<exists>s\<in>in_graph rd entry. e = Unreadable s \<and> rd s = None)"

lemma load_loop_loaded:
  assumes "load_loop rd queue deps dyns failed = Some r" "loading rd entry queue deps dyns failed"
  shows "load_outcome rd entry r"
proof -
  have "loading rd entry queue deps dyns failed \<longrightarrow> load_outcome rd entry r"
  proof (rule load_loop.raw_induct [where P = "\<lambda>rd queue deps dyns failed r. loading rd entry queue deps dyns failed \<longrightarrow> load_outcome rd entry r",
        OF _ assms(1)], intro impI)
    fix f rd queue deps dyns failed r
    assume IH: "\<And>rd queue deps dyns failed r. f rd queue deps dyns failed = Some r \<Longrightarrow>
        loading rd entry queue deps dyns failed \<longrightarrow> load_outcome rd entry r"
      and r: "(case queue of
        [] \<Rightarrow> Some (Inr (deps, dyns, failed))
      | spec # rest \<Rightarrow>
          if spec |\<in>| fmdom deps then f rd rest deps dyns failed
          else (case rd spec of
                  None \<Rightarrow> Some (Inl (Unreadable spec))
                | Some m \<Rightarrow>
                    (let es = edges spec (static_imports m);
                         ds = edges spec (dynamic_imports m)
                     in f rd (rev (es @ ds) @ rest) (fmupd spec es deps) (fmupd spec ds dyns)
                          (failed \<or> \<not> parsed_ok m)))) = Some r"
      and l: "loading rd entry queue deps dyns failed"
    show "load_outcome rd entry r"
    proof (cases queue)
      case Nil
      then show ?thesis using r l by (auto simp: load_outcome_def)
    next
      case (Cons spec rest)
      consider "spec |\<in>| fmdom deps" | "spec |\<notin>| fmdom deps" "rd spec = None" | m where "spec |\<notin>| fmdom deps" "rd spec = Some m" by blast
      then show ?thesis
      proof cases
        case 1
        then show ?thesis using IH [of rd rest deps dyns failed r] r loading_skip [OF l [unfolded Cons] 1] Cons by simp
      next
        case 2
        then show ?thesis using r l Cons by (auto simp: load_outcome_def loading_def)
      next
        case (3 m)
        from loading_read [OF l [unfolded Cons] 3] show ?thesis
          by (rule IH [THEN mp, rotated]) (use r Cons 3 in \<open>simp add: Let_def\<close>)
      qed
    qed
  qed
  then show ?thesis using assms(2) by blast
qed

text \<open>It returns when only finitely many modules can be reached.\<close>

lemma load_loop_returns:
  assumes fin: "finite (in_graph rd entry)"
  shows "loading rd entry queue deps dyns failed \<Longrightarrow> \<exists>r. load_loop rd queue deps dyns failed = Some r"
proof (induction "(card (in_graph rd entry - fset (fmdom deps)), length queue)" arbitrary: queue deps dyns failed
    rule: wf_induct_rule [OF wf_lex_prod [OF wf_less_than wf_less_than]])
  case 1
  show ?case
  proof (cases queue)
    case Nil
    then show ?thesis by (simp add: load_loop.simps)
  next
    case (Cons spec rest)
    show ?thesis
    proof (cases "spec |\<in>| fmdom deps")
      case True
      then show ?thesis using "1.hyps" [OF _ loading_skip [OF "1.prems" [unfolded Cons] True]] Cons
        by (simp add: load_loop.simps)
    next
      case new: False
      show ?thesis
      proof (cases "rd spec")
        case None
        then show ?thesis using Cons new by (simp add: load_loop.simps)
      next
        case (Some m)
        have "spec \<in> in_graph rd entry" using "1.prems" Cons by (auto simp: loading_def)
        then have "card (in_graph rd entry - fset (fmdom (fmupd spec es deps))) < card (in_graph rd entry - fset (fmdom deps))" for es
          using new fin by (intro psubset_card_mono) auto
        then show ?thesis using "1.hyps" [OF _ loading_read [OF "1.prems" [unfolded Cons] new Some]] Cons new Some
          by (subst load_loop.simps) (simp add: Let_def)
      qed
    qed
  qed
qed

lemma closed_image:
  assumes "R `` S \<subseteq> S" "a \<in> S"
  shows "R\<^sup>* `` {a} \<subseteq> S"
proof
  fix b
  assume "b \<in> R\<^sup>* `` {a}"
  then have "(a, b) \<in> R\<^sup>*" by simp
  then show "b \<in> S" using assms by (induction rule: rtrancl_induct) auto
qed

lemma agree_rtrancl:
  assumes "R `` S \<subseteq> S" "\<And>x. x \<in> S \<Longrightarrow> R `` {x} \<subseteq> Q `` {x}" "a \<in> S" "(a, b) \<in> R\<^sup>*"
  shows "(a, b) \<in> Q\<^sup>* \<and> b \<in> S"
  using assms(4,1-3) by (induction rule: rtrancl_induct) (auto intro: rtrancl_into_rtrancl)

lemma agree_trancl:
  assumes "R `` S \<subseteq> S" "\<And>x. x \<in> S \<Longrightarrow> R `` {x} \<subseteq> Q `` {x}" "a \<in> S" "(a, b) \<in> R\<^sup>+"
  shows "(a, b) \<in> Q\<^sup>+"
proof -
  obtain c where "(a, c) \<in> R\<^sup>*" "(c, b) \<in> R" using assms(4) by (metis tranclD2)
  then show ?thesis using agree_rtrancl [OF assms(1-3), of c] assms(2) by (blast intro: rtrancl_into_trancl1)
qed

text \<open>The tables of a finished load say what the modules import.\<close>

lemma loading_done:
  assumes "loading rd entry [] deps dyns failed"
  shows "fset (fmdom deps) = in_graph rd entry"
    and "s \<in> in_graph rd entry \<Longrightarrow> \<exists>m. rd s = Some m \<and> deps_of deps s = edges s (static_imports m)
      \<and> deps_of (merge_deps deps dyns) s = edges s (static_imports m) @ edges s (dynamic_imports m)"
proof -
  have r: "recorded rd deps dyns {} s" if "s \<in> fset (fmdom deps)" for s using assms that by (auto simp: loading_def)
  then have "import_edge rd `` fset (fmdom deps) \<subseteq> fset (fmdom deps)" by (force simp: recorded_def import_edge_def)
  from closed_image [OF this, of entry] have "in_graph rd entry \<subseteq> fset (fmdom deps)"
    using assms by (auto simp: loading_def in_graph_def)
  then show f: "fset (fmdom deps) = in_graph rd entry" using assms by (auto simp: loading_def)
  assume "s \<in> in_graph rd entry"
  then show "\<exists>m. rd s = Some m \<and> deps_of deps s = edges s (static_imports m)
      \<and> deps_of (merge_deps deps dyns) s = edges s (static_imports m) @ edges s (dynamic_imports m)"
    using r [of s] f by (auto simp: recorded_def deps_of_def merge_deps_def)
qed

lemma in_graph_closed: "import_edge rd `` in_graph rd entry \<subseteq> in_graph rd entry" "static_edge rd `` in_graph rd entry \<subseteq> in_graph rd entry"
  "entry \<in> in_graph rd entry"
  by (auto simp: in_graph_def import_edge_def static_edge_def intro: rtrancl_into_rtrancl)

lemma loading_edges:
  assumes "loading rd entry [] deps dyns failed" "s \<in> in_graph rd entry"
  shows "edge deps `` {s} = static_edge rd `` {s}" "edge (merge_deps deps dyns) `` {s} = import_edge rd `` {s}"
  using loading_done(2) [OF assms] by (auto simp: edge_def static_edge_def import_edge_def)

lemma same_reach:
  assumes "\<And>s. s \<in> S \<Longrightarrow> E `` {s} = R `` {s}" "R `` S \<subseteq> S" "a \<in> S"
  shows "E\<^sup>* `` {a} = R\<^sup>* `` {a}"
    and "(\<exists>x. (a, x) \<in> E\<^sup>* \<and> (x, x) \<in> E\<^sup>+) \<longleftrightarrow> (\<exists>x. (a, x) \<in> R\<^sup>* \<and> (x, x) \<in> R\<^sup>+)"
proof -
  have E: "E `` S \<subseteq> S" using assms(1,2) by blast
  have "x \<in> S \<Longrightarrow> E `` {x} \<subseteq> R `` {x}" "x \<in> S \<Longrightarrow> R `` {x} \<subseteq> E `` {x}" for x using assms(1) by auto
  note er = agree_rtrancl [OF E this(1)] agree_trancl [OF E this(1)] and re = agree_rtrancl [OF assms(2) this(2)] agree_trancl [OF assms(2) this(2)]
  show "E\<^sup>* `` {a} = R\<^sup>* `` {a}" using er(1) [OF _ assms(3)] re(1) [OF _ assms(3)] by blast
  show "(\<exists>x. (a, x) \<in> E\<^sup>* \<and> (x, x) \<in> E\<^sup>+) \<longleftrightarrow> (\<exists>x. (a, x) \<in> R\<^sup>* \<and> (x, x) \<in> R\<^sup>+)"
    using er(1) [OF _ assms(3)] er(2) re(1) [OF _ assms(3)] re(2) by meson
qed

text \<open>In the list, what a module leads to comes before it.\<close>

definition comes_first :: "(rstr \<times> rstr) set \<Rightarrow> rstr list \<Rightarrow> bool" where
  "comes_first R xs \<longleftrightarrow> (\<forall>i<length xs. R `` {xs ! i} \<subseteq> set (take i xs))"

lemma deps_first_comes_first:
  assumes "deps_first deps xs" "\<And>s. s \<in> set xs \<Longrightarrow> edge deps `` {s} = R `` {s}"
  shows "comes_first R xs"
proof -
  have "R `` {xs ! i} \<subseteq> set (take i xs)" if "i < length xs" for i
    using assms(2) [OF nth_mem [OF that]] deps_first_nth [OF assms(1) that] by blast
  then show ?thesis by (simp add: comes_first_def)
qed

lemma find_self: "List.find (\<lambda>t. t = s) xs = (if s \<in> set xs then Some s else None)"
  by (induction xs) auto

lemma graph_split_partition:
  assumes "set (g_eager g) \<subseteq> set (g_all g)"
  shows "graph_split g = (g_eager g, filter (\<lambda>s. s \<notin> set (g_eager g)) (g_all g))"
proof -
  have "List.map_filter (\<lambda>s. List.find (\<lambda>t. t = s) (g_all g)) xs = xs" if "set xs \<subseteq> set (g_all g)" for xs
    using that by (induction xs) (auto simp: List.map_filter_def find_self)
  then show ?thesis using assms by (simp add: graph_split_def)
qed

text \<open>What a load that ends has done, in one lemma.\<close>

lemma load_graph_cases:
  assumes l: "load_loop rd [slashes entry0] fmempty fmempty False = Some r"
  defines "entry \<equiv> slashes entry0"
  shows "case load_graph rd entry0 of None \<Rightarrow> False
    | Some (Inr g) \<Rightarrow> (\<forall>s\<in>in_graph rd entry. \<exists>m. rd s = Some m \<and> parsed_ok m)
        \<and> \<not> (\<exists>x. (entry, x) \<in> (import_edge rd)\<^sup>* \<and> (x, x) \<in> (import_edge rd)\<^sup>+)
        \<and> distinct (g_all g) \<and> set (g_all g) = in_graph rd entry \<and> comes_first (import_edge rd) (g_all g)
        \<and> distinct (g_eager g) \<and> set (g_eager g) = (static_edge rd)\<^sup>* `` {entry} \<and> comes_first (static_edge rd) (g_eager g)
    | Some (Inl e) \<Rightarrow> \<not> ((\<forall>s\<in>in_graph rd entry. \<exists>m. rd s = Some m \<and> parsed_ok m)
        \<and> \<not> (\<exists>x. (entry, x) \<in> (import_edge rd)\<^sup>* \<and> (x, x) \<in> (import_edge rd)\<^sup>+))"
proof -
  have o: "load_outcome rd entry r" using load_loop_loaded [OF l] loading_start unfolding entry_def by blast
  show ?thesis
  proof (cases r)
    case (Inl e)
    then have "load_graph rd entry0 = Some (Inl e)" using l by (simp add: load_graph_def Let_def)
    moreover have "\<exists>s\<in>in_graph rd entry. rd s = None" using o Inl by (auto simp: load_outcome_def)
    then have "\<not> (\<forall>s\<in>in_graph rd entry. \<exists>m. rd s = Some m \<and> parsed_ok m)" by fastforce
    ultimately show ?thesis by simp
  next
    case (Inr t)
    then obtain deps dyns failed where r: "r = Inr (deps, dyns, failed)" by (cases t) auto
    then have ld: "loading rd entry [] deps dyns failed" using o by (simp add: load_outcome_def)
    note g = loading_done [OF ld] and e = loading_edges [OF ld] and c = in_graph_closed [where rd = rd and entry = entry]
    note st = same_reach [OF e(1) c(2,3)] and im = same_reach [OF e(2) c(1,3)]
    have all: "(edge (merge_deps deps dyns))\<^sup>* `` {entry} = in_graph rd entry" using im(1) by (simp add: in_graph_def)
    have sub: "(static_edge rd)\<^sup>* `` {entry} \<subseteq> in_graph rd entry" by (rule closed_image [OF c(2,3)])
    have f: "failed \<longleftrightarrow> (\<exists>s\<in>in_graph rd entry. \<exists>m. rd s = Some m \<and> \<not> parsed_ok m)"
      using ld g(1) by (auto simp: loading_def)
    have lg: "load_graph rd entry0 = Some (if failed then Inl Parse_Failed
        else (case topo_order entry (merge_deps deps dyns) of Inl d \<Rightarrow> Inl (Import_Cycle d)
              | Inr co \<Rightarrow> (case topo_order entry deps of Inl d \<Rightarrow> Inl (Import_Cycle d) | Inr eo \<Rightarrow> Inr \<lparr>g_all = co, g_eager = eo\<rparr>)))"
      using l r unfolding load_graph_def entry_def Let_def by simp
    show ?thesis
    proof (cases "failed")
      case True
      then show ?thesis using lg f by fastforce
    next
      case ok: False
      then have parsed: "\<forall>s\<in>in_graph rd entry. \<exists>m. rd s = Some m \<and> parsed_ok m" using f g(2) by blast
      show ?thesis
      proof (cases "topo_order entry (merge_deps deps dyns)")
        case (Inl d)
        then have "\<exists>x. (entry, x) \<in> (import_edge rd)\<^sup>* \<and> (x, x) \<in> (import_edge rd)\<^sup>+"
          using topo_order_decides entry_def im(2) by (metis Inl_Inr_False)
        then show ?thesis using lg ok Inl by auto
      next
        case (Inr co)
        note t = topo_order_ok [OF Inr]
        have no: "\<not> (\<exists>x. (entry, x) \<in> (import_edge rd)\<^sup>* \<and> (x, x) \<in> (import_edge rd)\<^sup>+)"
          using Inr topo_order_decides im(2) by blast
        moreover have "static_edge rd \<subseteq> import_edge rd" by (auto simp: static_edge_def import_edge_def)
        ultimately have "\<not> (\<exists>x. (entry, x) \<in> (static_edge rd)\<^sup>* \<and> (x, x) \<in> (static_edge rd)\<^sup>+)"
          by (meson rtrancl_mono subsetD trancl_mono)
        then obtain eo where eo: "topo_order entry deps = Inr eo" using topo_order_decides st(2) by blast
        note s = topo_order_ok [OF eo]
        have "comes_first (import_edge rd) co" by (rule deps_first_comes_first [OF t(3) e(2)]) (use t(2) all in auto)
        moreover have "comes_first (static_edge rd) eo" by (rule deps_first_comes_first [OF s(3) e(1)]) (use s(2) st(1) sub in auto)
        ultimately show ?thesis using lg ok Inr eo parsed no t s st(1) all by simp
      qed
    qed
  qed
qed

text \<open>
  C27: The loader closes the graph: the modules it lists are exactly those the entry reaches by
  static and dynamic imports, each once and after everything it imports, to be checked in that
  order; the eager ones are exactly those the entry reaches by static imports alone, each after
  its static imports; and the split makes every module of the list either eager or lazy.
\<close>

theorem load_graph_closes:
  assumes "load_graph rd entry0 = Some (Inr g)"
  shows "set (g_all g) = in_graph rd (slashes entry0) \<and> distinct (g_all g) \<and> comes_first (import_edge rd) (g_all g)
    \<and> set (g_eager g) = (static_edge rd)\<^sup>* `` {slashes entry0} \<and> distinct (g_eager g) \<and> comes_first (static_edge rd) (g_eager g)
    \<and> (case graph_split g of (eager, lazy) \<Rightarrow> eager = g_eager g \<and> mset (eager @ lazy) = mset (g_all g))"
proof -
  obtain r where "load_loop rd [slashes entry0] fmempty fmempty False = Some r"
    using assms by (auto simp: load_graph_def Let_def)
  from load_graph_cases [OF this] have g: "set (g_all g) = in_graph rd (slashes entry0)" "distinct (g_all g)"
    "comes_first (import_edge rd) (g_all g)" "set (g_eager g) = (static_edge rd)\<^sup>* `` {slashes entry0}"
    "distinct (g_eager g)" "comes_first (static_edge rd) (g_eager g)" using assms by simp_all
  moreover have sub: "set (g_eager g) \<subseteq> set (g_all g)"
    using closed_image [OF in_graph_closed(2,3)] g(1,4) by simp
  moreover have "mset (g_eager g @ filter (\<lambda>s. s \<notin> set (g_eager g)) (g_all g)) = mset (g_all g)"
    using g(2,5) sub by (subst set_eq_iff_mset_eq_distinct [symmetric]) auto
  ultimately show ?thesis by (simp add: graph_split_partition)
qed

text \<open>
  C28: When finitely many modules can be reached from the entry, the loader returns; and it
  answers a graph exactly when every module that can be reached is found and parses, and no
  cycle of imports, dynamic ones included, can be reached.
\<close>

theorem load_graph_returns:
  assumes "finite (in_graph rd (slashes entry0))"
  shows "(\<exists>r. load_graph rd entry0 = Some r)
    \<and> ((\<exists>g. load_graph rd entry0 = Some (Inr g)) \<longleftrightarrow>
       (\<forall>s\<in>in_graph rd (slashes entry0). \<exists>m. rd s = Some m \<and> parsed_ok m)
       \<and> \<not> (\<exists>x. (slashes entry0, x) \<in> (import_edge rd)\<^sup>* \<and> (x, x) \<in> (import_edge rd)\<^sup>+))"
proof -
  obtain r where "load_loop rd [slashes entry0] fmempty fmempty False = Some r"
    using load_loop_returns [OF assms loading_start] by blast
  from load_graph_cases [OF this] show ?thesis
    by (cases "load_graph rd entry0"; cases "the (load_graph rd entry0)") simp_all
qed

text \<open>A program that imports its library lazily.\<close>

definition two_files :: "rstr \<Rightarrow> source_module option" where
  "two_files s =
     (if s = (str ''app.mersey'') then Some \<lparr>parsed_ok = True, static_imports = [(str ''std:json'')], dynamic_imports = [(str ''./lib.mersey'')]\<rparr>
      else if s = (str ''lib.mersey'') then Some \<lparr>parsed_ok = True, static_imports = [], dynamic_imports = []\<rparr>
      else None)"

lemmas resolve_sims = edges_def is_module_def is_relative_def is_remote_def is_source_module_def source_modules_def starts_with_str_def
  resolve_module_def resolve_def resolve_parts_def directory_of_def before_last_def dir_parts_def seg_step_def

lemma two_files_edges:
  "edges (str ''app.mersey'') [(str ''std:json'')] = []" "edges (str ''app.mersey'') [(str ''./lib.mersey'')] = [(str ''lib.mersey'')]"
  by (simp_all add: resolve_sims)

lemma edges_Nil [simp]: "edges s [] = []"
  by (simp add: edges_def)

lemma two_files_graph: "in_graph two_files (str ''app.mersey'') \<subseteq> {(str ''app.mersey''), (str ''lib.mersey'')}"
  unfolding in_graph_def
proof (rule closed_image)
  show "import_edge two_files `` {(str ''app.mersey''), (str ''lib.mersey'')} \<subseteq> {(str ''app.mersey''), (str ''lib.mersey'')}"
    by (auto simp: import_edge_def two_files_def two_files_edges [simplified] edges_Nil split: if_splits)
qed simp

lemma two_files_load:
  "load_graph two_files (str ''app.mersey'') = Some (Inr \<lparr>g_all = [(str ''lib.mersey''), (str ''app.mersey'')], g_eager = [(str ''app.mersey'')]\<rparr>)"
proof -
  have "slashes (str ''app.mersey'') = (str ''app.mersey'')" by (simp add: slashes_def)
  then show ?thesis
    by (simp add: load_graph_def Let_def load_loop.simps two_files_def two_files_edges [simplified] topo_order_def visit.simps deps_of_def merge_deps_def)
qed

theorem load_graph_closes_witness:
  "set [(str ''lib.mersey''), (str ''app.mersey'')] = in_graph two_files (slashes (str ''app.mersey''))"
  using load_graph_closes [OF two_files_load] by (elim conjE) (simp only: module_graph.select_convs)

theorem load_graph_returns_witness:
  "\<exists>r. load_graph two_files (str ''app.mersey'') = Some r"
proof -
  have "slashes (str ''app.mersey'') = (str ''app.mersey'')" by (simp add: slashes_def)
  then have "finite (in_graph two_files (slashes (str ''app.mersey'')))" using finite_subset [OF two_files_graph] by simp
  from load_graph_returns [OF this] show ?thesis by (rule conjunct1)
qed

section \<open>Paths\<close>

text \<open>The reference: a place is how many directories above the start it is, and the way down
  from there; walking one segment of a path from a place.\<close>

definition walk_step :: "rstr \<Rightarrow> nat \<times> rstr list \<Rightarrow> nat \<times> rstr list" where
  "walk_step seg pl =
     (case pl of (ups, ps) \<Rightarrow>
        if seg = [] \<or> seg = (str ''.'') then (ups, ps)
        else if seg = (str ''..'') then (if ps = [] then (ups + 1, []) else (ups, butlast ps))
        else (ups, ps @ [seg]))"

definition walk :: "rstr \<Rightarrow> nat \<times> rstr list \<Rightarrow> nat \<times> rstr list" where
  "walk path = fold walk_step (split_on (ch CHR ''/'') path)"

definition plain_seg :: "rstr \<Rightarrow> bool" where
  "plain_seg seg \<longleftrightarrow> seg \<noteq> [] \<and> seg \<noteq> (str ''.'') \<and> seg \<noteq> (str ''..'') \<and> (ch CHR ''/'') \<notin> set seg"

definition plain_dir :: "rstr \<Rightarrow> bool" where
  "plain_dir dir \<longleftrightarrow> list_all plain_seg (dir_parts dir)"

lemma split_on_not_Nil: "split_on c s \<noteq> []"
  by (cases s) (auto split: list.split)

lemma split_on_free: "p \<in> set (split_on c s) \<Longrightarrow> c \<notin> set p"
  by (induction s arbitrary: p) (auto split: list.splits if_splits)

lemma split_on_plain: "c \<notin> set p \<Longrightarrow> split_on c (p @ c # s) = p # split_on c s"
  by (induction p) auto

lemma split_on_single: "c \<notin> set p \<Longrightarrow> split_on c p = [p]"
  by (induction p) auto

lemma split_join: "ps \<noteq> [] \<Longrightarrow> list_all (\<lambda>p. c \<notin> set p) ps \<Longrightarrow> split_on c (join_with [c] ps) = ps"
  by (induction "[c]" ps rule: join_with.induct) (auto simp: split_on_single split_on_plain)

lemma dir_parts_join:
  assumes "list_all plain_seg ps"
  shows "dir_parts (join_with (str ''/'') ps) = ps" "dir_parts ((str ''/'') @ join_with (str ''/'') ps) = ps"
proof -
  have f: "filter (\<lambda>p. p \<noteq> []) ps = ps" "list_all (\<lambda>p. (ch CHR ''/'') \<notin> set p) ps"
    using assms by (induction ps) (auto simp: plain_seg_def)
  have "dir_parts (join_with [(ch CHR ''/'')] ps) = ps"
    using f split_join [OF _ f(2)] by (cases "ps = []") (simp_all add: dir_parts_def)
  then show "dir_parts (join_with (str ''/'') ps) = ps" "dir_parts ((str ''/'') @ join_with (str ''/'') ps) = ps"
    by (simp_all add: dir_parts_def)
qed

lemma walk_steps: "snd (fold walk_step segs pl) = fold seg_step segs (snd pl)"
proof (induction segs arbitrary: pl)
  case (Cons seg segs)
  have "snd (walk_step seg pl) = seg_step seg (snd pl)"
    by (cases pl) (auto simp: walk_step_def seg_step_def)
  then show ?case using Cons by simp
qed simp

lemma fold_walk_plain:
  "list_all plain_seg (filter (\<lambda>p. p \<noteq> []) segs) \<Longrightarrow> fold walk_step segs (u, ps) = (u, ps @ filter (\<lambda>p. p \<noteq> []) segs)"
  by (induction segs arbitrary: ps) (auto simp: walk_step_def plain_seg_def)

lemma seg_steps_plain:
  assumes "list_all plain_seg ps" "list_all (\<lambda>p. (ch CHR ''/'') \<notin> set p) segs"
  shows "list_all plain_seg (fold seg_step segs ps)"
  using assms
proof (induction segs arbitrary: ps)
  case (Cons seg segs)
  have "list_all plain_seg (seg_step seg ps)"
    using Cons.prems by (auto simp: seg_step_def plain_seg_def list_all_iff dest: in_set_butlastD)
  then show ?case using Cons by simp
qed simp

lemma resolve_parts_plain:
  assumes "plain_dir (directory_of referrer)"
  shows "list_all plain_seg (resolve_parts referrer spec)"
  unfolding resolve_parts_def
  using assms split_on_free by (intro seg_steps_plain) (auto simp: plain_dir_def list_all_iff)

text \<open>
  \<open>resolve\<close> walks the specifier from the directory of the referrer: from a directory with
  no dots in it, the result reads back as the way down of the place the reference walk
  reaches, it has no dots left, and it is absolute when the referrer is.  Going above the root
  of an absolute path stays at the root, as in POSIX.  A relative referrer loses the
  directories the walk climbs above its start, so \<open>../lib.mersey\<close> next to \<open>app.mersey\<close> is
  read from beside it.
\<close>

theorem resolve_walks:
  assumes "plain_dir (directory_of referrer)"
  shows "dir_parts (resolve referrer spec) = snd (walk spec (walk (directory_of referrer) (0, [])))
    \<and> list_all plain_seg (dir_parts (resolve referrer spec))
    \<and> (starts_with_str (directory_of referrer) (str ''/'') \<longleftrightarrow> starts_with_str (resolve referrer spec) (str ''/''))
    \<and> walk (str ''../lib.mersey'') (walk (directory_of (str ''app.mersey'')) (0, [])) = (1, [(str ''lib.mersey'')])
    \<and> resolve (str ''app.mersey'') (str ''../lib.mersey'') = (str ''lib.mersey'')"
proof (intro conjI)
  let ?ps = "resolve_parts referrer spec"
  have p: "list_all plain_seg ?ps" by (rule resolve_parts_plain [OF assms])
  have d: "dir_parts (resolve referrer spec) = ?ps" using dir_parts_join [OF p] by (simp add: resolve_def Let_def)
  show "list_all plain_seg (dir_parts (resolve referrer spec))" using d p by simp
  have "walk (directory_of referrer) (0, []) = (0, dir_parts (directory_of referrer))"
    using fold_walk_plain assms by (simp add: walk_def plain_dir_def dir_parts_def)
  then show "dir_parts (resolve referrer spec) = snd (walk spec (walk (directory_of referrer) (0, [])))"
    using d by (simp add: walk_def walk_steps resolve_parts_def)
  have "\<not> starts_with_str (join_with (str ''/'') ?ps) (str ''/'')"
    using p by (cases "((str ''/''), ?ps)" rule: join_with.cases) (auto simp: starts_with_str_def plain_seg_def neq_Nil_conv)
  then show "starts_with_str (directory_of referrer) (str ''/'') \<longleftrightarrow> starts_with_str (resolve referrer spec) (str ''/'')"
    by (simp add: resolve_def Let_def starts_with_str_def)
  show "walk (str ''../lib.mersey'') (walk (directory_of (str ''app.mersey'')) (0, [])) = (1, [(str ''lib.mersey'')])"
    by (simp add: walk_def walk_step_def directory_of_def before_last_def)
  show "resolve (str ''app.mersey'') (str ''../lib.mersey'') = (str ''lib.mersey'')" by (simp add: resolve_sims)
qed

theorem resolve_walks_example:
  "dir_parts (resolve (str ''/home/me/src/app.mersey'') (str ''../lib.mersey'')) = [(str ''home''), (str ''me''), (str ''lib.mersey'')]"
proof -
  have "plain_dir (directory_of (str ''/home/me/src/app.mersey''))"
    by (simp add: plain_dir_def plain_seg_def directory_of_def before_last_def dir_parts_def)
  from conjunct1 [OF resolve_walks [OF this]] show ?thesis
    by (simp add: walk_def walk_step_def directory_of_def before_last_def)
qed

lemma split_once_str_Some: "split_once_str pat s = Some (a, b) \<Longrightarrow> s = a @ pat @ b"
proof (induction pat s arbitrary: a b rule: split_once_str.induct)
  case (1 pat s)
  show ?case
  proof (cases "starts_with_str s pat")
    case True
    then show ?thesis using "1.prems" append_take_drop_id [of "length pat" s]
      by (subst (asm) split_once_str.simps) (auto simp: starts_with_str_def)
  next
    case False
    then show ?thesis using 1 by (subst (asm) (2) split_once_str.simps) (auto split: list.splits option.splits)
  qed
qed

lemma split_once_char: "split_once_str [c] s = (if c \<in> set s then Some (takeWhile (\<lambda>x. x \<noteq> c) s, tl (dropWhile (\<lambda>x. x \<noteq> c) s)) else None)"
  by (induction s) (auto simp: split_once_str.simps [of "[c]"] starts_with_str_def)

lemma starts_with_hd: "starts_with_str s (c # p) \<Longrightarrow> s \<noteq> [] \<and> hd s = c"
  by (cases s) (auto simp: starts_with_str_def)

text \<open>
  A relative import inside a remote module stays on the module's own server: it resolves
  to a remote specifier with the scheme and the host of the referrer, whatever dots it has.
\<close>

theorem remote_imports_stay:
  assumes "is_remote referrer" "is_relative spec"
  shows "\<exists>scheme host rest path. scheme \<in> {(str ''https''), (str ''http'')} \<and> (ch CHR ''/'') \<notin> set host \<and> (rest = [] \<or> hd rest = (ch CHR ''/''))
    \<and> referrer = scheme @ (str ''://'') @ host @ rest
    \<and> resolve_module referrer spec = scheme @ (str ''://'') @ host @ (str ''/'') @ path \<and> is_remote (resolve_module referrer spec)"
proof -
  have spec: "\<not> is_source_module spec" "\<not> is_remote spec"
    using assms(2) by (auto simp: is_relative_def is_remote_def is_source_module_def source_modules_def dest!: starts_with_hd)
  have "starts_with_str referrer ((str ''https'') @ (str ''://'')) \<or> starts_with_str referrer ((str ''http'') @ (str ''://''))"
    using assms(1) by (simp add: is_remote_def)
  then obtain scheme where s: "scheme \<in> {(str ''https''), (str ''http'')}" "starts_with_str referrer (scheme @ (str ''://''))" by blast
  let ?r = "drop (length (scheme @ (str ''://''))) referrer"
  have ref: "referrer = scheme @ (str ''://'') @ ?r" using s(2) append_take_drop_id [of "length (scheme @ (str ''://''))" referrer]
    by (metis append_assoc starts_with_str_def)
  have "split_once_str (str ''://'') (scheme @ (str ''://'') @ x) = Some (scheme, x)" for x
    using s(1) by (auto simp: split_once_str.simps starts_with_str_def)
  then have once: "split_once_str (str ''://'') referrer = Some (scheme, ?r)" using ref by metis
  define host where "host = takeWhile (\<lambda>x. x \<noteq> (ch CHR ''/'')) ?r"
  have host: "(ch CHR ''/'') \<notin> set host" unfolding host_def by (auto dest: set_takeWhileD)
  have r: "?r = host @ dropWhile (\<lambda>x. x \<noteq> (ch CHR ''/'')) ?r" unfolding host_def by simp
  have "\<exists>path. resolve_url referrer spec = scheme @ (str ''://'') @ host @ (str ''/'') @ path"
  proof (cases "(ch CHR ''/'') \<in> set ?r")
    case True
    then have "split_once_str (str ''/'') ?r = Some (host, tl (dropWhile (\<lambda>x. x \<noteq> (ch CHR ''/'')) ?r))" by (simp add: split_once_char host_def)
    then show ?thesis unfolding resolve_url_def once by (simp only: option.case prod.case Let_def) blast
  next
    case False
    then have "split_once_str (str ''/'') ?r = None" "host = ?r" by (simp_all add: split_once_char host_def takeWhile_eq_all_conv) auto
    then show ?thesis unfolding resolve_url_def once by (simp only: option.case prod.case Let_def) blast
  qed
  then obtain path where path: "resolve_module referrer spec = scheme @ (str ''://'') @ host @ (str ''/'') @ path"
    using spec assms by (auto simp: resolve_module_def)
  then have "is_remote (resolve_module referrer spec)" using s(1) by (auto simp: is_remote_def starts_with_str_def)
  moreover have "dropWhile (\<lambda>x. x \<noteq> (ch CHR ''/'')) ?r = [] \<or> hd (dropWhile (\<lambda>x. x \<noteq> (ch CHR ''/'')) ?r) = (ch CHR ''/'')"
    using hd_dropWhile [of "\<lambda>x. x \<noteq> (ch CHR ''/'')" ?r] by blast
  moreover have "referrer = scheme @ (str ''://'') @ host @ dropWhile (\<lambda>x. x \<noteq> (ch CHR ''/'')) ?r" using ref r by argo
  ultimately show ?thesis using s(1) host path
    by (intro exI [of _ scheme] exI [of _ host] exI [of _ "dropWhile (\<lambda>x. x \<noteq> (ch CHR ''/'')) ?r"] exI [of _ path] conjI)
qed

theorem remote_imports_stay_example:
  "\<exists>path. resolve_module (str ''https://h/pkg/index.mersey'') (str ''../../../util.mersey'') = (str ''https://h/'') @ path"
proof -
  have "is_remote (str ''https://h/pkg/index.mersey'')" "is_relative (str ''../../../util.mersey'')"
    by (simp_all add: is_remote_def is_relative_def starts_with_str_def)
  from remote_imports_stay [OF this] obtain scheme host rest path where
    "scheme \<in> {(str ''https''), (str ''http'')}" "(ch CHR ''/'') \<notin> set host" "rest = [] \<or> hd rest = (ch CHR ''/'')"
    "(str ''https://h/pkg/index.mersey'') = scheme @ (str ''://'') @ host @ rest"
    "resolve_module (str ''https://h/pkg/index.mersey'') (str ''../../../util.mersey'') = scheme @ (str ''://'') @ host @ (str ''/'') @ path"
    by blast
  then show ?thesis by (cases host; cases "tl host") auto
qed

end
