(* ===== verification/Hash.thy ===== *)
theory Hash
  imports Prelude
begin

text \<open>
  SHA-256, SHA-1 and HMAC of \<open>crates/mersey_interp/src/lib.rs\<close> (\<open>sha256\<close>, \<open>sha1\<close>,
  \<open>hmac\<close>, \<open>hmac_sha256\<close>, \<open>hmac_sha1\<close>).  Bytes are 8-bit words, the working
  variables 32-bit words with wrapping addition; arrays are lists updated by index in the
  source's loops.  The message schedules are compared with the recurrences of FIPS 180-4;
  the locale \<open>hash_fn\<close> is what \<open>hmac\<close> needs of the function it is given.
\<close>

unbundle bit_operations_syntax

section \<open>Bytes\<close>

definition be_bytes32 :: "u32 \<Rightarrow> u8 list" where
  "be_bytes32 w = [ucast (drop_bit 24 w), ucast (drop_bit 16 w), ucast (drop_bit 8 w), ucast w]"

definition be_bytes64 :: "u64 \<Rightarrow> u8 list" where
  "be_bytes64 w =
     [ucast (drop_bit 56 w), ucast (drop_bit 48 w), ucast (drop_bit 40 w), ucast (drop_bit 32 w),
      ucast (drop_bit 24 w), ucast (drop_bit 16 w), ucast (drop_bit 8 w), ucast w]"

definition from_be32 :: "u8 \<Rightarrow> u8 \<Rightarrow> u8 \<Rightarrow> u8 \<Rightarrow> u32" where
  "from_be32 a b c d = push_bit 24 (ucast a) OR push_bit 16 (ucast b) OR push_bit 8 (ucast c) OR ucast d"

fun chunks :: "nat \<Rightarrow> 'a list \<Rightarrow> 'a list list" where
  "chunks n xs = (if n = 0 \<or> xs = [] then [] else take n xs # chunks n (drop n xs))"

declare chunks.simps [simp del]

section \<open>Padding\<close>

text \<open>The loop \<open>while msg.len() % 64 != 56\<close>.\<close>

function pad_zeros :: "u8 list \<Rightarrow> u8 list" where
  "pad_zeros msg = (if length msg mod 64 \<noteq> 56 then pad_zeros (msg @ [0]) else msg)"
  by pat_completeness auto
termination
proof (relation "measure (\<lambda>msg. (120 - length msg mod 64) mod 64)", goal_cases)
  case (2 msg)
  define m where "m = length msg mod 64"
  have m: "m < 64" "m \<noteq> 56" using 2 by (simp_all add: m_def)
  have nx: "length (msg @ [0]) mod 64 = (if m = 63 then 0 else m + 1)"
    using mod_Suc [of "length msg" 64] by (simp add: m_def)
  have val: "(120 - k) mod 64 = (if k \<le> 56 then 56 - k else 120 - k)" if "k < 64" for k :: nat
    using that by (auto simp: le_mod_geq)
  show ?case
    using m val [of m] val [of "length (msg @ [0]) mod 64"] unfolding nx
    by (auto simp: m_def [symmetric] nx [simplified] split: if_splits)
qed simp

declare pad_zeros.simps [simp del]

definition sha_pad :: "u8 list \<Rightarrow> u8 list" where
  "sha_pad data =
     (let bit_len = (of_nat (length data) :: u64) * 8
      in pad_zeros (data @ [0x80]) @ be_bytes64 bit_len)"

section \<open>SHA-256\<close>

text \<open>
  The round constants, a row of the source's table written as one literal of its words.
\<close>

definition row32 :: "nat \<Rightarrow> int \<Rightarrow> u32 list" where
  "row32 n v = map (\<lambda>i. word_of_int (v div 2 ^ (32 * (n - 1 - i)))) [0..<n]"

lemma length_row32 [simp]: "length (row32 n v) = n"
  by (simp add: row32_def)

lemma nth_row32 [simp]: "i < n \<Longrightarrow> row32 n v ! i = word_of_int (v div 2 ^ (32 * (n - 1 - i)))"
  by (simp add: row32_def)

definition sha256_K :: "u32 list" where
  "sha256_K =
     row32 7 0x428a2f9871374491b5c0fbcfe9b5dba53956c25b59f111f1923f82a4 @
     row32 7 0xab1c5ed5d807aa9812835b01243185be550c7dc372be5d7480deb1fe @
     row32 7 0x9bdc06a7c19bf174e49b69c1efbe47860fc19dc6240ca1cc2de92c6f @
     row32 7 0x4a7484aa5cb0a9dc76f988da983e5152a831c66db00327c8bf597fc7 @
     row32 7 0xc6e00bf3d5a7914706ca63511429296727b70a852e1b21384d2c6dfc @
     row32 7 0x53380d13650a7354766a0abb81c2c92e92722c85a2bfe8a1a81a664b @
     row32 7 0xc24b8b70c76c51a3d192e819d6990624f40e3585106aa07019a4c116 @
     row32 7 0x1e376c082748774c34b0bcb5391c0cb34ed8aa4a5b9cca4f682e6ff3 @
     row32 7 0x748f82ee78a5636f84c878148cc7020890befffaa4506cebbef9a3f7 @
     row32 1 0xc67178f2"

lemma sha256_K_ends:
  "length sha256_K = 64" "sha256_K ! 0 = 0x428a2f98" "sha256_K ! 1 = 0x71374491"
  "sha256_K ! 62 = 0xbef9a3f7" "sha256_K ! 63 = 0xc67178f2"
  by (simp_all add: sha256_K_def nth_append)

definition sha256_init :: "u32 list" where
  "sha256_init = [0x6a09e667, 0xbb67ae85, 0x3c6ef372, 0xa54ff53a, 0x510e527f, 0x9b05688c,
     0x1f83d9ab, 0x5be0cd19]"

definition chunk_word :: "u8 list \<Rightarrow> nat \<Rightarrow> u32" where
  "chunk_word chunk i = from_be32 (chunk ! (i * 4)) (chunk ! (i * 4 + 1)) (chunk ! (i * 4 + 2)) (chunk ! (i * 4 + 3))"

definition load_words :: "nat \<Rightarrow> u8 list \<Rightarrow> u32 list" where
  "load_words n chunk = fold (\<lambda>i w. w[i := chunk_word chunk i]) [0..<16] (replicate n 0)"

definition sha256_extend :: "nat \<Rightarrow> u32 list \<Rightarrow> u32 list" where
  "sha256_extend i w =
     (let s0 = word_rotr 7 (w ! (i - 15)) XOR word_rotr 18 (w ! (i - 15)) XOR drop_bit 3 (w ! (i - 15));
          s1 = word_rotr 17 (w ! (i - 2)) XOR word_rotr 19 (w ! (i - 2)) XOR drop_bit 10 (w ! (i - 2))
      in w[i := w ! (i - 16) + s0 + w ! (i - 7) + s1])"

definition sha256_schedule :: "u8 list \<Rightarrow> u32 list" where
  "sha256_schedule chunk = fold sha256_extend [16..<64] (load_words 64 chunk)"

type_synonym sha256_vars = "u32 \<times> u32 \<times> u32 \<times> u32 \<times> u32 \<times> u32 \<times> u32 \<times> u32"

definition sha256_round :: "u32 list \<Rightarrow> nat \<Rightarrow> sha256_vars \<Rightarrow> sha256_vars" where
  "sha256_round w i = (\<lambda>(a, b, c, d, e, f, g, hh).
     (let s1 = word_rotr 6 e XOR word_rotr 11 e XOR word_rotr 25 e;
          ch = (e AND f) XOR ((NOT e) AND g);
          t1 = hh + s1 + ch + sha256_K ! i + w ! i;
          s0 = word_rotr 2 a XOR word_rotr 13 a XOR word_rotr 22 a;
          maj = (a AND b) XOR (a AND c) XOR (b AND c);
          t2 = s0 + maj
      in (t1 + t2, a, b, c, d + t1, e, f, g)))"

definition sha256_block :: "u8 list \<Rightarrow> u32 list \<Rightarrow> u32 list" where
  "sha256_block chunk h =
     (case fold (sha256_round (sha256_schedule chunk)) [0..<64]
             (h ! 0, h ! 1, h ! 2, h ! 3, h ! 4, h ! 5, h ! 6, h ! 7) of
        (a, b, c, d, e, f, g, hh) \<Rightarrow> map2 (+) h [a, b, c, d, e, f, g, hh])"

definition sha256 :: "u8 list \<Rightarrow> u8 list" where
  "sha256 data = concat (map be_bytes32 (fold sha256_block (chunks 64 (sha_pad data)) sha256_init))"

section \<open>SHA-1\<close>

definition sha1_init :: "u32 list" where
  "sha1_init = [0x67452301, 0xefcdab89, 0x98badcfe, 0x10325476, 0xc3d2e1f0]"

definition sha1_extend :: "nat \<Rightarrow> u32 list \<Rightarrow> u32 list" where
  "sha1_extend i w =
     w[i := word_rotl 1 (w ! (i - 3) XOR w ! (i - 8) XOR w ! (i - 14) XOR w ! (i - 16))]"

definition sha1_schedule :: "u8 list \<Rightarrow> u32 list" where
  "sha1_schedule chunk = fold sha1_extend [16..<80] (load_words 80 chunk)"

type_synonym sha1_vars = "u32 \<times> u32 \<times> u32 \<times> u32 \<times> u32"

definition sha1_round :: "nat \<times> u32 \<Rightarrow> sha1_vars \<Rightarrow> sha1_vars" where
  "sha1_round iw = (\<lambda>(a, b, c, d, e).
     (let (i, wi) = iw;
          (f, k) = (if i < 20 then ((b AND c) OR ((NOT b) AND d), 0x5a827999 :: u32)
                    else if i < 40 then (b XOR c XOR d, 0x6ed9eba1)
                    else if i < 60 then ((b AND c) OR (b AND d) OR (c AND d), 0x8f1bbcdc)
                    else (b XOR c XOR d, 0xca62c1d6));
          tmp = word_rotl 5 a + f + e + k + wi
      in (tmp, a, word_rotl 30 b, c, d)))"

definition sha1_block :: "u8 list \<Rightarrow> u32 list \<Rightarrow> u32 list" where
  "sha1_block chunk h =
     (case fold sha1_round (enumerate 0 (sha1_schedule chunk)) (h ! 0, h ! 1, h ! 2, h ! 3, h ! 4) of
        (a, b, c, d, e) \<Rightarrow> map2 (+) h [a, b, c, d, e])"

definition sha1 :: "u8 list \<Rightarrow> u8 list" where
  "sha1 data = concat (map be_bytes32 (fold sha1_block (chunks 64 (sha_pad data)) sha1_init))"

section \<open>HMAC\<close>

definition resize :: "nat \<Rightarrow> 'a \<Rightarrow> 'a list \<Rightarrow> 'a list" where
  "resize n x xs = take n xs @ replicate (n - length xs) x"

definition hmac_key :: "(u8 list \<Rightarrow> u8 list) \<Rightarrow> u8 list \<Rightarrow> u8 list" where
  "hmac_key hashfn key = resize 64 0 (if length key > 64 then hashfn key else key)"

definition hmac :: "(u8 list \<Rightarrow> u8 list) \<Rightarrow> u8 list \<Rightarrow> u8 list \<Rightarrow> u8 list" where
  "hmac hashfn key data =
     (let k = hmac_key hashfn key;
          inner = map (\<lambda>b. b XOR 0x36) k @ data;
          inner_hash = hashfn inner;
          outer = map (\<lambda>b. b XOR 0x5c) k @ inner_hash
      in hashfn outer)"

definition hmac_sha256 :: "u8 list \<Rightarrow> u8 list \<Rightarrow> u8 list" where
  "hmac_sha256 key data = hmac sha256 key data"

definition hmac_sha1 :: "u8 list \<Rightarrow> u8 list \<Rightarrow> u8 list" where
  "hmac_sha1 key data = hmac sha1 key data"

section \<open>Padding and chunks\<close>

lemma pad_zeros_alt:
  "\<exists>k. pad_zeros msg = msg @ replicate k 0 \<and> k < 64 \<and> (length msg + k) mod 64 = 56"
proof (induction msg rule: pad_zeros.induct)
  case (1 msg)
  show ?case
  proof (cases "length msg mod 64 = 56")
    case True
    then show ?thesis by (intro exI [of _ 0]) (simp add: pad_zeros.simps)
  next
    case False
    with 1 obtain k where k: "pad_zeros (msg @ [0]) = msg @ [0] @ replicate k 0" "k < 64"
      "(length msg + 1 + k) mod 64 = 56" by auto
    have "pad_zeros msg = msg @ replicate (Suc k) 0"
      using False k(1) by (subst pad_zeros.simps) simp
    moreover have "Suc k \<noteq> 64"
    proof
      assume "Suc k = 64"
      then have "(length msg + 64) mod 64 = 56" using k(3) by (simp add: ac_simps)
      then show False using False by simp
    qed
    ultimately show ?thesis using k by (intro exI [of _ "Suc k"]) auto
  qed
qed

lemma length_be_bytes64 [simp]: "length (be_bytes64 w) = 8"
  by (simp add: be_bytes64_def)

lemma length_be_bytes32 [simp]: "length (be_bytes32 w) = 4"
  by (simp add: be_bytes32_def)

lemma sha_pad_alt:
  obtains k where "sha_pad data = data @ [0x80] @ replicate k 0 @ be_bytes64 (of_nat (length data) * 8)"
    "k < 64" "(length data + 1 + k) mod 64 = 56"
  using pad_zeros_alt [of "data @ [0x80]"] by (auto simp: sha_pad_def)

lemma length_sha_pad:
  "length (sha_pad data) mod 64 = 0 \<and> length data + 9 \<le> length (sha_pad data)
    \<and> length (sha_pad data) < length data + 9 + 64"
proof -
  obtain k where k: "sha_pad data = data @ [0x80] @ replicate k 0 @ be_bytes64 (of_nat (length data) * 8)"
    "k < 64" "(length data + 1 + k) mod 64 = 56" by (rule sha_pad_alt)
  have "(length data + 1 + k + 8) mod 64 = (56 + 8) mod 64"
    by (metis k(3) mod_add_left_eq)
  then show ?thesis using k(1,2) by (simp add: ac_simps)
qed

lemma be_bytes64_inject: "be_bytes64 v = be_bytes64 w \<longleftrightarrow> v = w"
proof
  assume eq: "be_bytes64 v = be_bytes64 w"
  show "v = w"
  proof (rule bit_word_eqI)
    fix n assume n: "n < LENGTH(64)"
    have b: "bit (x :: u64) n = bit (ucast (drop_bit (8 * (n div 8)) x) :: u8) (n mod 8)" for x
      using n by (simp add: bit_simps)
    have "n div 8 \<in> {0, 1, 2, 3, 4, 5, 6, 7}" using n by auto
    then have "(ucast (drop_bit (8 * (n div 8)) v) :: u8) = ucast (drop_bit (8 * (n div 8)) w)"
      using eq unfolding be_bytes64_def by auto
    then show "bit v n = bit w n" by (simp add: b)
  qed
qed simp

lemma append_eq_suffix:
  assumes "xs @ ys = us @ vs" "length ys = length vs"
  shows "xs = us" "ys = vs"
  using assms by simp_all

lemma marker_unique:
  assumes "xs @ x # replicate k z = ys @ x # replicate l z" "x \<noteq> z"
  shows "xs = ys"
  using assms
proof (induction k arbitrary: l)
  case 0
  then show ?case by (cases l) (simp_all add: replicate_append_same [symmetric] flip: append_assoc append_Cons)
next
  case (Suc k)
  then show ?case by (cases l) (simp_all add: replicate_append_same [symmetric] flip: append_assoc append_Cons)
qed

lemma sha_pad_inject: "sha_pad a = sha_pad b \<longleftrightarrow> a = b"
proof
  assume eq: "sha_pad a = sha_pad b"
  obtain k where k: "sha_pad a = (a @ 0x80 # replicate k 0) @ be_bytes64 (of_nat (length a) * 8)"
    by (rule sha_pad_alt [of a]) simp
  obtain l where l: "sha_pad b = (b @ 0x80 # replicate l 0) @ be_bytes64 (of_nat (length b) * 8)"
    by (rule sha_pad_alt [of b]) simp
  have "a @ 0x80 # replicate k 0 = b @ 0x80 # replicate l (0 :: u8)"
    using eq unfolding k l by (rule append_eq_suffix) simp
  then show "a = b" by (rule marker_unique) simp
qed simp

lemma chunks_length:
  assumes "0 < n" "length xs mod n = 0" "c \<in> set (chunks n xs)"
  shows "length c = n"
  using assms
proof (induction n xs rule: chunks.induct)
  case (1 n xs)
  show ?case
  proof (cases "xs = []")
    case False
    then have "n \<le> length xs" using 1(3) by (metis dvd_imp_le length_greater_0_conv mod_0_imp_dvd)
    moreover from this have "length (drop n xs) mod n = 0" using 1(2,3) by (simp add: mod_diff_left_eq le_mod_geq [symmetric])
    moreover have "c = take n xs \<or> c \<in> set (chunks n (drop n xs))"
      using 1(4) False \<open>0 < n\<close> by (subst (asm) chunks.simps) simp
    ultimately show ?thesis using 1(1) \<open>0 < n\<close> False by auto
  qed (use 1(4) in \<open>simp add: chunks.simps\<close>)
qed

lemma concat_chunks: "0 < n \<Longrightarrow> concat (chunks n xs) = xs"
proof (induction n xs rule: chunks.induct)
  case (1 n xs)
  then show ?case by (subst chunks.simps) simp
qed

section \<open>Tables filled by a recurrence\<close>

text \<open>
  A loop \<open>for i in i0..n { w[i] = g(w, i) }\<close> whose body reads only smaller indices
  computes the table of the recurrence.
\<close>

locale recurrence_table =
  fixes g :: "nat \<Rightarrow> 'a list \<Rightarrow> 'a"
    and W :: "'m \<Rightarrow> nat \<Rightarrow> 'a"
    and i0 n :: nat
  assumes bounds: "i0 \<le> n"
    and entry: "i0 \<le> i \<Longrightarrow> i < n \<Longrightarrow> (\<forall>j < i. w ! j = W m j) \<Longrightarrow> g i w = W m i"
begin

lemma fill_prefix:
  assumes "length w = n" "\<forall>j < i0. w ! j = W m j" "i0 \<le> k" "k \<le> n"
  shows "length (fold (\<lambda>i w. w[i := g i w]) [i0..<k] w) = n
    \<and> (\<forall>j < k. fold (\<lambda>i w. w[i := g i w]) [i0..<k] w ! j = W m j)"
  using assms(3,4)
proof (induction rule: dec_induct)
  case base
  then show ?case using assms(1,2) by simp
next
  case (step k)
  let ?w = "fold (\<lambda>i w. w[i := g i w]) [i0..<k] w"
  have ih: "length ?w = n" "\<forall>j < k. ?w ! j = W m j" using step by simp_all
  then have "g k ?w = W m k" using step(1,4) by (intro entry) auto
  then show ?case using ih step(1,4) by (auto simp: nth_list_update less_Suc_eq)
qed

lemma fill:
  assumes "length w = n" "\<forall>j < i0. w ! j = W m j"
  shows "fold (\<lambda>i w. w[i := g i w]) [i0..<n] w = map (W m) [0..<n]"
  using fill_prefix [OF assms bounds] by (auto intro: nth_equalityI)

end

lemma fold_update_nth:
  "k \<le> length w \<Longrightarrow> length (fold (\<lambda>i w. w[i := f i]) [0..<k] w) = length w
    \<and> (\<forall>j < length w. fold (\<lambda>i w. w[i := f i]) [0..<k] w ! j = (if j < k then f j else w ! j))"
  by (induction k) (auto simp: nth_list_update less_Suc_eq)

lemma load_words_nth:
  "16 \<le> n \<Longrightarrow> length (load_words n chunk) = n \<and> (\<forall>j < 16. load_words n chunk ! j = chunk_word chunk j)"
  using fold_update_nth [of 16 "replicate n 0" "chunk_word chunk"] by (auto simp: load_words_def)

section \<open>The message schedules of FIPS 180-4\<close>

definition small_sigma0 :: "u32 \<Rightarrow> u32" where
  "small_sigma0 x = word_rotr 7 x XOR word_rotr 18 x XOR drop_bit 3 x"

definition small_sigma1 :: "u32 \<Rightarrow> u32" where
  "small_sigma1 x = word_rotr 17 x XOR word_rotr 19 x XOR drop_bit 10 x"

fun W256 :: "(nat \<Rightarrow> u32) \<Rightarrow> nat \<Rightarrow> u32" where
  "W256 M t = (if t < 16 then M t
     else small_sigma1 (W256 M (t - 2)) + W256 M (t - 7) + small_sigma0 (W256 M (t - 15)) + W256 M (t - 16))"

fun W160 :: "(nat \<Rightarrow> u32) \<Rightarrow> nat \<Rightarrow> u32" where
  "W160 M t = (if t < 16 then M t
     else word_rotl 1 (W160 M (t - 3) XOR W160 M (t - 8) XOR W160 M (t - 14) XOR W160 M (t - 16)))"

declare W256.simps [simp del] W160.simps [simp del]

definition sha256_word :: "nat \<Rightarrow> u32 list \<Rightarrow> u32" where
  "sha256_word i w = w ! (i - 16) + small_sigma0 (w ! (i - 15)) + w ! (i - 7) + small_sigma1 (w ! (i - 2))"

definition sha1_word :: "nat \<Rightarrow> u32 list \<Rightarrow> u32" where
  "sha1_word i w = word_rotl 1 (w ! (i - 3) XOR w ! (i - 8) XOR w ! (i - 14) XOR w ! (i - 16))"

lemma sha256_extend_word: "sha256_extend i w = w[i := sha256_word i w]"
  by (simp add: sha256_extend_def sha256_word_def small_sigma0_def small_sigma1_def Let_def)

lemma sha1_extend_word: "sha1_extend i w = w[i := sha1_word i w]"
  by (simp add: sha1_extend_def sha1_word_def)

interpretation s256: recurrence_table sha256_word "\<lambda>chunk. W256 (chunk_word chunk)" 16 64
  by unfold_locales (simp_all add: sha256_word_def W256.simps [of _ i for i] ac_simps)

interpretation s160: recurrence_table sha1_word "\<lambda>chunk. W160 (chunk_word chunk)" 16 80
  by unfold_locales (simp_all add: sha1_word_def W160.simps [of _ i for i])

lemma sha256_schedule_W: "sha256_schedule chunk = map (W256 (chunk_word chunk)) [0..<64]"
proof -
  have ext: "sha256_extend = (\<lambda>i w. w[i := sha256_word i w])"
    by (simp add: fun_eq_iff sha256_extend_word)
  show ?thesis
    unfolding sha256_schedule_def ext using load_words_nth [of 64 chunk]
    by (intro s256.fill) (simp_all add: W256.simps)
qed

lemma sha1_schedule_W: "sha1_schedule chunk = map (W160 (chunk_word chunk)) [0..<80]"
proof -
  have ext: "sha1_extend = (\<lambda>i w. w[i := sha1_word i w])"
    by (simp add: fun_eq_iff sha1_extend_word)
  show ?thesis
    unfolding sha1_schedule_def ext using load_words_nth [of 80 chunk]
    by (intro s160.fill) (simp_all add: W160.simps)
qed

section \<open>Digest lengths\<close>

lemma length_sha256_block: "length h = 8 \<Longrightarrow> length (sha256_block c h) = 8"
  by (simp add: sha256_block_def split: prod.split)

lemma length_sha1_block: "length h = 5 \<Longrightarrow> length (sha1_block c h) = 5"
  by (simp add: sha1_block_def split: prod.split)

lemma length_fold_blocks:
  "(\<And>c h. length h = k \<Longrightarrow> length (f c h) = k) \<Longrightarrow> length h = k \<Longrightarrow> length (fold f cs h) = k"
  by (induction cs arbitrary: h) auto

lemma length_concat_be32: "length (concat (map be_bytes32 ws)) = 4 * length ws"
  by (induction ws) auto

lemma length_sha256 [simp]: "length (sha256 data) = 32"
  using length_fold_blocks [of 8 sha256_block sha256_init] length_sha256_block
  by (simp add: sha256_def length_concat_be32 sha256_init_def)

lemma length_sha1 [simp]: "length (sha1 data) = 20"
  using length_fold_blocks [of 5 sha1_block sha1_init] length_sha1_block
  by (simp add: sha1_def length_concat_be32 sha1_init_def)

section \<open>HMAC over any hash\<close>

locale hash_fn =
  fixes H :: "u8 list \<Rightarrow> u8 list" and size_H :: nat
  assumes digest: "length (H x) = size_H" and fits: "size_H \<le> 64"
begin

lemma hmac_length: "length (hmac H key data) = size_H"
  by (simp add: hmac_def Let_def digest)

lemma hmac_key_length: "length (hmac_key H key) = 64"
  using digest fits by (auto simp: hmac_key_def resize_def)

lemma hmac_long_key: "64 < length key \<Longrightarrow> hmac H key data = hmac H (H key) data"
  using digest [of key] fits by (simp add: hmac_def hmac_key_def)

lemma hmac_zero_key: "length key + k \<le> 64 \<Longrightarrow> hmac H (key @ replicate k 0) data = hmac H key data"
  by (simp add: hmac_def hmac_key_def resize_def replicate_add [symmetric])

end

interpretation h256: hash_fn sha256 32
  by unfold_locales simp_all

interpretation h160: hash_fn sha1 20
  by unfold_locales simp_all

section \<open>What the component promises\<close>

text \<open>
  the padded message is a whole number of 64-byte chunks, at most one chunk and nine
  bytes longer than the message, and different messages are padded differently.
\<close>

lemma sha_padding:
  "length (sha_pad data) mod 64 = 0
   \<and> length data + 9 \<le> length (sha_pad data) \<and> length (sha_pad data) < length data + 73
   \<and> concat (chunks 64 (sha_pad data)) = sha_pad data
   \<and> list_all (\<lambda>c. length c = 64) (chunks 64 (sha_pad data))
   \<and> (sha_pad data = sha_pad data' \<longleftrightarrow> data = data')"
proof (intro conjI)
  show "list_all (\<lambda>c. length c = 64) (chunks 64 (sha_pad data))"
    unfolding list_all_iff using length_sha_pad [of data] by (intro ballI chunks_length [of 64 "sha_pad data"]) simp_all
  show "concat (chunks 64 (sha_pad data)) = sha_pad data" by (rule concat_chunks) simp
qed (use length_sha_pad [of data] in \<open>simp_all add: sha_pad_inject\<close>)

text \<open>
  C10: the message schedules that the in-place loops build are the ones the standard
  defines by recurrence, for SHA-256 and for SHA-1.
\<close>

theorem sha_schedules:
  "sha256_schedule chunk = map (W256 (chunk_word chunk)) [0..<64]
   \<and> sha1_schedule chunk = map (W160 (chunk_word chunk)) [0..<80]"
  by (simp add: sha256_schedule_W sha1_schedule_W)

text \<open>
  a MAC has its hash's digest length for every key and message; a key longer than the
  block stands for its digest, and zero bytes after a key that still fits the block do
  not change the MAC.
\<close>

lemma hmac_contract:
  assumes "64 < length long" "length short + k \<le> 64"
  shows "length (hmac_sha256 key data) = 32 \<and> length (hmac_sha1 key data) = 20
    \<and> hmac_sha256 long data = hmac_sha256 (sha256 long) data \<and> hmac_sha1 long data = hmac_sha1 (sha1 long) data
    \<and> hmac_sha256 (short @ replicate k 0) data = hmac_sha256 short data
    \<and> hmac_sha1 (short @ replicate k 0) data = hmac_sha1 short data"
  unfolding hmac_sha256_def hmac_sha1_def
  by (intro conjI h256.hmac_length h160.hmac_length h256.hmac_long_key h160.hmac_long_key
      h256.hmac_zero_key h160.hmac_zero_key assms)

lemma hmac_contract_example:
  "hmac_sha256 (replicate 65 7) [1, 2] = hmac_sha256 (sha256 (replicate 65 7)) [1, 2]
   \<and> hmac_sha1 ([1] @ replicate 3 0) [2] = hmac_sha1 [1] [2]"
proof -
  have "64 < length (replicate 65 (7 :: u8))" "length [1 :: u8] + 3 \<le> 64" by simp_all
  note c = hmac_contract [OF this]
  show ?thesis using c [of _ "[1, 2]"] c [of _ "[2]"] by blast
qed

end
