(* ===== verification/Jobs.thy ===== *)
theory Jobs
  imports Numeric "HOL-Library.Multiset"
begin

text \<open>
  Promises, microtasks, coroutines and asynchronous generators of
  \<open>crates/mersey_interp/src/lib.rs\<close>: settling and adopting, reactions, \<open>await\<close>, the queue and its
  limit, \<open>Promise.all\<close> and \<open>next\<close> on an asynchronous generator.  The program the engine runs is
  a parameter: it acts on the promises through the engine's operations only (\<open>program_ok\<close>).
\<close>

section \<open>Promises, coroutines and the queue\<close>

datatype status = Pending | Fulfilled | Rejected

text \<open>A suspended coroutine: whose generator it is, the promise its end settles, and what the
  machine needs to go on with it.\<close>

record 'r suspended =
  sc_gen :: "addr option"
  sc_result :: addr
  sc_rest :: 'r

type_synonym then_reaction = "mvalue option \<times> mvalue option \<times> addr"

record 'r promise =
  p_status :: status
  p_value :: mvalue
  p_waiters :: "'r suspended list"
  p_reactions :: "then_reaction list"

datatype 'r task =
    Resume "'r suspended" mvalue bool
  | React "mvalue option" "mvalue option" addr mvalue bool

text \<open>An asynchronous generator (it has no adapter).\<close>

record 'r gen_state =
  gs_coro :: "'r suspended option"
  gs_done :: bool
  gs_pending :: "addr option"

text \<open>A slot of \<open>Promise.all\<close>: the results and the countdown are shared by the slots of one call.\<close>

record all_cell =
  ac_shared :: nat
  ac_out :: addr
  ac_idx :: nat

record 'r jobs =
  j_next :: addr
  j_proms :: "addr \<Rightarrow> 'r promise"
  j_tasks :: "'r task list"
  j_gens :: "addr \<Rightarrow> 'r gen_state"
  j_cells :: "all_cell list"
  j_results :: "mvalue list list"
  j_left :: "u64 list"
  j_arrays :: "addr \<Rightarrow> mvalue list"

definition fresh_promise :: "'r promise" where
  "fresh_promise = \<lparr>p_status = Pending, p_value = V_Null, p_waiters = [], p_reactions = []\<rparr>"

definition new_pending :: "'r jobs \<Rightarrow> addr \<times> 'r jobs" where
  "new_pending j = (j_next j, j\<lparr>j_proms := (j_proms j)(j_next j := fresh_promise), j_next := j_next j + 1\<rparr>)"

definition new_array :: "mvalue list \<Rightarrow> 'r jobs \<Rightarrow> mvalue \<times> 'r jobs" where
  "new_array vs j = (V_Array (j_next j), j\<lparr>j_arrays := (j_arrays j)(j_next j := vs), j_next := j_next j + 1\<rparr>)"

abbreviation status_of :: "'r jobs \<Rightarrow> addr \<Rightarrow> status" where
  "status_of j p \<equiv> p_status (j_proms j p)"

definition add_reaction :: "addr \<Rightarrow> then_reaction \<Rightarrow> 'r jobs \<Rightarrow> 'r jobs" where
  "add_reaction p r j =
     j\<lparr>j_proms := (j_proms j)(p := (j_proms j p)\<lparr>p_reactions := p_reactions (j_proms j p) @ [r]\<rparr>)\<rparr>"

definition add_waiter :: "addr \<Rightarrow> 'r suspended \<Rightarrow> 'r jobs \<Rightarrow> 'r jobs" where
  "add_waiter p c j =
     j\<lparr>j_proms := (j_proms j)(p := (j_proms j p)\<lparr>p_waiters := p_waiters (j_proms j p) @ [c]\<rparr>)\<rparr>"

definition push_tasks :: "'r task list \<Rightarrow> 'r jobs \<Rightarrow> 'r jobs" where
  "push_tasks ts j = j\<lparr>j_tasks := j_tasks j @ ts\<rparr>"

section \<open>Settling\<close>

text \<open>The end of \<open>settle\<close>: the promise takes the value, and what hangs on it goes on the queue, the
  coroutines first.\<close>

definition finish_settle :: "'r jobs \<Rightarrow> addr \<Rightarrow> mvalue \<Rightarrow> bool \<Rightarrow> 'r jobs" where
  "finish_settle j p v rejected =
     (let q = j_proms j p
      in push_tasks
           (map (\<lambda>c. Resume c v rejected) (p_waiters q)
            @ map (\<lambda>(good, bad, down). React good bad down v rejected) (p_reactions q))
           (j\<lparr>j_proms := (j_proms j)(p := q\<lparr>p_status := (if rejected then Rejected else Fulfilled), p_value := v,
                p_waiters := [], p_reactions := []\<rparr>)\<rparr>))"

text \<open>\<open>settle\<close>: a promise adopts the state of another it is resolved with, which may take as many
  turns as promises are resolved with promises.\<close>

partial_function (option) settle :: "'r jobs \<Rightarrow> addr \<Rightarrow> mvalue \<Rightarrow> bool \<Rightarrow> 'r jobs option" where
  "settle j p v rejected =
     (if status_of j p \<noteq> Pending then Some j
      else case (if rejected then None else (case v of V_Promise i \<Rightarrow> Some i | _ \<Rightarrow> None)) of
             Some inner \<Rightarrow>
               (case status_of j inner of
                  Pending \<Rightarrow> Some (add_reaction inner (None, None, p) j)
                | Fulfilled \<Rightarrow> settle j p (p_value (j_proms j inner)) False
                | Rejected \<Rightarrow> settle j p (p_value (j_proms j inner)) True)
           | None \<Rightarrow> Some (finish_settle j p v rejected))"

text \<open>\<open>promise_then\<close>.\<close>

definition promise_then :: "'r jobs \<Rightarrow> addr \<Rightarrow> mvalue option \<Rightarrow> mvalue option \<Rightarrow> addr \<times> 'r jobs" where
  "promise_then j p good bad =
     (case new_pending j of (down, j1) \<Rightarrow>
        (down,
         case status_of j1 p of
           Pending \<Rightarrow> add_reaction p (good, bad, down) j1
         | st \<Rightarrow> push_tasks [React good bad down (p_value (j_proms j1 p)) (st = Rejected)] j1))"

text \<open>What an \<open>await\<close> does with its coroutine.\<close>

definition await_on :: "'r jobs \<Rightarrow> addr \<Rightarrow> 'r suspended \<Rightarrow> 'r jobs" where
  "await_on j p c =
     (case status_of j p of
        Pending \<Rightarrow> add_waiter p c j
      | st \<Rightarrow> push_tasks [Resume c (p_value (j_proms j p)) (st = Rejected)] j)"

section \<open>The program and the host\<close>

text \<open>How \<open>run_coro\<close> comes back.\<close>

datatype flow = Flow_Done mvalue | Flow_Yield mvalue | Flow_Await mvalue | Flow_Throw mvalue

text \<open>The code of the program is a parameter: the machine on a coroutine, a call of any callable
  that does not settle a promise, and a call on a handle of the host.\<close>

record 'r program =
  run_coro :: "'r jobs \<Rightarrow> 'r suspended \<Rightarrow> (mvalue \<times> bool) option \<Rightarrow> 'r jobs \<times> 'r \<times> flow"
  run_call :: "'r jobs \<Rightarrow> mvalue \<Rightarrow> mvalue list \<Rightarrow> 'r jobs \<times> (mvalue + mvalue)"
  web_call :: "'r jobs \<Rightarrow> i64 \<Rightarrow> rstr \<Rightarrow> mvalue list \<Rightarrow> 'r jobs \<times> (mvalue + mvalue)"

definition first_arg :: "mvalue list \<Rightarrow> mvalue" where
  "first_arg args = (case args of [] \<Rightarrow> V_Null | v # _ \<Rightarrow> v)"

definition arg_at :: "nat \<Rightarrow> mvalue list \<Rightarrow> mvalue option" where
  "arg_at i args = (if i < length args then Some (args ! i) else None)"

text \<open>A call of a slot of \<open>Promise.all\<close>.\<close>

definition call_slot :: "'r jobs \<Rightarrow> nat \<Rightarrow> bool \<Rightarrow> mvalue \<Rightarrow> 'r jobs option" where
  "call_slot j slot is_reject v =
     (let c = j_cells j ! slot; k = ac_shared c
      in if is_reject then settle j (ac_out c) v True
         else let left = j_left j ! k - 1;
                  j1 = j\<lparr>j_results := (j_results j)[k := (j_results j ! k)[ac_idx c := v]], j_left := (j_left j)[k := left]\<rparr>
              in if left = 0 then (case new_array (j_results j1 ! k) j1 of (all, j2) \<Rightarrow> settle j2 (ac_out c) all False)
                 else Some j1)"

text \<open>\<open>call_value\<close>.\<close>

definition call_value :: "'r program \<Rightarrow> 'r jobs \<Rightarrow> mvalue \<Rightarrow> mvalue list \<Rightarrow> ('r jobs \<times> (mvalue + mvalue)) option" where
  "call_value E j callee args =
     (case callee of
        V_PromiseExec p \<Rightarrow> Some (snd (promise_then j p (arg_at 0 args) (arg_at 1 args)), Inr V_Null)
      | V_AllSlot slot is_reject \<Rightarrow> map_option (\<lambda>j'. (j', Inr V_Null)) (call_slot j (unat slot) is_reject (first_arg args))
      | V_Resolve p \<Rightarrow> map_option (\<lambda>j'. (j', Inr V_Null)) (settle j p (first_arg args) False)
      | V_Reject p \<Rightarrow> map_option (\<lambda>j'. (j', Inr V_Null)) (settle j p (first_arg args) True)
      | V_JsRef h \<Rightarrow> Some (web_call E j h [] args)
      | _ \<Rightarrow> Some (run_call E j callee args))"

text \<open>\<open>as_promise\<close>.\<close>

definition as_promise :: "'r program \<Rightarrow> 'r jobs \<Rightarrow> mvalue \<Rightarrow> ('r jobs \<times> (mvalue + addr)) option" where
  "as_promise E j v =
     (case v of
        V_Promise p \<Rightarrow> Some (j, Inr p)
      | V_JsRef h \<Rightarrow>
          (case new_pending j of (p, j1) \<Rightarrow>
             (case web_call E j1 h (str ''then'') [V_Resolve p, V_Reject p] of
                (j2, Inl t) \<Rightarrow> Some (j2, Inl t)
              | (j2, Inr _) \<Rightarrow> Some (j2, Inr p)))
      | _ \<Rightarrow> (case new_pending j of (p, j1) \<Rightarrow> map_option (\<lambda>j2. (j2, Inr p)) (settle j1 p v False)))"

section \<open>Coroutines\<close>

text \<open>What an \<open>await\<close> with a value that cannot be made a promise does: the error leaves, and the
  coroutine is gone.\<close>

definition suspend :: "'r program \<Rightarrow> 'r jobs \<Rightarrow> mvalue \<Rightarrow> 'r suspended \<Rightarrow> ('r jobs \<times> mvalue option) option" where
  "suspend E j awaited c =
     (case as_promise E j awaited of
        None \<Rightarrow> None
      | Some (j1, Inl t) \<Rightarrow> Some (j1, Some t)
      | Some (j1, Inr p) \<Rightarrow> Some (await_on j1 p c, None))"

definition settled :: "'r jobs option \<Rightarrow> ('r jobs \<times> mvalue option) option" where
  "settled r = map_option (\<lambda>j. (j, None)) r"

definition settle_pending :: "'r jobs \<Rightarrow> addr option \<Rightarrow> mvalue \<Rightarrow> bool \<Rightarrow> ('r jobs \<times> mvalue option) option" where
  "settle_pending j pending v rejected =
     (case pending of None \<Rightarrow> Some (j, None) | Some p \<Rightarrow> settled (settle j p v rejected))"

definition set_gen :: "addr \<Rightarrow> 'r gen_state \<Rightarrow> 'r jobs \<Rightarrow> 'r jobs" where
  "set_gen g st j = j\<lparr>j_gens := (j_gens j)(g := st)\<rparr>"

definition discard :: "'r gen_state \<Rightarrow> 'r gen_state" where
  "discard st = st\<lparr>gs_coro := None, gs_pending := None, gs_done := True\<rparr>"

text \<open>\<open>drive_gen\<close>.\<close>

definition drive_gen :: "'r program \<Rightarrow> 'r jobs \<Rightarrow> addr \<Rightarrow> 'r suspended \<Rightarrow> (mvalue \<times> bool) option
    \<Rightarrow> ('r jobs \<times> mvalue option) option" where
  "drive_gen E j g c resumed =
     (case run_coro E j c resumed of (j1, rest, out) \<Rightarrow>
        let c1 = c\<lparr>sc_rest := rest\<rparr>;
            st = j_gens j1 g;
            pending = gs_pending st;
            st1 = st\<lparr>gs_pending := None\<rparr>
        in case out of
             Flow_Yield v \<Rightarrow> settle_pending (set_gen g (st1\<lparr>gs_coro := Some c1\<rparr>) j1) pending v False
           | Flow_Done v \<Rightarrow> settle_pending (set_gen g (discard st1) j1) pending V_Null False
           | Flow_Await v \<Rightarrow> suspend E (set_gen g (st1\<lparr>gs_pending := pending\<rparr>) j1) v c1
           | Flow_Throw t \<Rightarrow> settle_pending (set_gen g (discard st1) j1) pending t True)"

text \<open>The message a stray \<open>yield\<close> throws is an argument.\<close>

definition drive :: "'r program \<Rightarrow> mvalue \<Rightarrow> 'r jobs \<Rightarrow> 'r suspended \<Rightarrow> (mvalue \<times> bool) option
    \<Rightarrow> ('r jobs \<times> mvalue option) option" where
  "drive E stray j c resumed =
     (case sc_gen c of
        Some g \<Rightarrow> drive_gen E j g c resumed
      | None \<Rightarrow>
          (case run_coro E j c resumed of (j1, rest, out) \<Rightarrow>
             case out of
               Flow_Done v \<Rightarrow> settled (settle j1 (sc_result c) v False)
             | Flow_Yield _ \<Rightarrow> settled (settle j1 (sc_result c) stray True)
             | Flow_Await v \<Rightarrow> suspend E j1 v (c\<lparr>sc_rest := rest\<rparr>)
             | Flow_Throw t \<Rightarrow> settled (settle j1 (sc_result c) t True)))"

text \<open>\<open>start_coro\<close>, with the first state of the coroutine.\<close>

definition start_coro :: "'r program \<Rightarrow> mvalue \<Rightarrow> 'r jobs \<Rightarrow> 'r \<Rightarrow> ('r jobs \<times> (mvalue + mvalue)) option" where
  "start_coro E stray j rest =
     (case new_pending j of (p, j1) \<Rightarrow>
        map_option (\<lambda>(j2, err). (j2, case err of None \<Rightarrow> Inr (V_Promise p) | Some t \<Rightarrow> Inl t))
          (drive E stray j1 \<lparr>sc_gen = None, sc_result = p, sc_rest = rest\<rparr> None))"

text \<open>\<open>gen_next_async\<close>.\<close>

definition gen_next_async :: "'r program \<Rightarrow> 'r jobs \<Rightarrow> addr \<Rightarrow> ('r jobs \<times> (mvalue + mvalue)) option" where
  "gen_next_async E j g =
     (case new_pending j of (p, j1) \<Rightarrow>
        let st = j_gens j1 g
        in if gs_done st then map_option (\<lambda>j2. (j2, Inr (V_Promise p))) (settle j1 p V_Null False)
           else case gs_coro st of
                  None \<Rightarrow> map_option (\<lambda>j2. (j2, Inr (V_Promise p))) (settle (set_gen g (st\<lparr>gs_done := True\<rparr>) j1) p V_Null False)
                | Some c \<Rightarrow>
                    map_option (\<lambda>(j2, err). (j2, case err of None \<Rightarrow> Inr (V_Promise p) | Some t \<Rightarrow> Inl t))
                      (drive_gen E (set_gen g (st\<lparr>gs_coro := None, gs_pending := Some p\<rparr>) j1) g (c\<lparr>sc_gen := Some g\<rparr>) None))"

section \<open>The queue\<close>

text \<open>One microtask.\<close>

definition perform :: "'r program \<Rightarrow> mvalue \<Rightarrow> 'r task \<Rightarrow> 'r jobs \<Rightarrow> ('r jobs \<times> mvalue option) option" where
  "perform E stray t j =
     (case t of
        Resume c v rejected \<Rightarrow> drive E stray j c (Some (v, rejected))
      | React good bad down v rejected \<Rightarrow>
          (case (if rejected then bad else good) of
             Some f \<Rightarrow>
               (case call_value E j f [v] of
                  None \<Rightarrow> None
                | Some (j1, Inr out) \<Rightarrow> settled (settle j1 down out False)
                | Some (j1, Inl t) \<Rightarrow> settled (settle j1 down t True))
           | None \<Rightarrow> settled (settle j down v rejected)))"

text \<open>\<open>drain_tasks\<close>: the budget is what is left of \<open>MAX\<close>.\<close>

fun drain_loop :: "'r program \<Rightarrow> mvalue \<Rightarrow> mvalue \<Rightarrow> nat \<Rightarrow> 'r jobs \<Rightarrow> ('r jobs \<times> mvalue option) option" where
  "drain_loop E stray runaway budget j =
     (case j_tasks j of
        [] \<Rightarrow> Some (j, None)
      | t # ts \<Rightarrow>
          (let j1 = j\<lparr>j_tasks := ts\<rparr>
           in case budget of
                0 \<Rightarrow> Some (j1, Some runaway)
              | Suc k \<Rightarrow>
                  (case perform E stray t j1 of
                     None \<Rightarrow> None
                   | Some (j2, Some err) \<Rightarrow> Some (j2, Some err)
                   | Some (j2, None) \<Rightarrow> drain_loop E stray runaway k j2)))"

declare drain_loop.simps [simp del]

definition max_tasks :: nat where
  "max_tasks = 1000000"

definition drain_tasks :: "'r program \<Rightarrow> mvalue \<Rightarrow> mvalue \<Rightarrow> 'r jobs \<Rightarrow> ('r jobs \<times> mvalue option) option" where
  "drain_tasks E stray runaway j = drain_loop E stray runaway max_tasks j"

section \<open>Promise.all\<close>

definition all_slots :: "'r program \<Rightarrow> nat \<Rightarrow> addr \<Rightarrow> nat \<times> mvalue \<Rightarrow> 'r jobs \<Rightarrow> ('r jobs \<times> mvalue option) option" where
  "all_slots E k out item j =
     (case as_promise E j (snd item) of
        None \<Rightarrow> None
      | Some (j1, Inl t) \<Rightarrow> Some (j1, Some t)
      | Some (j1, Inr p) \<Rightarrow>
          (let j2 = j1\<lparr>j_cells := j_cells j1 @ [\<lparr>ac_shared = k, ac_out = out, ac_idx = fst item\<rparr>]\<rparr>;
               slot = of_nat (length (j_cells j2) - 1)
           in Some (snd (promise_then j2 p (Some (V_AllSlot slot False)) (Some (V_AllSlot slot True))), None)))"

fun all_items :: "'r program \<Rightarrow> nat \<Rightarrow> addr \<Rightarrow> (nat \<times> mvalue) list \<Rightarrow> 'r jobs \<Rightarrow> ('r jobs \<times> mvalue option) option" where
  "all_items E k out [] j = Some (j, None)"
| "all_items E k out (item # items) j =
     (case all_slots E k out item j of
        Some (j1, None) \<Rightarrow> all_items E k out items j1
      | r \<Rightarrow> r)"

definition promise_all :: "'r program \<Rightarrow> 'r jobs \<Rightarrow> mvalue list \<Rightarrow> ('r jobs \<times> (mvalue + mvalue)) option" where
  "promise_all E j items =
     (case new_pending j of (out, j1) \<Rightarrow>
        let k = length (j_results j1);
            j2 = j1\<lparr>j_results := j_results j1 @ [replicate (length items) V_Null], j_left := j_left j1 @ [of_nat (length items)]\<rparr>
        in if items = [] then
             (case new_array [] j2 of (all, j3) \<Rightarrow> map_option (\<lambda>j4. (j4, Inr (V_Promise out))) (settle j3 out all False))
           else
             map_option (\<lambda>(j3, err). (j3, case err of None \<Rightarrow> Inr (V_Promise out) | Some t \<Rightarrow> Inl t))
               (all_items E k out (enumerate 0 items) j2))"

section \<open>Well-formed states\<close>

text \<open>What may hang on a promise: the executor of a promise is made for the host and called by it,
  it is never a handler.\<close>

definition handler_ok :: "'r jobs \<Rightarrow> mvalue \<Rightarrow> bool" where
  "handler_ok j f =
     (case f of V_Resolve p \<Rightarrow> p < j_next j | V_Reject p \<Rightarrow> p < j_next j
      | V_AllSlot slot _ \<Rightarrow> unat slot < length (j_cells j) | V_PromiseExec _ \<Rightarrow> False | _ \<Rightarrow> True)"

definition opt_ok :: "'r jobs \<Rightarrow> mvalue option \<Rightarrow> bool" where
  "opt_ok j f = (case f of None \<Rightarrow> True | Some f \<Rightarrow> handler_ok j f)"

definition suspended_ok :: "'r jobs \<Rightarrow> 'r suspended \<Rightarrow> bool" where
  "suspended_ok j c \<longleftrightarrow> sc_result c < j_next j"

definition reaction_ok :: "'r jobs \<Rightarrow> then_reaction \<Rightarrow> bool" where
  "reaction_ok j r \<longleftrightarrow> (case r of (good, bad, down) \<Rightarrow> opt_ok j good \<and> opt_ok j bad \<and> down < j_next j)"

definition task_ok :: "'r jobs \<Rightarrow> 'r task \<Rightarrow> bool" where
  "task_ok j t \<longleftrightarrow>
     (case t of Resume c _ _ \<Rightarrow> suspended_ok j c | React good bad down _ _ \<Rightarrow> reaction_ok j (good, bad, down))"

definition gen_ok :: "'r jobs \<Rightarrow> 'r gen_state \<Rightarrow> bool" where
  "gen_ok j st \<longleftrightarrow> (\<forall>c. gs_coro st = Some c \<longrightarrow> suspended_ok j c) \<and> (\<forall>p. gs_pending st = Some p \<longrightarrow> p < j_next j)"

definition promise_ok :: "'r jobs \<Rightarrow> 'r promise \<Rightarrow> bool" where
  "promise_ok j q \<longleftrightarrow>
     (p_status q \<noteq> Pending \<longrightarrow> p_waiters q = [] \<and> p_reactions q = [])
     \<and> (p_status q = Fulfilled \<longrightarrow> (\<forall>i. p_value q \<noteq> V_Promise i))
     \<and> (\<forall>c\<in>set (p_waiters q). suspended_ok j c) \<and> (\<forall>r\<in>set (p_reactions q). reaction_ok j r)"

definition jobs_ok :: "'r jobs \<Rightarrow> bool" where
  "jobs_ok j \<longleftrightarrow>
     (\<forall>p. promise_ok j (j_proms j p)) \<and> (\<forall>p\<ge>j_next j. status_of j p = Pending)
     \<and> (\<forall>t\<in>set (j_tasks j). task_ok j t) \<and> (\<forall>g. gen_ok j (j_gens j g)) \<and> (\<forall>c\<in>set (j_cells j). ac_out c < j_next j)"

text \<open>What is settled stays settled, and nothing is forgotten that was made.\<close>

definition keeps :: "'r jobs \<Rightarrow> 'r jobs \<Rightarrow> bool" where
  "keeps j j' \<longleftrightarrow>
     (\<forall>p. status_of j p \<noteq> Pending \<longrightarrow> j_proms j' p = j_proms j p)
     \<and> j_next j \<le> j_next j' \<and> length (j_cells j) \<le> length (j_cells j')"

lemma keeps_refl [simp]: "keeps j j" by (simp add: keeps_def)

lemma keeps_trans: "keeps j j' \<Longrightarrow> keeps j' j'' \<Longrightarrow> keeps j j''"
  unfolding keeps_def by (metis order_trans)

lemma ok_mono:
  assumes "j_next j \<le> j_next j'" "length (j_cells j) \<le> length (j_cells j')"
  shows "handler_ok j f \<Longrightarrow> handler_ok j' f" "opt_ok j fo \<Longrightarrow> opt_ok j' fo" "suspended_ok j c \<Longrightarrow> suspended_ok j' c"
    "reaction_ok j r \<Longrightarrow> reaction_ok j' r" "task_ok j t \<Longrightarrow> task_ok j' t" "gen_ok j st \<Longrightarrow> gen_ok j' st"
    "promise_ok j q \<Longrightarrow> promise_ok j' q"
proof -
  show h: "handler_ok j f \<Longrightarrow> handler_ok j' f" for f using assms by (cases f) (auto simp: handler_ok_def)
  show o: "opt_ok j fo \<Longrightarrow> opt_ok j' fo" for fo using h by (cases fo) (auto simp: opt_ok_def)
  show s: "suspended_ok j c \<Longrightarrow> suspended_ok j' c" for c using assms by (simp add: suspended_ok_def)
  show r: "reaction_ok j r \<Longrightarrow> reaction_ok j' r" for r using o assms by (cases r) (auto simp: reaction_ok_def)
  show "task_ok j t \<Longrightarrow> task_ok j' t" using r s by (cases t) (auto simp: task_ok_def)
  show "gen_ok j st \<Longrightarrow> gen_ok j' st" using s assms by (fastforce simp: gen_ok_def)
  show "promise_ok j q \<Longrightarrow> promise_ok j' q" using s r by (simp add: promise_ok_def)
qed

lemma keeps_ok:
  assumes "keeps j j'"
  shows "handler_ok j f \<Longrightarrow> handler_ok j' f" "opt_ok j fo \<Longrightarrow> opt_ok j' fo" "suspended_ok j c \<Longrightarrow> suspended_ok j' c"
    "reaction_ok j r \<Longrightarrow> reaction_ok j' r" "task_ok j t \<Longrightarrow> task_ok j' t" "gen_ok j st \<Longrightarrow> gen_ok j' st"
    "promise_ok j q \<Longrightarrow> promise_ok j' q"
proof -
  have n: "j_next j \<le> j_next j'" "length (j_cells j) \<le> length (j_cells j')" using assms by (simp_all add: keeps_def)
  show "handler_ok j f \<Longrightarrow> handler_ok j' f" by (rule ok_mono(1) [OF n])
  show "opt_ok j fo \<Longrightarrow> opt_ok j' fo" by (rule ok_mono(2) [OF n])
  show "suspended_ok j c \<Longrightarrow> suspended_ok j' c" by (rule ok_mono(3) [OF n])
  show "reaction_ok j r \<Longrightarrow> reaction_ok j' r" by (rule ok_mono(4) [OF n])
  show "task_ok j t \<Longrightarrow> task_ok j' t" by (rule ok_mono(5) [OF n])
  show "gen_ok j st \<Longrightarrow> gen_ok j' st" by (rule ok_mono(6) [OF n])
  show "promise_ok j q \<Longrightarrow> promise_ok j' q" by (rule ok_mono(7) [OF n])
qed

lemma jobs_okD:
  assumes "jobs_ok j"
  shows "promise_ok j (j_proms j p)" "j_next j \<le> p \<Longrightarrow> status_of j p = Pending" "t \<in> set (j_tasks j) \<Longrightarrow> task_ok j t"
    "gen_ok j (j_gens j g)" "c \<in> set (j_cells j) \<Longrightarrow> ac_out c < j_next j"
  using assms unfolding jobs_ok_def by blast+

text \<open>A change of the state keeps it well formed when what it puts in is.\<close>

lemma jobs_ok_change:
  assumes ok: "jobs_ok j" and n: "j_next j \<le> j_next j'" "length (j_cells j) \<le> length (j_cells j')"
    and p: "\<And>p. j_proms j' p \<noteq> j_proms j p \<Longrightarrow> promise_ok j' (j_proms j' p) \<and> (status_of j' p \<noteq> Pending \<longrightarrow> p < j_next j')"
    and t: "\<And>t. t \<in> set (j_tasks j') \<Longrightarrow> t \<in> set (j_tasks j) \<or> task_ok j' t"
    and g: "\<And>g. j_gens j' g \<noteq> j_gens j g \<Longrightarrow> gen_ok j' (j_gens j' g)"
    and c: "\<And>c. c \<in> set (j_cells j') \<Longrightarrow> c \<in> set (j_cells j) \<or> ac_out c < j_next j'"
  shows "jobs_ok j'"
  unfolding jobs_ok_def
proof (intro conjI allI ballI impI)
  fix q
  show "promise_ok j' (j_proms j' q)"
    using p [of q] ok_mono(7) [OF n jobs_okD(1) [OF ok, of q]] by (cases "j_proms j' q = j_proms j q") auto
  show "status_of j' q = Pending" if "j_next j' \<le> q"
    using p [of q] jobs_okD(2) [OF ok, of q] n(1) that by (cases "j_proms j' q = j_proms j q") auto
next
  fix t
  assume "t \<in> set (j_tasks j')"
  then show "task_ok j' t" using t ok_mono(5) [OF n] jobs_okD(3) [OF ok] by blast
next
  fix g
  show "gen_ok j' (j_gens j' g)"
    using g [of g] ok_mono(6) [OF n jobs_okD(4) [OF ok, of g]] by (cases "j_gens j' g = j_gens j g") auto
next
  fix c
  assume "c \<in> set (j_cells j')"
  then show "ac_out c < j_next j'" using c jobs_okD(5) [OF ok] n(1) by fastforce
qed

section \<open>Settling in a well-formed state\<close>

text \<open>What a promise is settled with in the end: the value, or the promise whose settling it waits
  for.\<close>

definition adopted :: "'r jobs \<Rightarrow> mvalue \<Rightarrow> bool \<Rightarrow> addr + mvalue \<times> bool" where
  "adopted j v rejected =
     (case (if rejected then None else (case v of V_Promise i \<Rightarrow> Some i | _ \<Rightarrow> None)) of
        Some i \<Rightarrow> (if status_of j i = Pending then Inl i else Inr (p_value (j_proms j i), status_of j i = Rejected))
      | None \<Rightarrow> Inr (v, rejected))"

definition settle_state :: "'r jobs \<Rightarrow> addr \<Rightarrow> mvalue \<Rightarrow> bool \<Rightarrow> 'r jobs" where
  "settle_state j p v rejected =
     (if status_of j p \<noteq> Pending then j
      else case adopted j v rejected of
             Inl i \<Rightarrow> add_reaction i (None, None, p) j
           | Inr (v', rejected') \<Rightarrow> finish_settle j p v' rejected')"

lemma settle_plain:
  "status_of j p = Pending \<Longrightarrow> rejected \<or> (\<forall>i. v \<noteq> V_Promise i) \<Longrightarrow> settle j p v rejected = Some (finish_settle j p v rejected)"
  by (subst settle.simps) (cases v; auto)

lemma settle_returns:
  assumes "jobs_ok j"
  shows "settle j p v rejected = Some (settle_state j p v rejected)"
proof (cases "status_of j p = Pending")
  case True
  show ?thesis
  proof (cases "(if rejected then None else (case v of V_Promise i \<Rightarrow> Some i | _ \<Rightarrow> None))")
    case None
    then have "rejected \<or> (\<forall>i. v \<noteq> V_Promise i)" by (cases v) (auto split: if_splits)
    then show ?thesis using True None by (simp add: settle_plain settle_state_def adopted_def)
  next
    case (Some i)
    then have v: "v = V_Promise i" "\<not> rejected" by (cases v; auto split: if_splits)+
    have "promise_ok j (j_proms j i)" by (rule jobs_okD(1) [OF assms])
    then have "\<forall>k. p_value (j_proms j i) \<noteq> V_Promise k" if "status_of j i = Fulfilled"
      using that by (simp add: promise_ok_def)
    then show ?thesis
      using True v by (subst settle.simps) (cases "status_of j i"; simp add: settle_state_def adopted_def settle_plain)
  qed
next
  case False
  then show ?thesis by (subst settle.simps) (simp add: settle_state_def)
qed

lemma adopted_value:
  assumes "jobs_ok j" "adopted j v rejected = Inr (v', rejected')" "\<not> rejected'"
  shows "v' \<noteq> V_Promise i"
proof (cases "(if rejected then None else (case v of V_Promise i \<Rightarrow> Some i | _ \<Rightarrow> None))")
  case None
  then show ?thesis using assms(2,3) by (cases v) (auto simp: adopted_def split: if_splits)
next
  case (Some k)
  then have "status_of j k = Fulfilled" "v' = p_value (j_proms j k)"
    using assms(2,3) by (cases "status_of j k"; auto simp: adopted_def split: if_splits)+
  then show ?thesis using jobs_okD(1) [OF assms(1), of k] by (simp add: promise_ok_def)
qed

lemma add_reaction_ok:
  assumes "jobs_ok j" "status_of j p = Pending" "reaction_ok j r"
  shows "jobs_ok (add_reaction p r j)" "keeps j (add_reaction p r j)"
proof -
  have "promise_ok j ((j_proms j p)\<lparr>p_reactions := p_reactions (j_proms j p) @ [r]\<rparr>)"
    using jobs_okD(1) [OF assms(1), of p] assms(2,3) by (auto simp: promise_ok_def)
  then have "promise_ok (add_reaction p r j) ((j_proms j p)\<lparr>p_reactions := p_reactions (j_proms j p) @ [r]\<rparr>)"
    by (rule ok_mono(7) [rotated 2]) (simp_all add: add_reaction_def)
  then show "jobs_ok (add_reaction p r j)"
    using assms(2) by (intro jobs_ok_change [OF assms(1)]) (auto simp: add_reaction_def split: if_splits)
  show "keeps j (add_reaction p r j)" using assms(2) by (simp add: keeps_def add_reaction_def)
qed

lemma add_waiter_ok:
  assumes "jobs_ok j" "status_of j p = Pending" "suspended_ok j c"
  shows "jobs_ok (add_waiter p c j)" "keeps j (add_waiter p c j)"
proof -
  have "promise_ok j ((j_proms j p)\<lparr>p_waiters := p_waiters (j_proms j p) @ [c]\<rparr>)"
    using jobs_okD(1) [OF assms(1), of p] assms(2,3) by (auto simp: promise_ok_def)
  then have "promise_ok (add_waiter p c j) ((j_proms j p)\<lparr>p_waiters := p_waiters (j_proms j p) @ [c]\<rparr>)"
    by (rule ok_mono(7) [rotated 2]) (simp_all add: add_waiter_def)
  then show "jobs_ok (add_waiter p c j)"
    using assms(2) by (intro jobs_ok_change [OF assms(1)]) (auto simp: add_waiter_def split: if_splits)
  show "keeps j (add_waiter p c j)" using assms(2) by (simp add: keeps_def add_waiter_def)
qed

lemma push_tasks_ok:
  assumes "jobs_ok j" "\<forall>t\<in>set ts. task_ok j t"
  shows "jobs_ok (push_tasks ts j)" "keeps j (push_tasks ts j)"
proof -
  have "task_ok (push_tasks ts j) t" if "t \<in> set ts" for t
    by (rule ok_mono(5) [OF _ _ assms(2) [rule_format, OF that]]) (simp_all add: push_tasks_def)
  then show "jobs_ok (push_tasks ts j)" by (intro jobs_ok_change [OF assms(1)]) (auto simp: push_tasks_def)
  show "keeps j (push_tasks ts j)" by (simp add: keeps_def push_tasks_def)
qed

lemma finish_settle_ok:
  assumes ok: "jobs_ok j" and p: "status_of j p = Pending" "p < j_next j" and v: "\<not> rejected \<Longrightarrow> \<forall>i. v \<noteq> V_Promise i"
  shows "jobs_ok (finish_settle j p v rejected)" "keeps j (finish_settle j p v rejected)"
proof -
  define q where "q = (j_proms j p)\<lparr>p_status := (if rejected then Rejected else Fulfilled), p_value := v, p_waiters := [], p_reactions := []\<rparr>"
  define j1 where "j1 = j\<lparr>j_proms := (j_proms j)(p := q)\<rparr>"
  define ts where "ts = map (\<lambda>c. Resume c v rejected) (p_waiters (j_proms j p))
      @ map (\<lambda>(good, bad, down). React good bad down v rejected) (p_reactions (j_proms j p))"
  have eq: "finish_settle j p v rejected = push_tasks ts j1"
    by (simp add: finish_settle_def Let_def q_def j1_def ts_def)
  have "promise_ok j1 q" using v by (auto simp: promise_ok_def q_def)
  then have j: "jobs_ok j1" using p(2) by (intro jobs_ok_change [OF ok]) (auto simp: j1_def split: if_splits)
  have k: "keeps j j1" using p(1) by (simp add: keeps_def j1_def)
  have "suspended_ok j1 c" if "c \<in> set (p_waiters (j_proms j p))" for c
    using jobs_okD(1) [OF ok, of p] that by (auto simp: promise_ok_def intro: keeps_ok(3) [OF k])
  moreover have "reaction_ok j1 r" if "r \<in> set (p_reactions (j_proms j p))" for r
    using jobs_okD(1) [OF ok, of p] that by (auto simp: promise_ok_def simp del: split_paired_All intro: keeps_ok(4) [OF k])
  ultimately have "\<forall>t\<in>set ts. task_ok j1 t" by (auto simp: ts_def task_ok_def)
  from push_tasks_ok [OF j this] k show "jobs_ok (finish_settle j p v rejected)" "keeps j (finish_settle j p v rejected)"
    unfolding eq by (auto intro: keeps_trans)
qed

lemma settle_ok:
  assumes ok: "jobs_ok j" and p: "p < j_next j"
  shows "jobs_ok (settle_state j p v rejected)" "keeps j (settle_state j p v rejected)"
proof -
  have "jobs_ok (settle_state j p v rejected) \<and> keeps j (settle_state j p v rejected)"
  proof (cases "status_of j p = Pending")
    case True
    show ?thesis
    proof (cases "adopted j v rejected")
      case (Inl i)
      then have "status_of j i = Pending" by (cases v) (auto simp: adopted_def split: if_splits)
      moreover have "reaction_ok j (None, None, p)" using p by (simp add: reaction_ok_def opt_ok_def)
      ultimately show ?thesis using True Inl add_reaction_ok [OF ok] by (simp add: settle_state_def)
    next
      case (Inr r)
      obtain v' r' where r: "r = (v', r')" by fastforce
      have "jobs_ok (finish_settle j p v' r') \<and> keeps j (finish_settle j p v' r')"
        using finish_settle_ok [OF ok True p, of r' v'] adopted_value [OF ok Inr [unfolded r]] by blast
      then show ?thesis using True Inr r by (simp add: settle_state_def)
    qed
  qed (use ok in \<open>simp add: settle_state_def\<close>)
  then show "jobs_ok (settle_state j p v rejected)" "keeps j (settle_state j p v rejected)" by blast+
qed

section \<open>What a program may do\<close>

text \<open>The operations the program reaches: it makes promises, settles those it has, hangs reactions
  and coroutines on them, keeps its generators and arrays, and may run a queue of its own while it
  loads a module.\<close>

inductive job_step :: "'r jobs \<Rightarrow> 'r jobs \<Rightarrow> bool" where
  makes: "job_step j (snd (new_pending j))"
| settles: "p < j_next j \<Longrightarrow> settle j p v rejected = Some j' \<Longrightarrow> job_step j j'"
| chains: "opt_ok j good \<Longrightarrow> opt_ok j bad \<Longrightarrow> job_step j (snd (promise_then j p good bad))"
| awaits: "suspended_ok j c \<Longrightarrow> job_step j (await_on j p c)"
| yields: "gen_ok j st \<Longrightarrow> job_step j (set_gen g st j)"
| counts: "length (j_cells j) \<le> length cells \<Longrightarrow> (\<forall>c\<in>set cells. ac_out c < j_next j) \<Longrightarrow>
    job_step j (j\<lparr>j_cells := cells, j_results := results, j_left := left\<rparr>)"
| stores: "j_next j \<le> n \<Longrightarrow> job_step j (j\<lparr>j_arrays := arrays, j_next := n\<rparr>)"
| takes: "j_tasks j = t # ts \<Longrightarrow> job_step j (j\<lparr>j_tasks := ts\<rparr>)"

inductive job_run :: "'r jobs \<Rightarrow> 'r jobs \<Rightarrow> bool" where
  stays: "job_run j j"
| goes: "job_run j j' \<Longrightarrow> job_step j' j'' \<Longrightarrow> job_run j j''"

lemma new_pending_ok:
  assumes "jobs_ok j"
  shows "jobs_ok (snd (new_pending j))" "keeps j (snd (new_pending j))" "fst (new_pending j) < j_next (snd (new_pending j))"
    "status_of (snd (new_pending j)) (fst (new_pending j)) = Pending"
proof -
  show "jobs_ok (snd (new_pending j))"
    by (intro jobs_ok_change [OF assms]) (auto simp: new_pending_def fresh_promise_def promise_ok_def split: if_splits)
  show "keeps j (snd (new_pending j))"
    using jobs_okD(2) [OF assms, of "j_next j"] by (simp add: keeps_def new_pending_def)
qed (simp_all add: new_pending_def fresh_promise_def)

lemma promise_then_ok:
  assumes ok: "jobs_ok j" and h: "opt_ok j good" "opt_ok j bad"
  shows "jobs_ok (snd (promise_then j p good bad))" "keeps j (snd (promise_then j p good bad))"
    "fst (promise_then j p good bad) < j_next (snd (promise_then j p good bad))"
proof -
  obtain down j1 where n: "new_pending j = (down, j1)" by fastforce
  note new = new_pending_ok [OF ok, unfolded n, simplified]
  have r: "reaction_ok j1 (good, bad, down)" using keeps_ok(2) [OF new(2)] h new(3) by (simp add: reaction_ok_def)
  then have t: "\<forall>t\<in>set [React good bad down v rejected]. task_ok j1 t" for v rejected by (simp add: task_ok_def)
  have "jobs_ok (snd (promise_then j p good bad)) \<and> keeps j1 (snd (promise_then j p good bad))"
    using add_reaction_ok [OF new(1) _ r] push_tasks_ok [OF new(1) t]
    by (cases "status_of j1 p") (simp_all add: promise_then_def n)
  then show "jobs_ok (snd (promise_then j p good bad))" "keeps j (snd (promise_then j p good bad))"
    using new(2) keeps_trans by blast+
  show "fst (promise_then j p good bad) < j_next (snd (promise_then j p good bad))"
    using new(3) by (simp add: promise_then_def n add_reaction_def push_tasks_def split: status.split)
qed

lemma await_on_ok:
  assumes ok: "jobs_ok j" and c: "suspended_ok j c"
  shows "jobs_ok (await_on j p c)" "keeps j (await_on j p c)"
proof -
  have t: "\<forall>t\<in>set [Resume c v rejected]. task_ok j t" for v rejected using c by (simp add: task_ok_def)
  show "jobs_ok (await_on j p c)" "keeps j (await_on j p c)"
    using add_waiter_ok [OF ok _ c] push_tasks_ok [OF ok t] by (cases "status_of j p"; simp add: await_on_def)+
qed

lemma set_gen_ok:
  assumes "jobs_ok j" "gen_ok j st"
  shows "jobs_ok (set_gen g st j)" "keeps j (set_gen g st j)"
proof -
  have "gen_ok (set_gen g st j) st" by (rule ok_mono(6) [OF _ _ assms(2)]) (simp_all add: set_gen_def)
  then show "jobs_ok (set_gen g st j)" by (intro jobs_ok_change [OF assms(1)]) (auto simp: set_gen_def split: if_splits)
  show "keeps j (set_gen g st j)" by (simp add: keeps_def set_gen_def)
qed

lemma job_step_ok: "job_step j j' \<Longrightarrow> jobs_ok j \<Longrightarrow> jobs_ok j' \<and> keeps j j'"
proof (induction rule: job_step.induct)
  case (settles p j v rejected j')
  then show ?case using settle_ok [OF settles(3,1)] settle_returns [OF settles(3), of p v rejected] by auto
next
  case (counts j cells results left)
  then show ?case
    by (intro conjI jobs_ok_change [OF counts.prems]) (auto simp: keeps_def)
next
  case (stores j n arrays)
  then show ?case by (intro conjI jobs_ok_change [OF stores.prems]) (auto simp: keeps_def)
next
  case (takes j t ts)
  then show ?case by (intro conjI jobs_ok_change [OF takes.prems]) (auto simp: keeps_def)
qed (simp_all add: new_pending_ok promise_then_ok await_on_ok set_gen_ok)

lemma job_run_ok: "job_run j j' \<Longrightarrow> jobs_ok j \<Longrightarrow> jobs_ok j' \<and> keeps j j'"
proof (induction rule: job_run.induct)
  case (goes j j' j'')
  then show ?case using job_step_ok [OF goes(2)] keeps_trans [of j j' j''] by blast
qed simp

text \<open>A program acts through these operations only.\<close>

definition program_ok :: "'r program \<Rightarrow> bool" where
  "program_ok E \<longleftrightarrow>
     (\<forall>j c resumed. job_run j (fst (run_coro E j c resumed)))
     \<and> (\<forall>j f args. job_run j (fst (run_call E j f args)))
     \<and> (\<forall>j h name args. job_run j (fst (web_call E j h name args)))"

section \<open>The operations keep the state well formed\<close>

definition goes_well :: "'r jobs \<Rightarrow> ('r jobs \<times> 'a) option \<Rightarrow> bool" where
  "goes_well j r \<longleftrightarrow> (\<exists>j' a. r = Some (j', a) \<and> jobs_ok j' \<and> keeps j j')"

lemma goes_wellI: "r = Some (j', a) \<Longrightarrow> jobs_ok j' \<Longrightarrow> keeps j j' \<Longrightarrow> goes_well j r"
  by (auto simp: goes_well_def)

lemma goes_well_map: "goes_well j r \<Longrightarrow> goes_well j (map_option (\<lambda>(j', a). (j', f a)) r)"
  by (auto simp: goes_well_def)

lemma goes_well_trans: "keeps j j1 \<Longrightarrow> goes_well j1 r \<Longrightarrow> goes_well j r"
  unfolding goes_well_def using keeps_trans by blast

lemma settled_well: "jobs_ok j \<Longrightarrow> p < j_next j \<Longrightarrow> goes_well j (settled (settle j p v rejected))"
  by (simp add: settled_def settle_returns goes_well_def settle_ok)

lemma settle_map_well: "jobs_ok j \<Longrightarrow> p < j_next j \<Longrightarrow> goes_well j (map_option (\<lambda>j'. (j', a)) (settle j p v rejected))"
  by (simp add: settle_returns goes_well_def settle_ok)

lemma settle_pending_well:
  "jobs_ok j \<Longrightarrow> (\<forall>p. po = Some p \<longrightarrow> p < j_next j) \<Longrightarrow> goes_well j (settle_pending j po v rejected)"
  using settled_well by (cases po) (auto simp: settle_pending_def intro: goes_wellI)

lemma run_coro_ok: "program_ok E \<Longrightarrow> jobs_ok j \<Longrightarrow> run_coro E j c resumed = (j', rest, out) \<Longrightarrow> jobs_ok j' \<and> keeps j j'"
  using job_run_ok unfolding program_ok_def by (metis fst_conv)

lemma run_call_ok: "program_ok E \<Longrightarrow> jobs_ok j \<Longrightarrow> jobs_ok (fst (run_call E j f args)) \<and> keeps j (fst (run_call E j f args))"
  using job_run_ok unfolding program_ok_def by blast

lemma web_call_ok: "program_ok E \<Longrightarrow> jobs_ok j \<Longrightarrow> jobs_ok (fst (web_call E j h name args)) \<and> keeps j (fst (web_call E j h name args))"
  using job_run_ok unfolding program_ok_def by blast

lemma new_array_ok:
  assumes "jobs_ok j"
  shows "jobs_ok (snd (new_array vs j))" "keeps j (snd (new_array vs j))"
proof -
  show "jobs_ok (snd (new_array vs j))" by (intro jobs_ok_change [OF assms]) (auto simp: new_array_def)
  show "keeps j (snd (new_array vs j))" by (simp add: keeps_def new_array_def)
qed

lemma as_promise_well:
  assumes E: "program_ok E" and ok: "jobs_ok j"
  shows "goes_well j (as_promise E j v)"
proof -
  obtain p j1 where n: "new_pending j = (p, j1)" by fastforce
  note new = new_pending_ok [OF ok, unfolded n, simplified]
  show ?thesis
  proof (cases "\<exists>h. v = V_JsRef h")
    case True
    then obtain h where h: "v = V_JsRef h" by blast
    obtain j2 r where w: "web_call E j1 h (str ''then'') [V_Resolve p, V_Reject p] = (j2, r)" by fastforce
    have j2: "jobs_ok j2" "keeps j j2"
      using web_call_ok [OF E new(1), of h "str ''then''" "[V_Resolve p, V_Reject p]"] w keeps_trans [OF new(2)] by auto
    show ?thesis using h w n by (cases r) (auto simp: as_promise_def intro: goes_wellI [OF _ j2])
  next
    case False
    have s: "goes_well j (map_option (\<lambda>j2. (j2, Inr p)) (settle j1 p v False))"
      by (rule goes_well_trans [OF new(2) settle_map_well [OF new(1,3)]])
    show ?thesis using False s n ok by (cases v) (auto simp: as_promise_def intro: goes_wellI)
  qed
qed

lemma suspend_well:
  assumes E: "program_ok E" and ok: "jobs_ok j" and c: "suspended_ok j c"
  shows "goes_well j (suspend E j v c)"
proof -
  obtain j1 r where a: "as_promise E j v = Some (j1, r)" "jobs_ok j1" "keeps j j1"
    using as_promise_well [OF E ok, of v] unfolding goes_well_def by blast
  have c1: "suspended_ok j1 c" by (rule keeps_ok(3) [OF a(3) c])
  show ?thesis
  proof (cases r)
    case (Inl t)
    then show ?thesis using a by (auto simp: suspend_def intro: goes_wellI)
  next
    case (Inr p)
    have "keeps j (await_on j1 p c)" by (rule keeps_trans [OF a(3) await_on_ok(2) [OF a(2) c1]])
    then show ?thesis using a Inr await_on_ok(1) [OF a(2) c1, of p] by (auto simp: suspend_def intro: goes_wellI)
  qed
qed

lemma drive_gen_well:
  assumes E: "program_ok E" and ok: "jobs_ok j" and c: "suspended_ok j c"
  shows "goes_well j (drive_gen E j g c resumed)"
proof -
  obtain j1 rest out where r: "run_coro E j c resumed = (j1, rest, out)" using prod_cases3 by blast
  have j1: "jobs_ok j1" "keeps j j1" using run_coro_ok [OF E ok r] by blast+
  define st where "st = j_gens j1 g"
  have st: "gen_ok j1 st" using jobs_okD(4) [OF j1(1)] by (simp add: st_def)
  have c1: "suspended_ok j1 (c\<lparr>sc_rest := rest\<rparr>)" using keeps_ok(3) [OF j1(2) c] by (simp add: suspended_ok_def)
  have p: "\<forall>p. gs_pending st = Some p \<longrightarrow> p < j_next j1" using st by (simp add: gen_ok_def)
  have well: "goes_well j (settle_pending (set_gen g st' j1) (gs_pending st) v rejected)" if "gen_ok j1 st'" for st' v rejected
    using settle_pending_well [OF set_gen_ok(1) [OF j1(1) that]] p set_gen_ok(2) [OF j1(1) that]
    by (intro goes_well_trans [OF keeps_trans [OF j1(2) set_gen_ok(2) [OF j1(1) that, of g]]]) (auto simp: set_gen_def)
  have "goes_well j (suspend E (set_gen g (st\<lparr>gs_pending := gs_pending st\<rparr>) j1) v (c\<lparr>sc_rest := rest\<rparr>))" for v
  proof -
    have s: "gen_ok j1 (st\<lparr>gs_pending := gs_pending st\<rparr>)" using st by (simp add: gen_ok_def)
    show ?thesis
      by (rule goes_well_trans [OF keeps_trans [OF j1(2) set_gen_ok(2) [OF j1(1) s, of g]]
            suspend_well [OF E set_gen_ok(1) [OF j1(1) s] keeps_ok(3) [OF set_gen_ok(2) [OF j1(1) s] c1]]])
  qed
  moreover have "gen_ok j1 (st\<lparr>gs_pending := None, gs_coro := Some (c\<lparr>sc_rest := rest\<rparr>)\<rparr>)" "gen_ok j1 (discard (st\<lparr>gs_pending := None\<rparr>))"
    using c1 by (simp_all add: gen_ok_def discard_def)
  ultimately show ?thesis
    using well by (cases out) (simp_all add: drive_gen_def r Let_def st_def [symmetric])
qed

lemma drive_well:
  assumes E: "program_ok E" and ok: "jobs_ok j" and c: "suspended_ok j c"
  shows "goes_well j (drive E stray j c resumed)"
proof (cases "sc_gen c")
  case None
  obtain j1 rest out where r: "run_coro E j c resumed = (j1, rest, out)" using prod_cases3 by blast
  have j1: "jobs_ok j1" "keeps j j1" using run_coro_ok [OF E ok r] by blast+
  have c1: "suspended_ok j1 (c\<lparr>sc_rest := rest\<rparr>)" "sc_result c < j_next j1"
    using keeps_ok(3) [OF j1(2) c] by (simp_all add: suspended_ok_def)
  show ?thesis
    using goes_well_trans [OF j1(2) suspend_well [OF E j1(1) c1(1)]] goes_well_trans [OF j1(2) settled_well [OF j1(1) c1(2)]]
    by (cases out) (simp_all add: drive_def None r)
qed (use assms drive_gen_well in \<open>simp add: drive_def\<close>)

lemma call_slot_well:
  assumes ok: "jobs_ok j" and s: "slot < length (j_cells j)"
  shows "goes_well j (map_option (\<lambda>j'. (j', a)) (call_slot j slot is_reject v))"
proof -
  define c where "c = j_cells j ! slot"
  define left where "left = j_left j ! ac_shared c - 1"
  define j1 where "j1 = j\<lparr>j_results := (j_results j)[ac_shared c := (j_results j ! ac_shared c)[ac_idx c := v]],
    j_left := (j_left j)[ac_shared c := left]\<rparr>"
  have out: "ac_out c < j_next j" using jobs_okD(5) [OF ok] s by (simp add: c_def)
  have j1: "jobs_ok j1" "keeps j j1"
    by (intro jobs_ok_change [OF ok], auto simp: j1_def keeps_def)
  obtain all j2 where a: "new_array (j_results j1 ! ac_shared c) j1 = (all, j2)" by fastforce
  have j2: "jobs_ok j2" "keeps j j2"
    using new_array_ok [OF j1(1), of "j_results j1 ! ac_shared c"] keeps_trans [OF j1(2)] by (simp_all add: a)
  have "ac_out c < j_next j2" using out j2(2) by (simp add: keeps_def)
  then have "goes_well j (map_option (\<lambda>j'. (j', a)) (settle j2 (ac_out c) all False))"
    by (intro goes_well_trans [OF j2(2) settle_map_well [OF j2(1)]])
  moreover have "call_slot j slot is_reject v =
      (if is_reject then settle j (ac_out c) v True else if left = 0 then settle j2 (ac_out c) all False else Some j1)"
    unfolding call_slot_def Let_def c_def [symmetric] left_def [symmetric] j1_def [symmetric] a by simp
  ultimately show ?thesis using settle_map_well [OF ok out] j1 by (auto intro: goes_wellI)
qed

lemma call_value_well:
  assumes E: "program_ok E" and ok: "jobs_ok j" and f: "handler_ok j f"
  shows "goes_well j (call_value E j f args)"
proof -
  have w: "goes_well j (Some (web_call E j h [] args))" for h
    using web_call_ok [OF E ok, of h "[]" args] by (cases "web_call E j h [] args") (auto intro: goes_wellI)
  have c: "goes_well j (Some (run_call E j f args))"
    using run_call_ok [OF E ok, of f args] by (cases "run_call E j f args") (auto intro: goes_wellI)
  show ?thesis
    using f w c settle_map_well [OF ok] call_slot_well [OF ok]
    by (cases f) (auto simp: call_value_def handler_ok_def intro: goes_wellI)
qed

lemma perform_well:
  assumes E: "program_ok E" and ok: "jobs_ok j" and t: "task_ok j t"
  shows "goes_well j (perform E stray t j)"
proof (cases t)
  case (Resume c v rejected)
  then show ?thesis using t drive_well [OF E ok] by (simp add: perform_def task_ok_def)
next
  case (React good bad down v rejected)
  have h: "opt_ok j (if rejected then bad else good)" "down < j_next j"
    using t React by (auto simp: task_ok_def reaction_ok_def)
  show ?thesis
  proof (cases "if rejected then bad else good")
    case None
    then show ?thesis using React settled_well [OF ok h(2)] by (simp add: perform_def)
  next
    case (Some f)
    then obtain j1 r where c: "call_value E j f [v] = Some (j1, r)" "jobs_ok j1" "keeps j j1"
      using call_value_well [OF E ok, of f "[v]"] h(1) unfolding goes_well_def opt_ok_def by auto
    have "down < j_next j1" using h(2) c(3) by (simp add: keeps_def)
    then show ?thesis
      using Some React c goes_well_trans [OF c(3) settled_well [OF c(2)]] by (cases r) (simp_all add: perform_def)
  qed
qed

lemma take_ok:
  assumes "jobs_ok j" "j_tasks j = t # ts"
  shows "jobs_ok (j\<lparr>j_tasks := ts\<rparr>)" "keeps j (j\<lparr>j_tasks := ts\<rparr>)" "task_ok (j\<lparr>j_tasks := ts\<rparr>) t"
proof -
  have "job_step j (j\<lparr>j_tasks := ts\<rparr>)" using assms(2) by (rule job_step.takes)
  then show "jobs_ok (j\<lparr>j_tasks := ts\<rparr>)" "keeps j (j\<lparr>j_tasks := ts\<rparr>)" using job_step_ok assms(1) by blast+
  then show "task_ok (j\<lparr>j_tasks := ts\<rparr>) t" using keeps_ok(5) jobs_okD(3) [OF assms(1)] assms(2) by (metis list.set_intros(1))
qed

lemma drain_empty: "j_tasks j = [] \<Longrightarrow> drain_loop E stray runaway k j = Some (j, None)"
  by (subst drain_loop.simps) simp

lemma drain_limit: "j_tasks j = t # ts \<Longrightarrow> drain_loop E stray runaway 0 j = Some (j\<lparr>j_tasks := ts\<rparr>, Some runaway)"
  by (subst drain_loop.simps) simp

lemma drain_next:
  "j_tasks j = t # ts \<Longrightarrow> drain_loop E stray runaway (Suc k) j =
     (case perform E stray t (j\<lparr>j_tasks := ts\<rparr>) of
        None \<Rightarrow> None
      | Some (j2, Some err) \<Rightarrow> Some (j2, Some err)
      | Some (j2, None) \<Rightarrow> drain_loop E stray runaway k j2)"
  by (subst drain_loop.simps) simp

lemma drain_loop_well:
  assumes E: "program_ok E"
  shows "jobs_ok j \<Longrightarrow> goes_well j (drain_loop E stray runaway k j)
    \<and> (\<forall>j'. drain_loop E stray runaway k j = Some (j', None) \<longrightarrow> j_tasks j' = [])"
proof (induction k arbitrary: j)
  case 0
  then show ?case
    using take_ok(1,2) [OF 0] by (cases "j_tasks j") (auto simp: drain_empty drain_limit intro: goes_wellI)
next
  case (Suc k)
  show ?case
  proof (cases "j_tasks j")
    case Nil
    then show ?thesis using Suc.prems by (auto simp: drain_empty intro: goes_wellI)
  next
    case (Cons t ts)
    note tk = take_ok [OF Suc.prems Cons]
    obtain j2 err where p: "perform E stray t (j\<lparr>j_tasks := ts\<rparr>) = Some (j2, err)" "jobs_ok j2" "keeps (j\<lparr>j_tasks := ts\<rparr>) j2"
      using perform_well [OF E tk(1,3), of stray] unfolding goes_well_def by blast
    have k: "keeps j j2" by (rule keeps_trans [OF tk(2) p(3)])
    show ?thesis
      using Suc.IH [OF p(2)] goes_well_trans [OF k] goes_wellI [OF refl p(2) k]
      by (cases err) (auto simp: drain_next [OF Cons] p(1))
  qed
qed

section \<open>What hangs on a promise runs once\<close>

text \<open>The work the engine owes: what hangs on the promises that are still pending, and what is
  queued.  What hangs on a settled promise would never run, and does not count.\<close>

definition hanging :: "'r promise \<Rightarrow> ('r suspended + then_reaction) multiset" where
  "hanging q = (if p_status q = Pending then image_mset Inl (mset (p_waiters q)) + image_mset Inr (mset (p_reactions q)) else {#})"

definition task_work :: "'r task \<Rightarrow> 'r suspended + then_reaction" where
  "task_work t = (case t of Resume c _ _ \<Rightarrow> Inl c | React good bad down _ _ \<Rightarrow> Inr (good, bad, down))"

definition owed :: "'r jobs \<Rightarrow> ('r suspended + then_reaction) multiset" where
  "owed j = image_mset task_work (mset (j_tasks j)) + (\<Sum>p<j_next j. hanging (j_proms j p))"










section \<open>What the engine promises\<close>

text \<open>
  C35: draining the queue returns within the limit, whatever the program does through the engine's
  operations: every promise that was settled has the state and the value it had, the state is well
  formed, and without an error the queue is empty.
\<close>

theorem promises_settle_once:
  assumes "program_ok E" "jobs_ok j"
  shows "\<exists>j' err. drain_tasks E stray runaway j = Some (j', err) \<and> jobs_ok j'
    \<and> (\<forall>p. status_of j p \<noteq> Pending \<longrightarrow> j_proms j' p = j_proms j p)
    \<and> (err = None \<longrightarrow> j_tasks j' = [])"
  using drain_loop_well [OF assms, of stray runaway max_tasks]
  by (fastforce simp: drain_tasks_def goes_well_def keeps_def)






text \<open>A settled promise hands its value to what hangs on it, in the order it was hung there.\<close>

lemma settled_queue_order:
  "status_of j p = Pending \<Longrightarrow> rejected \<or> (\<forall>i. v \<noteq> V_Promise i) \<Longrightarrow>
     settle j p v rejected = Some (j\<lparr>
       j_proms := (j_proms j)(p := (j_proms j p)\<lparr>p_status := (if rejected then Rejected else Fulfilled), p_value := v, p_waiters := [], p_reactions := []\<rparr>),
       j_tasks := j_tasks j @ map (\<lambda>c. Resume c v rejected) (p_waiters (j_proms j p))
         @ map (\<lambda>(good, bad, down). React good bad down v rejected) (p_reactions (j_proms j p))\<rparr>)"
  by (simp add: settle_plain finish_settle_def Let_def push_tasks_def)

text \<open>A promise resolved with itself waits for itself, and one that waits for another can still be
  settled by a second call.\<close>

lemma self_resolved_waits:
  "status_of j p = Pending \<Longrightarrow> settle j p (V_Promise p) False = Some (add_reaction p (None, None, p) j)"
  by (subst settle.simps) simp

lemma adopting_not_locked_in:
  assumes "status_of j p = Pending" "status_of j i = Pending" "i \<noteq> p" "\<forall>k. v \<noteq> V_Promise k"
  shows "\<exists>j1 j2. settle j p (V_Promise i) False = Some j1 \<and> settle j1 p v False = Some j2
    \<and> status_of j2 p = Fulfilled \<and> p_value (j_proms j2 p) = v"
proof -
  let ?j = "add_reaction i (None, None, p) j"
  have "settle j p (V_Promise i) False = Some ?j" using assms by (subst settle.simps) simp
  moreover have "settle ?j p v False = Some (finish_settle ?j p v False)"
    using assms by (intro settle_plain) (auto simp: add_reaction_def)
  moreover have "status_of (finish_settle ?j p v False) p = Fulfilled \<and> p_value (j_proms (finish_settle ?j p v False) p) = v"
    by (simp add: finish_settle_def Let_def push_tasks_def)
  ultimately show ?thesis by blast
qed

text \<open>The task the budget runs out on is taken off the queue and not run.\<close>

lemma runaway_drops_a_task:
  "j_tasks j = t # ts \<Longrightarrow> owed j = owed (j\<lparr>j_tasks := ts\<rparr>) + {#task_work t#}
     \<and> drain_loop E stray runaway 0 j = Some (j\<lparr>j_tasks := ts\<rparr>, Some runaway)"
  by (simp add: drain_limit owed_def)

section \<open>A generator that has ended stays ended\<close>

text \<open>The states a run comes to: a task is performed, or a generator is asked for its next value.\<close>

inductive later :: "'r program \<Rightarrow> mvalue \<Rightarrow> 'r jobs \<Rightarrow> 'r jobs \<Rightarrow> bool" for E stray where
  now: "later E stray j j"
| performs: "later E stray j j' \<Longrightarrow> j_tasks j' = t # ts \<Longrightarrow> perform E stray t (j'\<lparr>j_tasks := ts\<rparr>) = Some (j'', err) \<Longrightarrow>
    later E stray j j''"
| asks: "later E stray j j' \<Longrightarrow> gen_next_async E j' g = Some (j'', r) \<Longrightarrow> later E stray j j''"

text \<open>The program's own part of a run: no operation of the engine takes back that a generator is
  done.\<close>

definition never_revives :: "addr \<Rightarrow> 'r program \<Rightarrow> bool" where
  "never_revives g E \<longleftrightarrow>
     (\<forall>j c resumed. gs_done (j_gens j g) \<longrightarrow> gs_done (j_gens (fst (run_coro E j c resumed)) g))
     \<and> (\<forall>j f args. gs_done (j_gens j g) \<longrightarrow> gs_done (j_gens (fst (run_call E j f args)) g))
     \<and> (\<forall>j h name args. gs_done (j_gens j g) \<longrightarrow> gs_done (j_gens (fst (web_call E j h name args)) g))"

lemma never_revivesD:
  assumes "never_revives g E" "gs_done (j_gens j g)"
  shows "run_coro E j c resumed = (j', rest, out) \<Longrightarrow> gs_done (j_gens j' g)"
    "run_call E j f args = (j', r) \<Longrightarrow> gs_done (j_gens j' g)"
    "web_call E j h name args = (j', r) \<Longrightarrow> gs_done (j_gens j' g)"
  using assms unfolding never_revives_def by (metis fst_conv)+

lemma parts_gens [simp]:
  "j_gens (add_reaction p r j) = j_gens j" "j_gens (add_waiter p c j) = j_gens j" "j_gens (push_tasks ts j) = j_gens j"
  "j_gens (finish_settle j p v rejected) = j_gens j" "j_gens (snd (new_pending j)) = j_gens j"
  "j_gens (snd (promise_then j p good bad)) = j_gens j" "j_gens (await_on j p c) = j_gens j"
  "j_gens (snd (new_array vs j)) = j_gens j"
  by (simp_all add: add_reaction_def add_waiter_def push_tasks_def finish_settle_def Let_def new_pending_def promise_then_def
      await_on_def new_array_def split: status.split)

lemma settle_gens: "settle j p v rejected = Some j' \<Longrightarrow> j_gens j' = j_gens j"
  by (erule settle.raw_induct [rotated]) (auto split: if_splits option.splits status.splits mvalue.splits)

lemma settled_done: "settled (settle j p v rejected) = Some (j', err) \<Longrightarrow> j_gens j' = j_gens j"
  by (auto simp: settled_def dest: settle_gens)

lemma settle_pending_done: "settle_pending j po v rejected = Some (j', err) \<Longrightarrow> j_gens j' = j_gens j"
  by (cases po) (auto simp: settle_pending_def dest: settled_done)

lemma as_promise_done:
  assumes E: "never_revives g E" and d: "gs_done (j_gens j g)" and r: "as_promise E j v = Some (j', r)"
  shows "gs_done (j_gens j' g)"
proof -
  obtain p j1 where n: "new_pending j = (p, j1)" by fastforce
  then have d1: "gs_done (j_gens j1 g)" using parts_gens(5) [of j] d by simp
  show ?thesis
  proof (cases "\<exists>h. v = V_JsRef h")
    case True
    then obtain h j2 a where h: "v = V_JsRef h" and w: "web_call E j1 h (str ''then'') [V_Resolve p, V_Reject p] = (j2, a)" by fastforce
    have "gs_done (j_gens j2 g)" by (rule never_revivesD(3) [OF E d1 w])
    then show ?thesis using r h w n by (cases a) (auto simp: as_promise_def)
  next
    case False
    then show ?thesis using r n d d1 by (cases v) (auto simp: as_promise_def dest: settle_gens)
  qed
qed

lemma suspend_done:
  assumes "never_revives g E" "gs_done (j_gens j g)" "suspend E j v c = Some (j', err)"
  shows "gs_done (j_gens j' g)"
proof -
  obtain j1 r where a: "as_promise E j v = Some (j1, r)" using assms(3) by (auto simp: suspend_def split: option.splits)
  then have "gs_done (j_gens j1 g)" by (rule as_promise_done [OF assms(1,2)])
  then show ?thesis using assms(3) a by (cases r) (auto simp: suspend_def)
qed

lemma drive_gen_done:
  assumes E: "never_revives g E" and d: "gs_done (j_gens j g)" and r: "drive_gen E j g' c resumed = Some (j', err)"
  shows "gs_done (j_gens j' g)"
proof -
  obtain j1 rest out where c: "run_coro E j c resumed = (j1, rest, out)" using prod_cases3 by blast
  define st where "st = j_gens j1 g'"
  have d1: "gs_done (j_gens j1 g)" by (rule never_revivesD(1) [OF E d c])
  have s: "gs_done (j_gens (set_gen g' st' j1) g)" if "gs_done st' \<or> \<not> gs_done st" for st'
    using that d1 by (auto simp: set_gen_def st_def)
  have p: "gs_done (j_gens j' g)"
    if "settle_pending (set_gen g' st' j1) po v rejected = Some (j', err)" "gs_done st' \<or> \<not> gs_done st" for st' po v rejected
    using s [OF that(2)] settle_pending_done [OF that(1)] by simp
  note dg = r [unfolded drive_gen_def c Let_def prod.case st_def [symmetric]]
  show ?thesis
  proof (cases out)
    case (Flow_Done v)
    then show ?thesis using p [of "discard (st\<lparr>gs_pending := None\<rparr>)"] dg by (simp add: discard_def)
  next
    case (Flow_Yield v)
    then show ?thesis using p [of "st\<lparr>gs_pending := None, gs_coro := Some (c\<lparr>sc_rest := rest\<rparr>)\<rparr>"] dg by simp
  next
    case (Flow_Await v)
    have "gs_done (j_gens (set_gen g' (st\<lparr>gs_pending := gs_pending st\<rparr>) j1) g)" by (rule s) simp
    then show ?thesis using suspend_done [OF E] Flow_Await dg by simp
  next
    case (Flow_Throw t)
    then show ?thesis using p [of "discard (st\<lparr>gs_pending := None\<rparr>)"] dg by (simp add: discard_def)
  qed
qed

lemma drive_done:
  assumes E: "never_revives g E" and d: "gs_done (j_gens j g)" and r: "drive E stray j c resumed = Some (j', err)"
  shows "gs_done (j_gens j' g)"
proof (cases "sc_gen c")
  case None
  obtain j1 rest out where c: "run_coro E j c resumed = (j1, rest, out)" using prod_cases3 by blast
  have d1: "gs_done (j_gens j1 g)" by (rule never_revivesD(1) [OF E d c])
  show ?thesis
    using r d1 None suspend_done [OF E d1] by (cases out) (auto simp: drive_def c dest: settled_done)
next
  case (Some g')
  then show ?thesis using r drive_gen_done [OF E d] by (simp add: drive_def)
qed

lemma call_slot_gens: "call_slot j slot is_reject v = Some j' \<Longrightarrow> j_gens j' = j_gens j"
  by (auto simp: call_slot_def Let_def case_prod_unfold dest: settle_gens split: if_splits)

lemma call_value_done:
  assumes E: "never_revives g E" and d: "gs_done (j_gens j g)" and r: "call_value E j f args = Some (j', res)"
  shows "gs_done (j_gens j' g)"
  using r d never_revivesD(2,3) [OF E d]
  by (cases f) (auto simp: call_value_def dest: settle_gens call_slot_gens)

lemma perform_done:
  assumes E: "never_revives g E" and d: "gs_done (j_gens j g)" and r: "perform E stray t j = Some (j', err)"
  shows "gs_done (j_gens j' g)"
proof (cases t)
  case (Resume c v rejected)
  then show ?thesis using r drive_done [OF E d] by (simp add: perform_def)
next
  case (React good bad down v rejected)
  show ?thesis
  proof (cases "if rejected then bad else good")
    case None
    then show ?thesis using r React d by (auto simp: perform_def dest: settled_done)
  next
    case (Some f)
    then obtain j1 res where c: "call_value E j f [v] = Some (j1, res)"
      using r React by (auto simp: perform_def split: option.splits)
    then have "gs_done (j_gens j1 g)" by (rule call_value_done [OF E d])
    then show ?thesis using r React Some c by (cases res) (auto simp: perform_def dest: settled_done)
  qed
qed

lemma gen_next_done:
  assumes E: "never_revives g E" and d: "gs_done (j_gens j g)" and r: "gen_next_async E j g' = Some (j', res)"
  shows "gs_done (j_gens j' g)"
proof -
  obtain p j1 where n: "new_pending j = (p, j1)" by fastforce
  then have d1: "j_gens j1 = j_gens j" using parts_gens(5) [of j] by simp
  show ?thesis
  proof (cases "gs_done (j_gens j g')")
    case True
    then show ?thesis using r n d d1 by (auto simp: gen_next_async_def Let_def dest: settle_gens)
  next
    case False
    then have g: "g' \<noteq> g" using d by auto
    show ?thesis
    proof (cases "gs_coro (j_gens j g')")
      case None
      then show ?thesis
        using r n d d1 False g by (auto simp: gen_next_async_def Let_def set_gen_def dest!: settle_gens)
    next
      case (Some c)
      let ?j = "set_gen g' ((j_gens j1 g')\<lparr>gs_coro := None, gs_pending := Some p\<rparr>) j1"
      have "gs_done (j_gens ?j g)" using d d1 g by (simp add: set_gen_def)
      moreover obtain err where "drive_gen E ?j g' (c\<lparr>sc_gen := Some g'\<rparr>) None = Some (j', err)"
        using r n d1 False Some by (auto simp: gen_next_async_def Let_def)
      ultimately show ?thesis using drive_gen_done [OF E] by blast
    qed
  qed
qed

lemma gen_next_well:
  assumes E: "program_ok E" and ok: "jobs_ok j"
  shows "goes_well j (gen_next_async E j g)"
proof -
  obtain p j1 where n: "new_pending j = (p, j1)" by fastforce
  note new = new_pending_ok [OF ok, unfolded n, simplified]
  define st where "st = j_gens j1 g"
  have st: "gen_ok j1 st" using jobs_okD(4) [OF new(1)] by (simp add: st_def)
  have d: "gen_ok j1 (st\<lparr>gs_done := True\<rparr>)" using st by (simp add: gen_ok_def)
  have w: "goes_well j (map_option (\<lambda>j2. (j2, Inr (V_Promise p) :: mvalue + mvalue)) (settle (set_gen g (st\<lparr>gs_done := True\<rparr>) j1) p V_Null False))"
    by (rule goes_well_trans [OF keeps_trans [OF new(2) set_gen_ok(2) [OF new(1) d, of g]]
          settle_map_well [OF set_gen_ok(1) [OF new(1) d]]]) (simp add: set_gen_def new(3))
  have w2: "goes_well j (map_option (\<lambda>j2. (j2, Inr (V_Promise p) :: mvalue + mvalue)) (settle j1 p V_Null False))"
    by (rule goes_well_trans [OF new(2) settle_map_well [OF new(1,3)]])
  show ?thesis
  proof (cases "gs_coro st")
    case None
    then show ?thesis using w w2 by (simp add: gen_next_async_def n Let_def st_def [symmetric])
  next
    case (Some c)
    let ?st = "st\<lparr>gs_coro := None, gs_pending := Some p\<rparr>"
    have s: "gen_ok j1 ?st" using new(3) by (simp add: gen_ok_def)
    have c: "suspended_ok (set_gen g ?st j1) (c\<lparr>sc_gen := Some g\<rparr>)"
      using st Some by (simp add: gen_ok_def suspended_ok_def set_gen_def)
    have "goes_well j (drive_gen E (set_gen g ?st j1) g (c\<lparr>sc_gen := Some g\<rparr>) None)"
      by (rule goes_well_trans [OF keeps_trans [OF new(2) set_gen_ok(2) [OF new(1) s, of g]]
            drive_gen_well [OF E set_gen_ok(1) [OF new(1) s] c]])
    from goes_well_map [OF this, of "case_option (Inr (V_Promise p) :: mvalue + mvalue) Inl"]
    show ?thesis
      using w2 Some
      by (simp add: gen_next_async_def n Let_def st_def [symmetric])
  qed
qed

lemma later_ok:
  "later E stray j j' \<Longrightarrow> program_ok E \<Longrightarrow> jobs_ok j \<Longrightarrow> jobs_ok j'"
proof (induction rule: later.induct)
  case (performs j j' t ts j'' err)
  note tk = take_ok [OF performs.IH [OF performs.prems] performs.hyps(2)]
  show ?case using perform_well [OF performs.prems(1) tk(1,3), of stray] performs.hyps(3) by (auto simp: goes_well_def)
next
  case (asks j j' g j'' r)
  show ?case using gen_next_well [OF asks.prems(1) asks.IH [OF asks.prems], of g] asks.hyps(2) by (auto simp: goes_well_def)
qed

lemma later_done:
  "later E stray j j' \<Longrightarrow> never_revives g E \<Longrightarrow> gs_done (j_gens j g) \<Longrightarrow> gs_done (j_gens j' g)"
proof (induction rule: later.induct)
  case (performs j j' t ts j'' err)
  have "gs_done (j_gens (j'\<lparr>j_tasks := ts\<rparr>) g)" using performs.IH performs.prems by simp
  then show ?case by (rule perform_done [OF performs.prems(1) _ performs.hyps(3)])
next
  case (asks j j' g' j'' r)
  show ?case by (rule gen_next_done [OF asks.prems(1) asks.IH [OF asks.prems] asks.hyps(2)])
qed

lemma next_of_ended:
  assumes "jobs_ok j" "gs_done (j_gens j g)"
  shows "\<exists>j' p. gen_next_async E j g = Some (j', Inr (V_Promise p))
      \<and> status_of j' p = Fulfilled \<and> p_value (j_proms j' p) = V_Null \<and> j_gens j' = j_gens j"
proof -
  obtain p j1 where p: "new_pending j = (p, j1)" by fastforce
  then have "status_of j1 p = Pending" "j_gens j1 = j_gens j" by (auto simp: new_pending_def fresh_promise_def)
  then show ?thesis
    using assms p by (simp add: gen_next_async_def Let_def settle_plain finish_settle_def push_tasks_def)
qed

text \<open>
  C38: a call of \<open>next\<close> while the generator is suspended at an \<open>await\<close> ends it: the call answers
  null at once, and so does every later one, at every state a run comes to by performing tasks, the
  resumption of the generator and its yields included, and by asking generators.
\<close>

theorem overlapping_next_ends_generator:
  assumes "jobs_ok j" "program_ok E" "never_revives g E" "gs_coro (j_gens j g) = None" "\<not> gs_done (j_gens j g)"
  shows "\<exists>j' p. gen_next_async E j g = Some (j', Inr (V_Promise p))
    \<and> status_of j' p = Fulfilled \<and> p_value (j_proms j' p) = V_Null
    \<and> j_gens j' g = (j_gens j g)\<lparr>gs_done := True\<rparr>
    \<and> (\<forall>stray j''. later E stray j' j'' \<longrightarrow>
         (\<exists>j3 p'. gen_next_async E j'' g = Some (j3, Inr (V_Promise p'))
            \<and> status_of j3 p' = Fulfilled \<and> p_value (j_proms j3 p') = V_Null \<and> j_gens j3 = j_gens j''))"
proof -
  obtain p j1 where p: "new_pending j = (p, j1)" by fastforce
  then have s: "status_of j1 p = Pending" "j_gens j1 = j_gens j" by (auto simp: new_pending_def fresh_promise_def)
  let ?j = "finish_settle (set_gen g ((j_gens j g)\<lparr>gs_done := True\<rparr>) j1) p V_Null False"
  have n: "gen_next_async E j g = Some (?j, Inr (V_Promise p))"
    using assms(4,5) s p by (simp add: gen_next_async_def Let_def settle_plain set_gen_def)
  moreover have "status_of ?j p = Fulfilled" "p_value (j_proms ?j p) = V_Null"
    by (simp_all add: finish_settle_def Let_def push_tasks_def set_gen_def)
  moreover have d: "j_gens ?j g = (j_gens j g)\<lparr>gs_done := True\<rparr>" by (simp add: set_gen_def)
  moreover have "jobs_ok ?j" using gen_next_well [OF assms(2,1), of g] n by (simp add: goes_well_def)
  then have "jobs_ok j''" "gs_done (j_gens j'' g)" if "later E stray ?j j''" for stray j''
    using later_ok [OF that assms(2)] later_done [OF that assms(3)] d by simp_all
  then have "\<exists>j3 p'. gen_next_async E j'' g = Some (j3, Inr (V_Promise p'))
      \<and> status_of j3 p' = Fulfilled \<and> p_value (j_proms j3 p') = V_Null \<and> j_gens j3 = j_gens j''"
    if "later E stray ?j j''" for stray j'' using next_of_ended that by blast
  ultimately show ?thesis by (intro exI [of _ ?j] exI [of _ p]) blast
qed

section \<open>Promise.all gathers in order\<close>

text \<open>The handlers a slot hangs on a promise, and calls of the handlers of the slots, each with the
  value its promise is fulfilled with.\<close>

definition slot_handler :: "nat \<Rightarrow> bool \<Rightarrow> mvalue" where
  "slot_handler slot is_reject = V_AllSlot (of_nat slot) is_reject"

fun call_slots :: "'r program \<Rightarrow> 'r jobs \<Rightarrow> nat \<Rightarrow> nat list \<Rightarrow> mvalue list \<Rightarrow> 'r jobs option" where
  "call_slots E j base [] vs = Some j"
| "call_slots E j base (i # is) vs =
     (case call_value E j (slot_handler (base + i) False) [vs ! i] of
        Some (j', Inr _) \<Rightarrow> call_slots E j' base is vs
      | _ \<Rightarrow> None)"

text \<open>The slot hangs on the promise: on a pending promise as a reaction, for a settled one as a task
  that carries its outcome.\<close>

definition slot_hangs :: "'r jobs \<Rightarrow> addr \<Rightarrow> nat \<Rightarrow> bool" where
  "slot_hangs j p slot \<longleftrightarrow>
     (\<exists>down. case status_of j p of
        Pending \<Rightarrow> (Some (slot_handler slot False), Some (slot_handler slot True), down) \<in> set (p_reactions (j_proms j p))
      | st \<Rightarrow> React (Some (slot_handler slot False)) (Some (slot_handler slot True)) down (p_value (j_proms j p)) (st = Rejected)
               \<in> set (j_tasks j))"

lemma call_slot_handler:
  assumes "slot < 2 ^ 32"
  shows "call_value E j (slot_handler slot is_reject) [v] = map_option (\<lambda>j'. (j', Inr V_Null)) (call_slot j slot is_reject v)"
proof -
  have "unat (of_nat slot :: u32) = slot" using assms by (simp add: unat_of_nat take_bit_nat_eq_self)
  then show ?thesis by (simp add: call_value_def slot_handler_def first_arg_def)
qed

text \<open>The slots of a call, with the calls of \<open>rest\<close> still to come.\<close>

definition gathering :: "'r jobs \<Rightarrow> nat \<Rightarrow> nat \<Rightarrow> addr \<Rightarrow> mvalue list \<Rightarrow> nat list \<Rightarrow> bool" where
  "gathering j base k out vs rest \<longleftrightarrow>
     (\<forall>i<length vs. j_cells j ! (base + i) = \<lparr>ac_shared = k, ac_out = out, ac_idx = i\<rparr>)
     \<and> k < length (j_results j) \<and> k < length (j_left j) \<and> length (j_results j ! k) = length vs
     \<and> (\<forall>i<length vs. i \<notin> set rest \<longrightarrow> j_results j ! k ! i = vs ! i)
     \<and> j_left j ! k = of_nat (length rest) \<and> status_of j out = Pending"

lemma of_nat_u64_eq_0: "n < 2 ^ 64 \<Longrightarrow> (of_nat n :: u64) = 0 \<longleftrightarrow> n = 0"
  by (auto simp: word_of_nat_eq_0_iff dest: dvd_imp_le)

lemma gathering_step:
  assumes g: "gathering j base k out vs (i # rest)" and i: "i < length vs" and n: "Suc (length rest) < 2 ^ 64"
  shows "rest = [] \<Longrightarrow> i \<notin> set rest \<Longrightarrow> \<exists>j' a. call_slot j (base + i) False (vs ! i) = Some j'
      \<and> status_of j' out = Fulfilled \<and> p_value (j_proms j' out) = V_Array a \<and> j_arrays j' a = vs"
    and "rest \<noteq> [] \<Longrightarrow> \<exists>j'. call_slot j (base + i) False (vs ! i) = Some j' \<and> gathering j' base k out vs rest"
proof -
  let ?r = "(j_results j ! k)[i := vs ! i]"
  let ?j = "j\<lparr>j_results := (j_results j)[k := ?r], j_left := (j_left j)[k := of_nat (length rest)]\<rparr>"
  have c: "j_cells j ! (base + i) = \<lparr>ac_shared = k, ac_out = out, ac_idx = i\<rparr>" and k: "k < length (j_results j)" "k < length (j_left j)"
    and l: "length (j_results j ! k) = length vs" "j_left j ! k = of_nat (Suc (length rest))"
    and r: "\<And>m. m < length vs \<Longrightarrow> m \<notin> set (i # rest) \<Longrightarrow> j_results j ! k ! m = vs ! m" and s: "status_of j out = Pending"
    using g i unfolding gathering_def by auto
  have left: "j_left j ! k - 1 = of_nat (length rest)" by (simp add: l(2))
  have call: "call_slot j (base + i) False (vs ! i) =
      (if rest = [] then settle (snd (new_array ?r ?j)) out (fst (new_array ?r ?j)) False else Some ?j)"
    using k of_nat_u64_eq_0 [of "length rest"] n
    unfolding call_slot_def c Let_def all_cell.simps left by (simp add: case_prod_unfold)
  show "rest = [] \<Longrightarrow> i \<notin> set rest \<Longrightarrow> \<exists>j' a. call_slot j (base + i) False (vs ! i) = Some j'
      \<and> status_of j' out = Fulfilled \<and> p_value (j_proms j' out) = V_Array a \<and> j_arrays j' a = vs"
  proof -
    assume "rest = []"
    then have "?r = vs" using r l(1) i by (intro nth_equalityI) (auto simp: nth_list_update)
    then show ?thesis
      using \<open>rest = []\<close> s by (simp add: call new_array_def settle_plain finish_settle_def Let_def push_tasks_def)
  qed
  assume "rest \<noteq> []"
  moreover have "gathering ?j base k out vs rest"
    using g r l k i unfolding gathering_def by (auto simp: nth_list_update)
  ultimately show "\<exists>j'. call_slot j (base + i) False (vs ! i) = Some j' \<and> gathering j' base k out vs rest"
    by (simp add: call)
qed

lemma gathering_run:
  "gathering j base k out vs rest \<Longrightarrow> set rest \<subseteq> {..<length vs} \<Longrightarrow> rest \<noteq> [] \<Longrightarrow> length rest < 2 ^ 64 \<Longrightarrow>
     base + length vs \<le> 2 ^ 32 \<Longrightarrow> \<exists>j' a. call_slots E j base rest vs = Some j' \<and> status_of j' out = Fulfilled
       \<and> p_value (j_proms j' out) = V_Array a \<and> j_arrays j' a = vs"
proof (induction rest arbitrary: j)
  case (Cons i rest)
  have call: "call_value E j (slot_handler (base + i) False) [vs ! i]
      = map_option (\<lambda>j'. (j', Inr V_Null)) (call_slot j (base + i) False (vs ! i))"
    using Cons.prems(2,5) by (intro call_slot_handler) simp
  show ?case
  proof (cases "rest = []")
    case True
    then obtain j' a where "call_slot j (base + i) False (vs ! i) = Some j'" "status_of j' out = Fulfilled"
        "p_value (j_proms j' out) = V_Array a" "j_arrays j' a = vs"
      using gathering_step(1) [OF Cons.prems(1)] Cons.prems(2) by auto
    then show ?thesis using True by (simp add: call)
  next
    case False
    then obtain j' where "call_slot j (base + i) False (vs ! i) = Some j'" "gathering j' base k out vs rest"
      using gathering_step(2) [OF Cons.prems(1)] Cons.prems(2,4) by auto
    then show ?thesis using Cons.IH [of j'] False Cons.prems(2,4,5) by (simp add: call)
  qed
qed simp

lemma promise_then_parts:
  "j_cells (snd (promise_then j p good bad)) = j_cells j" "j_results (snd (promise_then j p good bad)) = j_results j"
  "j_left (snd (promise_then j p good bad)) = j_left j"
  "out \<noteq> j_next j \<Longrightarrow> status_of (snd (promise_then j p good bad)) out = status_of j out"
  "j_next (snd (promise_then j p good bad)) = j_next j + 1"
  by (simp_all add: promise_then_def new_pending_def add_reaction_def push_tasks_def fresh_promise_def split: status.split)

text \<open>What a step keeps of the promises there are: their outcome and what hangs on them.\<close>

definition keeps_hung :: "'r jobs \<Rightarrow> 'r jobs \<Rightarrow> bool" where
  "keeps_hung j j' \<longleftrightarrow>
     (\<forall>p<j_next j. status_of j' p = status_of j p \<and> p_value (j_proms j' p) = p_value (j_proms j p)
        \<and> set (p_reactions (j_proms j p)) \<subseteq> set (p_reactions (j_proms j' p)))
     \<and> set (j_tasks j) \<subseteq> set (j_tasks j') \<and> j_next j \<le> j_next j'"

lemma keeps_hung_trans: "keeps_hung j j1 \<Longrightarrow> keeps_hung j1 j2 \<Longrightarrow> keeps_hung j j2"
  unfolding keeps_hung_def by (intro conjI allI impI) (auto simp: subset_iff dest: order_less_le_trans)

lemma keeps_hung_slot:
  assumes "keeps_hung j j'" "p < j_next j" "slot_hangs j p slot"
  shows "slot_hangs j' p slot"
proof -
  have "status_of j' p = status_of j p" "p_value (j_proms j' p) = p_value (j_proms j p)"
    "set (p_reactions (j_proms j p)) \<subseteq> set (p_reactions (j_proms j' p))" "set (j_tasks j) \<subseteq> set (j_tasks j')"
    using assms(1,2) unfolding keeps_hung_def by blast+
  then show ?thesis using assms(3) unfolding slot_hangs_def by (cases "status_of j p") auto
qed

lemma promise_then_hangs:
  assumes "p < j_next j"
  shows "keeps_hung j (snd (promise_then j p good bad))"
    "slot_hangs (snd (promise_then j p (Some (slot_handler slot False)) (Some (slot_handler slot True)))) p slot"
proof -
  show "keeps_hung j (snd (promise_then j p good bad))"
    using assms by (cases "status_of j p")
      (auto simp: keeps_hung_def promise_then_def new_pending_def add_reaction_def push_tasks_def fresh_promise_def)
  show "slot_hangs (snd (promise_then j p (Some (slot_handler slot False)) (Some (slot_handler slot True)))) p slot"
    unfolding slot_hangs_def
    by (rule exI [of _ "j_next j"], use assms in \<open>cases "status_of j p"\<close>)
      (simp_all add: promise_then_def new_pending_def add_reaction_def push_tasks_def fresh_promise_def)
qed

lemma all_slots_parts:
  assumes "p < j_next j" "out < j_next j"
  obtains j1 where "all_slots E k out (i, V_Promise p) j = Some (j1, None)" "j_results j1 = j_results j" "j_left j1 = j_left j"
    "j_cells j1 = j_cells j @ [\<lparr>ac_shared = k, ac_out = out, ac_idx = i\<rparr>]" "status_of j1 out = status_of j out"
    "keeps_hung j j1" "slot_hangs j1 p (length (j_cells j))" "j_next j1 = j_next j + 1"
proof -
  let ?j = "j\<lparr>j_cells := j_cells j @ [\<lparr>ac_shared = k, ac_out = out, ac_idx = i\<rparr>]\<rparr>"
  let ?h = "\<lambda>is_reject. Some (slot_handler (length (j_cells j)) is_reject)"
  let ?j1 = "snd (promise_then ?j p (?h False) (?h True))"
  have "all_slots E k out (i, V_Promise p) j = Some (?j1, None)"
    by (simp add: all_slots_def as_promise_def Let_def slot_handler_def)
  moreover have "keeps_hung j ?j" by (simp add: keeps_hung_def)
  then have "keeps_hung j ?j1" using promise_then_hangs(1) [of p ?j] assms(1) keeps_hung_trans by force
  moreover have "slot_hangs ?j1 p (length (j_cells j))" by (rule promise_then_hangs(2)) (use assms(1) in simp)
  ultimately show ?thesis using assms(2) by (intro that [of ?j1]) (simp_all add: promise_then_parts)
qed

lemma all_items_parts:
  "\<forall>p\<in>set ps. p < j_next j \<Longrightarrow> out < j_next j \<Longrightarrow>
     \<exists>j'. all_items E k out (enumerate m (map V_Promise ps)) j = Some (j', None) \<and> j_results j' = j_results j \<and> j_left j' = j_left j
       \<and> j_cells j' = j_cells j @ map (\<lambda>i. \<lparr>ac_shared = k, ac_out = out, ac_idx = i\<rparr>) [m..<m + length ps]
       \<and> status_of j' out = status_of j out \<and> keeps_hung j j'
       \<and> (\<forall>i<length ps. slot_hangs j' (ps ! i) (length (j_cells j) + i))"
proof (induction ps arbitrary: j m)
  case Nil
  then show ?case by (simp add: keeps_hung_def)
next
  case (Cons p ps)
  obtain j1 where j1: "all_slots E k out (m, V_Promise p) j = Some (j1, None)" "j_results j1 = j_results j" "j_left j1 = j_left j"
    "j_cells j1 = j_cells j @ [\<lparr>ac_shared = k, ac_out = out, ac_idx = m\<rparr>]" "status_of j1 out = status_of j out"
    "keeps_hung j j1" "slot_hangs j1 p (length (j_cells j))" "j_next j1 = j_next j + 1"
    using all_slots_parts [of p j out E k m] Cons.prems by auto
  have "\<forall>q\<in>set ps. q < j_next j1" "out < j_next j1" "p < j_next j1" using Cons.prems j1(8) by (auto simp: less_Suc_eq)
  from Cons.IH [OF this(1,2), of "Suc m"] this(3) obtain j' where
    j': "all_items E k out (enumerate (Suc m) (map V_Promise ps)) j1 = Some (j', None)" "j_results j' = j_results j1"
      "j_left j' = j_left j1" "status_of j' out = status_of j1 out" "keeps_hung j1 j'" and p: "p < j_next j1" and
    c: "j_cells j' = j_cells j1 @ map (\<lambda>i. \<lparr>ac_shared = k, ac_out = out, ac_idx = i\<rparr>) [Suc m..<Suc m + length ps]" and
    h: "\<forall>i<length ps. slot_hangs j' (ps ! i) (length (j_cells j1) + i)" by blast
  have "slot_hangs j' ((p # ps) ! i) (length (j_cells j) + i)" if "i < length (p # ps)" for i
    using that h keeps_hung_slot [OF j'(5) p j1(7)] by (cases i) (auto simp: j1(4))
  moreover have "[m..<m + length (p # ps)] = m # [Suc m..<Suc m + length ps]" by (simp add: upt_rec)
  ultimately show ?case
    using j1 j' c keeps_hung_trans [OF j1(6) j'(5)] by simp
qed

text \<open>
  C37: \<open>Promise.all\<close> of one or more promises that are there settles none of them and hangs slot \<open>i\<close> on the promise
  at place \<open>i\<close>, whose rejection would reject the result; the result stays pending until each slot has
  been called, in whatever order, and is then fulfilled with an array that holds at place \<open>i\<close> what slot \<open>i\<close>
  was called with.  The slots of all calls together number no more than a 32-bit index counts.
\<close>

theorem promise_all_gathers:
  assumes "ps \<noteq> []" "\<forall>p\<in>set ps. p < j_next j" "length (j_cells j) + length ps \<le> 2 ^ 32"
    and "length vs = length ps" "mset order = mset [0..<length ps]" "length (j_left j) = length (j_results j)"
  shows "\<exists>j1 out. promise_all E j (map V_Promise ps) = Some (j1, Inr (V_Promise out)) \<and> status_of j1 out = Pending
    \<and> (\<forall>p<j_next j. status_of j1 p = status_of j p \<and> p_value (j_proms j1 p) = p_value (j_proms j p))
    \<and> (\<forall>i<length ps. slot_hangs j1 (ps ! i) (length (j_cells j) + i)
        \<and> (\<forall>e. call_value E j1 (slot_handler (length (j_cells j) + i) True) [e]
             = Some (finish_settle j1 out e True, Inr V_Null)))
    \<and> (\<exists>j2 a. call_slots E j1 (length (j_cells j)) order vs = Some j2
        \<and> status_of j2 out = Fulfilled \<and> p_value (j_proms j2 out) = V_Array a \<and> j_arrays j2 a = vs)"
proof -
  let ?n = "length ps" and ?k = "length (j_results j)" and ?b = "length (j_cells j)"
  let ?j = "(snd (new_pending j))\<lparr>j_results := j_results j @ [replicate ?n V_Null], j_left := j_left j @ [of_nat ?n]\<rparr>"
  have items: "\<forall>p\<in>set ps. p < j_next ?j" "j_next j < j_next ?j" "j_cells ?j = j_cells j"
    using assms(2) by (auto simp: new_pending_def less_Suc_eq)
  from all_items_parts [OF items(1,2), of E ?k 0] obtain j1 where
    j1: "all_items E ?k (j_next j) (enumerate 0 (map V_Promise ps)) ?j = Some (j1, None)"
      "j_results j1 = j_results ?j" "j_left j1 = j_left ?j" "status_of j1 (j_next j) = status_of ?j (j_next j)"
      "keeps_hung ?j j1" and
    c: "j_cells j1 = j_cells ?j @ map (\<lambda>i. \<lparr>ac_shared = ?k, ac_out = j_next j, ac_idx = i\<rparr>) [0..<0 + ?n]" and
    h: "\<forall>i<?n. slot_hangs j1 (ps ! i) (length (j_cells ?j) + i)" by blast
  have all: "promise_all E j (map V_Promise ps) = Some (j1, Inr (V_Promise (j_next j)))"
    using j1(1) assms(1) by (simp add: promise_all_def new_pending_def Let_def)
  have pend: "status_of j1 (j_next j) = Pending" by (simp add: j1(4) new_pending_def fresh_promise_def)
  have cell: "j_cells j1 ! (?b + i) = \<lparr>ac_shared = ?k, ac_out = j_next j, ac_idx = i\<rparr>" if "i < ?n" for i
    using that by (simp add: c items(3) nth_append)
  have so: "length order = ?n" "set order = {..<?n}"
    using assms(5) by (metis length_upt minus_nat.diff_0 size_mset, metis atLeast_upt set_mset_mset)
  have gath: "gathering j1 ?b ?k (j_next j) vs order"
    unfolding gathering_def
  proof (intro conjI allI impI)
    fix i
    assume "i < length vs"
    then show "j_cells j1 ! (?b + i) = \<lparr>ac_shared = ?k, ac_out = j_next j, ac_idx = i\<rparr>" using assms(4) cell by simp
    show "i \<notin> set order \<Longrightarrow> j_results j1 ! ?k ! i = vs ! i" using \<open>i < length vs\<close> so(2) assms(4) by simp
  next
    show "?k < length (j_results j1)" "length (j_results j1 ! ?k) = length vs" using assms(4) by (simp_all add: j1(2))
    have left: "j_left j1 = j_left j @ [of_nat ?n]" by (simp add: j1(3) new_pending_def)
    show "?k < length (j_left j1)" using assms(6) by (simp add: left)
    show "j_left j1 ! ?k = of_nat (length order)"
      using nth_append_length [of "j_left j" "of_nat ?n" "[]"] assms(6) by (simp only: left so(1))
    show "status_of j1 (j_next j) = Pending" by (rule pend)
  qed
  have "order \<noteq> []" using so(1) assms(1) by (cases order) simp_all
  have run: "\<exists>j2 a. call_slots E j1 ?b order vs = Some j2 \<and> status_of j2 (j_next j) = Fulfilled
      \<and> p_value (j_proms j2 (j_next j)) = V_Array a \<and> j_arrays j2 a = vs"
    by (rule gathering_run [OF gath _ \<open>order \<noteq> []\<close>]) (use so assms(3,4) in simp_all)
  have old: "status_of j1 p = status_of j p \<and> p_value (j_proms j1 p) = p_value (j_proms j p)" if "p < j_next j" for p
  proof -
    have "status_of j1 p = status_of ?j p \<and> p_value (j_proms j1 p) = p_value (j_proms ?j p)"
      using j1(5) that items(2) unfolding keeps_hung_def by (meson order_less_trans)
    then show ?thesis using that by (simp add: new_pending_def)
  qed
  have rej: "call_value E j1 (slot_handler (?b + i) True) [e] = Some (finish_settle j1 (j_next j) e True, Inr V_Null)"
    if "i < ?n" for i e
    using that assms(3) cell [OF that] pend by (simp add: call_slot_handler call_slot_def Let_def settle_plain)
  show ?thesis
    using all pend old h rej run by (intro exI [of _ j1] exI [of _ "j_next j"]) (simp add: items(3))
qed

section \<open>Runs\<close>

definition start_jobs :: "nat jobs" where
  "start_jobs = \<lparr>j_next = 0, j_proms = (\<lambda>_. fresh_promise), j_tasks = [],
     j_gens = (\<lambda>_. \<lparr>gs_coro = None, gs_done = False, gs_pending = None\<rparr>), j_cells = [], j_results = [], j_left = [],
     j_arrays = (\<lambda>_. [])\<rparr>"

text \<open>A program whose coroutines end at once and whose callables answer null.\<close>

definition idle_program :: "nat program" where
  "idle_program = \<lparr>run_coro = (\<lambda>j c resumed. (j, sc_rest c, Flow_Done (V_Bool True))),
     run_call = (\<lambda>j f args. (j, Inr V_Null)), web_call = (\<lambda>j h name args. (j, Inr V_Null))\<rparr>"

lemma idle_program_ok: "program_ok idle_program"
  by (simp add: program_ok_def idle_program_def job_run.stays)

lemma start_jobs_ok: "jobs_ok start_jobs"
  by (simp add: jobs_ok_def start_jobs_def promise_ok_def fresh_promise_def gen_ok_def)

text \<open>A promise is settled, and a reaction hung on it afterwards goes straight to the queue.\<close>

definition one_task :: "nat jobs" where
  "one_task = snd (promise_then (settle_state (snd (new_pending start_jobs)) 0 (V_Bool True) False) 0 None None)"

lemma one_task_parts:
  "j_tasks one_task = [React None None 1 (V_Bool True) False]" "status_of one_task 0 = Fulfilled" "j_next one_task = 2"
  "p_value (j_proms one_task 0) = V_Bool True"
  by (simp_all add: one_task_def new_pending_def settle_state_def adopted_def finish_settle_def promise_then_def push_tasks_def
      start_jobs_def fresh_promise_def Let_def)


lemma one_task_ok: "jobs_ok one_task"
  unfolding one_task_def
  by (intro promise_then_ok(1) settle_ok(1) new_pending_ok(1) start_jobs_ok) (simp_all add: new_pending_def opt_ok_def)

lemma promises_settle_once_witness:
  "\<exists>j' err. drain_tasks idle_program V_Null V_Null one_task = Some (j', err) \<and> p_value (j_proms j' 0) = V_Bool True"
  using promises_settle_once [OF idle_program_ok one_task_ok, of V_Null V_Null] one_task_parts by fastforce


text \<open>Two promises are there, both pending.\<close>

definition two_promises :: "nat jobs" where
  "two_promises = snd (new_pending (snd (new_pending start_jobs)))"

lemma promise_all_gathers_witness:
  "\<exists>j1 out j2 a. promise_all idle_program two_promises [V_Promise 0, V_Promise 1] = Some (j1, Inr (V_Promise out))
    \<and> slot_hangs j1 1 1 \<and> call_slots idle_program j1 0 [1, 0] [V_Bool True, V_Null] = Some j2
    \<and> p_value (j_proms j2 out) = V_Array a \<and> j_arrays j2 a = [V_Bool True, V_Null]"
proof -
  have c: "j_cells two_promises = []" "j_next two_promises = 2" "j_left two_promises = []" "j_results two_promises = []"
    by (simp_all add: two_promises_def new_pending_def start_jobs_def)
  show ?thesis
    using promise_all_gathers [of "[0, 1]" two_promises "[V_Bool True, V_Null]" "[1, 0]" idle_program]
    by (simp add: c upt_rec) (metis One_nat_def lessI nth_Cons_0 nth_Cons_Suc)
qed

text \<open>A generator whose coroutine waits for a value and then yields, however often it is resumed.\<close>

definition yielding_program :: "nat program" where
  "yielding_program = \<lparr>run_coro = (\<lambda>j c resumed. (j, sc_rest c, Flow_Yield (V_Bool True))),
     run_call = (\<lambda>j f args. (j, Inr V_Null)), web_call = (\<lambda>j h name args. (j, Inr V_Null))\<rparr>"

lemma yielding_program_ok: "program_ok yielding_program" "never_revives g yielding_program"
  by (simp_all add: program_ok_def never_revives_def yielding_program_def job_run.stays)

definition awaiting_generator :: "nat jobs" where
  "awaiting_generator = start_jobs\<lparr>j_next := 1,
     j_tasks := [Resume \<lparr>sc_gen = Some 3, sc_result = 0, sc_rest = 7\<rparr> V_Null False],
     j_gens := (\<lambda>_. \<lparr>gs_coro = None, gs_done = False, gs_pending = Some 0\<rparr>)\<rparr>"

lemma awaiting_generator_ok: "jobs_ok awaiting_generator"
  by (simp add: jobs_ok_def awaiting_generator_def start_jobs_def promise_ok_def fresh_promise_def gen_ok_def task_ok_def
      suspended_ok_def)

text \<open>The overlapping call, then the coroutine resumed, which yields and so answers the first call,
  and then a third call.\<close>

lemma overlapping_next_ends_generator_witness:
  "\<exists>j1 p j2 j3 p'. gen_next_async yielding_program awaiting_generator 3 = Some (j1, Inr (V_Promise p))
    \<and> p_value (j_proms j1 p) = V_Null
    \<and> perform yielding_program V_Null (Resume \<lparr>sc_gen = Some 3, sc_result = 0, sc_rest = 7\<rparr> V_Null False) (j1\<lparr>j_tasks := []\<rparr>)
        = Some (j2, None)
    \<and> p_value (j_proms j2 0) = V_Bool True \<and> gs_coro (j_gens j2 3) \<noteq> None
    \<and> gen_next_async yielding_program j2 3 = Some (j3, Inr (V_Promise p')) \<and> p_value (j_proms j3 p') = V_Null"
proof -
  let ?t = "Resume \<lparr>sc_gen = Some 3, sc_result = 0, sc_rest = 7\<rparr> V_Null False"
  have g: "gs_coro (j_gens awaiting_generator 3) = None" "\<not> gs_done (j_gens awaiting_generator 3)"
    by (simp_all add: awaiting_generator_def)
  obtain j1 p where n: "gen_next_async yielding_program awaiting_generator 3 = Some (j1, Inr (V_Promise p))"
      "p_value (j_proms j1 p) = V_Null" and
    l: "\<And>stray j''. later yielding_program stray j1 j'' \<Longrightarrow> \<exists>j3 p'. gen_next_async yielding_program j'' 3 = Some (j3, Inr (V_Promise p'))
      \<and> p_value (j_proms j3 p') = V_Null"
    using overlapping_next_ends_generator [OF awaiting_generator_ok yielding_program_ok, of 3] g by metis
  have j1: "j1 = finish_settle (set_gen 3 \<lparr>gs_coro = None, gs_done = True, gs_pending = Some 0\<rparr>
      (snd (new_pending awaiting_generator))) 1 V_Null False"
    using n(1) by (auto simp: gen_next_async_def new_pending_def awaiting_generator_def start_jobs_def fresh_promise_def set_gen_def
        settle_plain)
  have t: "j_tasks j1 = [?t]" "status_of j1 0 = Pending" "j_gens j1 3 = \<lparr>gs_coro = None, gs_done = True, gs_pending = Some 0\<rparr>"
    by (simp_all add: j1 finish_settle_def push_tasks_def set_gen_def new_pending_def awaiting_generator_def start_jobs_def
        fresh_promise_def Let_def)
  let ?j = "set_gen 3 \<lparr>gs_coro = Some \<lparr>sc_gen = Some 3, sc_result = 0, sc_rest = 7\<rparr>, gs_done = True, gs_pending = None\<rparr>
      (j1\<lparr>j_tasks := []\<rparr>)"
  have p: "perform yielding_program stray ?t (j1\<lparr>j_tasks := []\<rparr>) = Some (finish_settle ?j 0 (V_Bool True) False, None)" for stray
    using t(2) by (simp add: perform_def drive_def drive_gen_def yielding_program_def t(3) settle_pending_def settled_def settle_plain
        set_gen_def)
  have "later yielding_program V_Null j1 (finish_settle ?j 0 (V_Bool True) False)"
    by (rule later.performs [OF later.now t(1) p])
  from l [OF this] n p [of V_Null] show ?thesis
    by (fastforce simp: finish_settle_def Let_def push_tasks_def set_gen_def)
qed

end
