(* ===== verification/Lexer.thy ===== *)
theory Lexer
  imports Token
begin

text \<open>
  The scanner of \<open>crates/mersey_front/src/lexer.rs\<close>: one function per method of
  \<open>struct Lexer\<close>, in the order of the source.  The pair \<open>text\<close>/\<open>idx\<close> of the struct is kept
  as the consumed part \<open>lx_pre\<close> and the remaining part \<open>lx_rest\<close> of the text; the byte
  index is \<open>str_len (lx_pre s)\<close>.  The identifier tables of the \<open>unicode_ident\<close> crate are
  the argument \<open>ut\<close>.  Every loop is a total function: each turn consumes input.
\<close>

section \<open>State\<close>

text \<open>\<open>unicode_ident::is_xid_start\<close> and \<open>is_xid_continue\<close>.\<close>

record ident_tables =
  xid_start :: "rchar \<Rightarrow> bool"
  xid_continue :: "rchar \<Rightarrow> bool"

record lexer =
  lx_pre :: rstr
  lx_rest :: rstr
  lx_line :: u32
  lx_col :: u32
  lx_start :: nat
  lx_start_pos :: pos
  lx_template_stack :: "u32 list"
  lx_tokens :: "token list"
  lx_comments :: "span list"
  lx_diagnostics :: "diagnostic list"

record lex_output =
  lo_tokens :: "token list"
  lo_comments :: "span list"
  lo_diagnostics :: "diagnostic list"

definition lexer_new :: "rstr \<Rightarrow> lexer" where
  "lexer_new txt =
     \<lparr>lx_pre = [], lx_rest = txt, lx_line = 1, lx_col = 1, lx_start = 0,
      lx_start_pos = \<lparr>p_line = 1, p_col = 1\<rparr>, lx_template_stack = [], lx_tokens = [],
      lx_comments = [], lx_diagnostics = []\<rparr>"

definition lx_idx :: "lexer \<Rightarrow> nat" where
  "lx_idx s = str_len (lx_pre s)"

section \<open>Character classes\<close>

definition is_id_start :: "ident_tables \<Rightarrow> rchar \<Rightarrow> bool" where
  "is_id_start ut c \<longleftrightarrow> c = (ch CHR ''_'') \<or> c = (ch CHR ''$'') \<or> xid_start ut c"

definition is_id_continue :: "ident_tables \<Rightarrow> rchar \<Rightarrow> bool" where
  "is_id_continue ut c \<longleftrightarrow> c = (ch CHR ''$'') \<or> xid_continue ut c"

definition is_line_terminator :: "rchar \<Rightarrow> bool" where
  "is_line_terminator c \<longleftrightarrow> c = 0x0A \<or> c = 0x0D \<or> c = 0x2028 \<or> c = 0x2029"

definition is_whitespace :: "rchar \<Rightarrow> bool" where
  "is_whitespace c \<longleftrightarrow>
     c = 0x20 \<or> c = 0x09 \<or> c = 0x0B \<or> c = 0x0C \<or> c = 0xFEFF
     \<or> is_line_terminator c
     \<or> (c = 0x20 \<or> c = 0xA0 \<or> c = 0x1680 \<or> (0x2000 \<le> c \<and> c \<le> 0x200A) \<or> c = 0x202F
        \<or> c = 0x205F \<or> c = 0x3000)"

definition is_whitespace_unit :: "u16 \<Rightarrow> bool" where
  "is_whitespace_unit u \<longleftrightarrow> is_scalar (unat u) \<and> is_whitespace (unat u)"

definition is_digit :: "rchar \<Rightarrow> nat \<Rightarrow> bool" where
  "is_digit c radix \<longleftrightarrow> to_digit c radix \<noteq> None"

definition is_decimal :: "rchar \<Rightarrow> bool" where
  "is_decimal c \<longleftrightarrow> (ch CHR ''0'') \<le> c \<and> c \<le> (ch CHR ''9'')"

section \<open>Cursor\<close>

definition char_at :: "nat \<Rightarrow> lexer \<Rightarrow> rchar option" where
  "char_at n s = (if n < length (lx_rest s) then Some (lx_rest s ! n) else None)"

definition peek :: "lexer \<Rightarrow> rchar option" where
  "peek s = (case lx_rest s of [] \<Rightarrow> None | c # _ \<Rightarrow> Some c)"

definition peek2 :: "lexer \<Rightarrow> rchar option" where
  "peek2 s = (case lx_rest s of c # d # _ \<Rightarrow> Some d | _ \<Rightarrow> None)"

definition lx_pos :: "lexer \<Rightarrow> pos" where
  "lx_pos s = \<lparr>p_line = lx_line s, p_col = lx_col s\<rparr>"

definition starts_with :: "rstr \<Rightarrow> lexer \<Rightarrow> bool" where
  "starts_with want s \<longleftrightarrow> take (length want) (lx_rest s) = want"

text \<open>The state after \<open>bump\<close>; the character it returns is the \<open>peek\<close> of the state before.\<close>

definition bump :: "lexer \<Rightarrow> lexer" where
  "bump s =
     (case lx_rest s of
        [] \<Rightarrow> s
      | c # cs \<Rightarrow>
          if c = 0x0D then
            (case cs of
               d # ds \<Rightarrow>
                 if d = 0x0A
                 then s\<lparr>lx_pre := lx_pre s @ [c, d], lx_rest := ds, lx_line := lx_line s + 1, lx_col := 1\<rparr>
                 else s\<lparr>lx_pre := lx_pre s @ [c], lx_rest := cs, lx_line := lx_line s + 1, lx_col := 1\<rparr>
             | [] \<Rightarrow> s\<lparr>lx_pre := lx_pre s @ [c], lx_rest := cs, lx_line := lx_line s + 1, lx_col := 1\<rparr>)
          else if c = 0x0A \<or> c = 0x2028 \<or> c = 0x2029 then
            s\<lparr>lx_pre := lx_pre s @ [c], lx_rest := cs, lx_line := lx_line s + 1, lx_col := 1\<rparr>
          else s\<lparr>lx_pre := lx_pre s @ [c], lx_rest := cs, lx_col := lx_col s + 1\<rparr>)"

definition eat :: "rchar \<Rightarrow> lexer \<Rightarrow> bool \<times> lexer" where
  "eat want s = (if peek s = Some want then (True, bump s) else (False, s))"

definition eat_str :: "rstr \<Rightarrow> lexer \<Rightarrow> bool \<times> lexer" where
  "eat_str want s = (if starts_with want s then (True, (bump ^^ length want) s) else (False, s))"

text \<open>The text from a byte offset to the cursor, \<open>&self.text[from..self.idx]\<close>.\<close>

fun drop_bytes :: "nat \<Rightarrow> rstr \<Rightarrow> rstr" where
  "drop_bytes n [] = []"
| "drop_bytes n (c # cs) = (if n = 0 then c # cs else drop_bytes (n - len_utf8 c) cs)"

definition text_from :: "nat \<Rightarrow> lexer \<Rightarrow> rstr" where
  "text_from from s = drop_bytes from (lx_pre s)"

section \<open>Output\<close>

definition emit :: "token_kind \<Rightarrow> lexer \<Rightarrow> lexer" where
  "emit kind s =
     s\<lparr>lx_tokens := lx_tokens s @
        [\<lparr>t_kind = kind, t_span = \<lparr>sp_start = lx_start s, sp_end = lx_idx s, sp_pos = lx_start_pos s\<rparr>\<rparr>]\<rparr>"

definition error_at :: "code \<Rightarrow> rstr \<Rightarrow> pos \<Rightarrow> lexer \<Rightarrow> lexer" where
  "error_at c message p s =
     s\<lparr>lx_diagnostics := lx_diagnostics s @ [diagnostic_error c message p]\<rparr>"

definition lex_error :: "code \<Rightarrow> rstr \<Rightarrow> lexer \<Rightarrow> lexer" where
  "lex_error c message s = error_at c message (lx_start_pos s) s"

lemma bump_rest_le: "length (lx_rest (bump s)) \<le> length (lx_rest s)"
  by (auto simp: bump_def split: list.split)

lemma bump_rest_less [simp]: "lx_rest s \<noteq> [] \<Longrightarrow> length (lx_rest (bump s)) < length (lx_rest s)"
  by (auto simp: bump_def split: list.split)

lemma peek_Some: "peek s = Some c \<Longrightarrow> lx_rest s \<noteq> []"
  by (auto simp: peek_def split: list.splits)

lemma peek_None: "peek s = None \<longleftrightarrow> lx_rest s = []"
  by (auto simp: peek_def split: list.splits)

text \<open>The loop \<open>while let Some(c) = self.peek() { if P(c) { bump } else { break } }\<close>.\<close>

function bump_while :: "(rchar \<Rightarrow> bool) \<Rightarrow> lexer \<Rightarrow> lexer" where
  "bump_while P s =
     (case peek s of
        Some c \<Rightarrow> if P c then bump_while P (bump s) else s
      | None \<Rightarrow> s)"
  by pat_completeness auto
termination
  by (relation "measure (\<lambda>(P, s). length (lx_rest s))") (auto dest: peek_Some)

section \<open>Trivia\<close>

function block_comment :: "pos \<Rightarrow> lexer \<Rightarrow> lexer" where
  "block_comment open s =
     (if starts_with (str ''*/'') s then bump (bump s)
      else if peek s = None then
        error_at UnterminatedBlockComment (str ''unterminated block comment'') open s
      else block_comment open (bump s))"
  by pat_completeness auto
termination
  by (relation "measure (\<lambda>(p, s). length (lx_rest s))") (auto simp: peek_None)

declare bump_while.simps [simp del] block_comment.simps [simp del]

definition push_comment :: "nat \<Rightarrow> pos \<Rightarrow> lexer \<Rightarrow> lexer" where
  "push_comment from p s =
     s\<lparr>lx_comments := lx_comments s @ [\<lparr>sp_start = from, sp_end = lx_idx s, sp_pos = p\<rparr>]\<rparr>"

lemma push_comment_rest [simp]: "lx_rest (push_comment from p s) = lx_rest s"
  by (simp add: push_comment_def)

lemma error_at_rest [simp]: "lx_rest (error_at c m p s) = lx_rest s"
  by (simp add: error_at_def)

lemma lex_error_rest [simp]: "lx_rest (lex_error c m s) = lx_rest s"
  by (simp add: lex_error_def)

lemma emit_rest [simp]: "lx_rest (emit k s) = lx_rest s"
  by (simp add: emit_def)

lemma bump_while_rest: "length (lx_rest (bump_while P s)) \<le> length (lx_rest s)"
proof (induction P s rule: bump_while.induct)
  case (1 P s)
  then show ?case
    using bump_rest_le [of s] by (subst bump_while.simps) (auto split: option.split intro: order_trans)
qed

lemma block_comment_rest: "length (lx_rest (block_comment p s)) \<le> length (lx_rest s)"
proof (induction p s rule: block_comment.induct)
  case (1 p s)
  then show ?case
    using bump_rest_le [of s] bump_rest_le [of "bump s"]
    by (subst block_comment.simps) (auto intro: order_trans)
qed

text \<open>One turn of the loop of \<open>skip_trivia\<close>; \<open>None\<close> is its \<open>break\<close>.\<close>

definition trivia_step :: "lexer \<Rightarrow> lexer option" where
  "trivia_step s =
     (case peek s of
        None \<Rightarrow> None
      | Some c \<Rightarrow>
          if is_whitespace c then Some (bump s)
          else if c = (ch CHR ''/'') \<and> peek2 s = Some (ch CHR ''/'') then
            Some (push_comment (lx_idx s) (lx_pos s) (bump_while (\<lambda>c. \<not> is_line_terminator c) s))
          else if c = (ch CHR ''/'') \<and> peek2 s = Some (ch CHR ''*'') then
            Some (push_comment (lx_idx s) (lx_pos s) (block_comment (lx_pos s) (bump (bump s))))
          else None)"

lemma trivia_step_rest:
  assumes "trivia_step s = Some s'"
  shows "length (lx_rest s') < length (lx_rest s)"
proof -
  obtain c where c: "peek s = Some c" using assms by (auto simp: trivia_step_def split: option.splits)
  then have less: "length (lx_rest (bump s)) < length (lx_rest s)" by (simp add: peek_Some)
  have "bump_while (\<lambda>c. \<not> is_line_terminator c) s = bump_while (\<lambda>c. \<not> is_line_terminator c) (bump s)"
    if "c = (ch CHR ''/'')"
    using c that by (subst bump_while.simps) (simp add: is_line_terminator_def)
  then show ?thesis
    using assms c less bump_while_rest [of "\<lambda>c. \<not> is_line_terminator c" "bump s"]
      block_comment_rest [of "lx_pos s" "bump (bump s)"] bump_rest_le [of "bump s"]
    by (auto simp: trivia_step_def split: if_splits)
qed

function skip_trivia :: "lexer \<Rightarrow> lexer" where
  "skip_trivia s = (case trivia_step s of Some s' \<Rightarrow> skip_trivia s' | None \<Rightarrow> s)"
  by pat_completeness auto
termination
  by (relation "measure (\<lambda>s. length (lx_rest s))") (auto dest: trivia_step_rest)

declare skip_trivia.simps [simp del]

section \<open>What scanning leaves alone\<close>

text \<open>
  The position after a text: a carriage return with its line feed, a lone one, and the other
  terminators each end one line.
\<close>

fun end_pos :: "u32 \<times> u32 \<Rightarrow> rstr \<Rightarrow> u32 \<times> u32" where
  "end_pos p [] = p"
| "end_pos (l, k) (c # cs) =
     (if c = 0x0D then
        (case cs of d # ds \<Rightarrow> end_pos (l + 1, 1) (if d = 0x0A then ds else cs) | [] \<Rightarrow> (l + 1, 1))
      else if c = 0x0A \<or> c = 0x2028 \<or> c = 0x2029 then end_pos (l + 1, 1) cs
      else end_pos (l, k + 1) cs)"

text \<open>The cursor is never between the two halves of a CRLF.\<close>

definition crlf_split :: "rstr \<Rightarrow> rstr \<Rightarrow> bool" where
  "crlf_split u v \<longleftrightarrow> u \<noteq> [] \<and> v \<noteq> [] \<and> last u = 0x0D \<and> hd v = 0x0A"

lemma end_pos_append: "\<not> crlf_split u v \<Longrightarrow> end_pos p (u @ v) = end_pos (end_pos p u) v"
proof (induction p u rule: end_pos.induct)
  case (2 l k c cs)
  show ?case
  proof (cases cs)
    case Nil
    then show ?thesis using 2(4) by (cases v) (auto simp: crlf_split_def)
  next
    case (Cons d ds)
    have "\<not> crlf_split cs v" using 2(4) Cons by (auto simp: crlf_split_def)
    moreover have "\<not> crlf_split ds v" using 2(4) Cons by (auto simp: crlf_split_def)
    ultimately show ?thesis using 2(1,2,3) Cons by auto
  qed
qed simp

definition pos_ok :: "lexer \<Rightarrow> bool" where
  "pos_ok s \<longleftrightarrow> end_pos (1, 1) (lx_pre s) = (lx_line s, lx_col s) \<and> \<not> crlf_split (lx_pre s) (lx_rest s)"

text \<open>
  One scanning step after another: the cursor moves forward over a part of the text, the
  position follows it, diagnostics are only added, and everything else stays.
\<close>

definition scans :: "lexer \<Rightarrow> lexer \<Rightarrow> bool" where
  "scans s s' \<longleftrightarrow>
     (\<exists>w. lx_rest s = w @ lx_rest s' \<and> lx_pre s' = lx_pre s @ w)
     \<and> (pos_ok s \<longrightarrow> pos_ok s')
     \<and> (\<exists>ds. lx_diagnostics s' = lx_diagnostics s @ ds)
     \<and> lx_start s' = lx_start s \<and> lx_start_pos s' = lx_start_pos s
     \<and> lx_template_stack s' = lx_template_stack s \<and> lx_tokens s' = lx_tokens s
     \<and> lx_comments s' = lx_comments s"

named_theorems scan_intros \<open>operations that only scan\<close>

lemma scans_refl [simp, scan_intros]: "scans s s"
  by (auto simp: scans_def)

lemma scans_trans [trans]:
  assumes st: "scans s t" and tu: "scans t u"
  shows "scans s u"
proof -
  obtain v d where v: "lx_rest s = v @ lx_rest t" "lx_pre t = lx_pre s @ v"
      "lx_diagnostics t = lx_diagnostics s @ d"
    using st by (auto simp: scans_def)
  obtain w e where w: "lx_rest t = w @ lx_rest u" "lx_pre u = lx_pre t @ w"
      "lx_diagnostics u = lx_diagnostics t @ e"
    using tu by (auto simp: scans_def)
  show ?thesis
    unfolding scans_def
  proof (intro conjI exI)
    show "lx_rest s = (v @ w) @ lx_rest u" "lx_pre u = lx_pre s @ (v @ w)"
      "lx_diagnostics u = lx_diagnostics s @ (d @ e)"
      using v w by simp_all
  qed (use st tu in \<open>simp_all add: scans_def\<close>)
qed

lemma scans_rest: "scans s t \<Longrightarrow> length (lx_rest t) \<le> length (lx_rest s)"
  by (auto simp: scans_def)

lemma scans_bump [scan_intros]: "scans s (bump s)"
proof (cases "lx_rest s")
  case Nil
  then show ?thesis by (simp add: bump_def)
next
  case (Cons c cs)
  have split: "end_pos (1, 1) (lx_pre s @ w) = end_pos (lx_line s, lx_col s) w"
    if "pos_ok s" "w \<noteq> []" "hd w = c" for w
    using that Cons end_pos_append [of "lx_pre s" w "(1, 1)"] by (auto simp: pos_ok_def crlf_split_def)
  consider (crlf) d ds where "c = 0x0D" "cs = d # ds" "d = 0x0A" | (one) "c \<noteq> 0x0D \<or> cs = [] \<or> hd cs \<noteq> 0x0A"
    by (cases cs) auto
  then show ?thesis
  proof cases
    case crlf
    then show ?thesis using Cons split [of "[c, d]"]
      by (auto simp: bump_def scans_def pos_ok_def crlf_split_def)
  next
    case one
    then show ?thesis using Cons split [of "[c]"]
      by (auto simp: bump_def scans_def pos_ok_def crlf_split_def split: list.splits if_splits)
  qed
qed

lemma scans_error_at [scan_intros]: "scans s (error_at c m p s)"
  by (simp add: scans_def error_at_def pos_ok_def)

lemma scans_lex_error [scan_intros]: "scans s (lex_error c m s)"
  by (simp add: lex_error_def scans_error_at)

lemma scans_bump_while [scan_intros]: "scans s (bump_while P s)"
proof (induction P s rule: bump_while.induct)
  case (1 P s)
  then show ?case
    by (subst bump_while.simps) (auto split: option.split intro: scans_trans [OF scans_bump])
qed

lemma scans_block_comment [scan_intros]: "scans s (block_comment p s)"
proof (induction p s rule: block_comment.induct)
  case (1 p s)
  then show ?case
    by (subst block_comment.simps)
      (auto intro: scans_trans [OF scans_bump] scans_bump scans_error_at)
qed

lemma scans_eat [scan_intros]: "scans s (snd (eat c s))"
  by (simp add: eat_def scans_bump)

lemma scans_bumps [scan_intros]: "scans s ((bump ^^ n) s)"
  by (induction n) (auto intro: scans_trans scans_bump)

lemma scans_eat_str [scan_intros]: "scans s (snd (eat_str w s))"
  by (simp add: eat_str_def scans_bumps)

section \<open>Escapes\<close>

text \<open>The loop over the hex digits of \<open>\u{...}\<close>: \<open>(value, digits, overflow)\<close>.\<close>

function hex_digits :: "nat \<Rightarrow> nat \<Rightarrow> bool \<Rightarrow> lexer \<Rightarrow> (nat \<times> nat \<times> bool) \<times> lexer" where
  "hex_digits value digits overflow s =
     (case peek s of
        Some c \<Rightarrow>
          (case to_digit c 16 of
             Some d \<Rightarrow>
               (if value * 16 + d < 2 ^ 32
                then hex_digits (value * 16 + d) (digits + 1) overflow (bump s)
                else hex_digits (2 ^ 32 - 1) (digits + 1) True (bump s))
           | None \<Rightarrow> ((value, digits, overflow), s))
      | None \<Rightarrow> ((value, digits, overflow), s))"
  by pat_completeness auto
termination
  by (relation "measure (\<lambda>(v, d, ov, s). length (lx_rest s))") (auto dest: peek_Some)

declare hex_digits.simps [simp del]

text \<open>The arm of \<open>scan_escape\<close> for \<open>u{\<close>, after the backslash.\<close>

definition unicode_escape :: "pos \<Rightarrow> lexer \<Rightarrow> lexer" where
  "unicode_escape p s =
     (let ((value, digits, overflow), s1) = hex_digits 0 0 False (bump (bump s));
          (closed, s2) = eat (ch CHR ''}'') s1
      in if \<not> closed then
           error_at InvalidEscape (str ''unterminated `'' @ [0x5C] @ str ''u{'' @ [0x2026] @ str ''}` escape'') p s2
         else if digits = 0 then
           error_at InvalidEscape (str ''`'' @ [0x5C] @ str ''u{}` needs at least one hex digit'') p s2
         else if overflow \<or> \<not> is_scalar value then
           error_at InvalidEscape (str ''escape does not name a Unicode scalar value'') p s2
         else s2)"

definition scan_escape :: "lexer \<Rightarrow> lexer" where
  "scan_escape s0 =
     (let p = lx_pos s0;
          s = bump s0
      in case peek s of
           Some c \<Rightarrow>
             if c \<in> {(ch CHR ''n''), (ch CHR ''r''), (ch CHR ''t''), (ch CHR ''0''), 0x5C, 0x27, 0x22, (ch CHR ''`'')} then bump s
             else if c = (ch CHR ''u'') \<and> peek2 s = Some (ch CHR ''{'') then unicode_escape p s
             else if c = (ch CHR ''u'') then
               error_at InvalidEscape
                 (str ''write code points as `'' @ [0x5C] @ str ''u{'' @ [0x2026] @ str ''}`; there are no UTF-16 `'' @ [0x5C] @ str ''uXXXX` escapes ('' @ [0xA7] @ str ''2.6)'') p (bump s)
             else error_at InvalidEscape ((str ''unknown escape `'' @ [0x5C]) @ [c] @ (str ''`'')) p (bump s)
         | None \<Rightarrow> error_at InvalidEscape (str ''trailing backslash'') p s)"

lemma scans_hex_digits: "scans s (snd (hex_digits v d ov s))"
proof (induction v d ov s rule: hex_digits.induct)
  case (1 v d ov s)
  then show ?case
    by (subst hex_digits.simps) (auto split: option.split intro: scans_trans [OF scans_bump])
qed

lemma scans_trans_bump: "scans (bump s) t \<Longrightarrow> scans s t"
  by (rule scans_trans [OF scans_bump])

lemma scans_then_error: "scans s t \<Longrightarrow> scans s (error_at c m p t)"
  by (rule scans_trans [OF _ scans_error_at])

lemma scans_then_lex_error: "scans s t \<Longrightarrow> scans s (lex_error c m t)"
  by (rule scans_trans [OF _ scans_lex_error])

lemma scans_then_bump: "scans s t \<Longrightarrow> scans s (bump t)"
  by (rule scans_trans [OF _ scans_bump])

lemmas scans_then = scans_then_error scans_then_lex_error scans_then_bump

lemma scans_unicode_escape [scan_intros]: "scans s (unicode_escape p s)"
proof -
  obtain v d ov s1 where h: "hex_digits 0 0 False (bump (bump s)) = ((v, d, ov), s1)"
    by (metis prod.exhaust)
  obtain cl s2 where e: "eat (ch CHR ''}'') s1 = (cl, s2)" by fastforce
  have "scans s s1"
    using scans_hex_digits [of "bump (bump s)" 0 0 False] h scans_trans_bump by auto
  moreover have "scans s1 s2" using scans_eat [of s1 "(ch CHR ''}'')"] e by simp
  ultimately have "scans s s2" by (rule scans_trans)
  then show ?thesis unfolding unicode_escape_def Let_def h split_conv e by (simp add: scans_then)
qed

lemma scan_escape_after: "scans (bump s) (scan_escape s)"
  by (simp add: scan_escape_def Let_def scans_then scans_unicode_escape split: option.split)

lemma scans_scan_escape [scan_intros]: "scans s (scan_escape s)"
  by (rule scans_trans_bump) (rule scan_escape_after)

lemma scan_escape_rest [simp]: "lx_rest s \<noteq> [] \<Longrightarrow> length (lx_rest (scan_escape s)) < length (lx_rest s)"
  using scans_rest [OF scan_escape_after [of s]] bump_rest_less [of s] by linarith

section \<open>Strings, characters, templates\<close>

function string_loop :: "rchar \<Rightarrow> lexer \<Rightarrow> lexer" where
  "string_loop quote s =
     (case peek s of
        None \<Rightarrow> lex_error UnterminatedString (str ''unterminated string literal'') s
      | Some c \<Rightarrow>
          if is_line_terminator c then
            lex_error UnterminatedString (str ''string literal must close before the end of the line'') s
          else if c = quote then bump s
          else if c = 0x5C then string_loop quote (scan_escape s)
          else string_loop quote (bump s))"
  by pat_completeness auto
termination
  by (relation "measure (\<lambda>(q, s). length (lx_rest s))") (auto dest: peek_Some)

definition scan_string :: "rchar \<Rightarrow> lexer \<Rightarrow> lexer" where
  "scan_string quote s = emit TkStr (string_loop quote (bump s))"

text \<open>The recovery loop of a character literal: to the closing quote or the end of the line.\<close>

function char_recover :: "lexer \<Rightarrow> lexer" where
  "char_recover s =
     (case peek s of
        None \<Rightarrow> s
      | Some c \<Rightarrow>
          if is_line_terminator c then s
          else if c = 0x27 then bump s
          else char_recover (bump s))"
  by pat_completeness auto
termination
  by (relation "measure (\<lambda>s. length (lx_rest s))") (auto dest: peek_Some)

declare string_loop.simps [simp del] char_recover.simps [simp del]

definition char_close :: "lexer \<Rightarrow> lexer" where
  "char_close s =
     (let (closed, s1) = eat 0x27 s
      in emit TkChar
           (if \<not> closed then
              char_recover (lex_error InvalidCharLiteral
                (str ''character literal must contain exactly one code point'') s1)
            else s1))"

definition scan_char_literal :: "lexer \<Rightarrow> lexer" where
  "scan_char_literal s0 =
     (let s = bump (bump s0)
      in case peek s of
           None \<Rightarrow>
             emit TkChar (snd (eat 0x27 (lex_error InvalidCharLiteral (str ''empty character literal'') s)))
         | Some c \<Rightarrow>
             if c = 0x27 then
               emit TkChar (snd (eat 0x27 (lex_error InvalidCharLiteral (str ''empty character literal'') s)))
             else if is_line_terminator c then
               emit TkChar (lex_error InvalidCharLiteral (str ''unterminated character literal'') s)
             else if c = 0x5C then char_close (scan_escape s)
             else char_close (bump s))"

datatype template_open = OpenBacktick | OpenBrace

text \<open>
  The loop of \<open>scan_template_part\<close>: the state in which it returns and how the part ends.
\<close>

datatype template_end = EndOfText | EndBacktick | EndSubstitution

function template_loop :: "lexer \<Rightarrow> template_end \<times> lexer" where
  "template_loop s =
     (case peek s of
        None \<Rightarrow> (EndOfText, lex_error UnterminatedTemplate (str ''unterminated template literal'') s)
      | Some c \<Rightarrow>
          if c = (ch CHR ''`'') then (EndBacktick, bump s)
          else if c = (ch CHR ''$'') \<and> peek2 s = Some (ch CHR ''{'') then (EndSubstitution, bump (bump s))
          else if c = 0x5C then template_loop (scan_escape s)
          else template_loop (bump s))"
  by pat_completeness auto
termination
  by (relation "measure (\<lambda>s. length (lx_rest s))") (auto dest: peek_Some)

declare template_loop.simps [simp del]

definition scan_template_part :: "template_open \<Rightarrow> lexer \<Rightarrow> lexer" where
  "scan_template_part opn s0 =
     (case template_loop (bump s0) of
        (EndOfText, s) \<Rightarrow>
          emit (case opn of OpenBacktick \<Rightarrow> TkTemplateNoSub | OpenBrace \<Rightarrow> TkTemplateTail) s
      | (EndBacktick, s) \<Rightarrow>
          emit (case opn of OpenBacktick \<Rightarrow> TkTemplateNoSub | OpenBrace \<Rightarrow> TkTemplateTail) s
      | (EndSubstitution, s) \<Rightarrow>
          emit (case opn of OpenBacktick \<Rightarrow> TkTemplateHead | OpenBrace \<Rightarrow> TkTemplateMiddle)
            (s\<lparr>lx_template_stack := lx_template_stack s @ [0]\<rparr>))"

section \<open>Identifiers and numbers\<close>

definition scan_ident :: "ident_tables \<Rightarrow> lexer \<Rightarrow> lexer" where
  "scan_ident ut s0 =
     (let s = bump_while (is_id_continue ut) (bump s0)
      in case keyword_from_str (text_from (lx_start s) s) of
           Some kw \<Rightarrow> emit (TkKeyword kw) s
         | None \<Rightarrow> emit TkIdent s)"

datatype num_form = NumInt nat | NumFloat | NumFloatExpOnly

definition int_suffix_of :: "rstr \<Rightarrow> int_suffix option" where
  "int_suffix_of s =
     (if s = str ''u'' then Some SfxU
      else if s = str ''l'' then Some SfxL
      else if s = str ''ul'' then Some SfxUl
      else if s = str ''i8'' then Some SfxI8
      else if s = str ''i16'' then Some SfxI16
      else if s = str ''i32'' then Some SfxI32
      else if s = str ''i64'' then Some SfxI64
      else if s = str ''u8'' then Some SfxU8
      else if s = str ''u16'' then Some SfxU16
      else if s = str ''u32'' then Some SfxU32
      else if s = str ''u64'' then Some SfxU64
      else None)"

lemma bump_rest_less_eq:
  "lx_rest t = lx_rest s \<Longrightarrow> lx_rest s \<noteq> [] \<Longrightarrow> length (lx_rest (bump t)) < length (lx_rest s)"
  using bump_rest_less [of t] by simp

text \<open>The loop of \<open>scan_digits\<close>: \<open>(last_sep_pos, saw_digit)\<close>.\<close>

function digits_loop :: "nat \<Rightarrow> pos option \<Rightarrow> bool \<Rightarrow> lexer \<Rightarrow> (pos option \<times> bool) \<times> lexer" where
  "digits_loop radix last_sep saw s =
     (case peek s of
        Some c \<Rightarrow>
          if c = (ch CHR ''_'') then
            (let p = lx_pos s;
                 s1 = (if \<not> saw \<or> last_sep \<noteq> None
                       then error_at BadDigitSeparator (str ''`_` must separate two digits'') p s else s)
             in digits_loop radix (Some p) saw (bump s1))
          else if is_digit c radix then digits_loop radix None True (bump s)
          else ((last_sep, saw), s)
      | None \<Rightarrow> ((last_sep, saw), s))"
  by pat_completeness auto
termination
  by (relation "measure (\<lambda>(r, l, sw, s). length (lx_rest s))")
    (auto dest!: peek_Some intro!: bump_rest_less_eq)

declare digits_loop.simps [simp del]

definition scan_digits :: "nat \<Rightarrow> lexer \<Rightarrow> lexer" where
  "scan_digits radix s =
     (let ((last_sep, saw), s1) = digits_loop radix None False s;
          s2 = (case last_sep of
                  Some p \<Rightarrow> error_at BadDigitSeparator (str ''`_` must separate two digits'') p s1
                | None \<Rightarrow> s1)
      in if \<not> saw then lex_error UnexpectedChar (str ''expected at least one digit'') s2 else s2)"

definition number_kind :: "num_form \<Rightarrow> rstr \<Rightarrow> token_kind option" where
  "number_kind form suffix =
     (case form of
        NumInt radix \<Rightarrow>
          if suffix = [] then Some (TkInt None)
          else if suffix = str ''n'' then Some TkBigInt
          else if radix = 10 \<and> suffix = str ''m'' then Some TkBigDec
          else if radix = 10 \<and> suffix = str ''f'' then Some (TkFloat True)
          else if int_suffix_of suffix \<noteq> None then Some (TkInt (int_suffix_of suffix))
          else None
      | _ \<Rightarrow>
          if suffix = [] then Some (TkFloat False)
          else if suffix = str ''f'' then Some (TkFloat True)
          else if suffix = str ''m'' then Some TkBigDec
          else None)"

definition finish_number :: "ident_tables \<Rightarrow> num_form \<Rightarrow> lexer \<Rightarrow> lexer" where
  "finish_number ut form s0 =
     (let suffix_start = lx_idx s0;
          s = bump_while (is_id_continue ut) s0;
          suffix = text_from suffix_start s
      in case number_kind form suffix of
           Some kind \<Rightarrow> emit kind s
         | None \<Rightarrow>
             emit (TkInt None)
               (lex_error InvalidNumericSuffix
                  ((str ''invalid suffix '')
                   @ (if suffix = [] then (str ''here'') else (str ''`'') @ suffix @ (str ''`''))
                   @ (str '' on this numeric literal'')) s))"

text \<open>The exponent, when one follows.\<close>

definition exponent_follows :: "lexer \<Rightarrow> bool" where
  "exponent_follows s \<longleftrightarrow>
     (peek s = Some (ch CHR ''e'') \<or> peek s = Some (ch CHR ''E''))
     \<and> (case peek2 s of
          Some d \<Rightarrow> is_decimal d
            \<or> ((d = (ch CHR ''+'') \<or> d = (ch CHR ''-'')) \<and> (case char_at 2 s of Some x \<Rightarrow> is_decimal x | None \<Rightarrow> False))
        | None \<Rightarrow> False)"

definition scan_exponent :: "lexer \<Rightarrow> lexer" where
  "scan_exponent s0 =
     (let s = bump s0;
          s1 = (if peek s = Some (ch CHR ''+'') \<or> peek s = Some (ch CHR ''-'') then bump s else s)
      in scan_digits 10 s1)"

definition finish_decimal :: "ident_tables \<Rightarrow> num_form \<Rightarrow> lexer \<Rightarrow> lexer" where
  "finish_decimal ut form s =
     (if exponent_follows s
      then finish_number ut (if form = NumInt 10 then NumFloatExpOnly else form) (scan_exponent s)
      else finish_number ut form s)"

definition scan_decimal :: "ident_tables \<Rightarrow> lexer \<Rightarrow> lexer" where
  "scan_decimal ut s0 =
     (let s1 = scan_digits 10 s0;
          int_part = text_from (lx_start s1) s1;
          s = (if str_len int_part > 1 \<and> take 1 int_part = [(ch CHR ''0'')]
               then lex_error BadDigitSeparator
                      (str ''leading zeros are not allowed; write octal as `0o'' @ [0x2026] @ str ''` ('' @ [0xA7] @ str ''2.6)'') s1
               else s1)
      in if peek s = Some (ch CHR ''.'') then
           (case peek2 s of
              Some d \<Rightarrow>
                if is_decimal d then finish_decimal ut NumFloat (scan_digits 10 (bump s))
                else emit (TkFloat False)
                       (lex_error ExpectedDigitAfterDot
                          (str ''expected a digit after the decimal point; write `1.0`, not `1.`'') (bump s))
            | None \<Rightarrow> emit (TkFloat False)
                       (lex_error ExpectedDigitAfterDot
                          (str ''expected a digit after the decimal point; write `1.0`, not `1.`'') (bump s)))
         else finish_decimal ut (NumInt 10) s)"

definition scan_number :: "ident_tables \<Rightarrow> lexer \<Rightarrow> lexer" where
  "scan_number ut s =
     (if starts_with (str ''0x'') s then finish_number ut (NumInt 16) (scan_digits 16 (snd (eat_str (str ''0x'') s)))
      else if starts_with (str ''0o'') s then finish_number ut (NumInt 8) (scan_digits 8 (snd (eat_str (str ''0o'') s)))
      else if starts_with (str ''0b'') s then finish_number ut (NumInt 2) (scan_digits 2 (snd (eat_str (str ''0b'') s)))
      else scan_decimal ut s)"

section \<open>Punctuators and dispatch\<close>

text \<open>The table of \<open>scan_punct\<close>, longest match first within each leading character.\<close>

definition punct_table :: "(rstr \<times> punct) list" where
  "punct_table =
     [(str ''...'', PDotDotDot), (str ''**='', PStarStarEq), (str ''<<='', PShlEq)
      , (str ''>>='', PShrEq), (str ''&&='', PAmpAmpEq), (str ''||='', PPipePipeEq)
      , (str ''??='', PQuestionQuestionEq), (str ''=>'', PArrow), (str ''=='', PEqEq)
      , (str ''!='', PNotEq), (str ''<='', PLtEq), (str ''>='', PGtEq), (str ''<<'', PShl)
      , (str ''>>'', PShr), (str ''&&'', PAmpAmp), (str ''||'', PPipePipe)
      , (str ''??'', PQuestionQuestion), (str ''?.'', PQuestionDot), (str ''++'', PPlusPlus)
      , (str ''--'', PMinusMinus), (str ''**'', PStarStar), (str ''+='', PPlusEq)
      , (str ''-='', PMinusEq), (str ''*='', PStarEq), (str ''/='', PSlashEq)
      , (str ''%='', PPercentEq), (str ''&='', PAmpEq), (str ''|='', PPipeEq)
      , (str ''^='', PCaretEq), (str ''('', PLParen), (str '')'', PRParen)
      , (str ''['', PLBracket), (str '']'', PRBracket), (str ''{'', PLBrace)
      , (str ''}'', PRBrace), (str '';'', PSemi), (str '','', PComma), (str ''.'', PDot)
      , (str '':'', PColon), (str ''?'', PQuestion), (str ''+'', PPlus), (str ''-'', PMinus)
      , (str ''*'', PStar), (str ''/'', PSlash), (str ''%'', PPercent), (str ''='', PEq)
      , (str ''<'', PLt), (str ''>'', PGt), (str ''&'', PAmp), (str ''|'', PPipe)
      , (str ''^'', PCaret), (str ''~'', PTilde), (str ''!'', PBang)]"

definition adjust_depth :: "punct \<Rightarrow> u32 list \<Rightarrow> u32 list" where
  "adjust_depth p stack =
     (if stack = [] then stack
      else if p = PLBrace then butlast stack @ [last stack + 1]
      else if p = PRBrace then butlast stack @ [last stack - 1]
      else stack)"

definition scan_punct :: "rchar \<Rightarrow> lexer \<Rightarrow> lexer" where
  "scan_punct c s =
     (if starts_with (str ''==='') s then
        emit (TkPunct PEqEq) (snd (eat_str (str ''==='')
          (lex_error UnexpectedChar (str ''there is no `===`; `==` is already strict ('' @ [0xA7] @ str ''3.5)'') s)))
      else if starts_with (str ''!=='') s then
        emit (TkPunct PNotEq) (snd (eat_str (str ''!=='')
          (lex_error UnexpectedChar (str ''there is no `!==`; `!=` is already strict ('' @ [0xA7] @ str ''3.5)'') s)))
      else (case find (\<lambda>(t, p). starts_with t s) punct_table of
              Some (t, p) \<Rightarrow>
                (let s1 = snd (eat_str t s)
                 in emit (TkPunct p) (s1\<lparr>lx_template_stack := adjust_depth p (lx_template_stack s1)\<rparr>))
            | None \<Rightarrow>
                lex_error UnexpectedChar ((str ''unexpected character `'') @ [c] @ (str ''`'')) (bump s)))"

definition scan_token :: "ident_tables \<Rightarrow> rchar \<Rightarrow> lexer \<Rightarrow> lexer" where
  "scan_token ut c s =
     (if c = (ch CHR ''c'') \<and> peek2 s = Some 0x27 then scan_char_literal s
      else if is_id_start ut c then scan_ident ut s
      else if is_decimal c then scan_number ut s
      else if c = 0x22 \<or> c = 0x27 then scan_string c s
      else if c = (ch CHR ''`'') then scan_template_part OpenBacktick s
      else if c = (ch CHR ''}'') \<and> lx_template_stack s \<noteq> [] \<and> last (lx_template_stack s) = 0 then
        scan_template_part OpenBrace (s\<lparr>lx_template_stack := butlast (lx_template_stack s)\<rparr>)
      else scan_punct c s)"

section \<open>Every scanner moves forward and emits at most one token\<close>

lemma scans_string_loop [scan_intros]: "scans s (string_loop q s)"
proof (induction q s rule: string_loop.induct)
  case (1 q s)
  then show ?case
    by (subst string_loop.simps)
      (auto split: option.split intro: scans_trans_bump scans_trans [OF scans_scan_escape] scans_lex_error scans_bump)
qed

lemma scans_char_recover [scan_intros]: "scans s (char_recover s)"
proof (induction s rule: char_recover.induct)
  case (1 s)
  then show ?case
    by (subst char_recover.simps) (auto split: option.split intro: scans_trans_bump scans_bump)
qed

lemma scans_template_loop [scan_intros]: "scans s (snd (template_loop s))"
proof (induction s rule: template_loop.induct)
  case (1 s)
  then show ?case
    by (subst template_loop.simps)
      (auto split: option.split intro: scans_trans_bump scans_trans [OF scans_scan_escape] scans_lex_error scans_bump)
qed

lemma scans_digits_loop: "scans s (snd (digits_loop r l sw s))"
proof (induction r l sw s rule: digits_loop.induct)
  case (1 r l sw s)
  show ?case
  proof (cases "peek s")
    case (Some c)
    define t where "t = (if \<not> sw \<or> l \<noteq> None
        then error_at BadDigitSeparator (str ''`_` must separate two digits'') (lx_pos s) s else s)"
    have t: "scans s (bump t)" by (simp add: t_def scans_then scans_bump)
    have "scans s (snd (digits_loop r (Some (lx_pos s)) sw (bump t)))" if "c = (ch CHR ''_'')"
      by (rule scans_trans [OF t]) (use 1(1) Some that t_def in blast)
    moreover have "scans s (snd (digits_loop r None True (bump s)))" if "c \<noteq> (ch CHR ''_'')" "is_digit c r"
      by (rule scans_trans_bump) (use 1(2) Some that in blast)
    ultimately show ?thesis
      using Some by (subst digits_loop.simps) (simp add: t_def Let_def)
  qed (subst digits_loop.simps, simp)
qed

lemma scans_scan_digits [scan_intros]: "scans s (scan_digits r s)"
proof -
  obtain l sw s1 where d: "digits_loop r None False s = ((l, sw), s1)" by (metis prod.exhaust)
  have "scans s s1" using scans_digits_loop [of s r None False] d by simp
  then show ?thesis
    unfolding scan_digits_def Let_def d split_conv by (simp add: scans_then split: option.split)
qed

text \<open>A token was scanned: a non-empty part of the text, emitted as one token.\<close>

definition tokenized :: "lexer \<Rightarrow> token_kind \<Rightarrow> lexer \<Rightarrow> bool" where
  "tokenized s k s' \<longleftrightarrow> (\<exists>t. scans (bump s) t \<and> s' = emit k t)"

lemma tokenizedI: "scans (bump s) t \<Longrightarrow> tokenized s k (emit k t)"
  by (auto simp: tokenized_def)

lemma scan_string_tokenized: "tokenized s TkStr (scan_string q s)"
  unfolding scan_string_def by (intro tokenizedI scans_string_loop)

lemma char_close_tokenized: "scans (bump s) t \<Longrightarrow> tokenized s TkChar (char_close t)"
proof -
  assume t: "scans (bump s) t"
  obtain cl u where e: "eat 0x27 t = (cl, u)" by fastforce
  have "scans (bump s) u" using scans_trans [OF t scans_eat [of t "0x27"]] e by simp
  then show ?thesis
    unfolding char_close_def Let_def e split_conv
    by (intro tokenizedI) (auto intro: scans_trans [OF scans_then_lex_error scans_char_recover])
qed

lemma scan_char_literal_tokenized: "tokenized s TkChar (scan_char_literal s)"
  unfolding scan_char_literal_def Let_def
  by (auto split: option.split intro!: tokenizedI char_close_tokenized scans_trans [OF _ scans_eat]
      scans_trans [OF scans_bump scans_scan_escape] scans_then_lex_error scans_then_bump scans_bump)

definition number_scanned :: "lexer \<Rightarrow> lexer \<Rightarrow> bool" where
  "number_scanned s s' \<longleftrightarrow>
     (\<exists>k. k \<in> {TkBigInt, TkBigDec} \<union> range TkInt \<union> range TkFloat \<and> tokenized s k s')"

lemma number_kind_kinds: "number_kind f w = Some k \<Longrightarrow> k \<in> {TkBigInt, TkBigDec} \<union> range TkInt \<union> range TkFloat"
  by (cases f) (auto simp: number_kind_def split: if_splits)

lemma number_scannedI:
  "scans (bump s) t \<Longrightarrow> k \<in> {TkBigInt, TkBigDec} \<union> range TkInt \<union> range TkFloat \<Longrightarrow> number_scanned s (emit k t)"
  unfolding number_scanned_def by (blast intro: tokenizedI)

lemma finish_number_scanned:
  assumes t: "scans (bump s) t"
  shows "number_scanned s (finish_number ut f t)"
proof -
  have b: "scans (bump s) (bump_while (is_id_continue ut) t)"
    by (rule scans_trans [OF t scans_bump_while])
  show ?thesis
    unfolding finish_number_def Let_def
    by (cases "number_kind f (text_from (lx_idx t) (bump_while (is_id_continue ut) t))")
      (simp_all only: option.case, (rule number_scannedI, blast intro: b scans_then_lex_error number_kind_kinds,
        blast dest: number_kind_kinds)+)
qed

lemma finish_decimal_scanned:
  "scans (bump s) t \<Longrightarrow> number_scanned s (finish_decimal ut f t)"
  unfolding finish_decimal_def scan_exponent_def Let_def
  by (simp add: finish_number_scanned scans_trans [OF _ scans_scan_digits] scans_then_bump)

lemma scan_digits_first:
  assumes "peek s = Some c" "is_digit c r"
  shows "scans (bump s) (scan_digits r s)"
proof -
  obtain l sw s1 where d: "digits_loop r None False s = ((l, sw), s1)" by (metis prod.exhaust)
  have "digits_loop r None False s = digits_loop r None True (bump s)" if "c \<noteq> (ch CHR ''_'')"
    using that assms by (subst digits_loop.simps) simp
  moreover have "c \<noteq> (ch CHR ''_'')" using assms(2) by (auto simp: is_digit_def to_digit_def)
  ultimately have e: "digits_loop r None True (bump s) = ((l, sw), s1)" using d by simp
  have "scans (bump s) s1"
    using scans_digits_loop [of "bump s" r None True] unfolding e by simp
  then show ?thesis
    unfolding scan_digits_def Let_def d split_conv by (simp add: scans_then split: option.split)
qed

lemma is_decimal_digit: "is_decimal c \<Longrightarrow> is_digit c 10"
  by (auto simp: is_decimal_def is_digit_def to_digit_def)

lemma scan_decimal_scanned:
  assumes "peek s = Some c" "is_decimal c"
  shows "number_scanned s (scan_decimal ut s)"
proof -
  define s1 where "s1 = scan_digits 10 s"
  have s1: "scans (bump s) s1"
    using assms is_decimal_digit by (auto simp: s1_def intro: scan_digits_first)
  define t where "t = (if str_len (text_from (lx_start s1) s1) > 1 \<and> take 1 (text_from (lx_start s1) s1) = [(ch CHR ''0'')]
    then lex_error BadDigitSeparator (str ''leading zeros are not allowed; write octal as `0o'' @ [0x2026] @ str ''` ('' @ [0xA7] @ str ''2.6)'') s1 else s1)"
  have t: "scans (bump s) t" "scans (bump s) (bump t)"
    using s1 by (simp_all add: t_def scans_then)
  have "number_scanned s (emit (TkFloat False) (lex_error c m (bump t)))" for c m
    using t by (intro number_scannedI) (auto intro: scans_then_lex_error)
  moreover have "number_scanned s (finish_decimal ut NumFloat (scan_digits 10 (bump t)))"
    by (intro finish_decimal_scanned scans_trans [OF t(2) scans_scan_digits])
  moreover have "number_scanned s (finish_decimal ut (NumInt 10) t)"
    by (intro finish_decimal_scanned t)
  ultimately show ?thesis
    unfolding scan_decimal_def Let_def s1_def [symmetric] t_def [symmetric]
    by (simp only: split: option.split if_split) blast
qed

lemma eat_str_bump:
  assumes "starts_with w s" "w \<noteq> []"
  shows "scans (bump s) (snd (eat_str w s))"
proof -
  obtain n where "length w = Suc n" using assms(2) by (cases w) auto
  then have "snd (eat_str w s) = (bump ^^ n) (bump s)"
    using assms(1) by (simp add: eat_str_def funpow_swap1 del: funpow.simps(2) add: funpow_Suc_right)
  then show ?thesis by (simp add: scans_bumps)
qed

lemma scan_number_scanned:
  assumes "peek s = Some c" "is_decimal c"
  shows "number_scanned s (scan_number ut s)"
proof -
  have "number_scanned s (finish_number ut f (scan_digits r (snd (eat_str w s))))"
    if "starts_with w s" "w \<noteq> []" for f r w
    by (intro finish_number_scanned scans_trans [OF eat_str_bump [OF that] scans_scan_digits])
  then show ?thesis
    unfolding scan_number_def using scan_decimal_scanned [OF assms] by simp
qed

lemma scan_ident_tokenized:
  "tokenized s (case keyword_from_str (text_from (lx_start s) (bump_while (is_id_continue ut) (bump s))) of
       Some kw \<Rightarrow> TkKeyword kw | None \<Rightarrow> TkIdent) (scan_ident ut s)"
proof -
  define t where "t = bump_while (is_id_continue ut) (bump s)"
  have t: "scans (bump s) t" by (simp add: t_def scans_bump_while)
  then have "lx_start t = lx_start s" using scans_bump [of s] by (simp add: scans_def)
  then show ?thesis
    unfolding scan_ident_def Let_def t_def [symmetric] using t
    by (cases "keyword_from_str (text_from (lx_start s) t)") (auto intro: tokenizedI)
qed

section \<open>The template stack as a function of the tokens\<close>

definition stack_after :: "token_kind \<Rightarrow> u32 list \<Rightarrow> u32 list" where
  "stack_after k stack =
     (case k of
        TkTemplateHead \<Rightarrow> stack @ [0]
      | TkTemplateMiddle \<Rightarrow> butlast stack @ [0]
      | TkTemplateTail \<Rightarrow> butlast stack
      | TkPunct p \<Rightarrow> adjust_depth p stack
      | _ \<Rightarrow> stack)"

text \<open>
  One token: a non-empty part of the text is scanned, the stack changes as the kind says,
  and the token is emitted.
\<close>

definition token_scanned :: "lexer \<Rightarrow> token_kind \<Rightarrow> lexer \<Rightarrow> lexer \<Rightarrow> bool" where
  "token_scanned s k t s' \<longleftrightarrow>
     scans (bump s) t \<and> k \<noteq> TkEof
     \<and> s' = emit k (t\<lparr>lx_template_stack := stack_after k (lx_template_stack s)\<rparr>)"

lemma bump_stack [simp]: "lx_template_stack (bump s) = lx_template_stack s"
  using scans_bump [of s] by (simp add: scans_def)

lemma scans_stack: "scans s t \<Longrightarrow> lx_template_stack t = lx_template_stack s"
  by (simp add: scans_def)

lemma tokenized_scanned:
  assumes "tokenized s k s'" "k \<noteq> TkEof" "stack_after k (lx_template_stack s) = lx_template_stack s"
  shows "\<exists>t. token_scanned s k t s'"
proof -
  obtain t where t: "scans (bump s) t" "s' = emit k t" using assms(1) by (auto simp: tokenized_def)
  then have "t\<lparr>lx_template_stack := stack_after k (lx_template_stack s)\<rparr> = t"
    using assms(3) scans_stack [OF t(1)] by (cases t) simp
  then show ?thesis using t assms(2) by (auto simp: token_scanned_def)
qed

lemma stack_update_parts [simp]:
  "lx_pre (s\<lparr>lx_template_stack := st\<rparr>) = lx_pre s" "lx_rest (s\<lparr>lx_template_stack := st\<rparr>) = lx_rest s"
  by simp_all

lemma bump_stack_update: "bump (s\<lparr>lx_template_stack := st\<rparr>) = (bump s)\<lparr>lx_template_stack := st\<rparr>"
  by (auto simp: bump_def split: list.split)

lemma scans_stack_update:
  "scans (s\<lparr>lx_template_stack := st\<rparr>) t \<Longrightarrow> scans s (t\<lparr>lx_template_stack := lx_template_stack s\<rparr>)"
  by (auto simp: scans_def pos_ok_def)

lemma template_part_scanned:
  assumes "opn = OpenBacktick \<and> st = lx_template_stack s \<or> opn = OpenBrace \<and> st = butlast (lx_template_stack s)"
  shows "\<exists>k t. token_scanned s k t (scan_template_part opn (s\<lparr>lx_template_stack := st\<rparr>))
    \<and> k \<in> {TkTemplateNoSub, TkTemplateHead, TkTemplateMiddle, TkTemplateTail}"
proof -
  obtain e u where e: "template_loop (bump (s\<lparr>lx_template_stack := st\<rparr>)) = (e, u)" by fastforce
  then have u: "scans ((bump s)\<lparr>lx_template_stack := st\<rparr>) u"
    using scans_template_loop [of "bump (s\<lparr>lx_template_stack := st\<rparr>)"] by (simp add: bump_stack_update)
  define k where "k = (case (e, opn) of
      (EndSubstitution, OpenBacktick) \<Rightarrow> TkTemplateHead
    | (EndSubstitution, OpenBrace) \<Rightarrow> TkTemplateMiddle
    | (_, OpenBacktick) \<Rightarrow> TkTemplateNoSub
    | (_, OpenBrace) \<Rightarrow> TkTemplateTail)"
  define t where "t = u\<lparr>lx_template_stack := lx_template_stack s\<rparr>"
  have t: "scans (bump s) t" using scans_stack_update [OF u] by (simp add: t_def)
  have "scan_template_part opn (s\<lparr>lx_template_stack := st\<rparr>)
      = emit k (u\<lparr>lx_template_stack := (if e = EndSubstitution then st @ [0] else st)\<rparr>)"
    using scans_stack [OF u] unfolding scan_template_part_def e k_def
    by (cases e; cases opn; cases u) simp_all
  also have "u\<lparr>lx_template_stack := (if e = EndSubstitution then st @ [0] else st)\<rparr>
      = t\<lparr>lx_template_stack := stack_after k (lx_template_stack s)\<rparr>"
    using assms by (cases e) (auto simp: t_def k_def stack_after_def)
  finally have "token_scanned s k t (scan_template_part opn (s\<lparr>lx_template_stack := st\<rparr>))"
    using t unfolding token_scanned_def by (auto simp: k_def split: template_end.split template_open.split)
  moreover have "k \<in> {TkTemplateNoSub, TkTemplateHead, TkTemplateMiddle, TkTemplateTail}"
    by (auto simp: k_def split: template_end.split template_open.split)
  ultimately show ?thesis by blast
qed

lemma punct_table_ne: "(t, p) \<in> set punct_table \<Longrightarrow> t \<noteq> []"
  by (auto simp: punct_table_def)

lemma find_tableD: "find P xs = Some x \<Longrightarrow> x \<in> set xs \<and> P x"
  by (induction xs) (auto split: if_splits)

lemma scans_error_eat:
  assumes "starts_with w s" "w \<noteq> []"
  shows "scans (bump s) (snd (eat_str w (lex_error c m s)))"
proof -
  obtain n where n: "length w = Suc n" using assms(2) by (cases w) auto
  have b: "bump (lex_error c m s) = lex_error c m (bump s)"
    by (auto simp: bump_def lex_error_def error_at_def split: list.split)
  have "snd (eat_str w (lex_error c m s)) = (bump ^^ n) (bump (lex_error c m s))"
    using assms(1) n by (simp add: eat_str_def starts_with_def funpow_Suc_right del: funpow.simps(2))
  then show ?thesis
    unfolding b by (simp add: scans_trans [OF scans_lex_error scans_bumps])
qed

lemma scan_punct_scanned:
  obtains (punct) p t w where "token_scanned s (TkPunct p) t (scan_punct c s)"
      "w = (str ''==='') \<and> p = PEqEq \<or> w = (str ''!=='') \<and> p = PNotEq
       \<or> find (\<lambda>(t, p). starts_with t s) punct_table = Some (w, p)"
      "starts_with w s" "(bump ^^ length w) s = t \<or> (\<exists>m. (bump ^^ length w) (lex_error UnexpectedChar m s) = t)"
  | (bad) m where "scan_punct c s = lex_error UnexpectedChar m (bump s)"
    "find (\<lambda>(t, p). starts_with t s) punct_table = None"
proof -
  have eq: thesis if w: "starts_with w s" "w = (str ''==='') \<and> p = PEqEq \<or> w = (str ''!=='') \<and> p = PNotEq"
    and sp: "scan_punct c s = emit (TkPunct p) (snd (eat_str w (lex_error UnexpectedChar m s)))" for w p m
  proof -
    define t where "t = snd (eat_str w (lex_error UnexpectedChar m s))"
    have "w \<noteq> []" using w(2) by auto
    then have t: "scans (bump s) t" unfolding t_def by (rule scans_error_eat [OF w(1)])
    then have st: "lx_template_stack t = lx_template_stack s" using scans_stack by fastforce
    have "stack_after (TkPunct p) (lx_template_stack s) = lx_template_stack s"
      using w(2) by (auto simp: stack_after_def adjust_depth_def)
    then have "t\<lparr>lx_template_stack := stack_after (TkPunct p) (lx_template_stack s)\<rparr> = t"
      using st by (cases t) simp
    then have "token_scanned s (TkPunct p) t (scan_punct c s)"
      using t sp by (simp add: token_scanned_def t_def)
    moreover have "(bump ^^ length w) (lex_error UnexpectedChar m s) = t"
      using w(1) by (simp add: t_def eat_str_def starts_with_def)
    ultimately show thesis using punct w by metis
  qed
  consider (three) "starts_with (str ''==='') s" | (ne) "\<not> starts_with (str ''==='') s" "starts_with (str ''!=='') s"
    | (table) "\<not> starts_with (str ''==='') s" "\<not> starts_with (str ''!=='') s" by blast
  then show thesis
  proof cases
    case three
    show thesis
      by (rule eq [of "(str ''==='')" PEqEq]) (use three in \<open>simp_all only: scan_punct_def if_True simp_thms\<close>)
  next
    case ne
    show thesis
      by (rule eq [of "(str ''!=='')" PNotEq]) (use ne in \<open>simp_all only: scan_punct_def if_True if_False simp_thms\<close>)
  next
    case table
    show thesis
    proof (cases "find (\<lambda>(t, p). starts_with t s) punct_table")
      case None
      then show thesis using table bad by (simp only: scan_punct_def if_False option.case)
    next
      case (Some wp)
      obtain w p where wp: "wp = (w, p)" by (cases wp)
      have w: "starts_with w s" "w \<noteq> []"
        using find_tableD [OF Some] punct_table_ne [of w p] by (auto simp: wp)
      define t where "t = snd (eat_str w s)"
      have t: "scans (bump s) t" unfolding t_def by (rule eat_str_bump [OF w])
      then have st: "lx_template_stack t = lx_template_stack s" using scans_stack by fastforce
      have "scan_punct c s = emit (TkPunct p) (t\<lparr>lx_template_stack := adjust_depth p (lx_template_stack t)\<rparr>)"
        using Some table by (simp only: scan_punct_def if_False option.case wp prod.case Let_def t_def)
      then have "token_scanned s (TkPunct p) t (scan_punct c s)"
        using t st by (simp add: token_scanned_def stack_after_def)
      moreover have "(bump ^^ length w) s = t" using w(1) by (simp add: t_def eat_str_def)
      ultimately show thesis using punct Some w(1) wp by metis
    qed
  qed
qed

section \<open>What the token kinds say of the text\<close>

definition kind_text :: "token_kind \<Rightarrow> rstr \<Rightarrow> bool" where
  "kind_text k w \<longleftrightarrow> w \<noteq> [] \<and>
     (case k of
        TkKeyword kw \<Rightarrow> w = keyword_as_str kw
      | TkIdent \<Rightarrow> keyword_from_str w = None
      | TkPunct p \<Rightarrow> w = punct_as_str p \<or> p = PEqEq \<and> w = (str ''==='') \<or> p = PNotEq \<and> w = (str ''!=='')
      | TkEof \<Rightarrow> False
      | _ \<Rightarrow> True)"

lemma drop_bytes_append [simp]: "drop_bytes (str_len u) (u @ v) = v"
proof (induction u)
  case Nil
  then show ?case by (cases v) simp_all
next
  case (Cons c u)
  then show ?case using len_utf8_pos [of c] by simp
qed

lemma scans_consumed:
  assumes "scans (bump s) t" "lx_rest s \<noteq> []"
  obtains w where "lx_pre t = lx_pre s @ w" "w \<noteq> []" "lx_rest s = w @ lx_rest t"
proof -
  obtain v where v: "lx_rest s = v @ lx_rest (bump s)" "lx_pre (bump s) = lx_pre s @ v"
    using scans_bump [of s] by (auto simp: scans_def)
  obtain w where w: "lx_rest (bump s) = w @ lx_rest t" "lx_pre t = lx_pre (bump s) @ w"
    using assms(1) by (auto simp: scans_def)
  have "v \<noteq> []" using v(1) bump_rest_less [OF assms(2)] by auto
  then show ?thesis using v w by (intro that [of "v @ w"]) auto
qed

lemma bump_exact:
  assumes "starts_with w s" "0x0D \<notin> set w"
  shows "lx_pre ((bump ^^ length w) s) = lx_pre s @ w"
  using assms
proof (induction w arbitrary: s)
  case (Cons c w)
  obtain cs where cs: "lx_rest s = c # cs" "take (length w) cs = w"
    using Cons.prems(1) by (cases "lx_rest s") (auto simp: starts_with_def)
  have "c \<noteq> 0x0D" using Cons.prems(2) by auto
  then have "lx_pre (bump s) = lx_pre s @ [c]" "lx_rest (bump s) = cs"
    using cs(1) by (auto simp: bump_def)
  moreover from this have "starts_with w (bump s)" using cs(2) by (simp add: starts_with_def)
  ultimately show ?case
    using Cons.IH [of "bump s"] Cons.prems(2) by (simp add: funpow_Suc_right del: funpow.simps(2))
qed simp

lemma punct_table_spelling: "list_all (\<lambda>(w, p). punct_as_str p = w \<and> 0x0D \<notin> set w) punct_table"
  by (simp add: punct_table_def)

lemma number_kind_text: "k \<in> {TkBigInt, TkBigDec} \<union> range TkInt \<union> range TkFloat \<Longrightarrow> w \<noteq> [] \<Longrightarrow> kind_text k w"
  by (auto simp: kind_text_def)

lemma number_kind_stack: "k \<in> {TkBigInt, TkBigDec} \<union> range TkInt \<union> range TkFloat \<Longrightarrow> stack_after k st = st \<and> k \<noteq> TkEof"
  by (auto simp: stack_after_def)

lemma lex_error_pre [simp]: "lx_pre (lex_error c m s) = lx_pre s"
  by (simp add: lex_error_def error_at_def)

lemma scan_punct_text:
  assumes "token_scanned s (TkPunct p) t (scan_punct c s)"
    and "w = (str ''==='') \<and> p = PEqEq \<or> w = (str ''!=='') \<and> p = PNotEq
       \<or> find (\<lambda>(t, p). starts_with t s) punct_table = Some (w, p)"
    and "starts_with w s" "(bump ^^ length w) s = t \<or> (\<exists>m. (bump ^^ length w) (lex_error UnexpectedChar m s) = t)"
  shows "lx_pre t = lx_pre s @ w \<and> kind_text (TkPunct p) w"
proof -
  have w: "0x0D \<notin> set w \<and> kind_text (TkPunct p) w"
  proof (cases "find (\<lambda>(t, p). starts_with t s) punct_table = Some (w, p)")
    case True
    then have "(w, p) \<in> set punct_table" by (auto dest: find_tableD)
    then show ?thesis
      using punct_table_spelling punct_table_ne [of w p] by (auto simp: list_all_iff kind_text_def)
  next
    case False
    then show ?thesis using assms(2) by (auto simp: kind_text_def)
  qed
  moreover have "lx_pre ((bump ^^ length w) (lex_error UnexpectedChar m s)) = lx_pre s @ w" for m
    using bump_exact [of w "lex_error UnexpectedChar m s"] w assms(3) by (simp add: starts_with_def)
  moreover have "lx_pre ((bump ^^ length w) s) = lx_pre s @ w"
    using bump_exact [of w s] w assms(3) by simp
  ultimately show ?thesis using assms(4) by auto
qed

lemma scan_token_split:
  "scan_token ut c s = scan_char_literal s \<or> scan_token ut c s = scan_ident ut s
   \<or> is_decimal c \<and> scan_token ut c s = scan_number ut s \<or> scan_token ut c s = scan_string c s
   \<or> scan_token ut c s = scan_template_part OpenBacktick s
   \<or> scan_token ut c s = scan_template_part OpenBrace (s\<lparr>lx_template_stack := butlast (lx_template_stack s)\<rparr>)
   \<or> scan_token ut c s = scan_punct c s"
  unfolding scan_token_def by (simp only: if_bool_eq_conj [of _ _ True] split: if_split) simp

lemma scan_token_cases:
  assumes c: "peek s = Some c" and st: "lx_start s = lx_idx s"
  obtains (token) k t w where "token_scanned s k t (scan_token ut c s)" "lx_pre t = lx_pre s @ w" "kind_text k w"
  | (bad) m where "scan_token ut c s = lex_error UnexpectedChar m (bump s)"
proof -
  have ne: "lx_rest s \<noteq> []" using c by (rule peek_Some)
  have plain: thesis
    if pl: "tokenized s k (scan_token ut c s)" "k \<noteq> TkEof" "stack_after k (lx_template_stack s) = lx_template_stack s"
      "\<And>w. w \<noteq> [] \<Longrightarrow> kind_text k w" for k
  proof -
    obtain t where t: "token_scanned s k t (scan_token ut c s)"
      using tokenized_scanned [OF pl(1-3)] by blast
    then obtain w where "lx_pre t = lx_pre s @ w" "w \<noteq> []"
      using scans_consumed [of s t] ne by (auto simp: token_scanned_def)
    then show thesis using t pl(4) token by blast
  qed
  have tmpl: thesis
    if tp: "scan_token ut c s = scan_template_part opn (s\<lparr>lx_template_stack := st\<rparr>)"
      "opn = OpenBacktick \<and> st = lx_template_stack s \<or> opn = OpenBrace \<and> st = butlast (lx_template_stack s)" for opn st
  proof -
    obtain k t where t: "token_scanned s k t (scan_token ut c s)"
        "k \<in> {TkTemplateNoSub, TkTemplateHead, TkTemplateMiddle, TkTemplateTail}"
      using template_part_scanned [OF tp(2)] tp(1) by auto
    then obtain w where "lx_pre t = lx_pre s @ w" "w \<noteq> []"
      using scans_consumed [of s t] ne by (auto simp: token_scanned_def)
    moreover from this have "kind_text k w" using t(2) by (auto simp: kind_text_def)
    ultimately show thesis using t(1) token by blast
  qed
  consider (char) "scan_token ut c s = scan_char_literal s" | (ident) "scan_token ut c s = scan_ident ut s"
    | (num) "is_decimal c" "scan_token ut c s = scan_number ut s" | (string) "scan_token ut c s = scan_string c s"
    | (tick) "scan_token ut c s = scan_template_part OpenBacktick s"
    | (brace) "scan_token ut c s = scan_template_part OpenBrace (s\<lparr>lx_template_stack := butlast (lx_template_stack s)\<rparr>)"
    | (punct) "scan_token ut c s = scan_punct c s"
    using scan_token_split [of ut c s] by blast
  then show thesis
  proof cases
    case char
    then show thesis
      using scan_char_literal_tokenized [of s] by (intro plain [of TkChar]) (auto simp: stack_after_def kind_text_def)
  next
    case ident
    define u where "u = bump_while (is_id_continue ut) (bump s)"
    have u: "scans (bump s) u" by (simp add: u_def scans_bump_while)
    obtain w where w: "lx_pre u = lx_pre s @ w" "w \<noteq> []" using scans_consumed [OF u ne] by blast
    define k where "k = (case keyword_from_str w of Some kw \<Rightarrow> TkKeyword kw | None \<Rightarrow> TkIdent)"
    have "text_from (lx_start s) u = w" by (simp add: text_from_def st lx_idx_def w(1))
    moreover have "lx_start u = lx_start s" using u scans_bump [of s] by (simp add: scans_def)
    ultimately have sp: "scan_token ut c s = emit k u"
      unfolding ident scan_ident_def Let_def u_def [symmetric] k_def by (simp split: option.split)
    have "stack_after k (lx_template_stack s) = lx_template_stack u"
      using scans_stack [OF u] by (simp add: k_def stack_after_def split: option.split)
    then have "u\<lparr>lx_template_stack := stack_after k (lx_template_stack s)\<rparr> = u" by (cases u) simp
    then have "token_scanned s k u (scan_token ut c s)"
      using u by (simp add: token_scanned_def sp) (simp add: k_def split: option.split)
    moreover have "kind_text k w"
      using w(2) by (auto simp: k_def kind_text_def keyword_as_from_str split: option.split)
    ultimately show thesis using w(1) token by blast
  next
    case num
    then have "number_scanned s (scan_token ut c s)" using scan_number_scanned [OF c] by simp
    then obtain k where k: "k \<in> {TkBigInt, TkBigDec} \<union> range TkInt \<union> range TkFloat" "tokenized s k (scan_token ut c s)"
      unfolding number_scanned_def by (elim exE conjE)
    show thesis
      using k(2) number_kind_stack [OF k(1)] number_kind_text [OF k(1)] by (intro plain [of k]) auto
  next
    case string
    then show thesis
      using scan_string_tokenized [of s c] by (intro plain [of TkStr]) (auto simp: stack_after_def kind_text_def)
  next
    case tick
    have "s\<lparr>lx_template_stack := lx_template_stack s\<rparr> = s" by simp
    then show thesis using tick tmpl [of OpenBacktick "lx_template_stack s"] by simp
  next
    case brace
    then show thesis using tmpl by blast
  next
    case punct
    show thesis
    proof (rule scan_punct_scanned [of s c])
      fix p t w
      assume p: "token_scanned s (TkPunct p) t (scan_punct c s)"
        "w = (str ''==='') \<and> p = PEqEq \<or> w = (str ''!=='') \<and> p = PNotEq
         \<or> find (\<lambda>(t, p). starts_with t s) punct_table = Some (w, p)"
        "starts_with w s" "(bump ^^ length w) s = t \<or> (\<exists>m. (bump ^^ length w) (lex_error UnexpectedChar m s) = t)"
      show thesis
        by (rule token [of "TkPunct p" t w]) (use scan_punct_text [OF p] p(1) punct in simp_all)
    qed (use bad punct in simp)
  qed
qed

section \<open>The main loop\<close>

text \<open>Starting a token at the cursor.\<close>

definition start_token :: "lexer \<Rightarrow> lexer" where
  "start_token s = s\<lparr>lx_start := lx_idx s, lx_start_pos := lx_pos s\<rparr>"

lemma start_token_parts [simp]:
  "lx_rest (start_token s) = lx_rest s" "lx_pre (start_token s) = lx_pre s"
  "lx_start (start_token s) = lx_idx s" "lx_start_pos (start_token s) = lx_pos s"
  "lx_template_stack (start_token s) = lx_template_stack s" "lx_tokens (start_token s) = lx_tokens s"
  "lx_comments (start_token s) = lx_comments s" "lx_diagnostics (start_token s) = lx_diagnostics s"
  "lx_idx (start_token s) = lx_idx s" "pos_ok (start_token s) = pos_ok s" "peek (start_token s) = peek s"
  by (simp_all add: start_token_def lx_idx_def pos_ok_def peek_def)

lemma scan_token_rest:
  assumes "peek s = Some c" "lx_start s = lx_idx s"
  shows "length (lx_rest (scan_token ut c s)) < length (lx_rest s)"
proof (rule scan_token_cases [OF assms, of ut])
  fix k t w
  assume t: "token_scanned s k t (scan_token ut c s)"
  then have "length (lx_rest t) \<le> length (lx_rest (bump s))" by (auto simp: token_scanned_def scans_rest)
  then show ?thesis
    using t bump_rest_less [OF peek_Some [OF assms(1)]] by (auto simp: token_scanned_def)
next
  fix m
  assume "scan_token ut c s = lex_error UnexpectedChar m (bump s)"
  then show ?thesis using bump_rest_less [OF peek_Some [OF assms(1)]] by simp
qed

lemma skip_trivia_rest: "length (lx_rest (skip_trivia s)) \<le> length (lx_rest s)"
proof (induction s rule: skip_trivia.induct)
  case (1 s)
  show ?case
  proof (cases "trivia_step s")
    case (Some t)
    then show ?thesis
      using 1 [OF Some] trivia_step_rest [OF Some] by (subst skip_trivia.simps) simp
  qed (subst skip_trivia.simps, simp)
qed

function lex_run :: "ident_tables \<Rightarrow> lexer \<Rightarrow> lexer" where
  "lex_run ut s0 =
     (let s = start_token (skip_trivia s0)
      in case peek s of
           None \<Rightarrow> emit TkEof s
         | Some c \<Rightarrow> lex_run ut (scan_token ut c s))"
  by pat_completeness auto
termination
proof (relation "measure (\<lambda>(ut, s). length (lx_rest s))", goal_cases)
  case (2 ut s0 s c)
  then have "length (lx_rest (scan_token ut c s)) < length (lx_rest s)"
    by (intro scan_token_rest) simp_all
  then show ?case using 2 skip_trivia_rest [of s0] by simp
qed simp

declare lex_run.simps [simp del]

definition lex :: "ident_tables \<Rightarrow> rstr \<Rightarrow> lex_output" where
  "lex ut txt =
     (let s = lex_run ut (lexer_new txt)
      in \<lparr>lo_tokens = lx_tokens s, lo_comments = lx_comments s, lo_diagnostics = lx_diagnostics s\<rparr>)"

section \<open>The text as a sequence of segments\<close>

text \<open>
  Every character of the text belongs to white space, a comment, a token or a part that was
  reported as unexpected; the spans of the output are computed from these segments.
\<close>

datatype seg = Space rstr | Comment rstr | Tok token_kind rstr | Bad rstr

fun seg_text :: "seg \<Rightarrow> rstr" where
  "seg_text (Space w) = w"
| "seg_text (Comment w) = w"
| "seg_text (Tok k w) = w"
| "seg_text (Bad w) = w"

definition segs_text :: "seg list \<Rightarrow> rstr" where
  "segs_text gs = concat (map seg_text gs)"

definition span_at :: "rstr \<Rightarrow> rstr \<Rightarrow> span" where
  "span_at u w =
     \<lparr>sp_start = str_len u, sp_end = str_len (u @ w),
      sp_pos = \<lparr>p_line = fst (end_pos (1, 1) u), p_col = snd (end_pos (1, 1) u)\<rparr>\<rparr>"

fun segs_tokens :: "rstr \<Rightarrow> seg list \<Rightarrow> token list" where
  "segs_tokens u [] = []"
| "segs_tokens u (g # gs) =
     (case g of Tok k w \<Rightarrow> [\<lparr>t_kind = k, t_span = span_at u w\<rparr>] | _ \<Rightarrow> [])
     @ segs_tokens (u @ seg_text g) gs"

fun segs_comments :: "rstr \<Rightarrow> seg list \<Rightarrow> span list" where
  "segs_comments u [] = []"
| "segs_comments u (g # gs) =
     (case g of Comment w \<Rightarrow> [span_at u w] | _ \<Rightarrow> []) @ segs_comments (u @ seg_text g) gs"

fun seg_ok :: "seg \<Rightarrow> bool" where
  "seg_ok (Space w) \<longleftrightarrow> w \<noteq> [] \<and> (\<forall>c \<in> set w. is_whitespace c)"
| "seg_ok (Comment w) \<longleftrightarrow> take 2 w = (str ''//'') \<or> take 2 w = (str ''/*'')"
| "seg_ok (Tok k w) \<longleftrightarrow> kind_text k w"
| "seg_ok (Bad w) \<longleftrightarrow> w \<noteq> []"

definition is_bad :: "seg \<Rightarrow> bool" where
  "is_bad g \<longleftrightarrow> (\<exists>w. g = Bad w)"

lemma segs_text_simps [simp]:
  "segs_text [] = []" "segs_text (g # gs) = seg_text g @ segs_text gs" "segs_text (gs @ hs) = segs_text gs @ segs_text hs"
  by (simp_all add: segs_text_def)

lemma segs_tokens_append: "segs_tokens u (gs @ hs) = segs_tokens u gs @ segs_tokens (u @ segs_text gs) hs"
  by (induction gs arbitrary: u) (simp_all split: seg.split)

lemma segs_comments_append: "segs_comments u (gs @ hs) = segs_comments u gs @ segs_comments (u @ segs_text gs) hs"
  by (induction gs arbitrary: u) (simp_all split: seg.split)

text \<open>The invariant of the main loop: what is consumed is accounted for.\<close>

definition tiled :: "lexer \<Rightarrow> bool" where
  "tiled s \<longleftrightarrow> pos_ok s \<and>
     (\<exists>gs. segs_text gs = lx_pre s \<and> lx_tokens s = segs_tokens [] gs \<and> lx_comments s = segs_comments [] gs
        \<and> list_all seg_ok gs \<and> (lx_diagnostics s = [] \<longrightarrow> list_all (\<lambda>g. \<not> is_bad g) gs)
        \<and> lx_template_stack s = fold stack_after (map t_kind (lx_tokens s)) [])"

lemma tiled_snoc:
  assumes s: "tiled s" and pre: "lx_pre s' = lx_pre s @ seg_text g" and "pos_ok s'" "seg_ok g"
    and "lx_tokens s' = lx_tokens s @ segs_tokens (lx_pre s) [g]"
    and "lx_comments s' = lx_comments s @ segs_comments (lx_pre s) [g]"
    and "\<exists>ds. lx_diagnostics s' = lx_diagnostics s @ ds" "is_bad g \<Longrightarrow> lx_diagnostics s' \<noteq> []"
    and "lx_template_stack s' = fold stack_after (map t_kind (segs_tokens (lx_pre s) [g])) (lx_template_stack s)"
  shows "tiled s'"
proof -
  obtain gs where gs: "segs_text gs = lx_pre s" "lx_tokens s = segs_tokens [] gs" "lx_comments s = segs_comments [] gs"
    "list_all seg_ok gs" "lx_diagnostics s = [] \<longrightarrow> list_all (\<lambda>g. \<not> is_bad g) gs"
    "lx_template_stack s = fold stack_after (map t_kind (lx_tokens s)) []"
    using s by (auto simp: tiled_def)
  then show ?thesis
    using assms(2-) unfolding tiled_def
    by (intro conjI exI [of _ "gs @ [g]"])
      (auto simp: segs_tokens_append segs_comments_append simp del: segs_tokens.simps segs_comments.simps)
qed

lemma pos_ok_span:
  "pos_ok s \<Longrightarrow> lx_pos s = \<lparr>p_line = fst (end_pos (1, 1) (lx_pre s)), p_col = snd (end_pos (1, 1) (lx_pre s))\<rparr>"
  by (simp add: pos_ok_def lx_pos_def)

lemma bump_consumes:
  assumes "peek s = Some c"
  shows "\<exists>w. lx_pre (bump s) = lx_pre s @ c # w \<and> lx_rest s = c # w @ lx_rest (bump s) \<and> (\<forall>d \<in> set w. d = 0x0A)"
  using assms by (auto simp: bump_def peek_def split: list.splits)

lemma scans_parts:
  assumes "scans s t"
  shows "\<exists>ds. lx_diagnostics t = lx_diagnostics s @ ds" "lx_tokens t = lx_tokens s" "lx_comments t = lx_comments s"
    "lx_template_stack t = lx_template_stack s" "pos_ok s \<Longrightarrow> pos_ok t" "lx_start t = lx_start s"
    "lx_start_pos t = lx_start_pos s"
  using assms by (auto simp: scans_def)

lemma whitespace_lf: "is_whitespace 0x0A"
  by (simp add: is_whitespace_def is_line_terminator_def)

lemma tiled_space:
  assumes "tiled s" "peek s = Some c" "is_whitespace c"
  shows "tiled (bump s)"
proof -
  obtain w where w: "lx_pre (bump s) = lx_pre s @ c # w" "\<forall>d \<in> set w. d = 0x0A"
    using bump_consumes [OF assms(2)] by blast
  note p = scans_parts [OF scans_bump [of s]]
  show ?thesis
    by (rule tiled_snoc [OF assms(1), of "bump s" "Space (c # w)"])
      (use assms p w whitespace_lf in \<open>auto simp: is_bad_def tiled_def\<close>)
qed

lemma bump_rest_plain: "lx_rest s = c # r \<Longrightarrow> c \<noteq> 0x0D \<Longrightarrow> lx_rest (bump s) = r"
  by (simp add: bump_def)

lemma take2_comment:
  assumes "peek s = Some c" "peek2 s = Some d" "lx_rest s = w @ v" "2 \<le> length w"
  shows "take 2 w = [c, d]"
proof -
  obtain a b r where "w = a # b # r"
    using assms(4) by (cases w; cases "tl w") auto
  then show ?thesis using assms(1-3) by (simp add: peek_def peek2_def)
qed

lemma push_comment_parts:
  "lx_pre (push_comment i p t) = lx_pre t" "lx_tokens (push_comment i p t) = lx_tokens t"
  "lx_comments (push_comment i p t) = lx_comments t @ [\<lparr>sp_start = i, sp_end = lx_idx t, sp_pos = p\<rparr>]"
  "lx_diagnostics (push_comment i p t) = lx_diagnostics t"
  "lx_template_stack (push_comment i p t) = lx_template_stack t" "pos_ok (push_comment i p t) = pos_ok t"
  by (simp_all add: push_comment_def pos_ok_def)
lemma tiled_comment:
  assumes s: "tiled s" and t: "scans (bump (bump s)) t" and c: "peek s = Some (ch CHR ''/'')" "peek2 s = Some d" "d = (ch CHR ''/'') \<or> d = (ch CHR ''*'')"
  shows "tiled (push_comment (lx_idx s) (lx_pos s) t)"
proof -
  have st: "scans s t" by (rule scans_trans_bump [OF scans_trans_bump [OF t]])
  obtain w where w: "lx_pre t = lx_pre s @ w" "lx_rest s = w @ lx_rest t"
    using st by (auto simp: scans_def)
  obtain r where r: "lx_rest s = (ch CHR ''/'') # d # r" using c(1,2) by (auto simp: peek_def peek2_def split: list.splits)
  have "lx_rest (bump s) = d # r" using r by (intro bump_rest_plain [of s "(ch CHR ''/'')"]) simp_all
  then have "lx_rest (bump (bump s)) = r" using c(3) by (intro bump_rest_plain [of "bump s" d]) auto
  then have "length (lx_rest t) \<le> length r" using scans_rest [OF t] by simp
  moreover have "length (lx_rest s) = length w + length (lx_rest t)" by (simp add: w(2))
  ultimately have "2 \<le> length w" by (simp add: r)
  then have tk: "take 2 w = [(ch CHR ''/''), d]" using take2_comment [OF c(1,2) w(2)] by simp
  note p = scans_parts [OF st]
  have ok: "seg_ok (Comment w)" using c(3) unfolding seg_ok.simps tk by (elim disjE) simp_all
  have pos: "pos_ok s" using s by (simp add: tiled_def)
  have sp: "span_at (lx_pre s) w = \<lparr>sp_start = lx_idx s, sp_end = lx_idx t, sp_pos = lx_pos s\<rparr>"
    using pos_ok_span [OF pos] w(1) by (simp add: span_at_def lx_idx_def)
  show ?thesis
    by (rule tiled_snoc [OF s, of _ "Comment w"])
      (simp_all only: push_comment_parts seg_text.simps w(1) ok is_bad_def seg.distinct p(1-4) p(5) [OF pos]
        segs_tokens.simps segs_comments.simps seg.case append_Nil append_Nil2 sp list.map fold_simps id_apply
        simp_thms)
qed

lemma tiled_trivia_step:
  assumes "tiled s" "trivia_step s = Some s'"
  shows "tiled s'"
proof -
  obtain c where c: "peek s = Some c" using assms(2) by (auto simp: trivia_step_def split: option.splits)
  consider (space) "is_whitespace c" "s' = bump s"
    | (line) "c = (ch CHR ''/'')" "peek2 s = Some (ch CHR ''/'')"
        "s' = push_comment (lx_idx s) (lx_pos s) (bump_while (\<lambda>c. \<not> is_line_terminator c) s)"
    | (block) "c = (ch CHR ''/'')" "peek2 s = Some (ch CHR ''*'')"
        "s' = push_comment (lx_idx s) (lx_pos s) (block_comment (lx_pos s) (bump (bump s)))"
    using assms(2) c by (auto simp: trivia_step_def split: if_splits)
  then show ?thesis
  proof cases
    case space
    then show ?thesis using tiled_space [OF assms(1) c] by simp
  next
    case line
    obtain r where r: "lx_rest s = (ch CHR ''/'') # (ch CHR ''/'') # r"
      using c line(1,2) by (auto simp: peek_def peek2_def split: list.splits)
    then have b: "lx_rest (bump s) = (ch CHR ''/'') # r" by (simp add: bump_def)
    have "bump_while (\<lambda>c. \<not> is_line_terminator c) s = bump_while (\<lambda>c. \<not> is_line_terminator c) (bump s)"
      using r by (subst bump_while.simps) (simp add: peek_def is_line_terminator_def)
    also have "\<dots> = bump_while (\<lambda>c. \<not> is_line_terminator c) (bump (bump s))"
      using b by (subst bump_while.simps) (simp add: peek_def is_line_terminator_def)
    finally show ?thesis
      unfolding line(3) using tiled_comment [OF assms(1) scans_bump_while] c line(1,2) by simp
  next
    case block
    then show ?thesis using tiled_comment [OF assms(1) scans_block_comment] c by simp
  qed
qed

lemma tiled_skip_trivia: "tiled s \<Longrightarrow> tiled (skip_trivia s)"
proof (induction s rule: skip_trivia.induct)
  case (1 s)
  then show ?case
    by (subst skip_trivia.simps) (auto split: option.split intro: tiled_trivia_step)
qed

lemma tiled_start_token: "tiled s \<Longrightarrow> tiled (start_token s)"
  by (simp add: tiled_def)

lemma tiled_scan_token:
  assumes s: "tiled s" and c: "peek s = Some c" and st: "lx_start s = lx_idx s" "lx_start_pos s = lx_pos s"
  shows "tiled (scan_token ut c s)"
proof (rule scan_token_cases [OF c st(1), of ut])
  have ok: "pos_ok s" using s by (simp add: tiled_def)
  fix k t w
  assume tok: "token_scanned s k t (scan_token ut c s)" and w: "lx_pre t = lx_pre s @ w" and k: "kind_text k w"
  have "scans s t" using tok by (auto simp: token_scanned_def intro: scans_trans_bump)
  note p = scans_parts [OF this]
  show ?thesis
    by (rule tiled_snoc [OF s, of _ "Tok k w"])
      (use p w k ok tok st in \<open>auto simp: token_scanned_def emit_def is_bad_def span_at_def lx_idx_def pos_ok_span pos_ok_def\<close>)
next
  have ok: "pos_ok s" using s by (simp add: tiled_def)
  fix m
  assume b: "scan_token ut c s = lex_error UnexpectedChar m (bump s)"
  obtain w where w: "lx_pre (bump s) = lx_pre s @ c # w" using bump_consumes [OF c] by blast
  have "scans s (lex_error UnexpectedChar m (bump s))" by (rule scans_trans [OF scans_bump scans_lex_error])
  note p = scans_parts [OF this]
  show ?thesis
    unfolding b
    by (rule tiled_snoc [OF s, of _ "Bad (c # w)"])
      (use p w ok in \<open>auto simp: lex_error_def error_at_def\<close>)
qed

lemma tiled_new: "tiled (lexer_new txt)"
  by (simp add: tiled_def lexer_new_def pos_ok_def crlf_split_def) (intro exI [of _ "[]"], simp)

lemma segs_tokens_not_eof: "list_all seg_ok gs \<Longrightarrow> tk \<in> set (segs_tokens u gs) \<Longrightarrow> t_kind tk \<noteq> TkEof"
proof (induction gs arbitrary: u)
  case (Cons g gs)
  then show ?case by (cases g) (auto simp: kind_text_def)
qed simp


text \<open>No step loses a character.\<close>

lemma scans_text: "scans s t \<Longrightarrow> lx_pre t @ lx_rest t = lx_pre s @ lx_rest s"
  by (auto simp: scans_def)

lemma trivia_step_text: "trivia_step s = Some s' \<Longrightarrow> lx_pre s' @ lx_rest s' = lx_pre s @ lx_rest s"
  using scans_text [OF scans_bump [of s]] scans_text [OF scans_bump [of "bump s"]]
    scans_text [OF scans_bump_while [of s]] scans_text [OF scans_block_comment [of "bump (bump s)"]]
  by (auto simp: trivia_step_def push_comment_parts(1) split: option.splits if_splits)

lemma skip_trivia_text: "lx_pre (skip_trivia s) @ lx_rest (skip_trivia s) = lx_pre s @ lx_rest s"
proof (induction s rule: skip_trivia.induct)
  case (1 s)
  show ?case
  proof (cases "trivia_step s")
    case (Some t)
    then show ?thesis using 1 [OF Some] trivia_step_text [OF Some] by (subst (1 2) skip_trivia.simps) simp
  qed (subst (1 2) skip_trivia.simps, simp)
qed

lemma scan_token_text:
  assumes "peek s = Some c" "lx_start s = lx_idx s"
  shows "lx_pre (scan_token ut c s) @ lx_rest (scan_token ut c s) = lx_pre s @ lx_rest s"
proof (rule scan_token_cases [OF assms, of ut])
  fix k t w
  assume "token_scanned s k t (scan_token ut c s)"
  then have "scans s t" "scan_token ut c s = emit k (t\<lparr>lx_template_stack := stack_after k (lx_template_stack s)\<rparr>)"
    by (auto simp: token_scanned_def intro: scans_trans_bump)
  then show ?thesis using scans_text [of s t] by (simp add: emit_def)
next
  fix m
  assume "scan_token ut c s = lex_error UnexpectedChar m (bump s)"
  then show ?thesis using scans_text [OF scans_bump [of s]] by simp
qed

lemma lex_run_tiled:
  assumes "tiled s"
  shows "\<exists>u. tiled u \<and> lex_run ut s = emit TkEof u \<and> lx_rest u = []
    \<and> lx_pre u = lx_pre s @ lx_rest s \<and> lx_start u = lx_idx u \<and> lx_start_pos u = lx_pos u"
  using assms
proof (induction ut s rule: lex_run.induct)
  case (1 ut s0)
  define s where "s = start_token (skip_trivia s0)"
  have s: "tiled s" using 1(2) by (simp add: s_def tiled_skip_trivia tiled_start_token)
  have tx: "lx_pre s @ lx_rest s = lx_pre s0 @ lx_rest s0" by (simp add: s_def skip_trivia_text)
  have st: "lx_start s = lx_idx s" "lx_start_pos s = lx_pos s"
    by (simp_all add: s_def lx_pos_def start_token_def lx_idx_def)
  show ?case
  proof (cases "peek s")
    case None
    then have "lex_run ut s0 = emit TkEof s"
      by (subst lex_run.simps) (simp add: s_def [symmetric] Let_def)
    moreover have "lx_rest s = []" using None by (simp add: peek_None)
    ultimately show ?thesis using s st tx by (intro exI [of _ s]) simp
  next
    case (Some c)
    then have run: "lex_run ut s0 = lex_run ut (scan_token ut c s)"
      by (subst lex_run.simps) (simp add: s_def [symmetric] Let_def)
    have "tiled (scan_token ut c s)" by (rule tiled_scan_token [OF s Some st])
    from 1(1) [OF s_def Some this] show ?thesis
      unfolding run using scan_token_text [OF Some st(1), of ut] tx by simp
  qed
qed

section \<open>Template substitutions nest\<close>

text \<open>
  The braces of the token stream as a checker: a stack of open substitutions with the depth
  of plain braces in each.  A continuation or an end of a template must close a
  substitution whose braces are balanced, and a closing brace inside a substitution must
  have an opening one.
\<close>

definition nest_step :: "token_kind \<Rightarrow> nat list \<Rightarrow> nat list option" where
  "nest_step k st =
     (case k of
        TkTemplateHead \<Rightarrow> Some (st @ [0])
      | TkTemplateMiddle \<Rightarrow> if st \<noteq> [] \<and> last st = 0 then Some st else None
      | TkTemplateTail \<Rightarrow> if st \<noteq> [] \<and> last st = 0 then Some (butlast st) else None
      | TkPunct p \<Rightarrow>
          if st = [] then Some st
          else if p = PLBrace then Some (butlast st @ [last st + 1])
          else if p = PRBrace then (if last st = 0 then None else Some (butlast st @ [last st - 1]))
          else Some st
      | _ \<Rightarrow> Some st)"

fun nest :: "token_kind list \<Rightarrow> nat list \<Rightarrow> nat list option" where
  "nest [] st = Some st"
| "nest (k # ks) st = (case nest_step k st of None \<Rightarrow> None | Some st' \<Rightarrow> nest ks st')"

lemma nest_append: "nest (ks @ ls) st = (case nest ks st of None \<Rightarrow> None | Some st' \<Rightarrow> nest ls st')"
  by (induction ks arbitrary: st) (auto split: option.split)

text \<open>The kind of the token a scanner emits last.\<close>

definition last_kind :: "lexer \<Rightarrow> token_kind" where
  "last_kind s = t_kind (last (lx_tokens s))"

lemma last_kind_emit [simp]: "last_kind (emit k s) = k"
  by (simp add: last_kind_def emit_def)

lemma last_kind_tokenized: "tokenized s k s' \<Longrightarrow> last_kind s' = k"
  by (auto simp: tokenized_def)

lemma last_kind_scanned: "token_scanned s k t s' \<Longrightarrow> last_kind s' = k"
  by (auto simp: token_scanned_def)

text \<open>What the scanner has checked before it emits a brace or a template part.\<close>

definition brace_guard :: "token_kind \<Rightarrow> u32 list \<Rightarrow> bool" where
  "brace_guard k st \<longleftrightarrow>
     (k \<in> {TkTemplateMiddle, TkTemplateTail} \<longrightarrow> st \<noteq> [] \<and> last st = 0)
     \<and> (k = TkPunct PRBrace \<longrightarrow> st \<noteq> [] \<longrightarrow> last st \<noteq> 0)"

lemma template_loop_stack: "lx_template_stack (snd (template_loop s)) = lx_template_stack s"
  by (rule scans_stack [OF scans_template_loop])

lemma backtick_kind: "last_kind (scan_template_part OpenBacktick s) \<in> {TkTemplateNoSub, TkTemplateHead}"
  by (simp add: scan_template_part_def split: prod.split template_end.split)

lemma number_last_kind: "number_scanned s s' \<Longrightarrow> last_kind s' \<in> {TkBigInt, TkBigDec} \<union> range TkInt \<union> range TkFloat"
  by (auto simp: number_scanned_def dest: last_kind_tokenized)

lemma punct_table_rbrace: "list_all (\<lambda>(w, p). p = PRBrace \<longrightarrow> w = [(ch CHR ''}'')]) punct_table"
  by (simp add: punct_table_def)

lemma scan_token_guards:
  "scan_token ut c s = scan_char_literal s \<or> scan_token ut c s = scan_ident ut s
   \<or> is_decimal c \<and> scan_token ut c s = scan_number ut s \<or> scan_token ut c s = scan_string c s
   \<or> scan_token ut c s = scan_template_part OpenBacktick s
   \<or> lx_template_stack s \<noteq> [] \<and> last (lx_template_stack s) = 0
     \<and> scan_token ut c s = scan_template_part OpenBrace (s\<lparr>lx_template_stack := butlast (lx_template_stack s)\<rparr>)
   \<or> scan_token ut c s = scan_punct c s
     \<and> (c = (ch CHR ''}'') \<longrightarrow> lx_template_stack s \<noteq> [] \<longrightarrow> last (lx_template_stack s) \<noteq> 0)"
  unfolding scan_token_def by (simp only: if_bool_eq_conj [of _ _ True] split: if_split) (simp, blast)

lemma brace_guard_scan_token:
  assumes c: "peek s = Some c" and tok: "token_scanned s k t (scan_token ut c s)"
  shows "brace_guard k (lx_template_stack s)"
proof -
  note k = last_kind_scanned [OF tok]
  have plain: "brace_guard k (lx_template_stack s)"
    if "k \<notin> {TkTemplateMiddle, TkTemplateTail, TkPunct PRBrace}"
    using that by (simp add: brace_guard_def)
  consider (char) "scan_token ut c s = scan_char_literal s" | (ident) "scan_token ut c s = scan_ident ut s"
    | (num) "is_decimal c" "scan_token ut c s = scan_number ut s" | (string) "scan_token ut c s = scan_string c s"
    | (tick) "scan_token ut c s = scan_template_part OpenBacktick s"
    | (brace) "lx_template_stack s \<noteq> []" "last (lx_template_stack s) = 0"
        "scan_token ut c s = scan_template_part OpenBrace (s\<lparr>lx_template_stack := butlast (lx_template_stack s)\<rparr>)"
    | (punct) "scan_token ut c s = scan_punct c s"
        "c = (ch CHR ''}'') \<Longrightarrow> lx_template_stack s \<noteq> [] \<Longrightarrow> last (lx_template_stack s) \<noteq> 0"
    using scan_token_guards [of ut c s] by blast
  then show ?thesis
  proof cases
    case char
    then show ?thesis using last_kind_tokenized [OF scan_char_literal_tokenized] k plain by auto
  next
    case ident
    then show ?thesis
      using last_kind_tokenized [OF scan_ident_tokenized [of s ut]] k
      by (intro plain) (auto split: option.splits)
  next
    case num
    then have "k \<in> {TkBigInt, TkBigDec} \<union> range TkInt \<union> range TkFloat"
      using number_last_kind [OF scan_number_scanned [OF c num(1), of ut]] k by simp
    then show ?thesis by (intro plain) auto
  next
    case string
    then show ?thesis using last_kind_tokenized [OF scan_string_tokenized] k plain by auto
  next
    case tick
    then show ?thesis using backtick_kind [of s] k plain by auto
  next
    case brace
    have "last_kind (scan_template_part OpenBrace u) \<in> {TkTemplateTail, TkTemplateMiddle}" for u
      by (simp add: scan_template_part_def split: prod.split template_end.split)
    then have "k \<noteq> TkPunct PRBrace" using k brace(3) by (metis insert_iff empty_iff token_kind.distinct)
    then show ?thesis using brace by (simp add: brace_guard_def)
  next
    case punct
    show ?thesis
    proof (rule scan_punct_scanned [of s c])
      fix p t' w
      assume p: "token_scanned s (TkPunct p) t' (scan_punct c s)"
        "w = (str ''==='') \<and> p = PEqEq \<or> w = (str ''!=='') \<and> p = PNotEq
         \<or> find (\<lambda>(t, p). starts_with t s) punct_table = Some (w, p)"
        "starts_with w s"
      have kp: "k = TkPunct p" using last_kind_scanned [OF p(1)] k punct(1) by simp
      have "c = (ch CHR ''}'')" if "p = PRBrace"
      proof -
        have "(w, p) \<in> set punct_table" using p(2) that by (auto dest: find_tableD)
        then have "w = [(ch CHR ''}'')]" using punct_table_rbrace that by (auto simp: list_all_iff)
        then show ?thesis using p(3) c by (auto simp: starts_with_def peek_def split: list.splits)
      qed
      then show ?thesis using punct(2) kp by (auto simp: brace_guard_def)
    next
      fix m
      assume "scan_punct c s = lex_error UnexpectedChar m (bump s)"
      then have "lx_tokens (scan_token ut c s) = lx_tokens s"
        using scans_parts(2) [OF scans_trans [OF scans_bump scans_lex_error]] punct(1) by simp
      moreover have "length (lx_tokens (scan_token ut c s)) = Suc (length (lx_tokens t))"
        "lx_tokens t = lx_tokens s"
        using tok scans_parts(2) [OF scans_trans_bump] by (auto simp: token_scanned_def emit_def)
      ultimately show ?thesis by simp
    qed
  qed
qed

text \<open>The checker follows the scanner's stack, depth for depth.\<close>

definition depths_ok :: "nat \<Rightarrow> nat list \<Rightarrow> u32 list \<Rightarrow> bool" where
  "depths_ok n ds st \<longleftrightarrow> st = map of_nat ds \<and> (\<forall>d \<in> set ds. d \<le> n) \<and> length ds \<le> n"

lemma of_nat_u32_0: "d < 2 ^ 32 \<Longrightarrow> (of_nat d :: u32) = 0 \<longleftrightarrow> d = 0"
  by (simp add: word_of_nat_eq_0_iff nat_dvd_not_less) (metis dvd_0_right nat_dvd_not_less neq0_conv)

lemma nest_step_ok:
  assumes ok: "depths_ok n ds st" and n: "n < 2 ^ 32" and g: "brace_guard k st"
  obtains ds' where "nest_step k ds = Some ds'" "depths_ok (Suc n) ds' (stack_after k st)"
proof -
  have st: "st = map of_nat ds" and d: "\<And>d. d \<in> set ds \<Longrightarrow> d \<le> n" using ok by (auto simp: depths_ok_def)
  have e: "st = [] \<longleftrightarrow> ds = []" by (simp add: st)
  have l: "ds \<noteq> [] \<Longrightarrow> last st = of_nat (last ds)" by (simp add: st last_map)
  have z: "ds \<noteq> [] \<Longrightarrow> last st = 0 \<longleftrightarrow> last ds = 0"
    using l of_nat_u32_0 [OF le_less_trans [OF d [OF last_in_set] n]] by simp
  have b: "butlast st = map of_nat (butlast ds)" by (simp add: st map_butlast)
  have set_b: "x \<in> set (butlast ds) \<Longrightarrow> x \<le> n" for x using d in_set_butlastD by fastforce
  have lst: "ds \<noteq> [] \<Longrightarrow> last ds \<le> n" using d by simp
  have len: "length ds \<le> n" using ok by (simp add: depths_ok_def)
  have ok0: "depths_ok (Suc n) ds st" using ok by (auto simp: depths_ok_def)
  show ?thesis
  proof (cases k)
    case (TkPunct p)
    consider "ds = []" | "ds \<noteq> []" "p = PLBrace" | "ds \<noteq> []" "p = PRBrace" | "ds \<noteq> []" "p \<noteq> PLBrace" "p \<noteq> PRBrace"
      by blast
    then show ?thesis
    proof cases
      case 1
      then show ?thesis
        using ok0 e by (intro that [of ds]) (simp_all add: nest_step_def stack_after_def adjust_depth_def TkPunct)
    next
      case 2
      have "depths_ok (Suc n) (butlast ds @ [last ds + 1]) (butlast st @ [last st + 1])"
        using 2 set_b lst l b len by (fastforce simp: depths_ok_def add.commute)
      then show ?thesis
        using 2 e by (intro that) (auto simp: nest_step_def stack_after_def adjust_depth_def TkPunct)
    next
      case 3
      then have nz: "last ds \<noteq> 0" using g z e by (auto simp: brace_guard_def TkPunct)
      then have "last st - 1 = of_nat (last ds - 1)" using l 3 by (simp add: of_nat_diff)
      then have "depths_ok (Suc n) (butlast ds @ [last ds - 1]) (butlast st @ [last st - 1])"
        using 3 set_b lst b len by (fastforce simp: depths_ok_def)
      then show ?thesis
        using 3 e nz by (intro that) (auto simp: nest_step_def stack_after_def adjust_depth_def TkPunct)
    next
      case 4
      then show ?thesis
        using ok0 e by (intro that [of ds]) (auto simp: nest_step_def stack_after_def adjust_depth_def TkPunct)
    qed
  next
    case TkTemplateHead
    then show ?thesis
      using d len by (intro that [of "ds @ [0]"])
        (auto simp: nest_step_def stack_after_def depths_ok_def st intro: le_SucI)
  next
    case TkTemplateMiddle
    then have "ds \<noteq> []" "last ds = 0" using g e z by (auto simp: brace_guard_def)
    moreover from this have "butlast st @ [0] = st" using e z by (metis append_butlast_last_id)
    ultimately show ?thesis
      using ok0 TkTemplateMiddle by (intro that [of ds]) (simp_all add: nest_step_def stack_after_def)
  next
    case TkTemplateTail
    then have "ds \<noteq> []" "last ds = 0" using g e z by (auto simp: brace_guard_def)
    then show ?thesis
      using TkTemplateTail b set_b len
      by (intro that [of "butlast ds"]) (auto simp: nest_step_def stack_after_def depths_ok_def intro: le_SucI)
  qed (use ok0 in \<open>auto simp: nest_step_def stack_after_def intro: that\<close>)
qed

definition nested :: "lexer \<Rightarrow> bool" where
  "nested s \<longleftrightarrow> length (lx_tokens s) \<le> length (lx_pre s)
     \<and> (\<exists>ds. nest (map t_kind (lx_tokens s)) [] = Some ds
          \<and> depths_ok (length (lx_tokens s)) ds (lx_template_stack s))"

lemma nested_moves:
  assumes "nested s" "lx_tokens t = lx_tokens s" "lx_template_stack t = lx_template_stack s"
    and "length (lx_pre s) \<le> length (lx_pre t)"
  shows "nested t"
  using assms by (auto simp: nested_def)

lemma nested_scans: "nested s \<Longrightarrow> scans s t \<Longrightarrow> nested t"
  by (rule nested_moves) (auto simp: scans_def)

lemma nested_push_comment: "nested s \<Longrightarrow> nested (push_comment i p s)"
  by (rule nested_moves [of s]) (simp_all add: push_comment_parts)

lemma nested_trivia_step: "nested s \<Longrightarrow> trivia_step s = Some s' \<Longrightarrow> nested s'"
  by (auto simp: trivia_step_def split: option.splits if_splits
      intro!: nested_push_comment intro: nested_scans scans_bump scans_bump_while
        scans_trans_bump [OF scans_trans_bump [OF scans_block_comment]])

lemma nested_skip_trivia: "nested s \<Longrightarrow> nested (skip_trivia s)"
proof (induction s rule: skip_trivia.induct)
  case (1 s)
  then show ?case by (subst skip_trivia.simps) (auto split: option.split intro: nested_trivia_step)
qed

lemma nested_start_token: "nested s \<Longrightarrow> nested (start_token s)"
  by (rule nested_moves [of s]) simp_all

lemma nested_scan_token:
  assumes s: "nested s" and c: "peek s = Some c" "lx_start s = lx_idx s" and len: "length (lx_pre s) < 2 ^ 32"
  shows "nested (scan_token ut c s)"
proof (rule scan_token_cases [OF c, of ut])
  fix k t w
  assume tok: "token_scanned s k t (scan_token ut c s)" and w: "lx_pre t = lx_pre s @ w" "kind_text k w"
  obtain ds where ds: "nest (map t_kind (lx_tokens s)) [] = Some ds"
      "depths_ok (length (lx_tokens s)) ds (lx_template_stack s)" "length (lx_tokens s) \<le> length (lx_pre s)"
    using s by (auto simp: nested_def)
  have n: "length (lx_tokens s) < 2 ^ 32" using ds(3) len by linarith
  obtain ds' where ds': "nest_step k ds = Some ds'"
      "depths_ok (Suc (length (lx_tokens s))) ds' (stack_after k (lx_template_stack s))"
    by (rule nest_step_ok [OF ds(2) n brace_guard_scan_token [OF c(1) tok]])
  have "scans s t" using tok by (auto simp: token_scanned_def intro: scans_trans_bump)
  note p = scans_parts [OF this]
  have e: "scan_token ut c s = emit k (t\<lparr>lx_template_stack := stack_after k (lx_template_stack s)\<rparr>)"
    using tok by (simp add: token_scanned_def)
  have "w \<noteq> []" using w(2) by (simp add: kind_text_def)
  then have "Suc (length (lx_tokens s)) \<le> length (lx_pre t)" using ds(3) w(1) by (cases w) auto
  then show ?thesis
    using ds(1) ds' p(2) unfolding e nested_def
    by (intro conjI exI [of _ ds']) (simp_all add: emit_def nest_append)
next
  fix m
  assume "scan_token ut c s = lex_error UnexpectedChar m (bump s)"
  then show ?thesis using nested_scans [OF s scans_trans [OF scans_bump scans_lex_error]] by simp
qed

lemma lex_run_nested:
  assumes "nested s" "length (lx_pre s @ lx_rest s) < 2 ^ 32"
  shows "nest (map t_kind (lx_tokens (lex_run ut s))) [] \<noteq> None"
  using assms
proof (induction ut s rule: lex_run.induct)
  case (1 ut s0)
  define s where "s = start_token (skip_trivia s0)"
  have s: "nested s" using 1(2) by (simp add: s_def nested_skip_trivia nested_start_token)
  have tx: "lx_pre s @ lx_rest s = lx_pre s0 @ lx_rest s0" by (simp add: s_def skip_trivia_text)
  then have len: "length (lx_pre s) + length (lx_rest s) < 2 ^ 32"
    using 1(3) by (metis length_append)
  have st: "lx_start s = lx_idx s" by (simp add: s_def)
  show ?case
  proof (cases "peek s")
    case None
    then have "lex_run ut s0 = emit TkEof s"
      by (subst lex_run.simps) (simp add: s_def [symmetric] Let_def)
    then show ?thesis using s by (auto simp: nested_def emit_def nest_append nest_step_def)
  next
    case (Some c)
    then have run: "lex_run ut s0 = lex_run ut (scan_token ut c s)"
      by (subst lex_run.simps) (simp add: s_def [symmetric] Let_def)
    have "nested (scan_token ut c s)" using len by (intro nested_scan_token [OF s Some st]) simp
    moreover have "length (lx_pre (scan_token ut c s) @ lx_rest (scan_token ut c s)) < 2 ^ 32"
      unfolding scan_token_text [OF Some st, of ut] using len by simp
    ultimately show ?thesis unfolding run using 1(1) [OF s_def Some] by blast
  qed
qed

section \<open>Punctuators are matched maximally\<close>

text \<open>No entry of the table is a proper prefix of a later one, and every punctuator is in it.\<close>

fun no_later_extension :: "(rstr \<times> punct) list \<Rightarrow> bool" where
  "no_later_extension [] = True"
| "no_later_extension ((w, p) # es) =
     (list_all (\<lambda>(v, q). length v \<le> length w \<or> take (length w) v \<noteq> w) es \<and> no_later_extension es)"

lemma punct_table_order: "no_later_extension punct_table"
  by (simp add: punct_table_def)

lemma punct_table_all: "p \<in> set (map snd punct_table)"
  by (cases p; simp only: punct_table_def list.map snd_conv list.set insert_iff simp_thms)

lemma find_maximal:
  assumes "no_later_extension es" "find (\<lambda>(t, p). starts_with t s) es = Some (w, p)"
    and "(v, q) \<in> set es" "starts_with v s"
  shows "length v \<le> length w"
  using assms
proof (induction es)
  case (Cons e es)
  obtain u r where e: "e = (u, r)" by (cases e)
  show ?case
  proof (cases "starts_with u s")
    case True
    then have wu: "w = u" using Cons.prems(2) by (simp add: e)
    show ?thesis
    proof (rule ccontr)
      assume n: "\<not> length v \<le> length w"
      then have "(v, q) \<in> set es" using Cons.prems(3) wu by (auto simp: e)
      then have "take (length u) v \<noteq> u" using Cons.prems(1) n wu by (auto simp: e list_all_iff)
      moreover have "take (length u) v = take (length u) (lx_rest s)"
        using Cons.prems(4) n wu by (metis starts_with_def min.absorb1 nat_le_linear take_take)
      ultimately show False using True by (simp add: starts_with_def)
    qed
  next
    case False
    then show ?thesis using Cons by (auto simp: e)
  qed
qed simp

lemma punct_entry: "(punct_as_str q, q) \<in> set punct_table"
  using punct_table_all [of q] punct_table_spelling by (fastforce simp: list_all_iff)

section \<open>The conformance dump\<close>

text \<open>The \<open>Debug\<close> name of a suffix, and \<open>replace('\n', "\\n")\<close>.\<close>

primrec suffix_debug :: "int_suffix \<Rightarrow> rstr" where
  "suffix_debug SfxU = str ''U''"
| "suffix_debug SfxL = str ''L''"
| "suffix_debug SfxUl = str ''Ul''"
| "suffix_debug SfxI8 = str ''I8''"
| "suffix_debug SfxI16 = str ''I16''"
| "suffix_debug SfxI32 = str ''I32''"
| "suffix_debug SfxI64 = str ''I64''"
| "suffix_debug SfxU8 = str ''U8''"
| "suffix_debug SfxU16 = str ''U16''"
| "suffix_debug SfxU32 = str ''U32''"
| "suffix_debug SfxU64 = str ''U64''"

definition escape_newlines :: "rstr \<Rightarrow> rstr" where
  "escape_newlines s = concat (map (\<lambda>c. if c = 0x0A then [0x5C, (ch CHR ''n'')] else [c]) s)"

definition slice_bytes :: "nat \<Rightarrow> nat \<Rightarrow> rstr \<Rightarrow> rstr" where
  "slice_bytes a b txt =
     (let t = drop_bytes a txt in take (length t - length (drop_bytes b txt)) t)"

definition dump_kind :: "token_kind \<Rightarrow> rstr \<Rightarrow> rstr" where
  "dump_kind k t =
     (case k of
        TkIdent \<Rightarrow> (str ''ident '') @ t
      | TkKeyword kw \<Rightarrow> (str ''keyword '') @ keyword_as_str kw
      | TkInt None \<Rightarrow> (str ''int '') @ t
      | TkInt (Some sfx) \<Rightarrow> (str ''int '') @ t @ (str '' ('') @ suffix_debug sfx @ (str '')'')
      | TkFloat is_f32 \<Rightarrow> (str ''float '') @ t @ (str '' ('') @ (if is_f32 then (str ''float32'') else (str ''float64'')) @ (str '')'')
      | TkBigInt \<Rightarrow> (str ''bigint '') @ t
      | TkBigDec \<Rightarrow> (str ''bigdec '') @ t
      | TkStr \<Rightarrow> (str ''string '') @ t
      | TkChar \<Rightarrow> (str ''char '') @ t
      | TkTemplateNoSub \<Rightarrow> (str ''template '') @ escape_newlines t
      | TkTemplateHead \<Rightarrow> (str ''template-head '') @ escape_newlines t
      | TkTemplateMiddle \<Rightarrow> (str ''template-middle '') @ escape_newlines t
      | TkTemplateTail \<Rightarrow> (str ''template-tail '') @ escape_newlines t
      | TkPunct p \<Rightarrow> (str ''punct '') @ punct_as_str p
      | TkEof \<Rightarrow> (str ''eof''))"

definition dump_token :: "rstr \<Rightarrow> token \<Rightarrow> rstr" where
  "dump_token txt t =
     dec_nat (unat (p_line (sp_pos (t_span t)))) @ str '':'' @ dec_nat (unat (p_col (sp_pos (t_span t)))) @ str '' ''
     @ dump_kind (t_kind t) (slice_bytes (sp_start (t_span t)) (sp_end (t_span t)) txt) @ [0x0A]"

definition dump :: "ident_tables \<Rightarrow> rstr \<Rightarrow> rstr" where
  "dump ut txt =
     (let out = lex ut txt
      in concat (map (dump_token txt) (lo_tokens out))
         @ concat (map (\<lambda>d. diagnostic_display d @ [0x0A]) (lo_diagnostics out)))"

lemma slice_bytes_span: "slice_bytes (str_len u) (str_len (u @ w)) (u @ w @ v) = w"
proof -
  have "drop_bytes (str_len (u @ w)) ((u @ w) @ v) = v" by (rule drop_bytes_append)
  then show ?thesis by (simp add: slice_bytes_def)
qed

lemma emit_pre: "lx_pre (emit k s) = lx_pre s"
  by (simp add: emit_def)

lemma token_scanned_pre: "token_scanned s k t s' \<Longrightarrow> lx_pre s' = lx_pre t"
  by (auto simp: token_scanned_def emit_pre)

section \<open>What the component promises\<close>

text \<open>
  C11: lexing loses nothing and invents nothing.  For every text there is a division into
  white space, comments, tokens and unexpected parts whose texts concatenate to it; the
  token list is exactly its tokens, with the byte ranges and positions of the division,
  followed by one end-of-file token at the end; the comments are exactly its comments;
  keywords, identifiers and punctuators have the text their kind says; and without a
  diagnostic there is no unexpected part.
\<close>

theorem lex_tiles:
  "\<exists>gs. segs_text gs = txt \<and> list_all seg_ok gs
    \<and> lo_tokens (lex ut txt) = segs_tokens [] gs @ [\<lparr>t_kind = TkEof, t_span = span_at txt []\<rparr>]
    \<and> lo_comments (lex ut txt) = segs_comments [] gs
    \<and> (lo_diagnostics (lex ut txt) = [] \<longrightarrow> list_all (\<lambda>g. \<not> is_bad g) gs)"
proof -
  obtain u where u: "tiled u" "lex_run ut (lexer_new txt) = emit TkEof u"
    "lx_pre u = lx_pre (lexer_new txt) @ lx_rest (lexer_new txt)" "lx_start u = lx_idx u" "lx_start_pos u = lx_pos u"
    using lex_run_tiled [OF tiled_new, of ut "txt"] by blast
  have pre: "lx_pre u = txt" using u(3) by (simp add: lexer_new_def)
  obtain gs where gs: "segs_text gs = lx_pre u" "lx_tokens u = segs_tokens [] gs" "lx_comments u = segs_comments [] gs"
    "list_all seg_ok gs" "lx_diagnostics u = [] \<longrightarrow> list_all (\<lambda>g. \<not> is_bad g) gs"
    using u(1) by (auto simp: tiled_def)
  have "lx_pos u = \<lparr>p_line = fst (end_pos (1, 1) txt), p_col = snd (end_pos (1, 1) txt)\<rparr>"
    using pos_ok_span [of u] u(1) pre by (simp add: tiled_def)
  then show ?thesis
    using gs u(4,5) pre unfolding lex_def u(2) Let_def
    by (intro exI [of _ gs]) (simp add: emit_def lx_idx_def span_at_def)
qed

definition ascii_tables :: ident_tables where
  "ascii_tables =
     \<lparr>xid_start = (\<lambda>c. (ch CHR ''a'') \<le> c \<and> c \<le> (ch CHR ''z'') \<or> (ch CHR ''A'') \<le> c \<and> c \<le> (ch CHR ''Z'')),
      xid_continue = (\<lambda>c. (ch CHR ''a'') \<le> c \<and> c \<le> (ch CHR ''z'') \<or> (ch CHR ''A'') \<le> c \<and> c \<le> (ch CHR ''Z'') \<or> (ch CHR ''0'') \<le> c \<and> c \<le> (ch CHR ''9'') \<or> c = (ch CHR ''_''))\<rparr>"

theorem lex_tiles_witness:
  "\<exists>gs. segs_text gs = str ''a+1'' \<and> list_all seg_ok gs
    \<and> lo_tokens (lex ascii_tables (str ''a+1'')) = segs_tokens [] gs @ [\<lparr>t_kind = TkEof, t_span = span_at (str ''a+1'') []\<rparr>]"
  using lex_tiles [of "str ''a+1''" ascii_tables] by blast

text \<open>
  C12: template substitutions nest.  In the token stream of any text shorter than \<open>2^32\<close>
  characters every continuation or end of a template closes an open substitution whose own
  braces are balanced, and the brace depth of a substitution is never decremented below
  zero (the scanner's \<open>u32\<close> counters do not wrap).
\<close>

theorem lex_templates_nest:
  assumes "length txt < 2 ^ 32"
  shows "nest (map t_kind (lo_tokens (lex ut txt))) [] \<noteq> None"
proof -
  have "nested (lexer_new txt)" by (simp add: nested_def lexer_new_def depths_ok_def)
  then show ?thesis
    using lex_run_nested [of "lexer_new txt" ut] assms by (simp add: lex_def lexer_new_def Let_def)
qed

theorem lex_templates_nest_witness:
  "nest (map t_kind (lo_tokens (lex ascii_tables (str ''`a${ {1} }b`'')))) [] \<noteq> None"
  by (rule lex_templates_nest) simp

text \<open>
  punctuators are matched maximally: whenever a token is a punctuator, no punctuator of
  the language that the remaining text starts with is longer than the text it consumed.
\<close>

lemma lex_punct_maximal:
  assumes "peek s = Some c" "scan_token ut c s = scan_punct c s" "token_scanned s (TkPunct p) t (scan_punct c s)"
    and "starts_with (punct_as_str q) s"
  shows "length (lx_pre s) + length (punct_as_str q) \<le> length (lx_pre t)"
proof (rule scan_punct_scanned [of s c])
  fix p' t' w
  assume a: "token_scanned s (TkPunct p') t' (scan_punct c s)"
    "w = (str ''==='') \<and> p' = PEqEq \<or> w = (str ''!=='') \<and> p' = PNotEq
     \<or> find (\<lambda>(t, p). starts_with t s) punct_table = Some (w, p')"
    "starts_with w s" "(bump ^^ length w) s = t' \<or> (\<exists>m. (bump ^^ length w) (lex_error UnexpectedChar m s) = t')"
  have tt: "lx_pre t = lx_pre t'"
    using token_scanned_pre [OF a(1)] token_scanned_pre [OF assms(3)] by simp
  have pre: "lx_pre t' = lx_pre s @ w" using scan_punct_text [OF a] by simp
  have "length (punct_as_str q) \<le> length w"
  proof (cases "find (\<lambda>(t, p). starts_with t s) punct_table = Some (w, p')")
    case True
    show ?thesis by (rule find_maximal [OF punct_table_order True punct_entry assms(4)])
  next
    case False
    then have "length w = 3" using a(2) by auto
    moreover have "length (punct_as_str q) \<le> 3" by (cases q) simp_all
    ultimately show ?thesis by simp
  qed
  then show ?thesis using pre tt by simp
next
  fix m
  assume "scan_punct c s = lex_error UnexpectedChar m (bump s)"
    "find (\<lambda>(t, p). starts_with t s) punct_table = None"
  then show ?thesis
    using punct_entry [of q] assms(4) by (auto simp: find_None_iff)
qed

lemma lex_punct_maximal_example:
  "\<exists>t. token_scanned (lexer_new (str ''**=x'')) (TkPunct PStarStarEq) t (scan_punct (ch CHR ''*'') (lexer_new (str ''**=x'')))
     \<and> length (punct_as_str PStarStar) \<le> length (lx_pre t)"
proof -
  let ?s = "lexer_new (str ''**=x'')"
  have st: "starts_with (punct_as_str PStarStar) ?s" by (simp add: starts_with_def lexer_new_def)
  have "find (\<lambda>(t, p). starts_with t ?s) punct_table = Some (str ''**='', PStarStarEq)"
    by (simp add: punct_table_def starts_with_def lexer_new_def)
  moreover have "\<not> starts_with (str ''==='') ?s" "\<not> starts_with (str ''!=='') ?s"
    by (simp_all add: starts_with_def lexer_new_def)
  ultimately have "last_kind (scan_punct (ch CHR ''*'') ?s) = TkPunct PStarStarEq" "lx_tokens (scan_punct (ch CHR ''*'') ?s) \<noteq> []"
    by (simp_all only: scan_punct_def if_False option.case prod.case Let_def last_kind_emit) (simp add: emit_def)
  then obtain t where t: "token_scanned ?s (TkPunct PStarStarEq) t (scan_punct (ch CHR ''*'') ?s)"
  proof (cases rule: scan_punct_scanned [of ?s "(ch CHR ''*'')"])
    case (bad m)
    then have "lx_tokens (scan_punct (ch CHR ''*'') ?s) = []"
      using scans_parts(2) [OF scans_trans [OF scans_bump scans_lex_error]] by (simp add: lexer_new_def)
    then show ?thesis using \<open>lx_tokens (scan_punct (ch CHR ''*'') ?s) \<noteq> []\<close> by simp
  qed (use last_kind_scanned in fastforce)
  have p: "peek ?s = Some (ch CHR ''*'')" by (simp add: peek_def lexer_new_def)
  have "scan_token ascii_tables (ch CHR ''*'') ?s = scan_punct (ch CHR ''*'') ?s"
    by (simp add: scan_token_def is_id_start_def ascii_tables_def is_decimal_def)
  from lex_punct_maximal [OF p this t st] show ?thesis
    using t by (intro exI [of _ t]) (simp add: lexer_new_def)
qed

end
