(* ===== verification/Units.thy ===== *)
theory Units
  imports Numeric Lexer "HOL-Library.Signed_Division"
begin

text \<open>
  Strings as the engine keeps them, in UTF-16 code units (\<open>crates/mersey_interp/src/lib.rs\<close>):
  the conversions from and to Rust strings, the search and the split, the bounds of the slicing
  methods, the string methods that read only the units (\<open>str_member_units\<close>), and the
  integers a template appends (\<open>vm.rs\<close>).
\<close>

section \<open>From and to Unicode\<close>

definition char_utf16 :: "rchar \<Rightarrow> units" where
  "char_utf16 c =
     (if c < 0x10000 then [of_nat c]
      else [of_nat (0xD800 + (c - 0x10000) div 0x400), of_nat (0xDC00 + (c - 0x10000) mod 0x400)])"

definition utf16 :: "rstr \<Rightarrow> units" where
  "utf16 s = concat (map char_utf16 s)"

definition high_surrogate :: "u16 \<Rightarrow> bool" where
  "high_surrogate u \<longleftrightarrow> 0xD800 \<le> unat u \<and> unat u \<le> 0xDBFF"

definition low_surrogate :: "u16 \<Rightarrow> bool" where
  "low_surrogate u \<longleftrightarrow> 0xDC00 \<le> unat u \<and> unat u \<le> 0xDFFF"

definition pair_char :: "u16 \<Rightarrow> u16 \<Rightarrow> rchar" where
  "pair_char u lo = 0x10000 + (unat u - 0xD800) * 0x400 + (unat lo - 0xDC00)"

definition lone_char :: "u16 \<Rightarrow> rchar" where
  "lone_char u = (if is_scalar (unat u) then unat u else 0xFFFD)"

text \<open>\<open>char::decode_utf16\<close>, an unpaired surrogate read as U+FFFD.\<close>

fun utf16_to_chars :: "units \<Rightarrow> rstr" where
  "utf16_to_chars [] = []"
| "utf16_to_chars [u] = [lone_char u]"
| "utf16_to_chars (u # lo # us) =
     (if high_surrogate u \<and> low_surrogate lo then pair_char u lo # utf16_to_chars us
      else lone_char u # utf16_to_chars (lo # us))"

definition code_point_at :: "units \<Rightarrow> nat \<Rightarrow> rchar option" where
  "code_point_at s i =
     (if i < length s then
        (if high_surrogate (s ! i) \<and> i + 1 < length s \<and> low_surrogate (s ! (i + 1))
         then Some (let c = pair_char (s ! i) (s ! (i + 1)) in if is_scalar c then c else 0xFFFD)
         else Some (lone_char (s ! i)))
      else None)"

section \<open>Search and split\<close>

text \<open>\<open>hay[i] == first && hay[i..i + needle.len()] == *needle\<close>\<close>

definition unit_match :: "units \<Rightarrow> units \<Rightarrow> nat \<Rightarrow> bool" where
  "unit_match hay needle i \<longleftrightarrow> hay ! i = hd needle \<and> take (length needle) (drop i hay) = needle"

function find_loop :: "units \<Rightarrow> units \<Rightarrow> nat \<Rightarrow> nat \<Rightarrow> nat option" where
  "find_loop hay needle final i =
     (if i \<le> final then (if unit_match hay needle i then Some i else find_loop hay needle final (i + 1)) else None)"
  by auto
termination by (relation "measure (\<lambda>(hay, needle, final, i). Suc final - i)") auto

declare find_loop.simps [simp del]

definition find_units :: "units \<Rightarrow> units \<Rightarrow> nat \<Rightarrow> nat option" where
  "find_units hay needle start =
     (if needle = [] then Some (min start (length hay))
      else if length hay < length needle then None
      else find_loop hay needle (length hay - length needle) start)"

fun rfind_loop :: "units \<Rightarrow> units \<Rightarrow> nat \<Rightarrow> nat option" where
  "rfind_loop hay needle i =
     (if unit_match hay needle i then Some i
      else (case i of 0 \<Rightarrow> None | Suc j \<Rightarrow> rfind_loop hay needle j))"

declare rfind_loop.simps [simp del]

definition rfind_units :: "units \<Rightarrow> units \<Rightarrow> nat option" where
  "rfind_units hay needle =
     (if needle = [] then Some (length hay)
      else if length hay < length needle then None
      else rfind_loop hay needle (length hay - length needle))"

lemma find_loop_bounds: "find_loop hay needle final i = Some j \<Longrightarrow> i \<le> j \<and> j \<le> final"
proof (induction hay needle final i rule: find_loop.induct)
  case (1 hay needle final i)
  then show ?case by (subst (asm) (2) find_loop.simps) (auto split: if_splits)
qed

text \<open>The loop of \<open>split_units_into\<close>, which hands out a piece per occurrence and the rest.\<close>

function pieces_loop :: "units \<Rightarrow> units \<Rightarrow> nat \<Rightarrow> units list" where
  "pieces_loop s sep prev =
     (if sep = [] then []
      else (case find_units s sep prev of
              Some i \<Rightarrow> take (i - prev) (drop prev s) # pieces_loop s sep (i + length sep)
            | None \<Rightarrow> [drop prev s]))"
  by auto
termination
proof (relation "measure (\<lambda>(s, sep, prev). length s - prev)", goal_cases)
  case (2 s sep prev i)
  then have "prev \<le> i" "i + length sep \<le> length s" "0 < length sep"
    using find_loop_bounds [of s sep "length s - length sep" prev i]
    by (auto simp: find_units_def split: if_splits)
  then have "length s - (i + length sep) < length s - prev" by linarith
  then show ?case by simp
qed auto

declare pieces_loop.simps [simp del]

definition split_units :: "units \<Rightarrow> units \<Rightarrow> units list" where
  "split_units s sep = (if sep = [] then map (\<lambda>u. [u]) s else pieces_loop s sep 0)"

section \<open>Bounds\<close>

definition clamp_to :: "nat \<Rightarrow> i64 \<Rightarrow> nat" where
  "clamp_to len v = nat (max 0 (min (int len) (sint v)))"

definition slice_bounds :: "nat \<Rightarrow> i64 \<Rightarrow> i64 option \<Rightarrow> nat \<times> nat" where
  "slice_bounds len a b =
     (let i = clamp_to len a;
          j = (case b of Some b \<Rightarrow> clamp_to len b | None \<Rightarrow> len)
      in if i < j then (i, j) else (0, 0))"

definition substring_bounds :: "nat \<Rightarrow> i64 \<Rightarrow> i64 option \<Rightarrow> nat \<times> nat" where
  "substring_bounds len a b =
     (let i = clamp_to len a;
          j = (case b of Some b \<Rightarrow> clamp_to len b | None \<Rightarrow> len)
      in if i \<le> j then (i, j) else (j, i))"

definition range_of :: "units \<Rightarrow> nat \<times> nat \<Rightarrow> units" where
  "range_of s = (\<lambda>(i, j). take (j - i) (drop i s))"

definition slice_units :: "units \<Rightarrow> i64 \<Rightarrow> i64 option \<Rightarrow> units" where
  "slice_units s a b = range_of s (slice_bounds (length s) a b)"

definition substring_units :: "units \<Rightarrow> i64 \<Rightarrow> i64 option \<Rightarrow> units" where
  "substring_units s a b = range_of s (substring_bounds (length s) a b)"

definition resolve_at :: "i64 \<Rightarrow> nat \<Rightarrow> nat option" where
  "resolve_at i len =
     (let k = (if sint i < 0 then sint i + int len else sint i)
      in if 0 \<le> k \<and> nat k < len then Some (nat k) else None)"

definition char_at_bounds :: "nat \<Rightarrow> i64 \<Rightarrow> nat \<times> nat" where
  "char_at_bounds len i = (case resolve_at i len of Some k \<Rightarrow> if k < len then (k, k + 1) else (0, 0) | None \<Rightarrow> (0, 0))"

definition char_at_units :: "units \<Rightarrow> i64 \<Rightarrow> units" where
  "char_at_units s i = (case resolve_at i (length s) of Some k \<Rightarrow> if k < length s then [s ! k] else [] | None \<Rightarrow> [])"

definition code_point_at_units :: "units \<Rightarrow> i64 \<Rightarrow> rchar option" where
  "code_point_at_units s i = (case resolve_at i (length s) of Some k \<Rightarrow> code_point_at s k | None \<Rightarrow> None)"

section \<open>Building\<close>

text \<open>\<open>repeat\<close>, by doubling what has been written.\<close>

function double_to :: "nat \<Rightarrow> units \<Rightarrow> units" where
  "double_to full out =
     (if length out < full \<and> out \<noteq> [] then double_to full (out @ take (min (full - length out) (length out)) out) else out)"
  by auto
termination
proof (relation "measure (\<lambda>(full, out). full - length out)", goal_cases)
  case (2 full out)
  then have "0 < length out" "length out < full" by simp_all
  then have "full - (length out + min (full - length out) (length out)) < full - length out" by linarith
  then show ?case by simp
qed simp

declare double_to.simps [simp del]

definition repeat_units :: "units \<Rightarrow> i64 \<Rightarrow> units" where
  "repeat_units s count =
     (let n = nat (max 0 (min 1000000 (sint count)));
          full = length s * n
      in if 0 < full then double_to full s else [])"

definition pad_units :: "bool \<Rightarrow> units \<Rightarrow> i64 \<Rightarrow> units \<Rightarrow> units" where
  "pad_units at_start s width_arg pad_arg =
     (let width = nat (max 0 (sint width_arg));
          pad = (if pad_arg = [] then [0x20] else pad_arg)
      in if width \<le> length s then s
         else (let need = width - length s;
                   filler = map (\<lambda>k. pad ! (k mod length pad)) [0..<need]
               in if at_start then filler @ s else s @ filler))"

text \<open>The loop of \<open>replace\<close> and \<open>replaceAll\<close>, over the rest of the receiver.\<close>

function replace_loop :: "bool \<Rightarrow> units \<Rightarrow> units \<Rightarrow> units \<Rightarrow> bool \<Rightarrow> units" where
  "replace_loop first_only needle subst [] replaced = []"
| "replace_loop first_only needle subst (u # us) replaced =
     (if \<not> (first_only \<and> replaced) \<and> needle \<noteq> [] \<and> take (length needle) (u # us) = needle
      then subst @ replace_loop first_only needle subst (drop (length needle) (u # us)) True
      else u # replace_loop first_only needle subst us replaced)"
  by pat_completeness auto
termination
  by (relation "measure (\<lambda>(first_only, needle, subst, us, replaced). length us)") (auto simp: diff_less_Suc neq_Nil_conv)

declare replace_loop.simps(2) [simp del]

definition replace_units :: "bool \<Rightarrow> units \<Rightarrow> units \<Rightarrow> units \<Rightarrow> units" where
  "replace_units first_only s needle subst = replace_loop first_only needle subst s False"

definition trim_units :: "bool \<Rightarrow> bool \<Rightarrow> units \<Rightarrow> units" where
  "trim_units left right s =
     (let start = (if left then length (takeWhile is_whitespace_unit s) else 0);
          stop = (if right then start + length (dropWhile is_whitespace_unit (rev (drop start s))) else length s)
      in range_of s (start, stop))"

section \<open>The methods that read only the units\<close>

text \<open>
  \<open>str_member_units\<close>: \<open>None\<close> is "not one of these".  An answer is a value, or, for
  \<open>split\<close>, the pieces of a fresh array.  How a value that is not a string is shown
  (\<open>to_display\<close>) is an argument.
\<close>

datatype units_answer = Gives mvalue | Parts "units list"

definition int_arg :: "mvalue list \<Rightarrow> nat \<Rightarrow> i64 option" where
  "int_arg args k = (if k < length args then as_i64 (args ! k) else None)"

definition text_arg :: "(mvalue \<Rightarrow> rstr) \<Rightarrow> mvalue list \<Rightarrow> units" where
  "text_arg shown args = (case args of [] \<Rightarrow> [] | V_Str u # _ \<Rightarrow> u | v # _ \<Rightarrow> utf16 (shown v))"

definition str_arg :: "mvalue list \<Rightarrow> nat \<Rightarrow> units option" where
  "str_arg args k = (if k < length args then (case args ! k of V_Str u \<Rightarrow> Some u | _ \<Rightarrow> None) else None)"

definition index_value :: "nat option \<Rightarrow> mvalue" where
  "index_value r = V_I32 (case r of Some i \<Rightarrow> of_nat i | None \<Rightarrow> - 1)"

definition or_zero :: "i64 option \<Rightarrow> i64" where
  "or_zero v = (case v of Some n \<Rightarrow> n | None \<Rightarrow> 0)"

text \<open>The guard of \<open>replace\<close>: a needle that is a text and not empty, and a text or nothing to
  put in its place.\<close>

definition replace_args :: "mvalue list \<Rightarrow> (units \<times> units) option" where
  "replace_args args =
     (case str_arg args 0 of
        None \<Rightarrow> None
      | Some needle \<Rightarrow>
          if needle = [] then None
          else if length args < 2 then Some (needle, [])
          else map_option (Pair needle) (str_arg args 1))"

definition str_member_units :: "(mvalue \<Rightarrow> rstr) \<Rightarrow> units \<Rightarrow> rstr \<Rightarrow> mvalue list \<Rightarrow> units_answer option" where
  "str_member_units shown s name args =
     (let gives = (\<lambda>u. Some (Gives (V_Str u)));
          a0 = or_zero (int_arg args 0)
      in
      if name = (str ''toString'') then gives s
      else if name = (str ''substring'') then gives (substring_units s a0 (int_arg args 1))
      else if name = (str ''repeat'') then gives (repeat_units s a0)
      else if name = (str ''padStart'') \<or> name = (str ''padEnd'') then
        gives (pad_units (name = (str ''padStart'')) s a0 (case str_arg args 1 of Some p \<Rightarrow> p | None \<Rightarrow> []))
      else if (name = (str ''replace'') \<or> name = (str ''replaceAll'')) \<and> replace_args args \<noteq> None then
        (case replace_args args of Some (needle, w) \<Rightarrow> gives (replace_units (name = (str ''replace'')) s needle w) | None \<Rightarrow> None)
      else if name = (str ''trim'') then gives (trim_units True True s)
      else if name = (str ''trimStart'') then gives (trim_units True False s)
      else if name = (str ''trimEnd'') then gives (trim_units False True s)
      else if name = (str ''concat'') then gives (s @ concat (map (\<lambda>v. text_arg shown [v]) args))
      else if name = (str ''charAt'') then gives (char_at_units s a0)
      else if name = (str ''codePointAt'') then
        Some (Gives (case code_point_at_units s a0 of Some c \<Rightarrow> V_I32 (of_nat c) | None \<Rightarrow> V_Null))
      else if name = (str ''at'') then
        Some (Gives (case code_point_at_units s a0 of Some c \<Rightarrow> V_Char c | None \<Rightarrow> V_Null))
      else if name = (str ''slice'') then gives (slice_units s a0 (int_arg args 1))
      else if name = (str ''split'') then Some (Parts (split_units s (text_arg shown args)))
      else if name = (str ''contains'') then Some (Gives (V_Bool (find_units s (text_arg shown args) 0 \<noteq> None)))
      else if name = (str ''startsWith'') then
        Some (Gives (V_Bool (take (length (text_arg shown args)) s = text_arg shown args)))
      else if name = (str ''endsWith'') then
        Some (Gives (V_Bool (let n = text_arg shown args in length n \<le> length s \<and> drop (length s - length n) s = n)))
      else if name = (str ''lastIndexOf'') then Some (Gives (index_value (rfind_units s (text_arg shown args))))
      else if name = (str ''indexOf'') then Some (Gives (index_value (find_units s (text_arg shown args) 0)))
      else None)"

section \<open>Appending an integer\<close>

text \<open>\<open>append_digits\<close>, its buffer of 20 digits filled from the end: \<open>acc\<close> is the part of the
  buffer that is written.\<close>

function u64_digits_loop :: "u64 \<Rightarrow> units \<Rightarrow> units" where
  "u64_digits_loop v acc =
     (let acc' = (0x30 + ucast (v mod 10)) # acc; v' = v div 10
      in if v' = 0 then acc' else u64_digits_loop v' acc')"
  by auto
termination
proof (relation "measure (\<lambda>(v, acc). unat v)", goal_cases)
  case (2 v acc acc' v')
  then have "v \<noteq> 0" by auto
  then have "unat v div 10 < unat v" by (simp add: unat_gt_0)
  then show ?case using 2 by (simp add: unat_div)
qed auto

declare u64_digits_loop.simps [simp del]

definition append_digits :: "units \<Rightarrow> u64 \<Rightarrow> units" where
  "append_digits out v = out @ u64_digits_loop v []"

text \<open>\<open>v % 10\<close> and \<open>v / 10\<close> round to zero; \<open>i64::MIN\<close> has no absolute value, its tenth has.\<close>

definition append_int_u16 :: "units \<Rightarrow> i64 \<Rightarrow> units" where
  "append_int_u16 out v =
     (if sint v < 0 then
        (let final = (of_int \<bar>sint v smod 10\<bar> :: u16);
             tenth = (of_int \<bar>sint v sdiv 10\<bar> :: u64)
         in if tenth = 0 then (out @ [0x2D]) @ [0x30 + final]
            else append_digits (out @ [0x2D]) tenth @ [0x30 + final])
      else append_digits out (ucast v))"

section \<open>Unicode round trips\<close>

lemma unat_of_nat16: "n < 0x10000 \<Longrightarrow> unat (of_nat n :: u16) = n"
  by (simp add: unat_of_nat take_bit_nat_eq_self)

lemma lone_char_scalar: "is_scalar (lone_char u)"
  by (simp add: lone_char_def is_scalar_def)

lemma char_utf16_cases:
  assumes "is_scalar c"
  obtains (one) u where "char_utf16 c = [u]" "unat u = c" "is_scalar (unat u)"
  | (two) u lo where "char_utf16 c = [u, lo]" "high_surrogate u" "low_surrogate lo" "pair_char u lo = c"
proof (cases "c < 0x10000")
  case True
  then have "unat (of_nat c :: u16) = c" by (rule unat_of_nat16)
  then show thesis using one [of "of_nat c"] assms True by (simp add: char_utf16_def)
next
  case False
  define k where "k = c - 0x10000"
  have k: "k < 0x100000" using assms False by (auto simp: is_scalar_def k_def)
  then have d: "k div 0x400 < 0x400" by (simp add: div_less_iff_less_mult less_mult_imp_div_less)
  have "unat (of_nat (0xD800 + k div 0x400) :: u16) = 0xD800 + k div 0x400" using d by (intro unat_of_nat16) simp
  moreover have "unat (of_nat (0xDC00 + k mod 0x400) :: u16) = 0xDC00 + k mod 0x400"
    using mod_less_divisor [of "0x400" k] by (intro unat_of_nat16) simp
  moreover have "char_utf16 c = [of_nat (0xD800 + k div 0x400), of_nat (0xDC00 + k mod 0x400)]"
    using False by (simp add: char_utf16_def k_def)
  moreover have "k div 0x400 \<le> 0x3FF" "k mod 0x400 \<le> 0x3FF" using d mod_less_divisor [of "0x400" k] by linarith+
  moreover have "0x10000 + k div 0x400 * 0x400 + k mod 0x400 = c" using False by (simp add: k_def)
  ultimately show thesis using two by (simp add: high_surrogate_def low_surrogate_def pair_char_def)
qed

lemma not_surrogate: "is_scalar (unat u) \<Longrightarrow> \<not> high_surrogate u \<and> \<not> low_surrogate u \<and> lone_char u = unat u"
  by (auto simp: is_scalar_def high_surrogate_def low_surrogate_def lone_char_def)

lemma decode_scalar: "is_scalar (unat u) \<Longrightarrow> utf16_to_chars (u # us) = unat u # utf16_to_chars us"
  using not_surrogate [of u] by (cases us) auto

lemma decode_encode: "list_all is_scalar s \<Longrightarrow> utf16_to_chars (utf16 s @ us) = s @ utf16_to_chars us"
proof (induction s)
  case (Cons c s)
  then have c: "is_scalar c" and IH: "utf16_to_chars (utf16 s @ us) = s @ utf16_to_chars us" by simp_all
  from c show ?case
  proof (cases c rule: char_utf16_cases)
    case (one u)
    then show ?thesis using IH decode_scalar [of u] by (simp add: utf16_def)
  next
    case (two u lo)
    then show ?thesis using IH by (simp add: utf16_def)
  qed
qed (simp add: utf16_def)

lemma pair_char_scalar:
  assumes "high_surrogate u" "low_surrogate lo"
  shows "is_scalar (pair_char u lo)" "char_utf16 (pair_char u lo) = [u, lo]"
proof -
  define a where "a = unat u - 0xD800"
  define b where "b = unat lo - 0xDC00"
  have a: "a < 0x400" "unat u = 0xD800 + a" using assms(1) by (auto simp: high_surrogate_def a_def)
  have b: "b < 0x400" "unat lo = 0xDC00 + b" using assms(2) by (auto simp: low_surrogate_def b_def)
  have p: "pair_char u lo = 0x10000 + (a * 0x400 + b)" by (simp add: pair_char_def a_def b_def)
  show "is_scalar (pair_char u lo)" using a(1) b(1) unfolding p is_scalar_def by linarith
  have "(a * 0x400 + b) div 0x400 = a" "(a * 0x400 + b) mod 0x400 = b" using b(1) by simp_all
  then have "char_utf16 (pair_char u lo) = [of_nat (unat u), of_nat (unat lo)]"
    unfolding p char_utf16_def using a(2) b(2) by simp
  then show "char_utf16 (pair_char u lo) = [u, lo]" by simp
qed

text \<open>No lone surrogate: every high one is followed by a low one, and no low one stands alone.\<close>

fun well_paired :: "units \<Rightarrow> bool" where
  "well_paired [] \<longleftrightarrow> True"
| "well_paired [u] \<longleftrightarrow> is_scalar (unat u)"
| "well_paired (u # lo # us) \<longleftrightarrow>
     (if high_surrogate u \<and> low_surrogate lo then well_paired us else is_scalar (unat u) \<and> well_paired (lo # us))"

lemma lone_char_same: "char_utf16 (lone_char u) = [u] \<longleftrightarrow> is_scalar (unat u) \<or> unat u = 0xFFFD"
proof -
  have "unat u < 0x10000" using unsigned_less [of u, where ?'a = nat] by simp
  moreover have "[of_nat 0xFFFD] = [u] \<longleftrightarrow> unat u = 0xFFFD" by (auto simp: word_unat_eq_iff unat_of_nat16)
  ultimately show ?thesis by (auto simp: lone_char_def char_utf16_def is_scalar_def)
qed

lemma well_paired_scalar: "is_scalar (unat u) \<Longrightarrow> well_paired (u # us) \<longleftrightarrow> well_paired us"
  using not_surrogate [of u] by (cases us) auto

lemma encode_decode: "well_paired us \<Longrightarrow> utf16 (utf16_to_chars us) = us"
proof (induction us rule: well_paired.induct)
  case (3 u lo us)
  show ?case
  proof (cases "high_surrogate u \<and> low_surrogate lo")
    case True
    then show ?thesis using 3 by (simp add: utf16_def pair_char_scalar)
  next
    case False
    then have "is_scalar (unat u)" "utf16 (utf16_to_chars (lo # us)) = lo # us" using 3 by (auto split: if_splits)
    moreover have "utf16_to_chars (u # lo # us) = lone_char u # utf16_to_chars (lo # us)" using False by auto
    ultimately show ?thesis using lone_char_same [of u] by (simp add: utf16_def)
  qed
qed (simp_all add: utf16_def lone_char_same)

lemma decode_scalars: "list_all is_scalar (utf16_to_chars us)"
  by (induction us rule: utf16_to_chars.induct) (auto simp: lone_char_scalar pair_char_scalar)

lemma encode_paired: "list_all is_scalar s \<Longrightarrow> well_paired us \<Longrightarrow> well_paired (utf16 s @ us)"
proof (induction s)
  case (Cons c s)
  then have c: "is_scalar c" and IH: "well_paired (utf16 s @ us)" by simp_all
  from c show ?case
  proof (cases c rule: char_utf16_cases)
    case (one u)
    then show ?thesis using IH well_paired_scalar [of u] by (simp add: utf16_def)
  next
    case (two u lo)
    then show ?thesis using IH by (simp add: utf16_def)
  qed
qed (simp add: utf16_def)

lemma code_point_at_prefix:
  assumes "list_all is_scalar s" "is_scalar c"
  shows "code_point_at (utf16 s @ char_utf16 c @ us) (length (utf16 s)) = Some c"
  using assms(2)
proof (cases c rule: char_utf16_cases)
  case (one u)
  then show ?thesis using not_surrogate [of u] by (simp add: code_point_at_def nth_append)
next
  case (two u lo)
  then show ?thesis using assms(2) by (simp add: code_point_at_def nth_append Let_def)
qed

text \<open>
  C30: The engine's strings and Rust's carry the same text: encoding to UTF-16 and decoding
  gives a string of scalar values back, encoding the decoded units gives the units back exactly
  when no surrogate is alone, every decoding is made of scalar values, and reading the code
  point at the offset where a character was encoded gives that character, in any context.
\<close>

theorem utf16_roundtrip:
  assumes "list_all is_scalar s" "is_scalar c"
  shows "utf16_to_chars (utf16 s) = s \<and> (utf16 (utf16_to_chars us) = us \<longleftrightarrow> well_paired us)
    \<and> list_all is_scalar (utf16_to_chars us)
    \<and> code_point_at (utf16 (s @ c # t)) (length (utf16 s)) = Some c"
proof (intro conjI)
  show "utf16_to_chars (utf16 s) = s" using decode_encode [OF assms(1), of "[]"] by simp
  show "utf16 (utf16_to_chars us) = us \<longleftrightarrow> well_paired us"
    using encode_decode [of us] encode_paired [OF decode_scalars [of us], of "[]"] by auto
  show "list_all is_scalar (utf16_to_chars us)" by (rule decode_scalars)
  show "code_point_at (utf16 (s @ c # t)) (length (utf16 s)) = Some c"
    using code_point_at_prefix [OF assms, of "utf16 t"] by (simp add: utf16_def)
qed

theorem utf16_roundtrip_witness:
  "code_point_at (utf16 [0x1F600, 0x61]) 2 = Some 0x61 \<and> utf16_to_chars (utf16 [0x1F600]) = [0x1F600]"
proof -
  have l: "length (utf16 [0x1F600]) = 2" by (simp add: utf16_def char_utf16_def)
  show ?thesis using utf16_roundtrip [of "[0x1F600]" "0x61" "[]" "[]"] l by (simp add: is_scalar_def)
qed

lemma sint_of_nat_small: "j < 2 ^ 31 \<Longrightarrow> sint (of_nat j :: i32) = int j"
  by (simp add: sint_uint unsigned_of_nat take_bit_nat_eq_self signed_take_bit_int_eq_self)

section \<open>Where a text occurs\<close>

definition occurs_at :: "units \<Rightarrow> units \<Rightarrow> nat \<Rightarrow> bool" where
  "occurs_at hay needle i \<longleftrightarrow> i + length needle \<le> length hay \<and> take (length needle) (drop i hay) = needle"

lemma unit_match_occurs:
  assumes "needle \<noteq> []" "i \<le> length hay - length needle" "length needle \<le> length hay"
  shows "unit_match hay needle i \<longleftrightarrow> occurs_at hay needle i"
proof -
  have "hay ! i = hd needle" if "take (length needle) (drop i hay) = needle"
  proof -
    have "needle ! 0 = drop i hay ! 0" using assms(1) by (subst that [symmetric]) simp
    then show ?thesis using assms by (simp add: hd_conv_nth)
  qed
  then show ?thesis using assms by (auto simp: unit_match_def occurs_at_def)
qed

lemma find_loop_spec:
  assumes "needle \<noteq> []" "length needle \<le> length hay" "final = length hay - length needle"
  shows "case find_loop hay needle final i of
       Some j \<Rightarrow> i \<le> j \<and> occurs_at hay needle j \<and> (\<forall>k. i \<le> k \<longrightarrow> k < j \<longrightarrow> \<not> occurs_at hay needle k)
     | None \<Rightarrow> \<forall>k. i \<le> k \<longrightarrow> \<not> occurs_at hay needle k"
  using assms
proof (induction hay needle final i rule: find_loop.induct)
  case (1 hay needle final i)
  show ?case
  proof (cases "i \<le> final \<and> \<not> unit_match hay needle i")
    case True
    then have no: "\<not> occurs_at hay needle i" using unit_match_occurs [of needle i hay] "1.prems" by simp
    have step: "i \<le> k \<longleftrightarrow> k = i \<or> i + 1 \<le> k" for k by auto
    show ?thesis using "1.IH" [OF _ _ "1.prems"] True no
      by (subst find_loop.simps) (auto simp: step split: option.splits)
  next
    case False
    then show ?thesis using unit_match_occurs [of needle i hay] "1.prems"
      by (subst find_loop.simps) (auto simp: occurs_at_def)
  qed
qed

lemma find_units_spec:
  assumes "needle \<noteq> []"
  shows "case find_units hay needle i of
       Some j \<Rightarrow> i \<le> j \<and> occurs_at hay needle j \<and> (\<forall>k. i \<le> k \<longrightarrow> k < j \<longrightarrow> \<not> occurs_at hay needle k)
     | None \<Rightarrow> \<forall>k. i \<le> k \<longrightarrow> \<not> occurs_at hay needle k"
  using assms find_loop_spec [OF assms, where hay = hay and i = i] by (auto simp: find_units_def occurs_at_def)

lemma rfind_loop_spec:
  assumes "needle \<noteq> []" "length needle \<le> length hay" "i \<le> length hay - length needle"
  shows "case rfind_loop hay needle i of
       Some j \<Rightarrow> j \<le> i \<and> occurs_at hay needle j \<and> (\<forall>k. j < k \<longrightarrow> k \<le> i \<longrightarrow> \<not> occurs_at hay needle k)
     | None \<Rightarrow> \<forall>k. k \<le> i \<longrightarrow> \<not> occurs_at hay needle k"
  using assms(3)
proof (induction i)
  case 0
  then show ?case using unit_match_occurs [OF assms(1) 0 assms(2)] by (subst rfind_loop.simps) auto
next
  case (Suc i)
  then show ?case using unit_match_occurs [OF assms(1) Suc.prems assms(2)]
    by (subst rfind_loop.simps) (auto simp: le_Suc_eq split: option.splits)
qed

lemma rfind_units_spec:
  assumes "needle \<noteq> []"
  shows "case rfind_units hay needle of
       Some j \<Rightarrow> occurs_at hay needle j \<and> (\<forall>k. j < k \<longrightarrow> \<not> occurs_at hay needle k)
     | None \<Rightarrow> \<forall>k. \<not> occurs_at hay needle k"
proof (cases "length needle \<le> length hay")
  case True
  have k: "occurs_at hay needle k \<Longrightarrow> k \<le> length hay - length needle" for k unfolding occurs_at_def by (elim conjE) linarith
  show ?thesis using rfind_loop_spec [OF assms True order_refl] assms True k
    by (auto simp: rfind_units_def split: option.splits)
next
  case False
  then show ?thesis using assms by (auto simp: rfind_units_def occurs_at_def)
qed

text \<open>
  The search methods of a string agree with where the needle's units occur: \<open>indexOf\<close>
  is the first place and \<open>lastIndexOf\<close> the last one, each -1 when there is none, and
  \<open>contains\<close>, \<open>startsWith\<close> and \<open>endsWith\<close> ask for any place, the place 0 and the
  last possible place.  An empty needle is at the start, and at the end for \<open>lastIndexOf\<close>.
\<close>

theorem string_search:
  assumes "length s < 2 ^ 31"
  shows "(\<exists>i. str_member_units shown s (str ''indexOf'') [V_Str n] = Some (Gives (V_I32 i))
        \<and> (if \<exists>k. occurs_at s n k then 0 \<le> sint i \<and> occurs_at s n (nat (sint i)) \<and> (\<forall>k. occurs_at s n k \<longrightarrow> sint i \<le> int k) else i = - 1))
    \<and> (\<exists>i. str_member_units shown s (str ''lastIndexOf'') [V_Str n] = Some (Gives (V_I32 i))
        \<and> (if \<exists>k. occurs_at s n k then 0 \<le> sint i \<and> occurs_at s n (nat (sint i)) \<and> (\<forall>k. occurs_at s n k \<longrightarrow> int k \<le> sint i) else i = - 1))
    \<and> str_member_units shown s (str ''contains'') [V_Str n] = Some (Gives (V_Bool (\<exists>k. occurs_at s n k)))
    \<and> str_member_units shown s (str ''startsWith'') [V_Str n] = Some (Gives (V_Bool (occurs_at s n 0)))
    \<and> str_member_units shown s (str ''endsWith'') [V_Str n] =
        Some (Gives (V_Bool (length n \<le> length s \<and> occurs_at s n (length s - length n))))"
proof (intro conjI)
  have small: "sint (of_nat j :: i32) = int j" if "j \<le> length s" for j
    using that assms by (intro sint_of_nat_small) simp
  have empty: "occurs_at s [] k \<longleftrightarrow> k \<le> length s" for k by (auto simp: occurs_at_def)
  have len: "occurs_at s n k \<Longrightarrow> k \<le> length s" for k by (simp add: occurs_at_def)
  show "\<exists>i. str_member_units shown s (str ''indexOf'') [V_Str n] = Some (Gives (V_I32 i))
        \<and> (if \<exists>k. occurs_at s n k then 0 \<le> sint i \<and> occurs_at s n (nat (sint i)) \<and> (\<forall>k. occurs_at s n k \<longrightarrow> sint i \<le> int k) else i = - 1)"
  proof (cases "n = []")
    case True
    then show ?thesis by (auto simp: str_member_units_def text_arg_def find_units_def index_value_def empty)
  next
    case False
    from find_units_spec [OF False, where hay = s and i = 0] show ?thesis
      by (cases "find_units s n 0") (auto simp: str_member_units_def text_arg_def index_value_def small len not_less intro: leI)
  qed
  show "\<exists>i. str_member_units shown s (str ''lastIndexOf'') [V_Str n] = Some (Gives (V_I32 i))
        \<and> (if \<exists>k. occurs_at s n k then 0 \<le> sint i \<and> occurs_at s n (nat (sint i)) \<and> (\<forall>k. occurs_at s n k \<longrightarrow> int k \<le> sint i) else i = - 1)"
  proof (cases "n = []")
    case True
    then show ?thesis by (auto simp: str_member_units_def text_arg_def rfind_units_def index_value_def empty small)
  next
    case False
    from rfind_units_spec [OF False, where hay = s] show ?thesis
      by (cases "rfind_units s n") (auto simp: str_member_units_def text_arg_def index_value_def small len not_less intro: leI)
  qed
  show "str_member_units shown s (str ''contains'') [V_Str n] = Some (Gives (V_Bool (\<exists>k. occurs_at s n k)))"
  proof (cases "n = []")
    case True
    then show ?thesis by (auto simp: str_member_units_def text_arg_def find_units_def empty)
  next
    case False
    from find_units_spec [OF False, where hay = s and i = 0] show ?thesis
      by (cases "find_units s n 0") (auto simp: str_member_units_def text_arg_def)
  qed
  show "str_member_units shown s (str ''startsWith'') [V_Str n] = Some (Gives (V_Bool (occurs_at s n 0)))"
    by (auto simp: str_member_units_def text_arg_def occurs_at_def dest: arg_cong [of _ _ length])
  show "str_member_units shown s (str ''endsWith'') [V_Str n] =
        Some (Gives (V_Bool (length n \<le> length s \<and> occurs_at s n (length s - length n))))"
    by (auto simp: str_member_units_def text_arg_def occurs_at_def Let_def)
qed

theorem string_search_example:
  "str_member_units (\<lambda>_. []) (utf16 (str ''banana'')) (str ''contains'') [V_Str (utf16 (str ''nan''))] = Some (Gives (V_Bool True))"
proof -
  have "length (utf16 (str ''banana'')) < 2 ^ 31" by (simp add: utf16_def char_utf16_def)
  from string_search [OF this, of "\<lambda>_. []" "utf16 (str ''nan'')"]
  have "str_member_units (\<lambda>_. []) (utf16 (str ''banana'')) (str ''contains'') [V_Str (utf16 (str ''nan''))] =
      Some (Gives (V_Bool (\<exists>k. occurs_at (utf16 (str ''banana'')) (utf16 (str ''nan'')) k)))" by (elim conjE)
  moreover have "occurs_at (utf16 (str ''banana'')) (utf16 (str ''nan'')) 2" by (simp add: occurs_at_def utf16_def char_utf16_def)
  then have "(\<exists>k. occurs_at (utf16 (str ''banana'')) (utf16 (str ''nan'')) k) = True" by blast
  ultimately show ?thesis by (simp only:)
qed

section \<open>Split, join and replace\<close>

fun join_units :: "units \<Rightarrow> units list \<Rightarrow> units" where
  "join_units sep [] = []"
| "join_units sep [p] = p"
| "join_units sep (p # ps) = p @ sep @ join_units sep ps"

lemma join_units_Cons: "ps \<noteq> [] \<Longrightarrow> join_units sep (p # ps) = p @ sep @ join_units sep ps"
  by (cases ps) auto

lemma pieces_loop_not_Nil: "sep \<noteq> [] \<Longrightarrow> pieces_loop s sep prev \<noteq> []"
  by (subst pieces_loop.simps) (auto split: option.split)

lemma drop_at_occurrence:
  assumes "occurs_at s sep i" "prev \<le> i"
  shows "drop prev s = take (i - prev) (drop prev s) @ sep @ drop (i + length sep) s"
proof -
  have "drop i s = sep @ drop (i + length sep) s"
    using assms(1) append_take_drop_id [of "length sep" "drop i s"] by (simp add: occurs_at_def add.commute)
  moreover have "drop prev s = take (i - prev) (drop prev s) @ drop i s"
    using append_take_drop_id [of "i - prev" "drop prev s"] assms(2) by simp
  ultimately show ?thesis by simp
qed

lemma occurs_in_piece:
  assumes "occurs_at (take n (drop prev s)) sep k" "sep \<noteq> []"
  shows "occurs_at s sep (prev + k)" "k + length sep \<le> n"
proof -
  show n: "k + length sep \<le> n" using assms by (auto simp: occurs_at_def)
  have "take (length sep) (drop k (take n (drop prev s))) = take (length sep) (drop (prev + k) s)"
    using n by (simp add: drop_take take_take add.commute)
  moreover have "0 < length sep" "k + length sep \<le> length s - prev" using assms by (auto simp: occurs_at_def)
  then have "prev + k + length sep \<le> length s" by linarith
  ultimately show "occurs_at s sep (prev + k)" using assms by (simp add: occurs_at_def)
qed

lemma pieces_loop_spec:
  assumes "sep \<noteq> []"
  shows "join_units sep (pieces_loop s sep prev) = drop prev s
    \<and> (\<forall>p\<in>set (pieces_loop s sep prev). \<forall>k. \<not> occurs_at p sep k)"
  using assms
proof (induction s sep prev rule: pieces_loop.induct)
  case (1 s sep prev)
  note f = find_units_spec [OF "1.prems", where hay = s and i = prev]
  show ?case
  proof (cases "find_units s sep prev")
    case None
    then have "pieces_loop s sep prev = [drop prev s]" using "1.prems" by (subst pieces_loop.simps) simp
    moreover have "\<not> occurs_at (drop prev s) sep k" for k
      using f None occurs_in_piece(1) [of "length (drop prev s)" prev s sep k] "1.prems" by auto
    ultimately show ?thesis by simp
  next
    case (Some i)
    then have i: "prev \<le> i" "occurs_at s sep i" "\<And>k. prev \<le> k \<Longrightarrow> k < i \<Longrightarrow> \<not> occurs_at s sep k" using f by auto
    have eq: "pieces_loop s sep prev = take (i - prev) (drop prev s) # pieces_loop s sep (i + length sep)"
      using Some "1.prems" by (subst pieces_loop.simps) simp
    have "\<not> occurs_at (take (i - prev) (drop prev s)) sep k" for k
    proof
      assume "occurs_at (take (i - prev) (drop prev s)) sep k"
      from occurs_in_piece [OF this "1.prems"] have "occurs_at s sep (prev + k)" "prev + k < i" using "1.prems" i(1) by (auto simp: neq_Nil_conv)
      then show False using i(3) [of "prev + k"] by simp
    qed
    then show ?thesis
      using "1.IH" [OF _ Some "1.prems"] "1.prems" drop_at_occurrence [OF i(2,1)]
      by (simp add: eq join_units_Cons pieces_loop_not_Nil)
  qed
qed

lemma replace_skip:
  assumes "\<And>j. j < k \<Longrightarrow> \<not> occurs_at us needle j" "k \<le> length us"
  shows "replace_loop first_only needle w us r = take k us @ replace_loop first_only needle w (drop k us) r"
  using assms
proof (induction k arbitrary: us)
  case (Suc k)
  then obtain u vs where us: "us = u # vs" by (cases us) auto
  have no: "\<not> (needle \<noteq> [] \<and> take (length needle) us = needle)"
  proof
    assume m: "needle \<noteq> [] \<and> take (length needle) us = needle"
    then have "length needle \<le> length us" by (metis length_take min.cobounded1 min_def nat_le_linear)
    then show False using Suc.prems(1) [of 0] m by (simp add: occurs_at_def)
  qed
  have "\<not> occurs_at vs needle j" if "j < k" for j
    using Suc.prems(1) [of "Suc j"] that us by (auto simp: occurs_at_def)
  then have "replace_loop first_only needle w vs r = take k vs @ replace_loop first_only needle w (drop k vs) r"
    using Suc.IH Suc.prems(2) us by simp
  then show ?case using no us by (subst us, subst replace_loop.simps(2)) auto
qed simp

lemma replace_done: "replace_loop True needle w us True = us"
  by (induction us) (simp_all add: replace_loop.simps(2))

lemma replace_none:
  assumes "\<And>j. \<not> occurs_at us needle j"
  shows "replace_loop first_only needle w us r = us"
  using replace_skip [of "length us" us needle first_only w r] assms by simp

lemma replace_hit:
  assumes "needle \<noteq> []" "\<not> (first_only \<and> r)"
  shows "replace_loop first_only needle w (needle @ us) r = w @ replace_loop first_only needle w us True"
proof -
  obtain a n where n: "needle = a # n" using assms(1) by (cases needle) auto
  show ?thesis using assms unfolding n append_Cons by (subst replace_loop.simps(2)) simp
qed

lemma replace_all_split:
  assumes "needle \<noteq> []"
  shows "replace_loop False needle w (drop prev s) r = join_units w (pieces_loop s needle prev)"
  using assms
proof (induction s needle prev arbitrary: r rule: pieces_loop.induct)
  case (1 s needle prev)
  note f = find_units_spec [OF "1.prems", where hay = s and i = prev]
  show ?case
  proof (cases "find_units s needle prev")
    case None
    then have "\<not> occurs_at (drop prev s) needle k" for k
      using f occurs_in_piece(1) [of "length (drop prev s)" prev s needle k] "1.prems" by auto
    then show ?thesis using None "1.prems" by (subst pieces_loop.simps) (simp add: replace_none)
  next
    case (Some i)
    then have i: "prev \<le> i" "occurs_at s needle i" "\<And>k. prev \<le> k \<Longrightarrow> k < i \<Longrightarrow> \<not> occurs_at s needle k" using f by auto
    have no: "\<not> occurs_at (drop prev s) needle j" if "j < i - prev" for j
      using occurs_in_piece(1) [of "length (drop prev s)" prev s needle j] i(3) [of "prev + j"] that "1.prems" by auto
    have "i \<le> length s" using i(2) by (simp add: occurs_at_def)
    then have "replace_loop False needle w (drop prev s) r
        = take (i - prev) (drop prev s) @ replace_loop False needle w (drop i s) r"
      using replace_skip [of "i - prev" "drop prev s" needle False w r] no i(1) by simp
    also have "drop i s = needle @ drop (i + length needle) s" using drop_at_occurrence [OF i(2) order_refl] by simp
    finally show ?thesis using "1.IH" [OF "1.prems" Some "1.prems"] Some "1.prems" replace_hit [OF "1.prems", of False]
      by (subst pieces_loop.simps) (simp add: join_units_Cons pieces_loop_not_Nil)
  qed
qed

lemma replace_first:
  assumes "needle \<noteq> []"
  shows "replace_units True s needle w =
    (case find_units s needle 0 of None \<Rightarrow> s | Some i \<Rightarrow> take i s @ w @ drop (i + length needle) s)"
proof (cases "find_units s needle 0")
  case None
  then show ?thesis using find_units_spec [OF assms, where hay = s and i = 0]
    by (simp add: replace_units_def replace_none)
next
  case (Some i)
  then have i: "occurs_at s needle i" "\<And>k. k < i \<Longrightarrow> \<not> occurs_at s needle k"
    using find_units_spec [OF assms, where hay = s and i = 0] by auto
  then have "replace_units True s needle w = take i s @ replace_loop True needle w (drop i s) False"
    unfolding replace_units_def by (intro replace_skip) (auto simp: occurs_at_def)
  also have "drop i s = needle @ drop (i + length needle) s" using drop_at_occurrence [OF i(1) order_refl] by simp
  finally show ?thesis using Some replace_hit [OF assms, of True False] by (simp add: replace_done)
qed

text \<open>
  C31: \<open>split\<close>, \<open>replace\<close> and \<open>replaceAll\<close> fit together: joining the pieces of a split
  with the separator gives the string back, no piece holds the separator, joining them with
  another text is \<open>replaceAll\<close>, and \<open>replace\<close> changes the first occurrence only.  An empty
  separator gives one piece per code unit.
\<close>

theorem split_join_replace:
  assumes "sep \<noteq> []"
  shows "join_units sep (split_units s sep) = s
    \<and> (\<forall>p\<in>set (split_units s sep). \<forall>k. \<not> occurs_at p sep k) \<and> split_units s sep \<noteq> []
    \<and> replace_units False s sep w = join_units w (split_units s sep)
    \<and> replace_units True s sep w =
        (case find_units s sep 0 of None \<Rightarrow> s | Some i \<Rightarrow> take i s @ w @ drop (i + length sep) s)
    \<and> split_units s [] = map (\<lambda>u. [u]) s"
  using pieces_loop_spec [OF assms, of s 0] pieces_loop_not_Nil [OF assms] replace_first [OF assms, of s w]
    replace_all_split [OF assms, of w 0 s False] assms
  by (simp add: split_units_def replace_units_def)

theorem split_join_replace_witness:
  "replace_units False (utf16 (str ''a,,b'')) (utf16 (str '','')) (utf16 (str ''; ''))
     = join_units (utf16 (str ''; '')) (split_units (utf16 (str ''a,,b'')) (utf16 (str '','')))"
proof -
  have "utf16 (str '','') \<noteq> []" by (simp add: utf16_def char_utf16_def)
  from split_join_replace [OF this, of "utf16 (str ''a,,b'')" "utf16 (str ''; '')"] show ?thesis by (elim conjE)
qed

section \<open>Bounds are safe\<close>

definition good_range :: "nat \<Rightarrow> nat \<times> nat \<Rightarrow> bool" where
  "good_range len r \<longleftrightarrow> fst r \<le> snd r \<and> snd r \<le> len"

lemma clamp_to_le: "clamp_to len v \<le> len"
  by (simp add: clamp_to_def)

lemma clamp_to_id: "0 \<le> sint v \<Longrightarrow> sint v \<le> int len \<Longrightarrow> clamp_to len v = nat (sint v)"
  by (simp add: clamp_to_def)

text \<open>
  The bounds of the slicing methods never leave the string, whatever the arguments: the
  ranges of \<open>slice\<close>, \<open>substring\<close> and \<open>charAt\<close> are ordered and end inside, so taking them
  does not panic.  \<open>substring\<close> does not care about the order of its arguments, \<open>slice\<close> answers
  nothing when they are the wrong way round, the two agree otherwise, and \<open>charAt\<close>'s range is
  the unit \<open>charAt\<close> answers.
\<close>

theorem slicing_in_bounds:
  "good_range (length s) (slice_bounds (length s) a b) \<and> good_range (length s) (substring_bounds (length s) a b)
   \<and> good_range (length s) (char_at_bounds (length s) a)
   \<and> substring_units s a (Some c) = substring_units s c (Some a)
   \<and> (if sint a \<le> sint c then slice_units s a (Some c) = substring_units s a (Some c) else slice_units s a (Some c) = [])
   \<and> char_at_units s a = range_of s (char_at_bounds (length s) a)"
proof (intro conjI)
  show "good_range (length s) (slice_bounds (length s) a b)" "good_range (length s) (substring_bounds (length s) a b)"
    by (auto simp: good_range_def slice_bounds_def substring_bounds_def Let_def clamp_to_le split: option.split)
  show "good_range (length s) (char_at_bounds (length s) a)"
    by (auto simp: good_range_def char_at_bounds_def split: option.split)
  show "substring_units s a (Some c) = substring_units s c (Some a)"
    by (simp add: substring_units_def substring_bounds_def Let_def)
  have mono: "sint x \<le> sint y \<Longrightarrow> clamp_to n x \<le> clamp_to n y" for x y n unfolding clamp_to_def by (intro nat_mono) linarith
  show "if sint a \<le> sint c then slice_units s a (Some c) = substring_units s a (Some c) else slice_units s a (Some c) = []"
    using mono [of a c "length s"] mono [of c a "length s"]
    by (auto simp: slice_units_def substring_units_def slice_bounds_def substring_bounds_def range_of_def Let_def not_le not_less)
  show "char_at_units s a = range_of s (char_at_bounds (length s) a)"
    by (auto simp: char_at_units_def char_at_bounds_def range_of_def take_Suc_conv_app_nth hd_drop_conv_nth take_Suc split: option.split)
qed

section \<open>Repeat, pad, trim\<close>

lemma concat_replicate_add: "concat (replicate m s) @ concat (replicate n s) = concat (replicate (m + n) s)"
  by (simp add: replicate_add)

lemma length_concat_replicate: "length (concat (replicate n s)) = length s * n"
  by (induction n) auto

lemma take_concat_replicate:
  assumes "n \<le> m"
  shows "take (length s * n) (concat (replicate m s)) = concat (replicate n s)"
proof -
  have "concat (replicate m s) = concat (replicate n s) @ concat (replicate (m - n) s)"
    using assms by (simp add: concat_replicate_add)
  then show ?thesis by (simp add: length_concat_replicate)
qed

lemma double_to_spec:
  "out = concat (replicate m s) \<Longrightarrow> 0 < m \<Longrightarrow> m \<le> n \<Longrightarrow> s \<noteq> [] \<Longrightarrow>
     double_to (length s * n) out = concat (replicate n s)"
proof (induction "n - m" arbitrary: m out rule: less_induct)
  case less
  have l: "length out = length s * m" using less.prems(1) by (simp add: length_concat_replicate)
  show ?case
  proof (cases "m < n")
    case True
    define k where "k = min (n - m) m"
    have "min (length s * n - length out) (length out) = length s * k"
      by (simp add: l k_def flip: diff_mult_distrib2 nat_mult_min_right)
    then have "out @ take (min (length s * n - length out) (length out)) out = concat (replicate (m + k) s)"
      using less.prems(1) by (simp add: take_concat_replicate concat_replicate_add k_def)
    moreover have "length out < length s * n" "out \<noteq> []" using True less.prems l by auto
    moreover have "n - (m + k) < n - m" "0 < m + k" "m + k \<le> n" using True less.prems(2) by (auto simp: k_def)
    ultimately show ?thesis using less.hyps [of "m + k"] less.prems(4) by (subst double_to.simps) simp
  next
    case False
    then show ?thesis using less.prems l by (subst double_to.simps) simp
  qed
qed

lemma takeWhile_all: "list_all P (takeWhile P xs)"
  by (induction xs) auto

text \<open>
  The building methods: \<open>repeat\<close>, which doubles what it has written, gives exactly that
  many copies; a padded string is the receiver with the filler on one side, as long as asked for
  or as long as the receiver; a trimmed string is the receiver without white space at the ends
  it was asked to trim and nothing else lost.
\<close>

lemma repeat_pad_trim:
  "repeat_units s n = concat (replicate (nat (max 0 (min 1000000 (sint n)))) s)
   \<and> length (pad_units at_start s w p) = max (length s) (nat (sint w))
   \<and> (\<exists>filler. pad_units at_start s w p = (if at_start then filler @ s else s @ filler))
   \<and> (\<exists>l r. s = l @ trim_units left right s @ r \<and> list_all is_whitespace_unit (l @ r)
        \<and> (if left then trim_units left right s = [] \<or> \<not> is_whitespace_unit (hd (trim_units left right s)) else l = [])
        \<and> (if right then trim_units left right s = [] \<or> \<not> is_whitespace_unit (last (trim_units left right s)) else r = []))"
proof (intro conjI)
  define k where "k = nat (max 0 (min 1000000 (sint n)))"
  show "repeat_units s n = concat (replicate (nat (max 0 (min 1000000 (sint n)))) s)"
    using double_to_spec [of s 1 s k] unfolding repeat_units_def k_def [symmetric] Let_def
    by (cases "s = []"; cases "k = 0") auto
  show "length (pad_units at_start s w p) = max (length s) (nat (sint w))"
    by (simp add: pad_units_def Let_def)
  show "\<exists>filler. pad_units at_start s w p = (if at_start then filler @ s else s @ filler)"
    by (cases "nat (max 0 (sint w)) \<le> length s") (auto simp: pad_units_def Let_def intro: exI [of _ "[]"])
  let ?ws = is_whitespace_unit
  define l where "l = (if left then takeWhile ?ws s else [])"
  define m where "m = (if left then dropWhile ?ws s else s)"
  define r where "r = (if right then rev (takeWhile ?ws (rev m)) else [])"
  define t where "t = (if right then rev (dropWhile ?ws (rev m)) else m)"
  have lm: "s = l @ m" by (simp add: l_def m_def)
  have "rev m = takeWhile ?ws (rev m) @ dropWhile ?ws (rev m)" by simp
  then have "m = rev (dropWhile ?ws (rev m)) @ rev (takeWhile ?ws (rev m))" by (metis rev_append rev_rev_ident)
  then have mt: "m = t @ r" by (simp add: t_def r_def)
  have m: "drop (length l) s = m" using lm by simp
  have start: "(if left then length (takeWhile ?ws s) else 0) = length l" by (simp add: l_def)
  have "length (dropWhile ?ws (rev m)) = length t" if right using that by (simp add: t_def)
  moreover have "length s = length l + length t" if "\<not> right" using that lm by (simp add: t_def)
  ultimately have "trim_units left right s = range_of s (length l, length l + length t)"
    by (simp add: trim_units_def Let_def start m)
  then have tr: "trim_units left right s = t" using m mt by (simp add: range_of_def)
  have "list_all ?ws (l @ r)" using takeWhile_all by (auto simp: l_def r_def list_all_iff dest: set_takeWhileD)
  moreover have "t = [] \<or> \<not> ?ws (last t)" if right
    using that hd_dropWhile [of ?ws "rev m"] by (auto simp: t_def last_rev)
  moreover have "t = [] \<or> \<not> ?ws (hd t)" if left
  proof (rule disjCI)
    assume "\<not> \<not> ?ws (hd t)"
    show "t = []"
    proof (rule ccontr)
      assume "t \<noteq> []"
      then have "hd m = hd t" "m \<noteq> []" using mt by auto
      then have "\<not> ?ws (hd t)" using that hd_dropWhile [of ?ws s] by (simp add: m_def)
      then show False using \<open>\<not> \<not> ?ws (hd t)\<close> by simp
    qed
  qed
  moreover have "\<not> left \<Longrightarrow> l = []" "\<not> right \<Longrightarrow> r = []" by (simp_all add: l_def r_def)
  ultimately show "\<exists>l r. s = l @ trim_units left right s @ r \<and> list_all is_whitespace_unit (l @ r)
        \<and> (if left then trim_units left right s = [] \<or> \<not> is_whitespace_unit (hd (trim_units left right s)) else l = [])
        \<and> (if right then trim_units left right s = [] \<or> \<not> is_whitespace_unit (last (trim_units left right s)) else r = [])"
    unfolding tr using lm mt by (intro exI [of _ l] exI [of _ r]) auto
qed

section \<open>Integers in templates\<close>

lemma digit_unit: "d < 10 \<Longrightarrow> char_utf16 (ch CHR ''0'' + d) = [0x30 + of_nat d]"
  by (simp add: char_utf16_def)

lemma u64_digits_loop_dec: "u64_digits_loop v acc = utf16 (dec_nat (unat v)) @ acc"
proof (induction v acc rule: u64_digits_loop.induct)
  case (1 v acc)
  have m: "(ucast (v mod 10) :: u16) = of_nat (unat v mod 10)"
    by (simp only: ucast_eq uint_nat of_int_of_nat_eq unat_mod) simp
  have d: "unat (v div 10) = unat v div 10" by (simp add: unat_div)
  show ?case
  proof (cases "unat v < 10")
    case True
    then have "v div 10 = 0" using d by (simp add: word_unat_eq_iff)
    then show ?thesis using True m digit_unit [of "unat v"]
      by (subst u64_digits_loop.simps) (simp add: dec_nat_small utf16_def)
  next
    case False
    then have "v div 10 \<noteq> 0" using d by (auto simp: word_unat_eq_iff)
    then show ?thesis using 1 False m d digit_unit [of "unat v mod 10"] dec_nat_step [of "unat v"]
      by (subst u64_digits_loop.simps) (simp add: utf16_def Let_def)
  qed
qed

lemma dec_nat_length: "n < 10 ^ k \<Longrightarrow> 0 < k \<Longrightarrow> length (dec_nat n) \<le> k"
proof (induction k arbitrary: n)
  case (Suc k)
  show ?case
  proof (cases "n < 10")
    case True
    then show ?thesis by (simp add: dec_nat_small)
  next
    case False
    then have "0 < k" using Suc.prems by (cases k) auto
    moreover have "n div 10 < 10 ^ k" using Suc.prems(1) by (simp add: less_mult_imp_div_less mult.commute)
    ultimately show ?thesis using Suc.IH [of "n div 10"] False by (simp add: dec_nat_step)
  qed
qed simp

lemma dec_nat_ascii: "list_all (\<lambda>c. c < 0x80) (dec_nat n)"
  by (induction n rule: dec_nat.induct) (subst dec_nat.simps, auto)

lemma utf16_ascii_length: "list_all (\<lambda>c. c < 0x80) s \<Longrightarrow> length (utf16 s) = length s"
  by (induction s) (auto simp: utf16_def char_utf16_def)

text \<open>
  An integer in a template is written as its decimal text, the least one, whose
  absolute value does not fit, included; and the digits of any 64-bit number fit the buffer of
  20 they are written to.
\<close>

lemma append_int_decimal:
  "append_int_u16 out v = out @ utf16 (dec_int (sint v)) \<and> length (u64_digits_loop u []) \<le> 20"
proof
  have "unat u < 10 ^ 20" using unsigned_less [of u, where ?'a = nat] by simp
  then show "length (u64_digits_loop u []) \<le> 20"
    using dec_nat_length [of "unat u" 20] utf16_ascii_length [OF dec_nat_ascii] by (simp add: u64_digits_loop_dec)
  show "append_int_u16 out v = out @ utf16 (dec_int (sint v))"
  proof (cases "sint v < 0")
    case False
    then have "take_bit 64 (sint v) = sint v" using sint_less [of v] by (intro take_bit_int_eq_self) auto
    then have "unat (ucast v :: u64) = nat (sint v)" by (simp add: uint_sint flip: nat_uint_eq)
    then show ?thesis using False by (simp add: append_int_u16_def append_digits_def u64_digits_loop_dec dec_int_def)
  next
    case True
    define n where "n = nat (- sint v)"
    have "- (2 ^ 63) \<le> sint v" using sint_greater_eq [of v] by simp
    then have n: "sint v = - int n" "n \<le> 2 ^ 63" using True by (auto simp: n_def)
    have "\<bar>sint v smod 10\<bar> = int (n mod 10)" "\<bar>sint v sdiv 10\<bar> = int (n div 10)"
      unfolding n(1) by (simp_all add: signed_modulo_int_def signed_divide_int_def zmod_int zdiv_int sgn_if)
    moreover have "unat (of_nat (n div 10) :: u64) = n div 10" using n(2) by (simp add: unat_of_nat take_bit_nat_eq_self)
    moreover have "char_utf16 (ch CHR ''-'') = [0x2D]" by (simp add: char_utf16_def)
    ultimately show ?thesis
      using True digit_unit [of "n mod 10"] dec_nat_step [of n] dec_nat_small [of n]
      by (cases "n < 10") (auto simp: append_int_u16_def append_digits_def u64_digits_loop_dec dec_int_def n(1) utf16_def Let_def)
  qed
qed

end
