(* ===== verification/Json.thy ===== *)
theory Json
  imports Units
begin

text \<open>
  The JSON codec of the host bridge (\<open>crates/mersey_interp/src/webjson.rs\<close>), the numbers as
  JavaScript prints them and the direct writer of \<open>Json.stringify\<close> (\<open>pure_json\<close> of \<open>lib.rs\<close>).
  What the standard library prints for a float (\<open>{:e}\<close>, \<open>Display\<close>) and reads (\<open>str::parse\<close>) is written
  out, so that a document can be followed from its floats to its text and back.
\<close>

section \<open>Decimal texts and binary numbers\<close>

definition is_dig :: "rchar \<Rightarrow> bool" where
  "is_dig c \<longleftrightarrow> 48 \<le> c \<and> c \<le> 57"

definition dig_val :: "rstr \<Rightarrow> nat" where
  "dig_val s = foldl (\<lambda>n c. n * 10 + (c - 48)) 0 s"

text \<open>The number \<open>n * 10 ^ x\<close>, rounded.\<close>

definition dec_round :: "bool \<Rightarrow> nat \<Rightarrow> int \<Rightarrow> fl" where
  "dec_round negative n x = (if 0 \<le> x then round_fl f64 negative (n * 10 ^ nat x) 1 else round_fl f64 negative n (10 ^ nat (- x)))"

text \<open>\<open>str::parse::<f64>\<close> of a text that does not name an infinity or a NaN.\<close>

definition split_sign :: "rstr \<Rightarrow> bool \<times> rstr" where
  "split_sign s =
     (case s of [] \<Rightarrow> (False, [])
      | c # r \<Rightarrow> (if c = ch CHR ''-'' then (True, r) else if c = ch CHR ''+'' then (False, r) else (False, s)))"

definition parse_exponent :: "rstr \<Rightarrow> int option" where
  "parse_exponent s =
     (let (negative, t) = split_sign s
      in if t \<noteq> [] \<and> (\<forall>c\<in>set t. is_dig c) then Some (if negative then - int (dig_val t) else int (dig_val t)) else None)"

definition parse_unsigned :: "rstr \<Rightarrow> (nat \<times> int) option" where
  "parse_unsigned t =
     (let whole = takeWhile is_dig t;
          (frac, r) = (case dropWhile is_dig t of
             c # r \<Rightarrow> (if c = ch CHR ''.'' then (takeWhile is_dig r, dropWhile is_dig r) else ([], c # r))
           | [] \<Rightarrow> ([], []))
      in if whole = [] \<and> frac = [] then None
         else case (case r of [] \<Rightarrow> Some 0 | c # r' \<Rightarrow> if c = ch CHR ''e'' \<or> c = ch CHR ''E'' then parse_exponent r' else None) of
                None \<Rightarrow> None
              | Some e \<Rightarrow> Some (dig_val (whole @ frac), e - int (length frac)))"

definition parse_dec :: "rstr \<Rightarrow> (bool \<times> nat \<times> int) option" where
  "parse_dec s = (case split_sign s of (negative, t) \<Rightarrow> map_option (\<lambda>(n, x). (negative, n, x)) (parse_unsigned t))"

definition parse_f64 :: "rstr \<Rightarrow> fl option" where
  "parse_f64 s = map_option (\<lambda>(negative, n, x). dec_round negative n x) (parse_dec s)"

text \<open>The shortest decimal \<open>n * 10 ^ x\<close> that rounds to a number, the nearest of that length
  (Rust's \<open>{:e}\<close>): 17 digits are always enough, and the exact expansion stands in for a proof of
  that.\<close>

function strip10 :: "nat \<Rightarrow> int \<Rightarrow> nat \<times> int" where
  "strip10 n x = (if n = 0 \<or> n mod 10 \<noteq> 0 then (n, x) else strip10 (n div 10) (x + 1))"
  by pat_completeness auto
termination
  by (relation "measure fst") auto

function exp10 :: "nat \<Rightarrow> nat \<Rightarrow> int" where
  "exp10 num den =
     (if num = 0 \<or> den = 0 then 0
      else if den * 10 \<le> num then exp10 num (den * 10) + 1
      else if num < den then exp10 (num * 10) den - 1
      else 0)"
  by pat_completeness auto
termination
  by (relation "measures [\<lambda>(num, den). if num < den then 1 else 0, \<lambda>(num, den). if num < den then den - num else num - den]") auto

declare strip10.simps [simp del] exp10.simps [simp del]

definition candidates :: "nat \<Rightarrow> nat \<Rightarrow> int \<Rightarrow> nat \<Rightarrow> (nat \<times> int) list" where
  "candidates num den e10 k =
     (let t = int k - 1 - e10;
          (N, D) = (if 0 \<le> t then (num * 10 ^ nat t, den) else (num, den * 10 ^ nat (- t)));
          lo = N div D
      in if 2 * (N mod D) \<le> D then [strip10 lo (- t), strip10 (lo + 1) (- t)]
         else [strip10 (lo + 1) (- t), strip10 lo (- t)])"

definition ratio_of :: "nat \<Rightarrow> int \<Rightarrow> nat \<times> nat" where
  "ratio_of m e = (if 0 \<le> e then (m * 2 ^ nat e, 1) else (m, 2 ^ nat (- e)))"

definition exact_dec :: "nat \<Rightarrow> int \<Rightarrow> nat \<times> int" where
  "exact_dec m e = (if 0 \<le> e then strip10 (m * 2 ^ nat e) 0 else strip10 (m * 5 ^ nat (- e)) e)"

definition shortest_dec :: "nat \<Rightarrow> int \<Rightarrow> nat \<times> int" where
  "shortest_dec m e =
     (let (num, den) = ratio_of m e
      in case find (\<lambda>(n, x). dec_round False n x = Fin False m e) (concat (map (candidates num den (exp10 num den)) [1..<18])) of
           Some p \<Rightarrow> p
         | None \<Rightarrow> exact_dec m e)"

definition sci_digits :: "nat \<Rightarrow> int \<Rightarrow> rstr \<times> int" where
  "sci_digits m e = (case shortest_dec m e of (n, x) \<Rightarrow> (dec_nat n, x + int (length (dec_nat n)) - 1))"

definition f64_to_js_string :: "fl \<Rightarrow> rstr" where
  "f64_to_js_string = float_to_js_string sci_digits"

lemma f64_to_js_string_simps [simp]:
  "f64_to_js_string NaN = str ''NaN''"
  "f64_to_js_string (Infinite negative) = (if negative then str ''-Infinity'' else str ''Infinity'')"
  "f64_to_js_string (Fin negative m e) =
     (if m = 0 then str ''0''
      else (if negative then [ch CHR ''-''] else []) @ (case sci_digits m e of (ds, x) \<Rightarrow> js_envelope ds x))"
  by (simp_all add: f64_to_js_string_def split: prod.split)

text \<open>Rust's \<open>Display\<close> of a finite number: never an exponent, and the sign of zero is kept.\<close>

definition positional :: "rstr \<Rightarrow> int \<Rightarrow> rstr" where
  "positional ds n =
     (if int (length ds) \<le> n then ds @ replicate (nat (n - int (length ds))) 48
      else if 1 \<le> n then take (nat n) ds @ 46 # drop (nat n) ds
      else 48 # 46 # replicate (nat (- n)) 48 @ ds)"

fun f64_display :: "fl \<Rightarrow> rstr" where
  "f64_display (Fin negative m e) =
     (if negative then [ch CHR ''-''] else []) @
     (if m = 0 then str ''0'' else case sci_digits m e of (ds, x) \<Rightarrow> positional ds (x + 1))"
| "f64_display NaN = str ''NaN''"
| "f64_display (Infinite negative) = (if negative then str ''-inf'' else str ''inf'')"

section \<open>A number printed is read back\<close>

lemma strip10_pos: "0 < n \<Longrightarrow> 0 < fst (strip10 n x)"
proof (induction n x rule: strip10.induct)
  case (1 n x)
  then show ?case by (subst strip10.simps) (auto intro: div_greater_zero_iff [THEN iffD2])
qed

lemma strip10_value: "\<exists>j. n = fst (strip10 n x) * 10 ^ j \<and> snd (strip10 n x) = x + int j"
proof (induction n x rule: strip10.induct)
  case (1 n x)
  show ?case
  proof (cases "n = 0 \<or> n mod 10 \<noteq> 0")
    case True
    then show ?thesis by (subst (1 2) strip10.simps) (auto intro!: exI [of _ 0])
  next
    case False
    then obtain j where "n div 10 = fst (strip10 (n div 10) (x + 1)) * 10 ^ j" "snd (strip10 (n div 10) (x + 1)) = x + 1 + int j"
      using 1 by blast
    then show ?thesis
      using False by (subst (1 2) strip10.simps) (auto intro!: exI [of _ "Suc j"])
  qed
qed

lemma dig_val_append: "dig_val (s @ t) = dig_val s * 10 ^ length t + dig_val t"
proof (induction t rule: rev_induct)
  case (snoc c t)
  have "dig_val (u @ [c]) = dig_val u * 10 + (c - 48)" for u by (simp add: dig_val_def)
  from this [of "s @ t"] this [of t] snoc show ?case by (simp add: algebra_simps)
qed (simp add: dig_val_def)

lemma dig_val_Cons: "dig_val (c # t) = (c - 48) * 10 ^ length t + dig_val t"
  using dig_val_append [of "[c]" t] by (simp add: dig_val_def)

lemma dig_val_zeros [simp]: "dig_val (replicate j 48) = 0"
  by (induction j) (simp_all add: dig_val_Cons, simp add: dig_val_def)

lemma dig_val_dec_nat [simp]: "dig_val (dec_nat n) = n"
proof (induction n rule: dec_nat.induct)
  case (1 n)
  then show ?case
    by (cases "n < 10") (simp_all add: dec_nat_small dec_nat_step dig_val_append, simp_all add: dig_val_def)
qed

lemma dec_nat_dig: "c \<in> set (dec_nat n) \<Longrightarrow> is_dig c"
  using dec_nat_digits [of c n] by (simp add: is_dig_def)

lemma is_dig_chars [simp]: "is_dig 48" "\<not> is_dig 46" "\<not> is_dig 101" "\<not> is_dig 69" "\<not> is_dig 45" "\<not> is_dig 43"
  by (simp_all add: is_dig_def)

lemma takeWhile_digs: "\<forall>c\<in>set s. is_dig c \<Longrightarrow> r = [] \<or> \<not> is_dig (hd r) \<Longrightarrow> takeWhile is_dig (s @ r) = s"
  by (induction s) (auto simp: takeWhile_eq_Nil_iff)

lemma dropWhile_digs: "\<forall>c\<in>set s. is_dig c \<Longrightarrow> r = [] \<or> \<not> is_dig (hd r) \<Longrightarrow> dropWhile is_dig (s @ r) = r"
  by (induction s) (auto simp: dropWhile_eq_self_iff)

lemma digs_sign: "s \<noteq> [] \<Longrightarrow> \<forall>c\<in>set s. is_dig c \<Longrightarrow> split_sign (s @ r) = (False, s @ r)"
  by (cases s) (auto simp: split_sign_def)

lemma split_sign_simps [simp]: "split_sign [] = (False, [])" "split_sign (45 # r) = (True, r)" "split_sign (43 # r) = (False, r)"
  by (simp_all add: split_sign_def)

text \<open>A text of digits, digits after a point, and an exponent.\<close>

lemma parse_whole:
  assumes "s \<noteq> []" "\<forall>c\<in>set s. is_dig c"
  shows "parse_dec s = Some (False, dig_val s, 0)"
proof -
  have w: "takeWhile is_dig s = s" "dropWhile is_dig s = []" using assms(2) by auto
  show ?thesis using assms(1) digs_sign [OF assms, of "[]"] by (simp add: parse_dec_def parse_unsigned_def w)
qed

lemma parse_point:
  assumes "s \<noteq> []" "\<forall>c\<in>set s. is_dig c" "\<forall>c\<in>set t. is_dig c"
  shows "parse_dec (s @ 46 # t) = Some (False, dig_val (s @ t), - int (length t))"
proof -
  have w: "takeWhile is_dig t = t" "dropWhile is_dig t = []" using assms(3) by auto
  show ?thesis
    using assms(1) digs_sign [OF assms(1,2), of "46 # t"] takeWhile_digs [OF assms(2), of "46 # t"] dropWhile_digs [OF assms(2), of "46 # t"]
    by (simp add: parse_dec_def parse_unsigned_def w)
qed

lemma parse_exponent_sign:
  "parse_exponent ((if e < 0 then 45 else 43) # dec_nat (nat \<bar>e\<bar>)) = Some e"
  using dec_nat_dig by (auto simp: parse_exponent_def)

lemma parse_expo:
  assumes "s \<noteq> []" "\<forall>c\<in>set s. is_dig c" "parse_exponent r = Some e"
  shows "parse_dec (s @ 101 # r) = Some (False, dig_val s, e)"
  using assms digs_sign [OF assms(1,2), of "101 # r"] takeWhile_digs [OF assms(2), of "101 # r"] dropWhile_digs [OF assms(2), of "101 # r"]
  by (simp add: parse_dec_def parse_unsigned_def)

lemma parse_point_expo:
  assumes "s \<noteq> []" "\<forall>c\<in>set s. is_dig c" "\<forall>c\<in>set t. is_dig c" "parse_exponent r = Some e"
  shows "parse_dec (s @ 46 # t @ 101 # r) = Some (False, dig_val (s @ t), e - int (length t))"
  using assms digs_sign [OF assms(1,2), of "46 # t @ 101 # r"] takeWhile_digs [OF assms(2), of "46 # t @ 101 # r"]
    dropWhile_digs [OF assms(2), of "46 # t @ 101 # r"] takeWhile_digs [OF assms(3), of "101 # r"] dropWhile_digs [OF assms(3), of "101 # r"]
  by (simp add: parse_dec_def parse_unsigned_def)

text \<open>The envelope keeps the number, whatever form it chooses.\<close>

lemma envelope_reads_back:
  "\<exists>n' x'. parse_dec (js_envelope (dec_nat n) (x + int (length (dec_nat n)) - 1)) = Some (False, n', x')
     \<and> dec_round negative n' x' = dec_round negative n x"
proof -
  let ?d = "dec_nat n"
  let ?k = "int (length ?d)" and ?n = "x + int (length ?d)"
  have d: "?d \<noteq> []" "\<forall>c\<in>set ?d. is_dig c" using dec_nat_dig by auto
  then have k: "0 < ?k" by simp
  consider "?k \<le> ?n" "?n \<le> 21" | "1 \<le> ?n" "?n < ?k" "?n \<le> 21" | "- 5 \<le> ?n" "?n \<le> 0"
    | "21 < ?n \<or> ?n < - 5" by linarith
  then show ?thesis
  proof cases
    case 1
    then have e: "js_envelope ?d (?n - 1) = ?d @ replicate (nat x) 48" by (simp add: js_envelope_def)
    have "parse_dec (?d @ replicate (nat x) 48) = Some (False, n * 10 ^ nat x, 0)"
      using d by (subst parse_whole) (auto simp: dig_val_append)
    then show ?thesis using 1 by (simp add: e dec_round_def)
  next
    case 2
    then have e: "js_envelope ?d (?n - 1) = take (nat ?n) ?d @ 46 # drop (nat ?n) ?d"
      by (simp add: js_envelope_def Let_def)
    have "parse_dec (take (nat ?n) ?d @ 46 # drop (nat ?n) ?d) = Some (False, n, x)"
      using d 2 by (subst parse_point) (auto dest: in_set_takeD in_set_dropD)
    then show ?thesis by (simp add: e)
  next
    case 3
    have x: "x < 0" using 3 k by linarith
    have e: "js_envelope ?d (?n - 1) = [48] @ 46 # (replicate (nat (- ?n)) 48 @ ?d)"
    proof -
      have "\<not> ?k \<le> ?n" "\<not> 1 \<le> ?n" using 3 x by linarith+
      then show ?thesis using 3 by (simp add: js_envelope_def Let_def)
    qed
    have "parse_dec ([48] @ 46 # (replicate (nat (- ?n)) 48 @ ?d)) = Some (False, n, x)"
      using d 3 x by (subst parse_point) (auto simp: dig_val_append dig_val_Cons)
    then show ?thesis by (simp add: e)
  next
    case 4
    have s: "parse_exponent ((if ?n - 1 < 0 then 45 else 43) # dec_nat (nat \<bar>?n - 1\<bar>)) = Some (?n - 1)"
      by (rule parse_exponent_sign)
    have c: "(?k \<le> ?n \<and> ?n \<le> 21) = False" "(1 \<le> ?n \<and> ?n \<le> 21) = False" "(- 5 \<le> ?n \<and> ?n \<le> 0) = False"
      using 4 k by presburger+
    show ?thesis
    proof (cases "?k = 1")
      case True
      have "js_envelope ?d (?n - 1) = ?d @ 101 # (if ?n - 1 < 0 then 45 else 43) # dec_nat (nat \<bar>?n - 1\<bar>)"
        unfolding js_envelope_def Let_def diff_add_cancel c using True by simp
      then show ?thesis using parse_expo [OF d s] True by simp
    next
      case False
      have "js_envelope ?d (?n - 1) = take 1 ?d @ 46 # drop 1 ?d @ 101 # (if ?n - 1 < 0 then 45 else 43) # dec_nat (nat \<bar>?n - 1\<bar>)"
        unfolding js_envelope_def Let_def diff_add_cancel c using False by simp
      moreover have "take 1 ?d \<noteq> []" "\<forall>c\<in>set (take 1 ?d). is_dig c" "\<forall>c\<in>set (drop 1 ?d). is_dig c"
        using d by (auto dest: in_set_takeD in_set_dropD)
      ultimately show ?thesis using parse_point_expo [OF _ _ _ s, of "take 1 ?d" "drop 1 ?d"] k
        by (simp add: of_nat_diff)
    qed
  qed
qed

definition with_sign :: "bool \<Rightarrow> fl \<Rightarrow> fl" where
  "with_sign negative f = (case f of Fin _ m e \<Rightarrow> Fin negative m e | Infinite _ \<Rightarrow> Infinite negative | NaN \<Rightarrow> NaN)"

lemma round_fl_with_sign: "round_fl f negative a b = with_sign negative (round_fl f False a b)"
  unfolding round_fl_def Let_def case_prod_unfold by (simp add: with_sign_def)

lemma round_fl_sign: "round_fl f False a b = Fin False m e \<Longrightarrow> round_fl f negative a b = Fin negative m e"
  by (subst round_fl_with_sign) (simp add: with_sign_def)

lemma dec_round_sign: "dec_round False n x = Fin False m e \<Longrightarrow> dec_round negative n x = Fin negative m e"
  using round_fl_sign [of f64 "n * 10 ^ nat x" 1 m e negative] round_fl_sign [of f64 n "10 ^ nat (- x)" m e negative]
  by (cases "0 \<le> x") (simp_all add: dec_round_def)

lemma pow10_split: "(10::rat) ^ n = 2 ^ n * 5 ^ n"
  by (simp add: power_mult_distrib [symmetric])

lemma exact_dec_rounds:
  assumes ok: "fl_ok f64 (Fin False m e)" and m: "0 < m" and d: "exact_dec m e = (n, x)"
  shows "dec_round False n x = Fin False m e"
proof (cases "0 \<le> e")
  case True
  then obtain j where j: "m * 2 ^ nat e = n * 10 ^ j" "x = int j"
    using strip10_value [of "m * 2 ^ nat e" 0] d by (auto simp: exact_dec_def)
  have "round_fl f64 False (m * 2 ^ nat e) 1 = Fin False m e"
    by (rule round_fl_exact [OF fmt_ok_f64 _ _ ok m]) (use True in \<open>simp_all add: pow2_def\<close>)
  then show ?thesis using j by (simp add: dec_round_def)
next
  case False
  then obtain j where j: "m * 5 ^ nat (- e) = n * 10 ^ j" "x = e + int j"
    using strip10_value [of "m * 5 ^ nat (- e)" e] d by (auto simp: exact_dec_def)
  have jr: "(of_nat m :: rat) * 5 ^ nat (- e) = of_nat n * 10 ^ j"
    using arg_cong [OF j(1), of "of_nat :: nat \<Rightarrow> rat"] by simp
  have p2: "pow2 e = 1 / 2 ^ nat (- e)" using False by (simp add: pow2_def)
  show ?thesis
  proof (cases "0 \<le> x")
    case True
    then have "j = nat (- e) + nat x" using j(2) False by linarith
    then have "(of_nat m :: rat) * 5 ^ nat (- e) = of_nat n * 10 ^ nat x * (2 ^ nat (- e) * 5 ^ nat (- e))"
      using jr by (simp add: power_add pow10_split [of "nat (- e)"])
    then have "(of_nat (n * 10 ^ nat x) :: rat) = of_nat m * pow2 e * of_nat 1"
      by (simp add: p2 field_simps)
    from round_fl_exact [OF fmt_ok_f64 _ this ok m] True show ?thesis by (simp add: dec_round_def)
  next
    case x: False
    then have e: "nat (- e) = j + nat (- x)" using j(2) False by linarith
    have "(of_nat n :: rat) * 10 ^ j * 2 ^ nat (- e) = of_nat m * (10 ^ j * 10 ^ nat (- x))"
      using jr by (simp add: e power_add pow10_split [of "nat (- x)"] pow10_split [of j] mult.commute mult.left_commute)
    then have "(of_nat n :: rat) = of_nat m * pow2 e * of_nat (10 ^ nat (- x))"
      by (simp add: p2 field_simps)
    from round_fl_exact [OF fmt_ok_f64 _ this ok m] x show ?thesis by (simp add: dec_round_def)
  qed
qed

lemma shortest_dec_rounds:
  assumes "fl_ok f64 (Fin False m e)" "0 < m" "shortest_dec m e = (n, x)"
  shows "dec_round False n x = Fin False m e"
proof -
  obtain num den where r: "ratio_of m e = (num, den)" by fastforce
  let ?c = "concat (map (candidates num den (exp10 num den)) [1..<18])"
  show ?thesis
  proof (cases "find (\<lambda>(n, x). dec_round False n x = Fin False m e) ?c")
    case None
    then have "exact_dec m e = (n, x)" using assms(3) by (simp add: shortest_dec_def r Let_def del: upt_Suc)
    then show ?thesis by (rule exact_dec_rounds [OF assms(1,2)])
  next
    case (Some p)
    then have "p = (n, x)" using assms(3) by (simp add: shortest_dec_def r Let_def del: upt_Suc)
    then show ?thesis using Some by (auto simp: find_Some_iff)
  qed
qed

definition plain_zero :: "fl \<Rightarrow> fl" where
  "plain_zero f = (case f of Fin negative m e \<Rightarrow> if m = 0 then Fin False 0 (f_emin f64) else f | _ \<Rightarrow> f)"

lemma parse_dec_minus:
  assumes "parse_dec s = Some (False, n, x)" "s \<noteq> [] \<Longrightarrow> hd s \<noteq> 45 \<and> hd s \<noteq> 43"
  shows "parse_dec (45 # s) = Some (True, n, x)"
proof -
  have s: "split_sign s = (False, s)" using assms(2) by (cases s) (auto simp: split_sign_def)
  show ?thesis using assms(1) by (auto simp: parse_dec_def s)
qed

lemma js_envelope_hd: "ds \<noteq> [] \<Longrightarrow> \<forall>c\<in>set ds. is_dig c \<Longrightarrow> is_dig (hd (js_envelope ds x)) \<and> js_envelope ds x \<noteq> []"
  by (cases ds) (auto simp: js_envelope_def Let_def take_Cons' hd_append)

lemma number_reads_back:
  assumes "fl_ok f64 f" "is_fin f"
  shows "parse_f64 (f64_to_js_string f) = Some (plain_zero f)"
proof -
  obtain negative m e where f: "f = Fin negative m e" using assms(2) by (cases f) auto
  show ?thesis
  proof (cases "m = 0")
    case True
    then show ?thesis
      by (simp add: f plain_zero_def parse_f64_def parse_whole [of "[48]", simplified] dec_round_def round_fl_def dig_val_def)
  next
    case False
    obtain n x where d: "shortest_dec m e = (n, x)" by fastforce
    have ok: "fl_ok f64 (Fin False m e)" using assms(1) by (simp add: f)
    have r: "dec_round negative n x = Fin negative m e"
      by (rule dec_round_sign [OF shortest_dec_rounds [OF ok _ d]]) (use False in simp)
    let ?s = "js_envelope (dec_nat n) (x + int (length (dec_nat n)) - 1)"
    obtain n' x' where p: "parse_dec ?s = Some (False, n', x')" "dec_round negative n' x' = Fin negative m e"
      using envelope_reads_back [of n x negative] r by auto
    have "is_dig (hd ?s)" using js_envelope_hd [of "dec_nat n"] dec_nat_dig by simp
    then have "hd ?s \<noteq> 45 \<and> hd ?s \<noteq> 43" by (auto simp: is_dig_def)
    then have "parse_dec (45 # ?s) = Some (True, n', x')" by (intro parse_dec_minus [OF p(1)])
    then show ?thesis
      using False p by (cases negative) (simp_all add: f plain_zero_def parse_f64_def sci_digits_def d)
  qed
qed

section \<open>The codec\<close>

datatype json =
    J_Null
  | J_Bool bool
  | J_Num fl
  | J_Str rstr
  | J_Arr "json list"
  | J_Obj "(rstr \<times> json) list"

definition j_get :: "rstr \<Rightarrow> json \<Rightarrow> json option" where
  "j_get key j = (case j of J_Obj mems \<Rightarrow> map_option snd (find (\<lambda>(k, v). k = key) mems) | _ \<Rightarrow> None)"

definition hex_char :: "nat \<Rightarrow> rchar" where
  "hex_char d = (if d < 10 then 48 + d else 87 + d)"

definition write_char :: "rchar \<Rightarrow> rstr" where
  "write_char c =
     (if c = 34 then [92, 34]
      else if c = 92 then [92, 92]
      else if c = 10 then [92, ch CHR ''n'']
      else if c = 13 then [92, ch CHR ''r'']
      else if c = 9 then [92, ch CHR ''t'']
      else if c = 8 then [92, ch CHR ''b'']
      else if c = 12 then [92, ch CHR ''f'']
      else if c < 32 then [92, ch CHR ''u'', 48, 48, hex_char (c div 16 mod 16), hex_char (c mod 16)]
      else [c])"

definition write_str :: "rstr \<Rightarrow> rstr" where
  "write_str s = 34 # concat (map write_char s) @ [34]"

definition commas :: "rstr list \<Rightarrow> rstr" where
  "commas ss = concat (case ss of [] \<Rightarrow> [] | s # ss \<Rightarrow> s # map (\<lambda>s. ch CHR '','' # s) ss)"

fun write_json :: "json \<Rightarrow> rstr" where
  "write_json J_Null = str ''null''"
| "write_json (J_Bool b) = (if b then str ''true'' else str ''false'')"
| "write_json (J_Num f) = (if is_fin f then f64_to_js_string f else str ''null'')"
| "write_json (J_Str s) = write_str s"
| "write_json (J_Arr items) = ch CHR ''['' # commas (map write_json items) @ [ch CHR '']'']"
| "write_json (J_Obj mems) =
     ch CHR ''{'' # commas (map (\<lambda>(k, v). write_str k @ ch CHR '':'' # write_json v) mems) @ [ch CHR ''}'']"

text \<open>The parser, on what is left of the text.\<close>

definition is_ws :: "rchar \<Rightarrow> bool" where
  "is_ws c \<longleftrightarrow> c = 32 \<or> c = 9 \<or> c = 10 \<or> c = 13"

definition ws :: "rstr \<Rightarrow> rstr" where
  "ws s = dropWhile is_ws s"

definition eat_char :: "rchar \<Rightarrow> rstr \<Rightarrow> rstr option" where
  "eat_char c s = (case ws s of d # r \<Rightarrow> if d = c then Some r else None | [] \<Rightarrow> None)"

definition p_lit :: "rstr \<Rightarrow> json \<Rightarrow> rstr \<Rightarrow> (json \<times> rstr) option" where
  "p_lit word v s = (if take (length word) s = word then Some (v, drop (length word) s) else None)"

definition num_char :: "rchar \<Rightarrow> bool" where
  "num_char c \<longleftrightarrow> is_dig c \<or> c = ch CHR ''-'' \<or> c = ch CHR ''+'' \<or> c = ch CHR ''.'' \<or> c = ch CHR ''e'' \<or> c = ch CHR ''E''"

definition p_number :: "rstr \<Rightarrow> (json \<times> rstr) option" where
  "p_number s = map_option (\<lambda>f. (J_Num f, dropWhile num_char s)) (parse_f64 (takeWhile num_char s))"

text \<open>\<open>u32::from_str_radix(_, 16)\<close>, which takes a leading plus sign.\<close>

definition hex_digit :: "rchar \<Rightarrow> nat option" where
  "hex_digit c =
     (if is_dig c then Some (c - 48) else if 97 \<le> c \<and> c \<le> 102 then Some (c - 87)
      else if 65 \<le> c \<and> c \<le> 70 then Some (c - 55) else None)"

fun hex_val :: "nat \<Rightarrow> rstr \<Rightarrow> nat option" where
  "hex_val n [] = Some n"
| "hex_val n (c # s) = (case hex_digit c of None \<Rightarrow> None | Some d \<Rightarrow> hex_val (n * 16 + d) s)"

definition from_hex :: "rstr \<Rightarrow> nat option" where
  "from_hex s =
     (let t = (case s of c # r \<Rightarrow> (if c = ch CHR ''+'' \<and> r \<noteq> [] then r else s) | [] \<Rightarrow> [])
      in if t = [] then None else hex_val 0 t)"

definition replacement :: rchar where
  "replacement = 0xFFFD"

text \<open>What follows \<open>\u\<close>: one scalar value, or the end of the parse.\<close>

definition p_unicode :: "rstr \<Rightarrow> (rchar \<times> rstr) option" where
  "p_unicode s =
     (if length s < 4 then None
      else case from_hex (take 4 s) of
             None \<Rightarrow> None
           | Some n \<Rightarrow>
               (let r = drop 4 s
                in if 0xD800 \<le> n \<and> n < 0xDC00 then
                     (if take 2 r = [92, ch CHR ''u''] then
                        (if length r < 6 then None
                         else case from_hex (take 4 (drop 2 r)) of
                                None \<Rightarrow> None
                              | Some n2 \<Rightarrow>
                                  if 0xDC00 \<le> n2 \<and> n2 < 0xE000 then Some (0x10000 + (n - 0xD800) * 1024 + (n2 - 0xDC00), drop 6 r)
                                  else Some (replacement, r))
                      else Some (replacement, r))
                   else Some (if is_scalar n then n else replacement, r)))"

lemma p_unicode_shorter: "p_unicode s = Some (c, r) \<Longrightarrow> length r < length s"
  by (auto simp: p_unicode_def Let_def split: if_splits option.splits)

definition plain_escape :: "rchar \<Rightarrow> rchar" where
  "plain_escape e =
     (if e = ch CHR ''n'' then 10 else if e = ch CHR ''r'' then 13 else if e = ch CHR ''t'' then 9
      else if e = ch CHR ''b'' then 8 else if e = ch CHR ''f'' then 12 else e)"

function p_chars :: "rstr \<Rightarrow> rstr \<Rightarrow> (rstr \<times> rstr) option" where
  "p_chars out s =
     (case s of
        [] \<Rightarrow> None
      | c # r \<Rightarrow>
          if c = 34 then Some (out, r)
          else if c = 92 then
            (case r of
               [] \<Rightarrow> None
             | e # r' \<Rightarrow>
                 if e = ch CHR ''u'' then
                   (case p_unicode r' of None \<Rightarrow> None | Some (d, r'') \<Rightarrow> p_chars (out @ [d]) r'')
                 else p_chars (out @ [plain_escape e]) r')
          else p_chars (out @ [c]) r)"
  by pat_completeness auto
termination
  by (relation "measure (length \<circ> snd)") (auto dest: p_unicode_shorter)

declare p_chars.simps [simp del]

definition p_string :: "rstr \<Rightarrow> (rstr \<times> rstr) option" where
  "p_string s = (case ws s of c # r \<Rightarrow> if c = 34 then p_chars [] r else None | [] \<Rightarrow> None)"

text \<open>\<open>value\<close> and its two loops, on fuel that counts their calls.\<close>

fun p_value :: "nat \<Rightarrow> rstr \<Rightarrow> (json \<times> rstr) option"
and p_items :: "nat \<Rightarrow> json list \<Rightarrow> rstr \<Rightarrow> (json \<times> rstr) option"
and p_fields :: "nat \<Rightarrow> (rstr \<times> json) list \<Rightarrow> rstr \<Rightarrow> (json \<times> rstr) option" where
  "p_value 0 s = None"
| "p_value (Suc n) s =
     (case ws s of
        [] \<Rightarrow> None
      | c # r \<Rightarrow>
          if c = ch CHR ''n'' then p_lit (str ''null'') J_Null (c # r)
          else if c = ch CHR ''t'' then p_lit (str ''true'') (J_Bool True) (c # r)
          else if c = ch CHR ''f'' then p_lit (str ''false'') (J_Bool False) (c # r)
          else if c = 34 then map_option (\<lambda>(s, r). (J_Str s, r)) (p_string (c # r))
          else if c = ch CHR ''['' then
            (case eat_char (ch CHR '']'') r of Some r' \<Rightarrow> Some (J_Arr [], r') | None \<Rightarrow> p_items n [] r)
          else if c = ch CHR ''{'' then
            (case eat_char (ch CHR ''}'') r of Some r' \<Rightarrow> Some (J_Obj [], r') | None \<Rightarrow> p_fields n [] r)
          else p_number (c # r))"
| "p_items 0 items s = None"
| "p_items (Suc n) items s =
     (case p_value n s of
        None \<Rightarrow> None
      | Some (v, r) \<Rightarrow>
          (case eat_char (ch CHR '']'') r of
             Some r' \<Rightarrow> Some (J_Arr (items @ [v]), r')
           | None \<Rightarrow> (case eat_char (ch CHR '','') r of None \<Rightarrow> None | Some r' \<Rightarrow> p_items n (items @ [v]) r')))"
| "p_fields 0 mems s = None"
| "p_fields (Suc n) mems s =
     (case p_string s of
        None \<Rightarrow> None
      | Some (k, r) \<Rightarrow>
          (case eat_char (ch CHR '':'') r of
             None \<Rightarrow> None
           | Some r1 \<Rightarrow>
               (case p_value n r1 of
                  None \<Rightarrow> None
                | Some (v, r2) \<Rightarrow>
                    (case eat_char (ch CHR ''}'') r2 of
                       Some r' \<Rightarrow> Some (J_Obj (mems @ [(k, v)]), r')
                     | None \<Rightarrow> (case eat_char (ch CHR '','') r2 of None \<Rightarrow> None | Some r' \<Rightarrow> p_fields n (mems @ [(k, v)]) r')))))"

definition parse_json :: "rstr \<Rightarrow> json option" where
  "parse_json text =
     (case p_value (2 * length text + 2) text of
        Some (v, r) \<Rightarrow> if ws r = [] then Some v else None
      | None \<Rightarrow> None)"

section \<open>A document written is read back\<close>

lemma hex_digit_char: "d < 16 \<Longrightarrow> hex_digit (hex_char d) = Some d"
  by (auto simp: hex_digit_def hex_char_def is_dig_def)

lemma hex_char_plus: "d < 16 \<Longrightarrow> hex_char d \<noteq> 43"
  by (auto simp: hex_char_def)

lemma read_control:
  assumes "c < 32"
  shows "p_unicode ([48, 48, hex_char (c div 16 mod 16), hex_char (c mod 16)] @ r) = Some (c, r)"
proof -
  have h0: "hex_digit 48 = Some 0" by (simp add: hex_digit_def)
  have "from_hex [48, 48, hex_char (c div 16 mod 16), hex_char (c mod 16)] = Some (c div 16 mod 16 * 16 + c mod 16)"
    by (simp add: from_hex_def hex_digit_char h0)
  moreover have "c div 16 mod 16 * 16 + c mod 16 = c" using assms by simp
  ultimately show ?thesis using assms by (simp add: p_unicode_def Let_def is_scalar_def)
qed

lemma read_char: "p_chars out (write_char c @ r) = p_chars (out @ [c]) r"
proof (cases "c < 32 \<and> c \<notin> {8, 9, 10, 12, 13}")
  case True
  then have w: "write_char c = [92, 117] @ [48, 48, hex_char (c div 16 mod 16), hex_char (c mod 16)]"
    by (simp add: write_char_def)
  show ?thesis
    unfolding w append_assoc using read_control [of c r] True by (subst p_chars.simps) simp
next
  case False
  then consider "c = 34" | "c = 92" | "c = 8" | "c = 9" | "c = 10" | "c = 12" | "c = 13" | "32 \<le> c" "c \<noteq> 34" "c \<noteq> 92" by force
  then show ?thesis by cases (simp_all add: write_char_def p_chars.simps [of out] plain_escape_def)
qed

lemma read_chars: "p_chars out (concat (map write_char s) @ 34 # r) = Some (out @ s, r)"
proof (induction s arbitrary: out)
  case Nil
  show ?case by (subst p_chars.simps) simp
next
  case (Cons c s)
  then show ?case by (simp add: read_char)
qed

lemma ws_simp: "\<not> is_ws c \<Longrightarrow> ws (c # r) = c # r"
  by (simp add: ws_def)

lemma read_string: "p_string (write_str s @ r) = Some (s, r)"
  using read_chars [of "[]" s r] by (simp add: p_string_def write_str_def ws_simp is_ws_def)

definition start_char :: "rchar \<Rightarrow> bool" where
  "start_char c \<longleftrightarrow> c \<in> {34, 45, 91, 102, 110, 116, 123} \<or> is_dig c"

lemma eat_here [simp]: "\<not> is_ws c \<Longrightarrow> eat_char c (c # r) = Some r"
  by (simp add: eat_char_def ws_simp)

lemma eat_other [simp]: "\<not> is_ws d \<Longrightarrow> d \<noteq> c \<Longrightarrow> eat_char c (d # r) = None"
  by (simp add: eat_char_def ws_simp)

lemma not_ws [simp]: "\<not> is_ws 44" "\<not> is_ws 93" "\<not> is_ws 125" "\<not> is_ws 58" "\<not> is_ws 34" "\<not> is_ws 91" "\<not> is_ws 123"
  "\<not> is_ws 110" "\<not> is_ws 116" "\<not> is_ws 102"
  by (simp_all add: is_ws_def)

lemma start_not_ws: "start_char c \<Longrightarrow> \<not> is_ws c"
  by (auto simp: start_char_def is_ws_def is_dig_def)

lemma commas_simps: "commas [] = []" "commas [s] = s" "commas (s # t # ss) = s @ 44 # commas (t # ss)"
  by (simp_all add: commas_def)

text \<open>A text that the parser reads as a value, wherever a value ends.\<close>

definition follows :: "rstr \<Rightarrow> bool" where
  "follows r \<longleftrightarrow> r = [] \<or> hd r \<in> {44, 93, 125}"

definition reads :: "rstr \<Rightarrow> json \<Rightarrow> bool" where
  "reads t v \<longleftrightarrow> t \<noteq> [] \<and> start_char (hd t)
     \<and> (\<forall>n r. follows r \<longrightarrow> 2 * length t \<le> n \<longrightarrow> p_value n (t @ r) = Some (v, r))"

lemma readsI:
  "start_char c \<Longrightarrow> (\<And>n r. follows r \<Longrightarrow> 2 * length t \<le> n \<Longrightarrow> p_value (Suc n) (c # t @ r) = Some (v, r)) \<Longrightarrow> reads (c # t) v"
  unfolding reads_def
proof (intro conjI allI impI)
  fix n r assume *: "\<And>n r. follows r \<Longrightarrow> 2 * length t \<le> n \<Longrightarrow> p_value (Suc n) (c # t @ r) = Some (v, r)"
    "follows r" "2 * length (c # t) \<le> n"
  then obtain n' where "n = Suc n'" by (cases n) auto
  then show "p_value n ((c # t) @ r) = Some (v, r)" using * by simp
qed simp_all

lemma reads_p_value: "reads t v \<Longrightarrow> follows r \<Longrightarrow> 2 * length t \<le> n \<Longrightarrow> p_value n (t @ r) = Some (v, r)"
  by (simp add: reads_def)

lemma reads_hd: "reads t v \<Longrightarrow> \<exists>c s. t = c # s \<and> start_char c"
  by (cases t) (auto simp: reads_def)

lemma reads_parse_json: "reads t v \<Longrightarrow> parse_json t = Some v"
  using reads_p_value [of t v "[]" "2 * length t + 2"] by (simp add: parse_json_def follows_def ws_def)

lemma reads_words:
  "reads (str ''null'') J_Null" "reads (if b then str ''true'' else str ''false'') (J_Bool b)"
  by (auto intro!: readsI simp: start_char_def ws_simp p_lit_def)

lemma reads_string: "reads (write_str s) (J_Str s)"
  using read_string [of s] by (auto intro!: readsI simp: write_str_def start_char_def ws_simp)

lemma reads_number:
  assumes "parse_f64 t = Some f" "\<forall>c\<in>set t. num_char c" "t \<noteq> []" "hd t = 45 \<or> is_dig (hd t)"
  shows "reads t (J_Num f)"
proof -
  obtain c s where t: "t = c # s" "c = 45 \<or> is_dig c" using assms(3,4) by (cases t) auto
  then have c: "start_char c" by (auto simp: start_char_def)
  have "p_number (t @ r) = Some (J_Num f, r)" if "follows r" for r
  proof -
    have "r = [] \<or> \<not> num_char (hd r)" using that by (auto simp: follows_def num_char_def is_dig_def)
    then have "takeWhile num_char (t @ r) = t \<and> dropWhile num_char (t @ r) = r"
      using assms(2) by (induction t) (auto simp: takeWhile_eq_Nil_iff dropWhile_eq_self_iff)
    then show ?thesis using assms(1) by (simp add: p_number_def)
  qed
  moreover have "c \<notin> {34, 91, 102, 110, 116, 123}" using t(2) by (auto simp: is_dig_def)
  ultimately show ?thesis unfolding t(1) by (intro readsI [OF c]) (simp add: ws_simp start_not_ws [OF c])
qed

lemma read_items:
  "list_all2 reads ts vs \<Longrightarrow> ts \<noteq> [] \<Longrightarrow> 2 * length (commas ts) + 1 \<le> n \<Longrightarrow>
     p_items n acc (commas ts @ 93 # r) = Some (J_Arr (acc @ vs), r)"
proof (induction ts vs arbitrary: n acc rule: list_all2_induct)
  case (Cons t ts v vs)
  then obtain n' where n: "n = Suc n'" by (cases n) auto
  show ?case
  proof (cases ts)
    case Nil
    then show ?thesis
      using Cons.hyps Cons.prems(2) reads_p_value [of t v "93 # r" n'] n by (simp add: commas_simps follows_def)
  next
    case (Cons t' ts')
    then show ?thesis
      using Cons.hyps Cons.prems(2) reads_p_value [of t v "44 # commas ts @ 93 # r" n'] Cons.IH [of n' "acc @ [v]"] n
      by (simp add: commas_simps follows_def)
  qed
qed simp

definition member_text :: "rstr \<Rightarrow> rstr \<Rightarrow> rstr" where
  "member_text k t = write_str k @ 58 # t"

lemma read_members:
  "list_all2 reads ts (map snd kvs) \<Longrightarrow> ts \<noteq> [] \<Longrightarrow> 2 * length (commas (map2 member_text (map fst kvs) ts)) + 1 \<le> n \<Longrightarrow>
     p_fields n acc (commas (map2 member_text (map fst kvs) ts) @ 125 # r) = Some (J_Obj (acc @ kvs), r)"
proof (induction kvs arbitrary: ts n acc)
  case (Cons kv kvs)
  obtain k v where kv: "kv = (k, v)" by fastforce
  obtain t ts' where ts: "ts = t # ts'" "reads t v" "list_all2 reads ts' (map snd kvs)"
    using Cons.prems(1) by (auto simp: kv list_all2_Cons2)
  obtain n' where n: "n = Suc n'" using Cons.prems(3) by (cases n) auto
  let ?rest = "commas (map2 member_text (map fst kvs) ts')"
  show ?case
  proof (cases "ts' = []")
    case True
    then have "kvs = []" using ts(3) by simp
    then show ?thesis
      using True Cons.prems(3) reads_p_value [OF ts(2), of "125 # r" n'] n
      by (simp add: ts(1) kv commas_simps follows_def read_string member_text_def)
  next
    case False
    then obtain t' ts'' kv' kvs' where c: "ts' = t' # ts''" "kvs = kv' # kvs'" using ts(3) by (cases ts'; cases kvs) auto
    then have e: "commas (map2 member_text (map fst (kv # kvs)) ts) = write_str k @ 58 # t @ 44 # ?rest"
      by (simp add: ts(1) kv commas_simps member_text_def [of k])
    have len: "2 * length (write_str k @ 58 # t @ 44 # ?rest) + 1 \<le> n"
      using Cons.prems(3) by (simp only: e)
    have v: "p_value n' (t @ 44 # ?rest @ 125 # r) = Some (v, 44 # ?rest @ 125 # r)"
      using len n by (intro reads_p_value [OF ts(2)]) (simp_all add: follows_def)
    have "p_fields n' (acc @ [(k, v)]) (?rest @ 125 # r) = Some (J_Obj ((acc @ [(k, v)]) @ kvs), r)"
      using len n by (intro Cons.IH [OF ts(3) False]) simp
    then show ?thesis using v by (simp only: e append_assoc append_Cons n) (simp add: read_string kv)
  qed
qed simp

lemma reads_array:
  assumes "list_all2 reads ts vs"
  shows "reads (91 # commas ts @ [93]) (J_Arr vs)"
proof (cases ts)
  case Nil
  then show ?thesis using assms by (auto intro!: readsI simp: start_char_def ws_simp commas_simps)
next
  case (Cons t ts')
  then obtain c s where c: "t = c # s" "start_char c" using assms reads_hd [of t "hd vs"] by (auto simp: list_all2_Cons1)
  then obtain u where u: "commas ts = c # u" using Cons by (cases ts') (simp_all add: commas_simps)
  have e: "eat_char 93 (c # w) = None" for w
    using start_not_ws [OF c(2)] c(2) by (intro eat_other) (auto simp: start_char_def is_dig_def)
  show ?thesis
    using read_items [OF assms] Cons u e by (auto intro!: readsI simp: start_char_def ws_simp)
qed

lemma reads_object:
  assumes "list_all2 reads ts (map snd kvs)"
  shows "reads (123 # commas (map2 member_text (map fst kvs) ts) @ [125]) (J_Obj kvs)"
proof (cases "ts = []")
  case True
  then show ?thesis using assms by (auto intro!: readsI simp: start_char_def ws_simp commas_simps)
next
  case False
  then obtain k v kvs' t ts' where c: "kvs = (k, v) # kvs'" "ts = t # ts'" using assms by (cases kvs; cases ts) auto
  have "\<exists>u. commas (map2 member_text (map fst kvs) ts) = 34 # u"
    using assms by (cases ts'; cases kvs') (auto simp: c commas_simps member_text_def write_str_def)
  then obtain u where u: "commas (map2 member_text (map fst kvs) ts) = 34 # u" by blast
  show ?thesis using read_members [OF assms False] u by (auto intro!: readsI simp: start_char_def ws_simp)
qed

lemma f64_text_hd: "is_fin f \<Longrightarrow> f64_to_js_string f \<noteq> [] \<and> (hd (f64_to_js_string f) = 45 \<or> is_dig (hd (f64_to_js_string f)))"
proof -
  assume "is_fin f"
  then obtain negative m e where f: "f = Fin negative m e" by (cases f) auto
  obtain n x where d: "shortest_dec m e = (n, x)" by fastforce
  show ?thesis
    using js_envelope_hd [of "dec_nat n" "x + int (length (dec_nat n)) - 1"] dec_nat_dig
    by (auto simp: f sci_digits_def d)
qed

lemma envelope_chars: "\<forall>c\<in>set ds. is_dig c \<Longrightarrow> c \<in> set (js_envelope ds x) \<Longrightarrow> num_char c"
  using dec_nat_dig by (auto simp: js_envelope_def Let_def num_char_def split: if_splits dest: in_set_takeD in_set_dropD)

lemma f64_text_chars: "is_fin f \<Longrightarrow> c \<in> set (f64_to_js_string f) \<Longrightarrow> num_char c"
proof -
  assume f: "is_fin f" "c \<in> set (f64_to_js_string f)"
  then obtain negative m e where m: "f = Fin negative m e" by (cases f) auto
  obtain n x where d: "shortest_dec m e = (n, x)" by fastforce
  show ?thesis
    using f(2) envelope_chars [of "dec_nat n"] dec_nat_dig
    by (auto simp: m sci_digits_def d num_char_def split: if_splits)
qed

fun norm_json :: "json \<Rightarrow> json" where
  "norm_json (J_Num f) = (if is_fin f then J_Num (plain_zero f) else J_Null)"
| "norm_json (J_Arr items) = J_Arr (map norm_json items)"
| "norm_json (J_Obj mems) = J_Obj (map (\<lambda>(k, v). (k, norm_json v)) mems)"
| "norm_json v = v"

fun nums_ok :: "json \<Rightarrow> bool" where
  "nums_ok (J_Num f) = fl_ok f64 f"
| "nums_ok (J_Arr items) = (\<forall>v\<in>set items. nums_ok v)"
| "nums_ok (J_Obj mems) = (\<forall>kv\<in>set mems. nums_ok (snd kv))"
| "nums_ok v = True"

lemma reads_value: "nums_ok v \<Longrightarrow> reads (write_json v) (norm_json v)"
proof (induction v)
  case (J_Num f)
  show ?case
  proof (cases "is_fin f")
    case True
    have "reads (f64_to_js_string f) (J_Num (plain_zero f))"
      using J_Num True number_reads_back [of f] f64_text_chars [OF True] f64_text_hd [OF True] by (intro reads_number) auto
    then show ?thesis using True by simp
  next
    case False
    then show ?thesis using reads_words(1) by simp
  qed
next
  case (J_Arr items)
  then have "list_all2 reads (map write_json items) (map norm_json items)" by (auto simp: list_all2_conv_all_nth)
  from reads_array [OF this] show ?case by simp
next
  case (J_Obj mems)
  have IH: "reads (write_json (snd kv)) (norm_json (snd kv))" if "kv \<in> set mems" for kv
    using J_Obj.IH [of kv "snd kv"] J_Obj.prems that by (cases kv) auto
  have l: "list_all2 reads (map (write_json \<circ> snd) mems) (map snd (map (\<lambda>(k, v). (k, norm_json v)) mems))"
    using IH by (auto simp: list_all2_conv_all_nth case_prod_unfold)
  have m: "map2 member_text (map fst (map (\<lambda>(k, v). (k, norm_json v)) mems)) (map (write_json \<circ> snd) mems)
      = map (\<lambda>(k, v). write_str k @ 58 # write_json v) mems"
    by (induction mems) (auto simp: member_text_def)
  have "reads (123 # commas (map (\<lambda>(k, v). write_str k @ 58 # write_json v) mems) @ [125])
      (J_Obj (map (\<lambda>(k, v). (k, norm_json v)) mems))"
    using reads_object [OF l] by (simp only: m)
  then show ?case by simp
qed (use reads_words reads_string in simp_all)

section \<open>The direct writer\<close>

text \<open>\<open>pure_json\<close>, on values whose arrays and records are looked up in a heap: the text, or that
  the value is not plain data (the code then asks the host).  It recurses into the arrays and the
  records without a limit, so it is fuel here, and running out of fuel is a result of its own.\<close>

datatype written = Written rstr | Not_Plain | Out_Of_Fuel

primrec gather :: "written list \<Rightarrow> written + rstr list" where
  "gather [] = Inr []"
| "gather (w # rest) =
     (case w of Written s \<Rightarrow> (case gather rest of Inl e \<Rightarrow> Inl e | Inr ss \<Rightarrow> Inr (s # ss)) | _ \<Rightarrow> Inl w)"

definition finite_json :: "fl \<Rightarrow> rstr" where
  "finite_json f = (if is_fin f then f64_display f else str ''null'')"

fun pure_json :: "(addr \<Rightarrow> mvalue list) \<Rightarrow> (addr \<Rightarrow> (rstr \<times> mvalue) list) \<Rightarrow> nat \<Rightarrow> mvalue \<Rightarrow> written" where
  "pure_json arrays records 0 v = Out_Of_Fuel"
| "pure_json arrays records (Suc n) v =
     (case v of
        V_Null \<Rightarrow> Written (str ''null'')
      | V_Bool b \<Rightarrow> Written (if b then str ''true'' else str ''false'')
      | V_I32 i \<Rightarrow> Written (dec_int (sint i))
      | V_I64 i \<Rightarrow> Written (dec_int (sint i))
      | V_U32 i \<Rightarrow> Written (dec_int (uint i))
      | V_U64 i \<Rightarrow> Written (dec_int (uint i))
      | V_F32 f \<Rightarrow> Written (finite_json (fl_conv f64 f))
      | V_F64 f \<Rightarrow> Written (finite_json f)
      | V_Char c \<Rightarrow> Written (write_str [c])
      | V_Str us \<Rightarrow> Written (write_str (utf16_to_chars us))
      | V_Array a \<Rightarrow>
          (case gather (map (pure_json arrays records n) (arrays a)) of
             Inl e \<Rightarrow> e
           | Inr ts \<Rightarrow> Written (ch CHR ''['' # commas ts @ [ch CHR '']'']))
      | V_Record a \<Rightarrow>
          (case gather (map (\<lambda>(k, v). pure_json arrays records n v) (records a)) of
             Inl e \<Rightarrow> e
           | Inr ts \<Rightarrow> Written (ch CHR ''{'' # commas (map2 member_text (map fst (records a)) ts) @ [ch CHR ''}'']))
      | _ \<Rightarrow> Not_Plain)"

text \<open>The document the text stands for.\<close>

fun json_of :: "(addr \<Rightarrow> mvalue list) \<Rightarrow> (addr \<Rightarrow> (rstr \<times> mvalue) list) \<Rightarrow> nat \<Rightarrow> mvalue \<Rightarrow> json" where
  "json_of arrays records 0 v = J_Null"
| "json_of arrays records (Suc n) v =
     (case v of
        V_Bool b \<Rightarrow> J_Bool b
      | V_I32 i \<Rightarrow> J_Num (fl_of_int f64 (sint i))
      | V_I64 i \<Rightarrow> J_Num (fl_of_int f64 (sint i))
      | V_U32 i \<Rightarrow> J_Num (fl_of_int f64 (uint i))
      | V_U64 i \<Rightarrow> J_Num (fl_of_int f64 (uint i))
      | V_F32 f \<Rightarrow> (if is_fin (fl_conv f64 f) then J_Num (fl_conv f64 f) else J_Null)
      | V_F64 f \<Rightarrow> (if is_fin f then J_Num f else J_Null)
      | V_Char c \<Rightarrow> J_Str [c]
      | V_Str us \<Rightarrow> J_Str (utf16_to_chars us)
      | V_Array a \<Rightarrow> J_Arr (map (json_of arrays records n) (arrays a))
      | V_Record a \<Rightarrow> J_Obj (map (\<lambda>(k, v). (k, json_of arrays records n v)) (records a))
      | _ \<Rightarrow> J_Null)"

lemma gather_Inr: "gather rest = Inr ss \<Longrightarrow> rest = map Written ss"
  by (induction rest arbitrary: ss) (auto split: written.splits sum.splits)

lemma gather_Inl: "gather rest = Inl e \<Longrightarrow> e \<noteq> Written s"
  by (induction rest) (auto split: written.splits sum.splits)

lemma parse_f64_minus:
  assumes "parse_dec t = Some (False, n, x)" "is_dig (hd t)"
  shows "parse_f64 (if negative then 45 # t else t) = Some (dec_round negative n x)"
proof -
  have "hd t \<noteq> 45 \<and> hd t \<noteq> 43" using assms(2) by (auto simp: is_dig_def)
  then show ?thesis using assms(1) parse_dec_minus [OF assms(1)] by (cases negative) (simp_all add: parse_f64_def)
qed

lemma reads_signed:
  assumes "parse_dec t = Some (False, n, x)" "t \<noteq> []" "is_dig (hd t)" "\<forall>c\<in>set t. num_char c"
  shows "reads (if negative then 45 # t else t) (J_Num (dec_round negative n x))"
  using parse_f64_minus [OF assms(1,3), of negative] assms(2-4)
  by (intro reads_number) (auto simp: num_char_def)

lemma dig_num_char: "is_dig c \<Longrightarrow> num_char c"
  by (simp add: num_char_def)

lemma reads_int: "reads (dec_int z) (J_Num (fl_of_int f64 z))"
proof -
  have p: "parse_dec (dec_nat n) = Some (False, n, 0)" for n
    using parse_whole [of "dec_nat n"] dec_nat_dig by auto
  have "reads (if z < 0 then 45 # dec_nat (nat \<bar>z\<bar>) else dec_nat (nat \<bar>z\<bar>)) (J_Num (dec_round (z < 0) (nat \<bar>z\<bar>) 0))"
    using dec_nat_dig dec_nat_dig [of "hd (dec_nat (nat \<bar>z\<bar>))" "nat \<bar>z\<bar>"] by (intro reads_signed p) (auto simp: dig_num_char)
  then show ?thesis by (auto simp: dec_int_def dec_round_def fl_of_int_def)
qed

lemma positional_reads_back:
  "\<exists>n' x'. parse_dec (positional (dec_nat n) (x + int (length (dec_nat n)))) = Some (False, n', x')
     \<and> dec_round negative n' x' = dec_round negative n x"
proof -
  let ?d = "dec_nat n"
  let ?k = "int (length ?d)" and ?n = "x + int (length ?d)"
  have d: "?d \<noteq> []" "\<forall>c\<in>set ?d. is_dig c" using dec_nat_dig by auto
  consider "?k \<le> ?n" | "1 \<le> ?n" "?n < ?k" | "?n \<le> 0" "?n < ?k" by linarith
  then show ?thesis
  proof cases
    case 1
    have "parse_dec (?d @ replicate (nat x) 48) = Some (False, n * 10 ^ nat x, 0)"
      using d by (subst parse_whole) (auto simp: dig_val_append)
    then show ?thesis using 1 by (simp add: positional_def dec_round_def)
  next
    case 2
    have "parse_dec (take (nat ?n) ?d @ 46 # drop (nat ?n) ?d) = Some (False, n, x)"
      using d 2 by (subst parse_point) (auto dest: in_set_takeD in_set_dropD)
    then show ?thesis using 2 by (simp add: positional_def)
  next
    case 3
    have "parse_dec ([48] @ 46 # (replicate (nat (- ?n)) 48 @ ?d)) = Some (False, n, x)"
      using d 3 by (subst parse_point) (auto simp: dig_val_append dig_val_Cons)
    then show ?thesis using 3 by (simp add: positional_def)
  qed
qed

lemma positional_chars: "\<forall>c\<in>set ds. is_dig c \<Longrightarrow> c \<in> set (positional ds n) \<Longrightarrow> is_dig c \<or> c = 46"
  by (auto simp: positional_def is_dig_def split: if_splits dest: in_set_takeD in_set_dropD)

lemma positional_hd: "ds \<noteq> [] \<Longrightarrow> \<forall>c\<in>set ds. is_dig c \<Longrightarrow> positional ds n \<noteq> [] \<and> is_dig (hd (positional ds n))"
  by (cases ds) (auto simp: positional_def take_Cons' hd_append is_dig_def)

lemma display_positional:
  "m \<noteq> 0 \<Longrightarrow> shortest_dec m e = (n, x) \<Longrightarrow>
     f64_display (Fin negative m e) = (if negative then [45] else []) @ positional (dec_nat n) (x + int (length (dec_nat n)))"
  by (simp add: sci_digits_def)

lemma reads_display:
  assumes "fl_ok f64 f" "is_fin f"
  shows "reads (f64_display f) (J_Num f)"
proof -
  obtain negative m e where f: "f = Fin negative m e" using assms(2) by (cases f) auto
  show ?thesis
  proof (cases "m = 0")
    case True
    have "e = f_emin f64" using assms(1) True by (simp add: f f64_def)
    then have r: "dec_round negative 0 0 = Fin negative 0 e" by (simp add: dec_round_def round_fl_def)
    have "parse_dec [48] = Some (False, 0, 0)" using parse_whole [of "[48]"] by (simp add: is_dig_def dig_val_def)
    from reads_signed [OF this, of negative] have "reads (if negative then 45 # [48] else [48]) (J_Num (Fin negative 0 e))"
      by (simp add: r is_dig_def num_char_def)
    then show ?thesis by (cases negative) (simp_all add: f True)
  next
    case False
    obtain n x where d: "shortest_dec m e = (n, x)" by fastforce
    let ?s = "positional (dec_nat n) (x + int (length (dec_nat n)))"
    have ok: "fl_ok f64 (Fin False m e)" using assms(1) by (simp add: f)
    have r: "dec_round negative n x = Fin negative m e"
      by (rule dec_round_sign [OF shortest_dec_rounds [OF ok _ d]]) (use False in simp)
    obtain n' x' where p: "parse_dec ?s = Some (False, n', x')" "dec_round negative n' x' = Fin negative m e"
      using positional_reads_back [of n x negative] r by auto
    have h: "?s \<noteq> []" "is_dig (hd ?s)" using positional_hd [of "dec_nat n"] dec_nat_dig by auto
    have "\<forall>c\<in>set ?s. num_char c"
      using positional_chars [of "dec_nat n"] dec_nat_dig by (auto simp: num_char_def)
    from reads_signed [OF p(1) h this, of negative] show ?thesis
      using display_positional [OF False d, of negative] p(2) by (cases negative) (simp_all add: f)
  qed
qed

text \<open>Rounding answers a value of the format.\<close>

lemma round_ties_even_bounds:
  assumes "0 < d" "a * d \<le> n" "n < b * d"
  shows "a \<le> round_ties_even n d \<and> round_ties_even n d \<le> b"
proof -
  have "a \<le> n div d" using assms(1,2) by (simp add: less_eq_div_iff_mult_less_eq)
  moreover have "n div d < b" using assms(3) by (simp add: less_mult_imp_div_less)
  ultimately show ?thesis by (auto simp: round_ties_even_def Let_def)
qed

lemma round_fl_ok:
  assumes f: "fmt_ok f" and den: "0 < den"
  shows "fl_ok f (round_fl f negative num den)"
proof (cases "num = 0")
  case True
  then show ?thesis using f by (auto simp: round_fl_def fmt_ok_def)
next
  case False
  define p where "p = f_prec f"
  define e where "e = max (f_emin f) (ilog2 num den - int (p - 1))"
  define N where "N = (if 0 \<le> e then num else num * 2 ^ nat (- e))"
  define D where "D = (if 0 \<le> e then den * 2 ^ nat e else den)"
  have p: "0 < p" using f by (simp add: fmt_ok_def p_def)
  have D: "0 < D" using den by (simp add: D_def)
  have ND: "(of_nat N :: rat) * pow2 e * of_nat den = of_nat num * of_nat D" 
    by (simp add: N_def D_def pow2_def)
  note lb = ilog2_bounds [of num den] False den
  have "N < 2 ^ p * D"
  proof -
    have "of_nat num < pow2 (ilog2 num den + 1) * (of_nat den :: rat)" using lb by simp
    also have "pow2 (ilog2 num den + 1) \<le> pow2 (int p + e)" using p by (simp add: e_def of_nat_diff)
    finally have "of_nat num < pow2 (int p + e) * (of_nat den :: rat)" using den by (simp add: mult_right_mono)
    then have "of_nat num * of_nat D < pow2 (int p + e) * (of_nat den :: rat) * of_nat D" using D by simp
    then have "(of_nat N :: rat) * (pow2 e * of_nat den) < (2 ^ p * of_nat D) * (pow2 e * of_nat den)"
      using ND by (simp add: pow2_add pow2_of_nat mult_ac)
    then have "(of_nat N :: rat) < 2 ^ p * of_nat D" by (rule mult_right_less_imp_less) (simp add: less_imp_le)
    then have "of_nat N < (of_nat (2 ^ p * D) :: rat)" by simp
    then show ?thesis by (simp only: of_nat_less_iff)
  qed
  moreover have "2 ^ (p - 1) * D \<le> N" if "e \<noteq> f_emin f"
  proof -
    have e: "ilog2 num den = int (p - 1) + e" using that by (auto simp: e_def max_def split: if_splits)
    have "pow2 (int (p - 1) + e) * (of_nat den :: rat) \<le> of_nat num" using lb e by simp
    then have "pow2 (int (p - 1) + e) * (of_nat den :: rat) * of_nat D \<le> of_nat num * of_nat D" by (rule mult_right_mono) simp
    then have "(2 ^ (p - 1) * of_nat D) * (pow2 e * of_nat den) \<le> (of_nat N :: rat) * (pow2 e * of_nat den)"
      using ND by (simp add: pow2_add pow2_of_nat mult_ac)
    then have "2 ^ (p - 1) * of_nat D \<le> (of_nat N :: rat)" by (rule mult_right_le_imp_le) (use den in simp)
    then have "of_nat (2 ^ (p - 1) * D) \<le> (of_nat N :: rat)" by simp
    then show ?thesis by (simp only: of_nat_le_iff)
  qed
  ultimately have m: "round_ties_even N D \<le> 2 ^ p" "e \<noteq> f_emin f \<Longrightarrow> 2 ^ (p - 1) \<le> round_ties_even N D"
    using round_ties_even_bounds [OF D, of 0 N "2 ^ p"] round_ties_even_bounds [OF D, of "2 ^ (p - 1)" N "2 ^ p"] by auto
  have r: "round_fl f negative num den =
      (let (m, e) = (if round_ties_even N D = 2 ^ p then (2 ^ (p - 1), e + 1) else (round_ties_even N D, e))
       in if f_emax f < e then Infinite negative else Fin negative m e)"
    unfolding round_fl_def p_def [symmetric] e_def [symmetric] N_def D_def using False by (cases "0 \<le> e") (simp_all only: Let_def if_True if_False)
  have "f_emin f \<le> e" by (simp add: e_def)
  then show ?thesis using m p unfolding r by (auto simp: not_less p_def [symmetric])
qed

lemma fl_conv_ok: "fmt_ok f \<Longrightarrow> fl_ok f (fl_conv f x)"
  by (cases x) (auto simp: round_scaled_def intro: round_fl_ok)

definition float_ok :: "mvalue \<Rightarrow> bool" where
  "float_ok v = (case v of V_F64 f \<Rightarrow> fl_ok f64 f | _ \<Rightarrow> True)"

lemma reads_finite:
  assumes "fl_ok f64 f"
  shows "reads (finite_json f) (if is_fin f then J_Num f else J_Null)"
  using reads_display [OF assms] reads_words(1) by (simp add: finite_json_def)

lemma reads_pure_json:
  assumes "\<And>a v. v \<in> set (arrays a) \<Longrightarrow> float_ok v" "\<And>a k v. (k, v) \<in> set (records a) \<Longrightarrow> float_ok v"
  shows "pure_json arrays records n v = Written s \<Longrightarrow> float_ok v \<Longrightarrow> reads s (json_of arrays records n v)"
proof (induction n arbitrary: v s)
  case (Suc n)
  show ?case
  proof (cases v)
    case (V_Array a)
    then obtain ts where ts: "map (pure_json arrays records n) (arrays a) = map Written ts" "s = 91 # commas ts @ [93]"
      using Suc.prems(1) by (auto split: sum.splits dest: gather_Inr gather_Inl)
    have "list_all2 reads ts (map (json_of arrays records n) (arrays a))"
      using Suc.IH assms(1) [of _ a] ts(1)
      by (auto simp: list_all2_conv_all_nth list_eq_iff_nth_eq)
    from reads_array [OF this] show ?thesis by (simp add: V_Array ts(2))
  next
    case (V_Record a)
    then obtain ts where ts: "map (\<lambda>(k, v). pure_json arrays records n v) (records a) = map Written ts"
        "s = 123 # commas (map2 member_text (map fst (records a)) ts) @ [125]"
      using Suc.prems(1) by (auto split: sum.splits dest: gather_Inr gather_Inl)
    let ?kvs = "map (\<lambda>(k, v). (k, json_of arrays records n v)) (records a)"
    have fl: "float_ok (snd kv)" if "kv \<in> set (records a)" for kv using assms(2) [of "fst kv" "snd kv" a] that by simp
    have "list_all2 reads ts (map snd ?kvs)"
      using Suc.IH fl ts(1)
      by (auto simp: list_all2_conv_all_nth list_eq_iff_nth_eq case_prod_unfold)
    from reads_object [OF this] show ?thesis by (simp add: V_Record ts(2) case_prod_unfold comp_def)
  next
    case (V_F32 f)
    then show ?thesis using Suc.prems reads_finite [OF fl_conv_ok [of f64 f]] V_F32 by simp
  next
    case (V_F64 f)
    then show ?thesis using Suc.prems reads_finite [of f] by (simp add: float_ok_def)
  qed (use Suc.prems reads_words reads_string reads_int in auto)
qed simp

text \<open>Plain data of a nesting below the fuel: what the direct writer writes.\<close>

fun plain_data :: "(addr \<Rightarrow> mvalue list) \<Rightarrow> (addr \<Rightarrow> (rstr \<times> mvalue) list) \<Rightarrow> nat \<Rightarrow> mvalue \<Rightarrow> bool" where
  "plain_data arrays records 0 v = False"
| "plain_data arrays records (Suc n) v =
     (case v of
        V_Array a \<Rightarrow> (\<forall>w\<in>set (arrays a). plain_data arrays records n w)
      | V_Record a \<Rightarrow> (\<forall>(k, w)\<in>set (records a). plain_data arrays records n w)
      | V_Null \<Rightarrow> True | V_Bool _ \<Rightarrow> True | V_I32 _ \<Rightarrow> True | V_I64 _ \<Rightarrow> True | V_U32 _ \<Rightarrow> True | V_U64 _ \<Rightarrow> True
      | V_F32 _ \<Rightarrow> True | V_F64 _ \<Rightarrow> True | V_Char _ \<Rightarrow> True | V_Str _ \<Rightarrow> True
      | _ \<Rightarrow> False)"

lemma gather_writes: "(\<exists>ss. gather rest = Inr ss) \<longleftrightarrow> (\<forall>w\<in>set rest. \<exists>s. w = Written s)"
  by (induction rest) (auto split: written.splits sum.splits)

lemma pure_json_writes: "(\<exists>s. pure_json arrays records n v = Written s) \<longleftrightarrow> plain_data arrays records n v"
proof (induction n arbitrary: v)
  case (Suc n)
  show ?case
  proof (cases v)
    case (V_Array a)
    then show ?thesis
      using gather_writes [of "map (pure_json arrays records n) (arrays a)"] Suc.IH
      by (auto split: sum.splits dest: gather_Inl)
  next
    case (V_Record a)
    have "(\<exists>s. (case x of (k, v) \<Rightarrow> pure_json arrays records n v) = Written s)
        \<longleftrightarrow> (case x of (k, v) \<Rightarrow> plain_data arrays records n v)" for x :: "rstr \<times> mvalue"
      using Suc.IH by (cases x) simp
    then show ?thesis
      using V_Record gather_writes [of "map (\<lambda>(k, v). pure_json arrays records n v) (records a)"]
      by (simp split: sum.splits) (metis gather_Inl sum.distinct(1))
  qed simp_all
qed simp

text \<open>What the direct writer leaves out: an array that holds itself, large numbers and the sign of
  zero.\<close>

lemma gather_stuck: "Out_Of_Fuel \<in> set rest \<Longrightarrow> \<forall>w\<in>set rest. w \<noteq> Not_Plain \<Longrightarrow> gather rest = Inl Out_Of_Fuel"
  by (induction rest) (auto split: written.splits)

lemma pure_json_cyclic:
  assumes "arrays a = [V_Array a]"
  shows "pure_json arrays records n (V_Array a) = Out_Of_Fuel"
  using assms by (induction n) auto

lemma display_diverges:
  assumes "m \<noteq> 0" "sci_digits m e = (ds, x)" "21 \<le> x" "int (length ds) \<le> 21" "\<forall>c\<in>set ds. is_dig c"
  shows "write_json (J_Num (Fin negative m e)) \<noteq> finite_json (Fin negative m e)"
proof -
  have "ch CHR ''e'' \<in> set (js_envelope ds x)"
    using assms(3,4) by (auto simp: js_envelope_def Let_def)
  moreover have "ch CHR ''e'' \<notin> set (positional ds (x + 1))"
    using assms(5) positional_chars [OF assms(5)] by (force simp: is_dig_def)
  ultimately show ?thesis using assms(1,2) by (auto simp: finite_json_def)
qed

section \<open>The fuel of the parser\<close>

text \<open>A value takes at least one character, so the calls are at most twice the length of the text:
  with more fuel than \<open>parse_json\<close> gives, the answer is the same.\<close>

lemma eat_shorter: "eat_char c s = Some r \<Longrightarrow> length r < length s"
  using length_dropWhile_le [of is_ws s] by (auto simp: eat_char_def ws_def split: list.splits if_splits)

lemma p_chars_steps:
  "p_chars out [] = None"
  "p_chars out (c # r) =
     (if c = 34 then Some (out, r)
      else if c \<noteq> 92 then p_chars (out @ [c]) r
      else case r of
             [] \<Rightarrow> None
           | e # r' \<Rightarrow>
               if e = ch CHR ''u'' then (case p_unicode r' of None \<Rightarrow> None | Some (d, r'') \<Rightarrow> p_chars (out @ [d]) r'')
               else p_chars (out @ [plain_escape e]) r')"
  by (subst p_chars.simps, simp)+

lemma p_chars_shorter: "p_chars out s = Some (t, r) \<Longrightarrow> length r < length s"
proof (induction s arbitrary: out rule: length_induct)
  case (1 s)
  then have IH: "length r < length s'" if "length s' < length s" "p_chars out' s' = Some (t, r)" for out' s'
    using that by blast
  show ?case
  proof (cases s)
    case Nil
    then show ?thesis using "1.prems" by (simp add: p_chars_steps)
  next
    case (Cons c s')
    consider "c = 34" | "c \<noteq> 34" "c \<noteq> 92" | e s'' where "c = 92" "s' = e # s''" "e \<noteq> 117"
      | s'' d u where "c = 92" "s' = 117 # s''" "p_unicode s'' = Some (d, u)"
      using "1.prems" Cons by (auto simp: p_chars_steps split: list.splits option.splits if_splits)
    then show ?thesis
    proof cases
      case 1
      then show ?thesis using "1.prems" Cons by (simp add: p_chars_steps)
    next
      case 2
      then show ?thesis using "1.prems" Cons IH [of s' "out @ [c]"] by (simp add: p_chars_steps)
    next
      case 3
      then show ?thesis using "1.prems" Cons IH [of s'' "out @ [plain_escape e]"] by (simp add: p_chars_steps)
    next
      case 4
      then show ?thesis
        using "1.prems" Cons IH [of u "out @ [d]"] p_unicode_shorter [OF 4(3)] by (simp add: p_chars_steps)
    qed
  qed
qed

lemma ws_shorter: "length (ws s) \<le> length s"
  by (simp add: ws_def length_dropWhile_le)

lemma p_string_shorter: "p_string s = Some (t, r) \<Longrightarrow> length r < length s"
  using ws_shorter [of s] by (fastforce simp: p_string_def split: list.splits if_splits dest: p_chars_shorter)

lemma p_lit_shorter: "p_lit word v s = Some (w, r) \<Longrightarrow> word \<noteq> [] \<Longrightarrow> s \<noteq> [] \<Longrightarrow> length r < length s"
  by (auto simp: p_lit_def split: if_splits)

lemma p_number_shorter: "p_number s = Some (v, r) \<Longrightarrow> length r < length s"
proof -
  assume p: "p_number s = Some (v, r)"
  have "parse_f64 [] = None" by (simp add: parse_f64_def parse_dec_def split_sign_def parse_unsigned_def)
  then have "takeWhile num_char s \<noteq> []" using p by (auto simp: p_number_def)
  then obtain c s' where "s = c # s'" "num_char c" by (cases s) (auto split: if_splits)
  then show ?thesis using p length_dropWhile_le [of num_char s'] by (auto simp: p_number_def)
qed

lemma value_shorter:
  "p_value n s = Some (v, r) \<Longrightarrow> length r < length s"
  "p_items n vs s = Some (v, r) \<Longrightarrow> length r < length s"
  "p_fields n kvs s = Some (v, r) \<Longrightarrow> length r < length s"
proof (induction n arbitrary: s v r vs kvs)
  case (Suc n)
  {
    case 1
    obtain c u where c: "ws s = c # u" "length u < length s"
      using 1 ws_shorter [of s] by (cases "ws s") auto
    show ?case using 1 c Suc.IH(2) [of "[]" u] Suc.IH(3) [of "[]" u]
      by (auto split: if_splits option.splits dest!: p_lit_shorter p_string_shorter p_number_shorter eat_shorter)
  next
    case 2
    obtain w u where u: "p_value n s = Some (w, u)" "length u < length s"
      using 2 Suc.IH(1) by (cases "p_value n s") auto
    show ?case using 2 u Suc.IH(2) [of "vs @ [w]"]
      by (auto split: option.splits dest!: eat_shorter) (meson less_trans)+
  next
    case 3
    obtain k u u1 w u2 where u: "p_string s = Some (k, u)" "eat_char 58 u = Some u1" "p_value n u1 = Some (w, u2)"
      using 3 by (auto split: option.splits)
    then have l: "length u2 < length s" using p_string_shorter eat_shorter Suc.IH(1) by (meson less_trans)
    show ?case using 3 u l Suc.IH(3) [of "kvs @ [(k, w)]"]
      by (auto split: option.splits dest!: eat_shorter [of _ u2]) (meson less_trans)+
  }
qed simp_all

lemma value_more_fuel:
  "2 * length s + 1 \<le> n \<Longrightarrow> p_value (Suc n) s = p_value n s"
  "2 * length s + 2 \<le> n \<Longrightarrow> p_items (Suc n) vs s = p_items n vs s"
  "2 * length s + 2 \<le> n \<Longrightarrow> p_fields (Suc n) kvs s = p_fields n kvs s"
proof (induction n arbitrary: s vs kvs)
  case (Suc n)
  {
    case 1
    show ?case
    proof (cases "ws s")
      case (Cons c u)
      then have "2 * length u + 2 \<le> n" using 1 ws_shorter [of s] by simp
      then show ?thesis using Suc.IH(2,3) Cons by (simp add: p_value.simps(2) [of "Suc n"] p_value.simps(2) [of n] del: p_value.simps p_items.simps p_fields.simps split: option.splits)
    qed simp
  next
    case 2
    have v: "p_value (Suc n) s = p_value n s" using 2 by (intro Suc.IH(1)) simp
    show ?case
    proof (cases "p_value n s")
      case None
      then show ?thesis using v by simp
    next
      case (Some wt)
      obtain w t where wt: "wt = (w, t)" by fastforce
      show ?thesis
      proof (cases "eat_char 44 t")
        case None
        then show ?thesis using v Some by (simp add: wt split: option.split)
      next
        case u: (Some u)
        have "length t < length s" using value_shorter(1) Some wt by simp
        then have "p_items (Suc n) (vs @ [w]) u = p_items n (vs @ [w]) u"
          using 2 eat_shorter [OF u] by (intro Suc.IH(2)) simp
        then show ?thesis
          unfolding p_items.simps(2) [of "Suc n" vs s] p_items.simps(2) [of n vs s] v using Some u
          by (simp add: wt del: p_items.simps p_value.simps split: option.split)
      qed
    qed
  next
    case 3
    show ?case
    proof (cases "\<exists>k t u w u2. p_string s = Some (k, t) \<and> eat_char 58 t = Some u \<and> p_value n u = Some (w, u2)")
      case False
      have "p_value (Suc n) u = p_value n u" if "p_string s = Some (k, t)" "eat_char 58 t = Some u" for k t u
        using 3 p_string_shorter [OF that(1)] eat_shorter [OF that(2)] by (intro Suc.IH(1)) simp
      with False show ?thesis
        unfolding p_fields.simps(2) [of "Suc n" kvs s] p_fields.simps(2) [of n kvs s]
        by (cases "p_string s") (fastforce simp del: p_fields.simps p_value.simps split: option.split)+
    next
      case True
      then obtain k t u w u2 where p: "p_string s = Some (k, t)" "eat_char 58 t = Some u" "p_value n u = Some (w, u2)"
        by blast
      have l: "length t < length s" "length u < length t" "length u2 < length u"
        using p_string_shorter [OF p(1)] eat_shorter [OF p(2)] value_shorter(1) [OF p(3)] .
      then have v: "p_value (Suc n) u = p_value n u" using 3 by (intro Suc.IH(1)) simp
      show ?thesis
      proof (cases "eat_char 44 u2")
        case None
        then show ?thesis
          unfolding p_fields.simps(2) [of "Suc n" kvs s] p_fields.simps(2) [of n kvs s] using p v
          by (simp del: p_fields.simps p_value.simps split: option.split)
      next
        case (Some u3)
        then have "p_fields (Suc n) (kvs @ [(k, w)]) u3 = p_fields n (kvs @ [(k, w)]) u3"
          using 3 l eat_shorter [OF Some] by (intro Suc.IH(3)) simp
        then show ?thesis
          unfolding p_fields.simps(2) [of "Suc n" kvs s] p_fields.simps(2) [of n kvs s] using p v Some
          by (simp del: p_fields.simps p_value.simps split: option.split)
      qed
    qed
  }
qed simp_all

lemma parse_json_fuel:
  assumes "2 * length text + 2 \<le> n"
  shows "(case p_value n text of Some (v, r) \<Rightarrow> if ws r = [] then Some v else None | None \<Rightarrow> None) = parse_json text"
proof -
  have "p_value (2 * length text + 2 + k) text = p_value (2 * length text + 2) text" for k
    by (induction k) (simp_all add: value_more_fuel(1) del: p_value.simps)
  then have "p_value n text = p_value (2 * length text + 2) text" using assms by (metis le_Suc_ex)
  then show ?thesis by (simp only: parse_json_def)
qed

section \<open>Texts the parser accepts\<close>

text \<open>The grammar of numbers is Rust's, and members are kept in order, repeated keys included: \<open>get\<close>
  finds the first.\<close>

lemma parse_json_lenient:
  "parse_json (str ''+1'') = parse_json (str ''1'')" "parse_json (str ''01'') = parse_json (str ''1'')"
  "parse_json (str ''.5'') \<noteq> None"
  by (simp_all add: parse_json_def ws_simp is_ws_def p_number_def num_char_def is_dig_def parse_f64_def parse_dec_def
      split_sign_def parse_unsigned_def dig_val_def ws_def numeral_2_eq_2)

lemma first_member_wins: "j_get k (J_Obj ((k, v) # (k, w) # mems)) = Some v"
  by (simp add: j_get_def)

section \<open>Correctness\<close>

text \<open>
  C39: a document written by \<open>write\<close> is read back by \<open>parse\<close>, whatever its strings hold and
  whatever form its numbers are printed in: every finite number is the same, the sign of a zero
  apart, and a number that is not finite is null.
\<close>

theorem json_reads_back:
  assumes "nums_ok v"
  shows "parse_json (write_json v) = Some (norm_json v)"
  by (rule reads_parse_json [OF reads_value [OF assms]])

text \<open>
  C40: the direct writer of \<open>Json.stringify\<close> writes every plain value of finite nesting and no other,
  and its text is read back as the document the value stands for: the integers rounded to a float64, the other numbers exactly, the
  strings as the engine decodes them, the members in their order.  The sign of a zero, which
  JavaScript's text has not, is left open; a document without a negative zero is read back exactly.
\<close>

theorem direct_json_reads_back:
  assumes "\<And>a v. v \<in> set (arrays a) \<Longrightarrow> float_ok v" "\<And>a k v. (k, v) \<in> set (records a) \<Longrightarrow> float_ok v" "float_ok v"
  shows "case pure_json arrays records n v of
      Written s \<Rightarrow> plain_data arrays records n v
        \<and> map_option norm_json (parse_json s) = Some (norm_json (json_of arrays records n v))
        \<and> (norm_json (json_of arrays records n v) = json_of arrays records n v \<longrightarrow>
             parse_json s = Some (json_of arrays records n v))
    | _ \<Rightarrow> \<not> plain_data arrays records n v"
  using reads_parse_json [OF reads_pure_json [OF assms(1,2) _ assms(3)]] pure_json_writes [of arrays records n v]
  by (cases "pure_json arrays records n v") auto

section \<open>Runs\<close>

lemma json_reads_back_witness:
  "parse_json (write_json (J_Obj [(str ''price'', J_Arr [J_Num (Fin True (3 * 2 ^ 51) (- 52)), J_Num NaN, J_Str [34, 92, 10, 7]])]))
     = Some (J_Obj [(str ''price'', J_Arr [J_Num (Fin True (3 * 2 ^ 51) (- 52)), J_Null, J_Str [34, 92, 10, 7]])])"
  by (subst json_reads_back) (simp_all add: plain_zero_def f64_def)

definition sample_arrays :: "addr \<Rightarrow> mvalue list" where
  "sample_arrays a = (if a = 2 then [V_I32 (- 7), V_Null] else [])"

definition sample_records :: "addr \<Rightarrow> (rstr \<times> mvalue) list" where
  "sample_records a = [(str ''k'', V_Array 2)]"

lemma dec_int_sample: "dec_int (- 7) = str ''-7''"
  by (simp add: dec_int_def dec_nat_small)

lemma direct_json_reads_back_witness:
  "parse_json (str ''{'' @ [34, 107, 34] @ str '':[-7,null]}'') = Some (J_Obj [(str ''k'', J_Arr [J_Num (fl_of_int f64 (- 7)), J_Null])])"
proof -
  have w: "pure_json sample_arrays sample_records (Suc (Suc (Suc 0))) (V_Record 5) = Written (str ''{'' @ [34, 107, 34] @ str '':[-7,null]}'')"
    by (simp add: sample_arrays_def sample_records_def member_text_def write_str_def write_char_def commas_def dec_int_sample)
  have j: "json_of sample_arrays sample_records (Suc (Suc (Suc 0))) (V_Record 5)
      = J_Obj [(str ''k'', J_Arr [J_Num (fl_of_int f64 (- 7)), J_Null])]"
    by (simp add: sample_arrays_def sample_records_def)
  have z: "norm_json (J_Obj [(str ''k'', J_Arr [J_Num (fl_of_int f64 (- 7)), J_Null])])
      = J_Obj [(str ''k'', J_Arr [J_Num (fl_of_int f64 (- 7)), J_Null])]"
  proof -
    have "f_prec f64 = 53" by (simp add: f64_def)
    then have "fl_of_int f64 (- 7) = Fin True (7 * 2 ^ (53 - bits 7)) (- int (53 - bits 7))"
      using fl_of_int_exact [of f64 "- 7"] by simp
    then show ?thesis by (simp add: plain_zero_def)
  qed
  have "float_ok v" if "v \<in> set (sample_arrays a)" for a v using that by (auto simp: float_ok_def sample_arrays_def split: if_splits)
  moreover have "float_ok v" if "(k, v) \<in> set (sample_records a)" for a k v using that by (auto simp: float_ok_def sample_records_def)
  ultimately have "norm_json (json_of sample_arrays sample_records (Suc (Suc (Suc 0))) (V_Record 5))
      = json_of sample_arrays sample_records (Suc (Suc (Suc 0))) (V_Record 5) \<longrightarrow>
    parse_json (str ''{'' @ [34, 107, 34] @ str '':[-7,null]}'')
      = Some (json_of sample_arrays sample_records (Suc (Suc (Suc 0))) (V_Record 5))"
    using direct_json_reads_back [of sample_arrays sample_records "V_Record 5" "Suc (Suc (Suc 0))", unfolded w]
    by (simp add: float_ok_def)
  then show ?thesis unfolding j z by simp
qed

end
