(* ===== verification/Regex.thy ===== *)
theory Regex
  imports Prelude
begin

text \<open>
  The regular expressions of \<open>crates/mersey_interp/src/regex.rs\<close> and the methods of a
  regex value (\<open>lib.rs\<close>, the \<open>Value::RegexV\<close> arm of \<open>call_method\<close>).  The pattern
  parser is the recursive descent of the source over a character array, with fuel for the
  mutual recursion; the matcher is the source's continuation passing, with its captures
  and its step budget threaded as a record.  Reference: \<open>paths\<close>, the list of all
  results of a pattern in order of preference, and \<open>matches\<close>, the language of a
  pattern as an inductive relation.
\<close>

section \<open>Patterns\<close>

text \<open>What the source takes from the Unicode tables of the standard library.\<close>

record unicode =
  u_alphanumeric :: "rchar \<Rightarrow> bool"
  u_lower :: "rchar \<Rightarrow> rchar list"
  u_upper :: "rchar \<Rightarrow> rchar list"

definition char_is_whitespace :: "rchar \<Rightarrow> bool" where
  "char_is_whitespace c \<longleftrightarrow>
     9 \<le> c \<and> c \<le> 13 \<or> c = 32 \<or> c = 0x85 \<or> c = 0xA0 \<or> c = 0x1680 \<or> 0x2000 \<le> c \<and> c \<le> 0x200A
     \<or> c = 0x2028 \<or> c = 0x2029 \<or> c = 0x202F \<or> c = 0x205F \<or> c = 0x3000"

definition is_ascii_digit :: "rchar \<Rightarrow> bool" where
  "is_ascii_digit c \<longleftrightarrow> (ch CHR ''0'') \<le> c \<and> c \<le> (ch CHR ''9'')"

datatype class_item =
    CI_Ch rchar
  | CI_Range rchar rchar
  | CI_Digit bool
  | CI_Word bool
  | CI_Space bool

datatype node =
    N_Empty
  | N_Char rchar
  | N_Any
  | N_Class bool "class_item list"
  | N_Start
  | N_End
  | N_WordBoundary bool
  | N_Group "nat option" node
  | N_Concat "node list"
  | N_Alt "node list"
  | N_Repeat node nat nat bool

definition u32_max :: nat where
  "u32_max = 4294967295"

record regex =
  rx_root :: node
  rx_group_count :: nat
  rx_ignore_case :: bool

record rmatch =
  m_start :: nat
  m_end :: nat
  m_groups :: "(nat \<times> nat) option list"

section \<open>The pattern parser\<close>

record rparser =
  rp_chars :: "rchar list"
  rp_i :: nat
  rp_groups :: nat

datatype 'a outcome = Ok 'a | Err rstr | No_Fuel

definition rp_at :: "rparser \<Rightarrow> nat \<Rightarrow> rchar option" where
  "rp_at p i = (if i < length (rp_chars p) then Some (rp_chars p ! i) else None)"

definition rp_peek :: "rparser \<Rightarrow> rchar option" where
  "rp_peek p = rp_at p (rp_i p)"

definition rp_skip :: "nat \<Rightarrow> rparser \<Rightarrow> rparser" where
  "rp_skip n p = p\<lparr>rp_i := rp_i p + n\<rparr>"

definition rp_eat :: "rchar \<Rightarrow> rparser \<Rightarrow> bool \<times> rparser" where
  "rp_eat c p = (if rp_peek p = Some c then (True, rp_skip 1 p) else (False, p))"

text \<open>The loops that gather the digits of a bound; \<open>str::parse::<u32>\<close> of them.\<close>

function rp_digits :: "rstr \<Rightarrow> rparser \<Rightarrow> rstr \<times> rparser" where
  "rp_digits n p =
     (case rp_peek p of
        Some c \<Rightarrow> if is_ascii_digit c then rp_digits (n @ [c]) (rp_skip 1 p) else (n, p)
      | None \<Rightarrow> (n, p))"
  by pat_completeness auto
termination
  by (relation "measure (\<lambda>(n, p). length (rp_chars p) - rp_i p)")
    (auto simp: rp_peek_def rp_at_def rp_skip_def split: if_splits)

declare rp_digits.simps [simp del]

definition parse_u32 :: "rstr \<Rightarrow> nat option" where
  "parse_u32 s =
     (let v = foldl (\<lambda>v c. v * 10 + (c - (ch CHR ''0''))) 0 s
      in if s = [] \<or> \<not> list_all is_ascii_digit s \<or> u32_max < v then None else Some v)"

definition rp_bounds :: "rparser \<Rightarrow> (nat \<times> nat) option \<times> rparser" where
  "rp_bounds p =
     (let (n, p) = rp_digits [] p in
      if n = [] then (None, p)
      else case parse_u32 n of
        None \<Rightarrow> (None, p)
      | Some mn \<Rightarrow>
          let (close, p) = rp_eat (ch CHR ''}'') p in
          if close then (Some (mn, mn), p)
          else let (comma, p) = rp_eat (ch CHR '','') p in
          if \<not> comma then (None, p)
          else let (close, p) = rp_eat (ch CHR ''}'') p in
          if close then (Some (mn, u32_max), p)
          else let (m, p) = rp_digits [] p in
          case parse_u32 m of
            None \<Rightarrow> (None, p)
          | Some mx \<Rightarrow>
              let (close, p) = rp_eat (ch CHR ''}'') p in
              if \<not> close then (None, p) else (Some (mn, mx), p))"

definition rp_escape :: "rparser \<Rightarrow> (node \<times> rparser) outcome" where
  "rp_escape p =
     (case rp_peek p of
        None \<Rightarrow> Err (str ''trailing backslash'')
      | Some c \<Rightarrow>
          let p = rp_skip 1 p in
          if c = (ch CHR ''d'') then Ok (N_Class False [CI_Digit True], p)
          else if c = (ch CHR ''D'') then Ok (N_Class False [CI_Digit False], p)
          else if c = (ch CHR ''w'') then Ok (N_Class False [CI_Word True], p)
          else if c = (ch CHR ''W'') then Ok (N_Class False [CI_Word False], p)
          else if c = (ch CHR ''s'') then Ok (N_Class False [CI_Space True], p)
          else if c = (ch CHR ''S'') then Ok (N_Class False [CI_Space False], p)
          else if c = (ch CHR ''b'') then Ok (N_WordBoundary True, p)
          else if c = (ch CHR ''B'') then Ok (N_WordBoundary False, p)
          else if c = (ch CHR ''n'') then Ok (N_Char 10, p)
          else if c = (ch CHR ''r'') then Ok (N_Char 13, p)
          else if c = (ch CHR ''t'') then Ok (N_Char 9, p)
          else if c = (ch CHR ''0'') then Ok (N_Char 0, p)
          else if (ch CHR ''1'') \<le> c \<and> c \<le> (ch CHR ''9'') then Err (str ''backreferences are not supported'')
          else Ok (N_Char c, p))"

text \<open>The escapes inside a class: an item of their own, or the lower end of a range.\<close>

definition class_escape :: "rchar \<Rightarrow> class_item + rchar" where
  "class_escape e =
     (if e = (ch CHR ''d'') then Inl (CI_Digit True)
      else if e = (ch CHR ''D'') then Inl (CI_Digit False)
      else if e = (ch CHR ''w'') then Inl (CI_Word True)
      else if e = (ch CHR ''W'') then Inl (CI_Word False)
      else if e = (ch CHR ''s'') then Inl (CI_Space True)
      else if e = (ch CHR ''S'') then Inl (CI_Space False)
      else Inr (if e = (ch CHR ''n'') then 10 else if e = (ch CHR ''r'') then 13 else if e = (ch CHR ''t'') then 9 else e))"

text \<open>The rest of an iteration of the class loop once \<open>lo\<close> is known: a range or one character.\<close>

definition class_range :: "rchar \<Rightarrow> rparser \<Rightarrow> (class_item \<times> rparser) outcome" where
  "class_range lo p =
     (if rp_peek p = Some (ch CHR ''-'') \<and> (case rp_at p (rp_i p + 1) of Some c \<Rightarrow> c \<noteq> (ch CHR '']'') | None \<Rightarrow> False) then
        (let p = rp_skip 1 p in
         case rp_peek p of
           None \<Rightarrow> Err (str ''unclosed character class'')
         | Some hi \<Rightarrow>
             let p = rp_skip 1 p in
             if hi = 0x5C then
               (case rp_peek p of
                  None \<Rightarrow> Err (str ''trailing backslash'')
                | Some e \<Rightarrow> Ok (CI_Range lo e, rp_skip 1 p))
             else Ok (CI_Range lo hi, p))
      else Ok (CI_Ch lo, p))"

definition class_item_at :: "rchar \<Rightarrow> rparser \<Rightarrow> (class_item \<times> rparser) outcome" where
  "class_item_at c p =
     (if c = 0x5C then
        (case rp_peek p of
           None \<Rightarrow> Err (str ''trailing backslash'')
         | Some e \<Rightarrow>
             let p = rp_skip 1 p in
             case class_escape e of
               Inl item \<Rightarrow> Ok (item, p)
             | Inr lo \<Rightarrow> class_range lo p)
      else class_range c p)"

lemma class_item_at_advances:
  "class_item_at c p = Ok (item, q) \<Longrightarrow> rp_i p \<le> rp_i q \<and> rp_chars q = rp_chars p \<and> rp_groups q = rp_groups p
     \<and> (rp_i p \<le> length (rp_chars p) \<longrightarrow> rp_i q \<le> length (rp_chars q))"
  by (auto simp: class_item_at_def class_range_def Let_def rp_skip_def rp_peek_def rp_at_def
      split: if_splits option.splits sum.splits)

function class_loop :: "bool \<Rightarrow> class_item list \<Rightarrow> bool \<Rightarrow> rparser \<Rightarrow> (node \<times> rparser) outcome" where
  "class_loop negated items first p =
     (case rp_peek p of
        None \<Rightarrow> Err (str ''unclosed character class'')
      | Some c \<Rightarrow>
          if c = (ch CHR '']'') \<and> \<not> first then Ok (N_Class negated items, rp_skip 1 p)
          else (case class_item_at c (rp_skip 1 p) of
                  Ok (item, q) \<Rightarrow> class_loop negated (items @ [item]) False q
                | Err e \<Rightarrow> Err e
                | No_Fuel \<Rightarrow> No_Fuel))"
  by pat_completeness auto
termination
  by (relation "measure (\<lambda>(ng, items, f, p). length (rp_chars p) - rp_i p)")
    (auto simp: rp_peek_def rp_at_def dest!: class_item_at_advances split: if_splits,
      auto simp: rp_skip_def)

declare class_loop.simps [simp del]

definition rp_class :: "rparser \<Rightarrow> (node \<times> rparser) outcome" where
  "rp_class p = (let (negated, p) = rp_eat (ch CHR ''^'') p in class_loop negated [] True p)"

text \<open>What \<open>quantified\<close> reads after an atom: \<open>None\<close> when the atom stands alone.\<close>

definition rp_quantifier :: "rparser \<Rightarrow> ((nat \<times> nat) \<times> rparser) option" where
  "rp_quantifier p =
     (case rp_peek p of
        None \<Rightarrow> None
      | Some c \<Rightarrow>
          if c = (ch CHR ''*'') then Some ((0, u32_max), rp_skip 1 p)
          else if c = (ch CHR ''+'') then Some ((1, u32_max), rp_skip 1 p)
          else if c = (ch CHR ''?'') then Some ((0, 1), rp_skip 1 p)
          else if c = (ch CHR ''{'') then
            (case rp_bounds (rp_skip 1 p) of
               (Some b, q) \<Rightarrow> Some (b, q)
             | (None, q) \<Rightarrow> None)
          else None)"

text \<open>The index of a group whose parenthesis was just read.\<close>

definition rp_group_index :: "rparser \<Rightarrow> (nat option \<times> rparser) outcome" where
  "rp_group_index p =
     (if rp_peek p = Some (ch CHR ''?'') then
        (if rp_at p (rp_i p + 1) = Some (ch CHR '':'') then Ok (None, rp_skip 2 p)
         else Err (str ''lookaround and named groups are not supported''))
      else Ok (Some (rp_groups p + 1), p\<lparr>rp_groups := rp_groups p + 1\<rparr>))"

definition concat_of :: "node list \<Rightarrow> node" where
  "concat_of parts =
     (if length parts = 0 then N_Empty else if length parts = 1 then last parts else N_Concat parts)"

fun rp_alternation :: "nat \<Rightarrow> rparser \<Rightarrow> (node \<times> rparser) outcome"
and rp_arms :: "nat \<Rightarrow> node list \<Rightarrow> rparser \<Rightarrow> (node \<times> rparser) outcome"
and rp_concat :: "nat \<Rightarrow> node list \<Rightarrow> rparser \<Rightarrow> (node \<times> rparser) outcome"
and rp_quantified :: "nat \<Rightarrow> rparser \<Rightarrow> (node \<times> rparser) outcome"
and rp_atom :: "nat \<Rightarrow> rparser \<Rightarrow> (node \<times> rparser) outcome" where
  "rp_alternation 0 p = No_Fuel"
| "rp_alternation (Suc n) p =
     (case rp_concat n [] p of
        Ok (arm, p) \<Rightarrow> rp_arms n [arm] p
      | Err e \<Rightarrow> Err e
      | No_Fuel \<Rightarrow> No_Fuel)"
| "rp_arms 0 arms p = No_Fuel"
| "rp_arms (Suc n) arms p =
     (let (more, p) = rp_eat (ch CHR ''|'') p in
      if more then
        (case rp_concat n [] p of
           Ok (arm, p) \<Rightarrow> rp_arms n (arms @ [arm]) p
         | Err e \<Rightarrow> Err e
         | No_Fuel \<Rightarrow> No_Fuel)
      else Ok (if length arms = 1 then last arms else N_Alt arms, p))"
| "rp_concat 0 parts p = No_Fuel"
| "rp_concat (Suc n) parts p =
     (case rp_peek p of
        Some c \<Rightarrow>
          if c = (ch CHR ''|'') \<or> c = (ch CHR '')'') then Ok (concat_of parts, p)
          else (case rp_quantified n p of
                  Ok (part, p) \<Rightarrow> rp_concat n (parts @ [part]) p
                | Err e \<Rightarrow> Err e
                | No_Fuel \<Rightarrow> No_Fuel)
      | None \<Rightarrow> Ok (concat_of parts, p))"
| "rp_quantified 0 p = No_Fuel"
| "rp_quantified (Suc n) p =
     (case rp_atom n p of
        Ok (atom, p) \<Rightarrow>
          (case rp_quantifier p of
             None \<Rightarrow> Ok (atom, p)
           | Some ((mn, mx), p) \<Rightarrow>
               let (lazy, p) = rp_eat (ch CHR ''?'') p
               in Ok (N_Repeat atom mn mx (\<not> lazy), p))
      | Err e \<Rightarrow> Err e
      | No_Fuel \<Rightarrow> No_Fuel)"
| "rp_atom 0 p = No_Fuel"
| "rp_atom (Suc n) p =
     (case rp_peek p of
        None \<Rightarrow> Err (str ''unexpected end of pattern'')
      | Some c \<Rightarrow>
          let p = rp_skip 1 p in
          if c = (ch CHR ''.'') then Ok (N_Any, p)
          else if c = (ch CHR ''^'') then Ok (N_Start, p)
          else if c = (ch CHR ''$'') then Ok (N_End, p)
          else if c = (ch CHR ''('') then
            (case rp_group_index p of
               Ok (index, p) \<Rightarrow>
                 (case rp_alternation n p of
                    Ok (inner, p) \<Rightarrow>
                      let (closed, p) = rp_eat (ch CHR '')'') p in
                      if \<not> closed then Err (str ''unclosed group'')
                      else Ok (N_Group index inner, p)
                  | Err e \<Rightarrow> Err e
                  | No_Fuel \<Rightarrow> No_Fuel)
             | Err e \<Rightarrow> Err e
             | No_Fuel \<Rightarrow> No_Fuel)
          else if c = (ch CHR ''['') then rp_class p
          else if c = 0x5C then rp_escape p
          else if c = (ch CHR '')'') then Err (str ''unmatched `)`'')
          else if c = (ch CHR ''*'') \<or> c = (ch CHR ''+'') \<or> c = (ch CHR ''?'') then
            Err ((str ''nothing to repeat before `'') @ [c] @ (str ''`''))
          else Ok (N_Char c, p))"

definition regex_flag_error :: "rstr \<Rightarrow> rstr option" where
  "regex_flag_error flags =
     (case filter (\<lambda>f. f \<noteq> (ch CHR ''i'') \<and> f \<noteq> (ch CHR ''g'')) flags of
        [] \<Rightarrow> None
      | f # _ \<Rightarrow> Some ((str ''unknown regex flag `'') @ [f] @ (str ''`'')))"

definition parser_fuel :: "nat \<Rightarrow> nat" where
  "parser_fuel n = 6 * n + 6"

definition regex_new :: "rstr \<Rightarrow> rstr \<Rightarrow> regex outcome" where
  "regex_new pattern flags =
     (case regex_flag_error flags of
        Some e \<Rightarrow> Err e
      | None \<Rightarrow>
          (case rp_alternation (parser_fuel (length pattern))
                  \<lparr>rp_chars = pattern, rp_i = 0, rp_groups = 0\<rparr> of
             Ok (root, p) \<Rightarrow>
               if rp_i p \<noteq> length (rp_chars p)
               then Err ((str ''unexpected `'') @ [rp_chars p ! rp_i p] @ (str ''` in pattern''))
               else Ok \<lparr>rx_root = root, rx_group_count = rp_groups p,
                        rx_ignore_case = (ch CHR ''i'') \<in> set flags\<rparr>
           | Err e \<Rightarrow> Err e
           | No_Fuel \<Rightarrow> No_Fuel))"

section \<open>The matcher\<close>

type_synonym captures = "(nat \<times> nat) option list"

record ctx =
  cx_caps :: captures
  cx_steps :: nat

definition max_steps :: nat where
  "max_steps = 2000000"

definition eq_char :: "unicode \<Rightarrow> bool \<Rightarrow> rchar \<Rightarrow> rchar \<Rightarrow> bool" where
  "eq_char u ic a b \<longleftrightarrow> a = b \<or> ic \<and> u_lower u a = u_lower u b"

definition is_word :: "unicode \<Rightarrow> rchar \<Rightarrow> bool" where
  "is_word u c \<longleftrightarrow> u_alphanumeric u c \<or> c = (ch CHR ''_'')"

fun item_matches :: "unicode \<Rightarrow> bool \<Rightarrow> rchar \<Rightarrow> class_item \<Rightarrow> bool" where
  "item_matches u ic c (CI_Ch x) = eq_char u ic x c"
| "item_matches u ic c (CI_Range lo hi) =
     (lo \<le> c \<and> c \<le> hi
      \<or> ic \<and> list_ex (\<lambda>lc. lo \<le> lc \<and> lc \<le> hi) (u_lower u c)
      \<or> ic \<and> list_ex (\<lambda>uc. lo \<le> uc \<and> uc \<le> hi) (u_upper u c))"
| "item_matches u ic c (CI_Digit want) = (is_ascii_digit c = want)"
| "item_matches u ic c (CI_Word want) = (is_word u c = want)"
| "item_matches u ic c (CI_Space want) = (char_is_whitespace c = want)"

definition class_matches :: "unicode \<Rightarrow> bool \<Rightarrow> bool \<Rightarrow> class_item list \<Rightarrow> rchar \<Rightarrow> bool" where
  "class_matches u ic negated items c =
     (let hit = list_ex (item_matches u ic c) items in if negated then \<not> hit else hit)"

text \<open>The nodes that consume one character, and those that test a position.\<close>

fun step_matches :: "unicode \<Rightarrow> bool \<Rightarrow> rstr \<Rightarrow> nat \<Rightarrow> node \<Rightarrow> bool" where
  "step_matches u ic txt pos (N_Char c) = (pos < length txt \<and> eq_char u ic c (txt ! pos))"
| "step_matches u ic txt pos N_Any = (pos < length txt \<and> txt ! pos \<noteq> 10)"
| "step_matches u ic txt pos (N_Class negated items) =
     (pos < length txt \<and> class_matches u ic negated items (txt ! pos))"
| "step_matches u ic txt pos N_Start = (pos = 0)"
| "step_matches u ic txt pos N_End = (pos = length txt)"
| "step_matches u ic txt pos (N_WordBoundary want) =
     (((0 < pos \<and> is_word u (txt ! (pos - 1))) \<noteq> (pos < length txt \<and> is_word u (txt ! pos))) = want)"
| "step_matches u ic txt pos _ = False"

type_synonym cont = "ctx \<Rightarrow> nat \<Rightarrow> ctx \<times> nat option"
type_synonym matcher = "ctx \<Rightarrow> nat \<Rightarrow> cont \<Rightarrow> ctx \<times> nat option"

definition get_cap :: "nat option \<Rightarrow> ctx \<Rightarrow> (nat \<times> nat) option" where
  "get_cap index c = (case index of None \<Rightarrow> None | Some i \<Rightarrow> cx_caps c ! (i - 1))"

definition set_cap :: "nat option \<Rightarrow> (nat \<times> nat) option \<Rightarrow> ctx \<Rightarrow> ctx" where
  "set_cap index v c =
     (case index of None \<Rightarrow> c | Some i \<Rightarrow> c\<lparr>cx_caps := (cx_caps c)[i - 1 := v]\<rparr>)"

text \<open>
  An iteration that consumed nothing stops the repetition, so the positions of its
  iterations increase; the fuel counts the positions that are left.
\<close>

fun match_repeat :: "matcher \<Rightarrow> nat \<Rightarrow> nat \<Rightarrow> nat \<Rightarrow> bool \<Rightarrow> nat \<Rightarrow> matcher" where
  "match_repeat m 0 mn mx greedy cnt c pos k = (c, None)"
| "match_repeat m (Suc fuel) mn mx greedy cnt c pos k =
     (let can_more = cnt < mx;
          can_stop = mn \<le> cnt;
          iter = (\<lambda>c p. if p = pos then (c, None)
                        else match_repeat m fuel mn mx greedy (cnt + 1) c p k)
      in if greedy then
           (case (if can_more then m c pos iter else (c, None)) of
              (c, Some e) \<Rightarrow> (c, Some e)
            | (c, None) \<Rightarrow> if can_stop then k c pos else (c, None))
         else
           (case (if can_stop then k c pos else (c, None)) of
              (c, Some e) \<Rightarrow> (c, Some e)
            | (c, None) \<Rightarrow> if \<not> can_more then (c, None) else m c pos iter))"

fun match_node :: "unicode \<Rightarrow> bool \<Rightarrow> rstr \<Rightarrow> node \<Rightarrow> matcher"
and match_seq :: "unicode \<Rightarrow> bool \<Rightarrow> rstr \<Rightarrow> node list \<Rightarrow> matcher"
and match_arms :: "unicode \<Rightarrow> bool \<Rightarrow> rstr \<Rightarrow> node list \<Rightarrow> matcher" where
  "match_node u ic txt nd c pos k =
     (let c = c\<lparr>cx_steps := cx_steps c + 1\<rparr> in
      if max_steps < cx_steps c then (c, None)
      else case nd of
        N_Empty \<Rightarrow> k c pos
      | N_Char _ \<Rightarrow> if step_matches u ic txt pos nd then k c (pos + 1) else (c, None)
      | N_Any \<Rightarrow> if step_matches u ic txt pos nd then k c (pos + 1) else (c, None)
      | N_Class _ _ \<Rightarrow> if step_matches u ic txt pos nd then k c (pos + 1) else (c, None)
      | N_Start \<Rightarrow> if step_matches u ic txt pos nd then k c pos else (c, None)
      | N_End \<Rightarrow> if step_matches u ic txt pos nd then k c pos else (c, None)
      | N_WordBoundary _ \<Rightarrow> if step_matches u ic txt pos nd then k c pos else (c, None)
      | N_Group index inner \<Rightarrow>
          (case match_node u ic txt inner c pos (\<lambda>c2 e. k (set_cap index (Some (pos, e)) c2) e) of
             (c2, Some e) \<Rightarrow> (c2, Some e)
           | (c2, None) \<Rightarrow> (set_cap index (get_cap index c) c2, None))
      | N_Concat parts \<Rightarrow> match_seq u ic txt parts c pos k
      | N_Alt arms \<Rightarrow> match_arms u ic txt arms c pos k
      | N_Repeat inner mn mx greedy \<Rightarrow>
          match_repeat (\<lambda>c pos k. match_node u ic txt inner c pos k)
            (Suc (length txt - pos)) mn mx greedy 0 c pos k)"
| "match_seq u ic txt [] c pos k = k c pos"
| "match_seq u ic txt (nd # rest) c pos k =
     match_node u ic txt nd c pos (\<lambda>c p. match_seq u ic txt rest c p k)"
| "match_arms u ic txt [] c pos k = (c, None)"
| "match_arms u ic txt (arm # arms) c pos k =
     (case match_node u ic txt arm c pos k of
        (c, Some e) \<Rightarrow> (c, Some e)
      | (c, None) \<Rightarrow> match_arms u ic txt arms c pos k)"

declare match_node.simps [simp del]

text \<open>One attempt of \<open>find_at\<close>: fresh captures and a fresh budget.\<close>

definition attempt :: "unicode \<Rightarrow> regex \<Rightarrow> rstr \<Rightarrow> nat \<Rightarrow> ctx \<times> nat option" where
  "attempt u re txt start =
     match_node u (rx_ignore_case re) txt (rx_root re)
       \<lparr>cx_caps = replicate (rx_group_count re) None, cx_steps = 0\<rparr> start (\<lambda>c p. (c, Some p))"

function find_at :: "unicode \<Rightarrow> regex \<Rightarrow> rstr \<Rightarrow> nat \<Rightarrow> rmatch option" where
  "find_at u re txt start =
     (if length txt < start then None
      else case attempt u re txt start of
        (c, Some e) \<Rightarrow> Some \<lparr>m_start = start, m_end = e, m_groups = cx_caps c\<rparr>
      | (c, None) \<Rightarrow> find_at u re txt (start + 1))"
  by pat_completeness auto
termination
  by (relation "measure (\<lambda>(u, re, txt, start). Suc (length txt) - start)") auto

declare find_at.simps [simp del]

definition is_match :: "unicode \<Rightarrow> regex \<Rightarrow> rstr \<Rightarrow> bool" where
  "is_match u re txt \<longleftrightarrow> find_at u re txt 0 \<noteq> None"
section \<open>The reference: all results of a pattern, in order of preference\<close>

type_synonym result = "captures \<times> nat"

definition put_cap :: "nat option \<Rightarrow> (nat \<times> nat) option \<Rightarrow> captures \<Rightarrow> captures" where
  "put_cap index v a = (case index of None \<Rightarrow> a | Some i \<Rightarrow> a[i - 1 := v])"

fun path_repeat :: "(result \<Rightarrow> result list) \<Rightarrow> nat \<Rightarrow> nat \<Rightarrow> nat \<Rightarrow> bool \<Rightarrow> nat \<Rightarrow> result \<Rightarrow> result list" where
  "path_repeat m 0 mn mx greedy cnt st = []"
| "path_repeat m (Suc fuel) mn mx greedy cnt st =
     (let more = (if cnt < mx
                  then concat (map (\<lambda>st'. if snd st' = snd st then []
                                          else path_repeat m fuel mn mx greedy (cnt + 1) st') (m st))
                  else []);
          stop = (if mn \<le> cnt then [st] else [])
      in if greedy then more @ stop else stop @ more)"

fun paths :: "unicode \<Rightarrow> bool \<Rightarrow> rstr \<Rightarrow> node \<Rightarrow> result \<Rightarrow> result list"
and seq_paths :: "unicode \<Rightarrow> bool \<Rightarrow> rstr \<Rightarrow> node list \<Rightarrow> result \<Rightarrow> result list"
and arm_paths :: "unicode \<Rightarrow> bool \<Rightarrow> rstr \<Rightarrow> node list \<Rightarrow> result \<Rightarrow> result list" where
  "paths u ic txt N_Empty st = [st]"
| "paths u ic txt (N_Char c) st = (if step_matches u ic txt (snd st) (N_Char c) then [(fst st, snd st + 1)] else [])"
| "paths u ic txt N_Any st = (if step_matches u ic txt (snd st) N_Any then [(fst st, snd st + 1)] else [])"
| "paths u ic txt (N_Class b is) st =
     (if step_matches u ic txt (snd st) (N_Class b is) then [(fst st, snd st + 1)] else [])"
| "paths u ic txt N_Start st = (if step_matches u ic txt (snd st) N_Start then [st] else [])"
| "paths u ic txt N_End st = (if step_matches u ic txt (snd st) N_End then [st] else [])"
| "paths u ic txt (N_WordBoundary w) st =
     (if step_matches u ic txt (snd st) (N_WordBoundary w) then [st] else [])"
| "paths u ic txt (N_Group index inner) st =
     map (\<lambda>(caps, e). (put_cap index (Some (snd st, e)) caps, e))
       (paths u ic txt inner st)"
| "paths u ic txt (N_Concat parts) st = seq_paths u ic txt parts st"
| "paths u ic txt (N_Alt arms) st = arm_paths u ic txt arms st"
| "paths u ic txt (N_Repeat inner mn mx greedy) st =
     path_repeat (\<lambda>st. paths u ic txt inner st) (Suc (length txt - snd st)) mn mx greedy 0 st"
| "seq_paths u ic txt [] st = [st]"
| "seq_paths u ic txt (nd # rest) st =
     concat (map (\<lambda>st. seq_paths u ic txt rest st) (paths u ic txt nd st))"
| "arm_paths u ic txt [] st = []"
| "arm_paths u ic txt (arm # arms) st = paths u ic txt arm st @ arm_paths u ic txt arms st"

definition hd_opt :: "'a list \<Rightarrow> 'a option" where
  "hd_opt xs = (case xs of [] \<Rightarrow> None | x # _ \<Rightarrow> Some x)"

lemma hd_opt_simps [simp]:
  "hd_opt [] = None" "hd_opt (x # xs) = Some x"
  "hd_opt xs = None \<longleftrightarrow> xs = []" "None = hd_opt xs \<longleftrightarrow> xs = []"
  "hd_opt (xs @ ys) = (if xs = [] then hd_opt ys else hd_opt xs)"
  by (auto simp: hd_opt_def split: list.split)

definition each :: "('a \<Rightarrow> 'b list) \<Rightarrow> 'a list \<Rightarrow> 'b list" where
  "each f xs = concat (map f xs)"

lemma each_simps [simp]:
  "each f [] = []" "each f (x # xs) = f x @ each f xs" "each f (xs @ ys) = each f xs @ each f ys"
  "each f (map g xs) = each (\<lambda>x. f (g x)) xs" "each (\<lambda>x. [x]) xs = xs"
  by (induction xs) (simp_all add: each_def)

lemma each_concat: "each f (concat (map g xs)) = each (\<lambda>x. each f (g x)) xs"
  by (induction xs) (simp_all add: each_def)

text \<open>
  While a group is open the capture it will set may hold the value of an attempt that has
  failed; \<open>agree X\<close> compares captures apart from the entries of \<open>X\<close>.
\<close>

definition agree :: "nat set \<Rightarrow> captures \<Rightarrow> captures \<Rightarrow> bool" where
  "agree X a b \<longleftrightarrow> length a = length b \<and> (\<forall>j < length a. j \<notin> X \<longrightarrow> a ! j = b ! j)"

lemma agree_refl [simp]: "agree X a a"
  by (simp add: agree_def)

lemma agree_sym: "agree X a b \<Longrightarrow> agree X b a"
  by (auto simp: agree_def)

lemma agree_trans: "agree X a b \<Longrightarrow> agree X b c \<Longrightarrow> agree X a c"
  by (auto simp: agree_def)

lemma agree_empty [simp]: "agree {} a b \<longleftrightarrow> a = b"
  by (auto simp: agree_def list_eq_iff_nth_eq)

lemma agree_update: "agree (insert j X) a b \<Longrightarrow> agree X (a[j := v]) (b[j := v])"
  by (auto simp: agree_def) (metis insert_iff nth_list_update_eq nth_list_update_neq)

lemma agree_restore: "agree (insert j X) a b \<Longrightarrow> agree X (a[j := b ! j]) b"
  by (auto simp: agree_def) (metis nth_list_update_eq nth_list_update_neq)

lemma agree_insert: "agree X a b \<Longrightarrow> agree (insert j X) a b"
  by (auto simp: agree_def)

text \<open>
  The behaviour of a computation of the matcher that starts at \<open>c\<close>: it only spends
  steps; when it fails it has put the captures back; its answer is one of \<open>rs\<close>, and
  unless the budget is exhausted it is the first of them.
\<close>

definition behaves :: "nat set \<Rightarrow> ctx \<Rightarrow> (ctx \<times> nat option) \<Rightarrow> result list \<Rightarrow> bool" where
  "behaves X c out rs \<longleftrightarrow>
     cx_steps c \<le> cx_steps (fst out) \<and>
     (snd out = None \<longrightarrow> agree X (cx_caps (fst out)) (cx_caps c)) \<and>
     (\<forall>e. snd out = Some e \<longrightarrow> (cx_caps (fst out), e) \<in> set rs) \<and>
     (cx_steps (fst out) \<le> max_steps \<longrightarrow>
        map_option (\<lambda>e. (cx_caps (fst out), e)) (snd out) = hd_opt rs)"

definition cont_behaves :: "nat set \<Rightarrow> cont \<Rightarrow> (result \<Rightarrow> result list) \<Rightarrow> bool" where
  "cont_behaves X k f \<longleftrightarrow>
     (\<forall>c p a. agree X (cx_caps c) a \<longrightarrow> behaves X c (k c p) (f (a, p)))"

definition matcher_behaves :: "matcher \<Rightarrow> (result \<Rightarrow> result list) \<Rightarrow> bool" where
  "matcher_behaves m ps \<longleftrightarrow>
     (\<forall>X k f c p a. cont_behaves X k f \<longrightarrow> agree X (cx_caps c) a \<longrightarrow>
        behaves X c (m c p k) (each f (ps (a, p))))"

lemma matcher_behavesI:
  assumes "\<And>X k f c p a. cont_behaves X k f \<Longrightarrow> agree X (cx_caps c) a \<Longrightarrow>
    behaves X c (m c p k) (each f (ps (a, p)))"
  shows "matcher_behaves m ps"
  using assms by (simp add: matcher_behaves_def)

lemma matcher_behavesD:
  "matcher_behaves m ps \<Longrightarrow> cont_behaves X k f \<Longrightarrow> agree X (cx_caps c) a \<Longrightarrow>
    behaves X c (m c p k) (each f (ps (a, p)))"
  by (simp add: matcher_behaves_def)

lemma cont_behavesD: "cont_behaves X k f \<Longrightarrow> agree X (cx_caps c) a \<Longrightarrow> behaves X c (k c p) (f (a, p))"
  by (simp add: cont_behaves_def)

lemma behaves_fail [simp]: "behaves X c (c, None) []"
  by (simp add: behaves_def)

text \<open>Trying an alternative after a failure.\<close>

definition or_else :: "ctx \<times> nat option \<Rightarrow> (ctx \<Rightarrow> ctx \<times> nat option) \<Rightarrow> ctx \<times> nat option" where
  "or_else out alt = (case out of (c, Some e) \<Rightarrow> (c, Some e) | (c, None) \<Rightarrow> alt c)"

lemma behaves_or_else:
  assumes "behaves X c out rs" "\<And>c'. agree X (cx_caps c') (cx_caps c) \<Longrightarrow> behaves X c' (alt c') rs'"
  shows "behaves X c (or_else out alt) (rs @ rs')"
proof (cases out)
  case (Pair c' o')
  show ?thesis
  proof (cases o')
    case None
    then have "agree X (cx_caps c') (cx_caps c)" using assms(1) Pair by (simp add: behaves_def)
    moreover from this have "behaves X c' (alt c') rs'" by (rule assms(2))
    ultimately show ?thesis
      using assms(1) Pair None by (auto simp: behaves_def or_else_def intro: agree_trans)
  next
    case (Some e)
    then show ?thesis using assms(1) Pair by (auto simp: behaves_def or_else_def)
  qed
qed

lemma match_repeat_behaves:
  assumes "matcher_behaves m ps"
  shows "matcher_behaves (match_repeat m fuel mn mx greedy cnt) (path_repeat ps fuel mn mx greedy cnt)"
proof (induction fuel arbitrary: cnt)
  case 0
  show ?case by (simp add: matcher_behaves_def)
next
  case (Suc fuel)
  show ?case
  proof (rule matcher_behavesI)
    fix X k f p a and c :: ctx assume k: "cont_behaves X k f" and a: "agree X (cx_caps c) a"
    define iter where "iter = (\<lambda>c q. if q = p then (c, None) else match_repeat m fuel mn mx greedy (cnt + 1) c q k)"
    define g where "g = (\<lambda>st. if snd st = p then [] else each f (path_repeat ps fuel mn mx greedy (cnt + 1) st))"
    define mm where "mm = (\<lambda>c. if cnt < mx then m c p iter else (c, None))"
    define ss where "ss = (\<lambda>c. if mn \<le> cnt then k c p else (c, None))"
    define mr where "mr = (if cnt < mx then each g (ps (a, p)) else [])"
    define sr where "sr = (if mn \<le> cnt then f (a, p) else [])"
    have "cont_behaves X iter g"
      using matcher_behavesD [OF Suc.IH k] by (auto simp: cont_behaves_def iter_def g_def)
    then have more: "behaves X c' (mm c') mr" if "agree X (cx_caps c') a" for c'
      using matcher_behavesD [OF assms _ that] by (auto simp: mm_def mr_def)
    have stop: "behaves X c' (ss c') sr" if "agree X (cx_caps c') a" for c'
      using cont_behavesD [OF k that] by (auto simp: ss_def sr_def)
    have g_eq: "each f (concat (map (\<lambda>st'. if snd st' = p then [] else path_repeat ps fuel mn mx greedy (cnt + 1) st') xs))
        = each g xs" for xs
      unfolding each_concat by (rule arg_cong [where f = "\<lambda>h. each h xs"]) (auto simp: g_def)
    have run: "match_repeat m (Suc fuel) mn mx greedy cnt c p k = (if greedy then or_else (mm c) ss else or_else (ss c) mm)"
      unfolding match_repeat.simps Let_def iter_def [symmetric]
      by (cases greedy; cases "cnt < mx"; cases "mn \<le> cnt") (simp_all add: or_else_def mm_def ss_def)
    have ref: "each f (path_repeat ps (Suc fuel) mn mx greedy cnt (a, p)) =
        (if greedy then mr @ sr else sr @ mr)"
      by (simp add: Let_def g_eq mr_def sr_def)
    have tr: "agree X (cx_caps c') a" if "agree X (cx_caps c') (cx_caps c)" for c'
      using that a by (rule agree_trans)
    show "behaves X c (match_repeat m (Suc fuel) mn mx greedy cnt c p k)
        (each f (path_repeat ps (Suc fuel) mn mx greedy cnt (a, p)))"
      unfolding run ref
      using behaves_or_else [OF more [OF a] stop [OF tr]] behaves_or_else [OF stop [OF a] more [OF tr]]
      by simp
  qed
qed

lemma match_seq_behaves:
  assumes "\<And>nd. nd \<in> set nds \<Longrightarrow> matcher_behaves (match_node u ic txt nd) (paths u ic txt nd)"
  shows "matcher_behaves (match_seq u ic txt nds) (seq_paths u ic txt nds)"
  using assms
proof (induction nds)
  case Nil
  show ?case by (simp add: matcher_behaves_def cont_behaves_def)
next
  case (Cons nd nds)
  show ?case
  proof (rule matcher_behavesI)
    fix X k f p a and c :: ctx assume k: "cont_behaves X k f" and a: "agree X (cx_caps c) a"
    have "cont_behaves X (\<lambda>c p. match_seq u ic txt nds c p k) (\<lambda>st. each f (seq_paths u ic txt nds st))"
      using Cons k by (simp add: matcher_behaves_def cont_behaves_def)
    then show "behaves X c (match_seq u ic txt (nd # nds) c p k)
        (each f (seq_paths u ic txt (nd # nds) (a, p)))"
      using matcher_behavesD [OF Cons.prems [of nd]] a by (simp add: each_concat)
  qed
qed

lemma match_arms_behaves:
  assumes "\<And>nd. nd \<in> set nds \<Longrightarrow> matcher_behaves (match_node u ic txt nd) (paths u ic txt nd)"
  shows "matcher_behaves (match_arms u ic txt nds) (arm_paths u ic txt nds)"
  using assms
proof (induction nds)
  case Nil
  show ?case by (simp add: matcher_behaves_def)
next
  case (Cons nd nds)
  show ?case
  proof (rule matcher_behavesI)
    fix X k f p a and c :: ctx assume k: "cont_behaves X k f" and a: "agree X (cx_caps c) a"
    have tl: "behaves X c' (match_arms u ic txt nds c' p k) (each f (arm_paths u ic txt nds (a, p)))"
      if "agree X (cx_caps c') (cx_caps c)" for c'
      using matcher_behavesD [OF Cons.IH k] Cons.prems agree_trans [OF that a] by simp
    have "behaves X c (match_node u ic txt nd c p k) (each f (paths u ic txt nd (a, p)))"
      using matcher_behavesD [OF Cons.prems k a] by simp
    from behaves_or_else [OF this tl]
    show "behaves X c (match_arms u ic txt (nd # nds) c p k)
        (each f (arm_paths u ic txt (nd # nds) (a, p)))"
      by (simp add: or_else_def)
  qed
qed

text \<open>Entering a node spends a step; a group's continuation sets its capture.\<close>

lemma behaves_step:
  assumes "behaves X (c\<lparr>cx_steps := cx_steps c + 1\<rparr>) out rs"
  shows "behaves X c (if max_steps < cx_steps c + 1 then (c\<lparr>cx_steps := cx_steps c + 1\<rparr>, None) else out) rs"
  using assms by (auto simp: behaves_def)

lemma cx_set_cap [simp]:
  "cx_caps (set_cap index v c) = put_cap index v (cx_caps c)"
  "cx_steps (set_cap index v c) = cx_steps c"
  by (auto simp: set_cap_def put_cap_def split: option.split)

definition opened :: "nat option \<Rightarrow> nat set \<Rightarrow> nat set" where
  "opened index X = (case index of None \<Rightarrow> X | Some i \<Rightarrow> insert (i - 1) X)"

lemma agree_put_cap: "agree (opened index X) a b \<Longrightarrow> agree X (put_cap index v a) (put_cap index v b)"
  by (cases index) (auto simp: opened_def put_cap_def intro: agree_update)

lemma agree_opened: "agree X a b \<Longrightarrow> agree (opened index X) a b"
  by (cases index) (auto simp: opened_def intro: agree_insert)

lemma agree_put_opened: "agree (opened index X) a (put_cap index v b) \<Longrightarrow> agree (opened index X) a b"
  by (cases index) (auto simp: opened_def put_cap_def agree_def nth_list_update)

lemma agree_put_back:
  "agree (opened index X) a (cx_caps c) \<Longrightarrow> agree X (put_cap index (get_cap index c) a) (cx_caps c)"
  by (cases index) (auto simp: opened_def put_cap_def get_cap_def intro: agree_restore)

lemma match_group_behaves:
  assumes m: "matcher_behaves m ps"
  shows "matcher_behaves
    (\<lambda>c pos k. or_else (m c pos (\<lambda>c2 e. k (set_cap index (Some (pos, e)) c2) e))
                 (\<lambda>c2. (set_cap index (get_cap index c) c2, None)))
    (\<lambda>st. map (\<lambda>(b, e). (put_cap index (Some (snd st, e)) b, e)) (ps st))"
proof (rule matcher_behavesI)
  fix X k f p a and c :: ctx assume k: "cont_behaves X k f" and a: "agree X (cx_caps c) a"
  define k' where "k' = (\<lambda>c2 e. k (set_cap index (Some (p, e)) c2) e)"
  define f' where "f' = (\<lambda>(b, e). f (put_cap index (Some (p, e)) b, e))"
  have k': "cont_behaves (opened index X) k' f'"
    unfolding cont_behaves_def
  proof (intro allI impI)
    fix e b and c2 :: ctx assume "agree (opened index X) (cx_caps c2) b"
    then have "agree X (cx_caps (set_cap index (Some (p, e)) c2)) (put_cap index (Some (p, e)) b)"
      by (simp add: agree_put_cap)
    from cont_behavesD [OF k this, of e]
    show "behaves (opened index X) c2 (k' c2 e) (f' (b, e))"
      by (auto simp: behaves_def k'_def f'_def dest: agree_opened [of X _ _ index] agree_put_opened)
  qed
  have "behaves (opened index X) c (m c p k') (each f' (ps (a, p)))"
    using matcher_behavesD [OF m k' agree_opened [OF a]] .
  moreover have "each f (map (\<lambda>(b, e). (put_cap index (Some (p, e)) b, e)) (ps (a, p))) = each f' (ps (a, p))"
    by (simp add: f'_def case_prod_unfold)
  ultimately show "behaves X c (or_else (m c p (\<lambda>c2 e. k (set_cap index (Some (p, e)) c2) e))
                 (\<lambda>c2. (set_cap index (get_cap index c) c2, None)))
     (each f (map (\<lambda>(b, e). (put_cap index (Some (snd (a, p), e)) b, e)) (ps (a, p))))"
    unfolding k'_def [symmetric]
    by (cases "m c p k'"; cases "snd (m c p k')")
      (auto simp: behaves_def or_else_def intro: agree_put_back)
qed

lemma behaves_leaf:
  assumes "cont_behaves X k f" "agree X (cx_caps c) a"
  shows "behaves X c
     (if max_steps < Suc (cx_steps c) then (c\<lparr>cx_steps := Suc (cx_steps c)\<rparr>, None)
      else if b then k (c\<lparr>cx_steps := Suc (cx_steps c)\<rparr>) q else (c\<lparr>cx_steps := Suc (cx_steps c)\<rparr>, None))
     (each f (if b then [(a, q)] else []))"
  using assms unfolding Suc_eq_plus1 by (intro behaves_step) (auto simp: cont_behaves_def)

lemmas leaf_simps = match_node.simps [of _ _ _ N_Empty] match_node.simps [of _ _ _ "N_Char c" for c]
  match_node.simps [of _ _ _ N_Any] match_node.simps [of _ _ _ "N_Class b is" for b "is"]
  match_node.simps [of _ _ _ N_Start] match_node.simps [of _ _ _ N_End]
  match_node.simps [of _ _ _ "N_WordBoundary w" for w]

lemma match_node_behaves: "matcher_behaves (match_node u ic txt nd) (paths u ic txt nd)"
proof (induction nd rule: node.induct)
  case (N_Group index inner)
  show ?case
  proof (rule matcher_behavesI)
    fix X k f p a and c :: ctx assume k: "cont_behaves X k f" and a: "agree X (cx_caps c) a"
    let ?c = "c\<lparr>cx_steps := cx_steps c + 1\<rparr>"
    note group = match_group_behaves [OF N_Group, of index]
    have "agree X (cx_caps ?c) a" using a by simp
    from behaves_step [OF matcher_behavesD [OF group k this, of p]]
    show "behaves X c (match_node u ic txt (N_Group index inner) c p k)
        (each f (paths u ic txt (N_Group index inner) (a, p)))"
      by (simp add: match_node.simps [of u ic "txt" "N_Group index inner"] Let_def or_else_def split del: if_split cong: if_cong)
  qed
next
  case (N_Repeat inner mn mx greedy)
  show ?case
  proof (rule matcher_behavesI)
    fix X k f p a and c :: ctx assume k: "cont_behaves X k f" and a: "agree X (cx_caps c) a"
    let ?c = "c\<lparr>cx_steps := cx_steps c + 1\<rparr>"
    note rep = match_repeat_behaves [OF N_Repeat, of "Suc (length txt - p)" mn mx greedy 0]
    have "agree X (cx_caps ?c) a" using a by simp
    from behaves_step [OF matcher_behavesD [OF rep k this, of p]]
    show "behaves X c (match_node u ic txt (N_Repeat inner mn mx greedy) c p k)
        (each f (paths u ic txt (N_Repeat inner mn mx greedy) (a, p)))"
      by (simp add: match_node.simps [of u ic "txt" "N_Repeat inner mn mx greedy"] Let_def
          del: match_repeat.simps path_repeat.simps split del: if_split cong: if_cong)
  qed
next
  case (N_Concat nds)
  show ?case
  proof (rule matcher_behavesI)
    fix X k f p a and c :: ctx assume k: "cont_behaves X k f" and a: "agree X (cx_caps c) a"
    let ?c = "c\<lparr>cx_steps := cx_steps c + 1\<rparr>"
    note body = match_seq_behaves [of nds u ic "txt", OF N_Concat]
    have "agree X (cx_caps ?c) a" using a by simp
    from behaves_step [OF matcher_behavesD [OF body k this, of p]]
    show "behaves X c (match_node u ic txt (N_Concat nds) c p k)
        (each f (paths u ic txt (N_Concat nds) (a, p)))"
      by (simp add: match_node.simps [of u ic "txt" "N_Concat nds"] Let_def split del: if_split cong: if_cong)
  qed
next
  case (N_Alt nds)
  show ?case
  proof (rule matcher_behavesI)
    fix X k f p a and c :: ctx assume k: "cont_behaves X k f" and a: "agree X (cx_caps c) a"
    let ?c = "c\<lparr>cx_steps := cx_steps c + 1\<rparr>"
    note body = match_arms_behaves [of nds u ic "txt", OF N_Alt]
    have "agree X (cx_caps ?c) a" using a by simp
    from behaves_step [OF matcher_behavesD [OF body k this, of p]]
    show "behaves X c (match_node u ic txt (N_Alt nds) c p k)
        (each f (paths u ic txt (N_Alt nds) (a, p)))"
      by (simp add: match_node.simps [of u ic "txt" "N_Alt nds"] Let_def split del: if_split cong: if_cong)
  qed
next
  case N_Empty
  show ?case
    using behaves_leaf [where b = True]
    by (simp add: matcher_behaves_def leaf_simps Let_def split del: if_split cong: if_cong)
qed (simp_all add: matcher_behaves_def leaf_simps Let_def behaves_leaf del: step_matches.simps split del: if_split cong: if_cong)

text \<open>
  An attempt answers one of the results of the pattern, the first when the budget was
  enough.
\<close>

definition results :: "unicode \<Rightarrow> regex \<Rightarrow> rstr \<Rightarrow> nat \<Rightarrow> result list" where
  "results u re txt start =
     paths u (rx_ignore_case re) txt (rx_root re) (replicate (rx_group_count re) None, start)"

lemma attempt_behaves:
  "behaves {} \<lparr>cx_caps = replicate (rx_group_count re) None, cx_steps = 0\<rparr>
     (attempt u re txt start) (results u re txt start)"
proof -
  let ?c = "\<lparr>cx_caps = replicate (rx_group_count re) None, cx_steps = 0\<rparr>"
  have k: "cont_behaves {} (\<lambda>c p. (c, Some p)) (\<lambda>st. [st])"
    by (auto simp: cont_behaves_def behaves_def)
  have "behaves {} ?c (match_node u (rx_ignore_case re) txt (rx_root re) ?c start (\<lambda>c p. (c, Some p)))
      (each (\<lambda>st. [st]) (results u re txt start))"
    unfolding results_def by (rule matcher_behavesD [OF match_node_behaves k]) simp
  then show ?thesis by (simp add: attempt_def)
qed

lemma attempt_sound:
  "attempt u re txt start = (c, Some e) \<Longrightarrow> (cx_caps c, e) \<in> set (results u re txt start)"
  using attempt_behaves [of re u "txt" start] by (simp add: behaves_def)

lemma attempt_first:
  "attempt u re txt start = (c, out) \<Longrightarrow> cx_steps c \<le> max_steps \<Longrightarrow>
    map_option (\<lambda>e. (cx_caps c, e)) out = hd_opt (results u re txt start)"
  using attempt_behaves [of re u "txt" start] by (simp add: behaves_def)
section \<open>The language of a pattern\<close>

text \<open>
  Which spans a pattern matches, without captures and preferences.  An iteration of a
  repetition consumes at least one character, the required ones too.
\<close>

inductive matches :: "unicode \<Rightarrow> bool \<Rightarrow> rstr \<Rightarrow> node \<Rightarrow> nat \<Rightarrow> nat \<Rightarrow> bool"
  and iterates :: "unicode \<Rightarrow> bool \<Rightarrow> rstr \<Rightarrow> node \<Rightarrow> nat \<Rightarrow> nat \<Rightarrow> nat \<Rightarrow> bool"
  for u :: unicode and ic :: bool and "txt" :: rstr where
  M_Empty: "matches u ic txt N_Empty p p"
| M_Char: "step_matches u ic txt p (N_Char c) \<Longrightarrow> matches u ic txt (N_Char c) p (p + 1)"
| M_Any: "step_matches u ic txt p N_Any \<Longrightarrow> matches u ic txt N_Any p (p + 1)"
| M_Class: "step_matches u ic txt p (N_Class b is) \<Longrightarrow> matches u ic txt (N_Class b is) p (p + 1)"
| M_Start: "step_matches u ic txt p N_Start \<Longrightarrow> matches u ic txt N_Start p p"
| M_End: "step_matches u ic txt p N_End \<Longrightarrow> matches u ic txt N_End p p"
| M_WordBoundary: "step_matches u ic txt p (N_WordBoundary w) \<Longrightarrow> matches u ic txt (N_WordBoundary w) p p"
| M_Group: "matches u ic txt nd p q \<Longrightarrow> matches u ic txt (N_Group index nd) p q"
| M_Concat_Nil: "matches u ic txt (N_Concat []) p p"
| M_Concat: "matches u ic txt nd p q \<Longrightarrow> matches u ic txt (N_Concat nds) q r \<Longrightarrow>
    matches u ic txt (N_Concat (nd # nds)) p r"
| M_Alt: "nd \<in> set nds \<Longrightarrow> matches u ic txt nd p q \<Longrightarrow> matches u ic txt (N_Alt nds) p q"
| M_Repeat: "iterates u ic txt nd n p q \<Longrightarrow> mn \<le> n \<Longrightarrow> n \<le> mx \<Longrightarrow>
    matches u ic txt (N_Repeat nd mn mx greedy) p q"
| I_0: "iterates u ic txt nd 0 p p"
| I_Suc: "matches u ic txt nd p q \<Longrightarrow> q \<noteq> p \<Longrightarrow> iterates u ic txt nd n q r \<Longrightarrow>
    iterates u ic txt nd (Suc n) p r"

lemmas matches_intros = matches_iterates.intros

inductive_simps iterates_simps [simp]:
  "iterates u ic txt nd 0 p q" "iterates u ic txt nd (Suc n) p q"

inductive_simps matches_simps [simp]:
  "matches u ic txt N_Empty p q"
  "matches u ic txt (N_Char c) p q"
  "matches u ic txt N_Any p q"
  "matches u ic txt (N_Class b is) p q"
  "matches u ic txt N_Start p q"
  "matches u ic txt N_End p q"
  "matches u ic txt (N_WordBoundary w) p q"
  "matches u ic txt (N_Group index nd) p q"
  "matches u ic txt (N_Concat []) p q"
  "matches u ic txt (N_Concat (nd # nds)) p q"
  "matches u ic txt (N_Alt nds) p q"
  "matches u ic txt (N_Repeat nd mn mx greedy) p q"

lemma matches_bounds:
  "matches u ic txt nd p q \<Longrightarrow> p \<le> q \<and> (p \<le> length txt \<longrightarrow> q \<le> length txt)"
  "iterates u ic txt nd n p q \<Longrightarrow> p + n \<le> q \<and> (p \<le> length txt \<longrightarrow> q \<le> length txt)"
  by (induction rule: matches_iterates.inducts) auto

lemma path_repeat_iterates:
  assumes m: "\<And>st st'. st' \<in> set (m st) \<Longrightarrow> matches u ic txt nd (snd st) (snd st')"
    and "st' \<in> set (path_repeat m fuel mn mx greedy cnt st)"
  shows "\<exists>n. iterates u ic txt nd n (snd st) (snd st') \<and> mn \<le> cnt + n \<and> (n = 0 \<or> cnt + n \<le> mx)"
  using assms(2)
proof (induction fuel arbitrary: cnt st)
  case (Suc fuel)
  then consider "st' = st" "mn \<le> cnt"
    | st1 where "cnt < mx" "st1 \<in> set (m st)" "snd st1 \<noteq> snd st"
        "st' \<in> set (path_repeat m fuel mn mx greedy (cnt + 1) st1)"
    by (auto simp: Let_def split: if_splits)
  then show ?case
  proof cases
    case 1
    then show ?thesis by (intro exI [of _ 0]) simp
  next
    case 2
    from Suc.IH [OF 2(4)] obtain n where n: "iterates u ic txt nd n (snd st1) (snd st')"
      "mn \<le> cnt + 1 + n" "n = 0 \<or> cnt + 1 + n \<le> mx" by auto
    have "iterates u ic txt nd (Suc n) (snd st) (snd st')"
      using m [OF 2(2)] 2(3) n(1) by (auto simp del: iterates_simps(1))
    then show ?thesis using n 2(1) by (intro exI [of _ "Suc n"]) auto
  qed
qed simp

lemma arm_paths_iff: "st' \<in> set (arm_paths u ic txt nds st) \<longleftrightarrow> (\<exists>nd \<in> set nds. st' \<in> set (paths u ic txt nd st))"
  by (induction nds) auto

lemma paths_matches: "st' \<in> set (paths u ic txt nd st) \<Longrightarrow> matches u ic txt nd (snd st) (snd st')"
proof (induction nd arbitrary: st st' rule: node.induct)
  case (N_Concat nds)
  have "st' \<in> set (seq_paths u ic txt nds st) \<Longrightarrow> matches u ic txt (N_Concat nds) (snd st) (snd st')" for st
    using N_Concat.IH
  proof (induction nds arbitrary: st)
    case (Cons nd nds)
    from Cons.prems(1) obtain st1 where "st1 \<in> set (paths u ic txt nd st)" "st' \<in> set (seq_paths u ic txt nds st1)"
      by auto
    then show ?case using Cons.IH Cons.prems(2) by (metis M_Concat list.set_intros)
  qed simp
  then show ?case using N_Concat.prems by simp
next
  case (N_Alt nds)
  then obtain nd where nd: "nd \<in> set nds" "st' \<in> set (paths u ic txt nd st)" by (auto simp: arm_paths_iff)
  show ?case by (rule M_Alt [OF nd(1) N_Alt.IH [OF nd]])
next
  case (N_Repeat nd mn mx greedy)
  then obtain n where "iterates u ic txt nd n (snd st) (snd st')" "mn \<le> n" "n = 0 \<or> n \<le> mx"
    using path_repeat_iterates [of "paths u ic txt nd" u ic "txt" nd st']
    by (metis N_Repeat.IH add_0 paths.simps(11))
  then show ?case by (intro M_Repeat) auto
qed (auto split: if_splits)

lemma iterates_path_repeat:
  assumes m: "\<And>p q a. p \<le> length txt \<Longrightarrow> matches u ic txt nd p q \<Longrightarrow> \<exists>a'. (a', q) \<in> set (m (a, p))"
    and "iterates u ic txt nd n p q" "n < fuel" "mn \<le> cnt + n" "n = 0 \<or> cnt + n \<le> mx" "p \<le> length txt"
  shows "\<exists>a'. (a', q) \<in> set (path_repeat m fuel mn mx greedy cnt (a, p))"
  using assms(2-)
proof (induction n arbitrary: fuel cnt p a)
  case 0
  then show ?case by (cases fuel) (auto simp: Let_def)
next
  case (Suc n)
  then obtain f p1 where f: "fuel = Suc f" and p1: "matches u ic txt nd p p1" "p1 \<noteq> p" "iterates u ic txt nd n p1 q"
    by (cases fuel) auto
  have le: "p1 \<le> length txt" using matches_bounds(1) [OF p1(1)] Suc.prems by simp
  obtain a1 where a1: "(a1, p1) \<in> set (m (a, p))" using m [OF _ p1(1)] Suc.prems by blast
  obtain a' where "(a', q) \<in> set (path_repeat m f mn mx greedy (cnt + 1) (a1, p1))"
    using Suc.IH [OF p1(3), of f "cnt + 1" a1] Suc.prems f le by auto
  then show ?case using a1 p1(2) Suc.prems f
    by (auto simp: Let_def intro!: exI [of _ a'] bexI [of _ "(a1, p1)"])
qed

lemma matches_paths:
  "matches u ic txt nd p q \<Longrightarrow> p \<le> length txt \<Longrightarrow> \<exists>a'. (a', q) \<in> set (paths u ic txt nd (a, p))"
proof (induction nd arbitrary: p q a rule: node.induct)
  case (N_Group index nd)
  then obtain a' where "(a', q) \<in> set (paths u ic txt nd (a, p))" by fastforce
  then show ?case by force
next
  case (N_Concat nds)
  have "matches u ic txt (N_Concat nds) p q \<Longrightarrow> p \<le> length txt \<Longrightarrow>
      \<exists>a'. (a', q) \<in> set (seq_paths u ic txt nds (a, p))" for p a
    using N_Concat.IH
  proof (induction nds arbitrary: p a)
    case (Cons nd nds)
    from Cons.prems(1) obtain p1 where p1: "matches u ic txt nd p p1" "matches u ic txt (N_Concat nds) p1 q"
      by auto
    obtain a1 where a1: "(a1, p1) \<in> set (paths u ic txt nd (a, p))"
      using Cons.prems(3) [OF _ p1(1)] Cons.prems(2) by auto
    have "p1 \<le> length txt" using matches_bounds(1) [OF p1(1)] Cons.prems(2) by simp
    from Cons.IH [OF p1(2) this] obtain a' where "(a', q) \<in> set (seq_paths u ic txt nds (a1, p1))"
      using Cons.prems(3) by (metis list.set_intros(2))
    then show ?case using a1 by (auto intro!: exI [of _ a'] bexI [of _ "(a1, p1)"])
  qed simp
  then show ?case using N_Concat.prems by simp
next
  case (N_Alt nds)
  then obtain nd where nd: "nd \<in> set nds" "matches u ic txt nd p q" by auto
  from N_Alt.IH [OF nd] N_Alt.prems obtain a' where "(a', q) \<in> set (paths u ic txt nd (a, p))" by blast
  then show ?case using nd(1) by (auto simp: arm_paths_iff)
next
  case (N_Repeat nd mn mx greedy)
  then obtain n where n: "iterates u ic txt nd n p q" "mn \<le> n" "n \<le> mx" by auto
  have "n < Suc (length txt - p)" using matches_bounds(2) [OF n(1)] N_Repeat.prems by auto
  moreover have "p \<le> length txt \<Longrightarrow> matches u ic txt nd p q \<Longrightarrow> \<exists>a'. (a', q) \<in> set (paths u ic txt nd (a, p))" for p q a
    using N_Repeat.IH by blast
  ultimately have "\<exists>a'. (a', q) \<in> set (path_repeat (paths u ic txt nd) (Suc (length txt - p)) mn mx greedy 0 (a, p))"
    using n N_Repeat.prems by (intro iterates_path_repeat [where n = n]) auto
  then show ?case by (simp del: path_repeat.simps)
qed auto

lemma paths_iff_matches:
  "p \<le> length txt \<Longrightarrow> (\<exists>a'. (a', q) \<in> set (paths u ic txt nd (a, p))) \<longleftrightarrow> matches u ic txt nd p q"
  using matches_paths paths_matches [of "(_, q)" u ic "txt" nd "(a, p)"] by fastforce
text \<open>Captures are spans between the start of the attempt and the position reached.\<close>

definition caps_in :: "nat \<Rightarrow> nat \<Rightarrow> captures \<Rightarrow> bool" where
  "caps_in lo hi a \<longleftrightarrow> list_all (\<lambda>c. case c of None \<Rightarrow> True | Some (x, y) \<Rightarrow> lo \<le> x \<and> x \<le> y \<and> y \<le> hi) a"

lemma caps_in_mono: "caps_in lo hi a \<Longrightarrow> hi \<le> hi' \<Longrightarrow> caps_in lo hi' a"
  by (fastforce simp: caps_in_def list_all_iff split: option.splits)

lemma caps_in_put:
  "caps_in lo hi a \<Longrightarrow> lo \<le> x \<Longrightarrow> x \<le> y \<Longrightarrow> y \<le> hi \<Longrightarrow> caps_in lo hi (put_cap index (Some (x, y)) a)"
  by (cases index) (auto simp: caps_in_def list_all_iff put_cap_def dest!: set_update_subset_insert [THEN subsetD])

lemma caps_in_replicate [simp]: "caps_in lo hi (replicate n None)"
  by (simp add: caps_in_def list_all_iff)

lemma length_put_cap [simp]: "length (put_cap index v a) = length a"
  by (cases index) (simp_all add: put_cap_def)

definition path_ok :: "nat \<Rightarrow> result \<Rightarrow> result \<Rightarrow> bool" where
  "path_ok lo st st' \<longleftrightarrow> snd st \<le> snd st' \<and> length (fst st') = length (fst st) \<and> caps_in lo (snd st') (fst st')"

lemma path_ok_trans: "path_ok lo a b \<Longrightarrow> path_ok lo b c \<Longrightarrow> path_ok lo a c"
  by (auto simp: path_ok_def)

lemma path_repeat_ok:
  assumes "\<And>st st'. st' \<in> set (m st) \<Longrightarrow> lo \<le> snd st \<Longrightarrow> caps_in lo (snd st) (fst st) \<Longrightarrow> path_ok lo st st'"
    and "st' \<in> set (path_repeat m fuel mn mx greedy cnt st)" "lo \<le> snd st" "caps_in lo (snd st) (fst st)"
  shows "path_ok lo st st'"
  using assms(2-)
proof (induction fuel arbitrary: cnt st)
  case (Suc fuel)
  then consider "st' = st"
    | st1 where "st1 \<in> set (m st)" "st' \<in> set (path_repeat m fuel mn mx greedy (cnt + 1) st1)"
    by (auto simp: Let_def split: if_splits)
  then show ?case
  proof cases
    case 1
    then show ?thesis using Suc.prems by (simp add: path_ok_def)
  next
    case 2
    then have "path_ok lo st st1" using assms(1) Suc.prems by blast
    moreover from this have "path_ok lo st1 st'"
      using Suc.IH [OF 2(2)] Suc.prems by (auto simp: path_ok_def)
    ultimately show ?thesis by (rule path_ok_trans)
  qed
qed simp

lemma paths_ok:
  "st' \<in> set (paths u ic txt nd st) \<Longrightarrow> lo \<le> snd st \<Longrightarrow> caps_in lo (snd st) (fst st) \<Longrightarrow> path_ok lo st st'"
proof (induction nd arbitrary: st st' rule: node.induct)
  case (N_Group index nd)
  then obtain a e where "(a, e) \<in> set (paths u ic txt nd st)" "st' = (put_cap index (Some (snd st, e)) a, e)"
    by auto
  moreover from this N_Group have "path_ok lo st (a, e)" by blast
  ultimately show ?case using N_Group.prems by (auto simp: path_ok_def intro: caps_in_put)
next
  case (N_Concat nds)
  have "st' \<in> set (seq_paths u ic txt nds st) \<Longrightarrow> lo \<le> snd st \<Longrightarrow> caps_in lo (snd st) (fst st) \<Longrightarrow> path_ok lo st st'" for st
    using N_Concat.IH
  proof (induction nds arbitrary: st)
    case Nil
    then show ?case by (simp add: path_ok_def)
  next
    case (Cons nd nds)
    from Cons.prems(1) obtain st1 where st1: "st1 \<in> set (paths u ic txt nd st)" "st' \<in> set (seq_paths u ic txt nds st1)"
      by auto
    have 1: "path_ok lo st st1" using Cons.prems(4) [OF _ st1(1)] Cons.prems(2,3) by simp
    have "lo \<le> snd st1" "caps_in lo (snd st1) (fst st1)" using 1 Cons.prems(2) by (auto simp: path_ok_def)
    from Cons.IH [OF st1(2) this] have "path_ok lo st1 st'"
      using Cons.prems(4) by (meson list.set_intros(2))
    with 1 show ?case by (rule path_ok_trans)
  qed
  then show ?case using N_Concat.prems by simp
next
  case (N_Alt nds)
  then obtain nd where nd: "nd \<in> set nds" "st' \<in> set (paths u ic txt nd st)" by (auto simp: arm_paths_iff)
  from N_Alt.IH [OF nd] N_Alt.prems show ?case by blast
next
  case (N_Repeat nd mn mx greedy)
  then show ?case using path_repeat_ok [of "paths u ic txt nd" lo st'] by (simp del: path_repeat.simps)
qed (auto simp: path_ok_def split: if_splits intro: caps_in_mono)

section \<open>Searching\<close>

lemma results_ok:
  assumes "(a, e) \<in> set (results u re txt start)" "start \<le> length txt"
  shows "start \<le> e" "e \<le> length txt" "matches u (rx_ignore_case re) txt (rx_root re) start e"
    "length a = rx_group_count re" "caps_in start e a"
proof -
  show m: "matches u (rx_ignore_case re) txt (rx_root re) start e"
    using paths_matches [OF assms(1) [unfolded results_def]] by simp
  show "start \<le> e" "e \<le> length txt" using matches_bounds(1) [OF m] assms(2) by auto
  show "length a = rx_group_count re" "caps_in start e a"
    using paths_ok [OF assms(1) [unfolded results_def], of start] by (auto simp: path_ok_def)
qed

definition matches_at :: "unicode \<Rightarrow> regex \<Rightarrow> rstr \<Rightarrow> nat \<Rightarrow> bool" where
  "matches_at u re txt s \<longleftrightarrow> (\<exists>q. matches u (rx_ignore_case re) txt (rx_root re) s q)"

lemma results_empty_iff:
  "start \<le> length txt \<Longrightarrow> results u re txt start = [] \<longleftrightarrow> \<not> matches_at u re txt start"
  using paths_iff_matches [of start "txt" _ u "rx_ignore_case re" "rx_root re" "replicate (rx_group_count re) None"]
  by (auto simp: results_def matches_at_def) (metis list.set_intros(1) neq_Nil_conv surj_pair)

lemma find_at_sound:
  assumes "find_at u re txt frm = Some m"
  shows "frm \<le> m_start m \<and> m_end m \<le> length txt
    \<and> matches u (rx_ignore_case re) txt (rx_root re) (m_start m) (m_end m)
    \<and> length (m_groups m) = rx_group_count re \<and> caps_in (m_start m) (m_end m) (m_groups m)"
  using assms
proof (induction u re "txt" frm rule: find_at.induct)
  case (1 u re "txt" start)
  show ?case
  proof (cases "snd (attempt u re txt start)")
    case None
    then have "find_at u re txt start = (if length txt < start then None else find_at u re txt (start + 1))"
      by (subst find_at.simps) (auto split: prod.splits)
    then show ?thesis using "1.prems" "1.IH" None by (cases "attempt u re txt start") (auto split: if_splits)
  next
    case (Some e)
    then obtain c where c: "attempt u re txt start = (c, Some e)" by (cases "attempt u re txt start") auto
    then have "m = \<lparr>m_start = start, m_end = e, m_groups = cx_caps c\<rparr>" "start \<le> length txt"
      using "1.prems" by (subst (asm) find_at.simps, auto split: if_splits)+
    then show ?thesis using results_ok [OF attempt_sound [OF c]] by simp
  qed
qed

text \<open>The reference search: the first position with a match, and its preferred result.\<close>

definition match_of :: "nat \<Rightarrow> result \<Rightarrow> rmatch" where
  "match_of s r = \<lparr>m_start = s, m_end = snd r, m_groups = fst r\<rparr>"

definition within_budget :: "unicode \<Rightarrow> regex \<Rightarrow> rstr \<Rightarrow> nat \<Rightarrow> bool" where
  "within_budget u re txt start \<longleftrightarrow> cx_steps (fst (attempt u re txt start)) \<le> max_steps"

lemma find_at_leftmost:
  assumes "\<And>s. frm \<le> s \<Longrightarrow> s \<le> length txt \<Longrightarrow> within_budget u re txt s"
  shows "find_at u re txt frm =
    (case List.find (matches_at u re txt) [frm..<Suc (length txt)] of
       None \<Rightarrow> None
     | Some s \<Rightarrow> Some (match_of s (hd (results u re txt s))))"
  using assms
proof (induction u re "txt" frm rule: find_at.induct)
  case (1 u re "txt" start)
  show ?case
  proof (cases "start \<le> length txt")
    case True
    obtain c out where c: "attempt u re txt start = (c, out)" by fastforce
    have b: "cx_steps c \<le> max_steps" using "1.prems" [of start] True c by (simp add: within_budget_def)
    have r: "map_option (\<lambda>e. (cx_caps c, e)) out = hd_opt (results u re txt start)"
      using attempt_first [OF c b] .
    have up: "[start..<Suc (length txt)] = start # [Suc start..<Suc (length txt)]"
      using True by (simp add: upt_conv_Cons)
    show ?thesis
    proof (cases out)
      case None
      then have "results u re txt start = []" using r by simp
      then have "\<not> matches_at u re txt start"
        using results_empty_iff [OF True] by simp
      moreover have "find_at u re txt start = find_at u re txt (start + 1)"
        using True c None by (subst find_at.simps) simp
      ultimately show ?thesis using "1.IH" [OF _ c [symmetric] None] "1.prems" True up by (simp del: upt_Suc)
    next
      case (Some e)
      then have ne: "results u re txt start \<noteq> []" and hd: "hd (results u re txt start) = (cx_caps c, e)"
        using r by (cases "results u re txt start"; simp)+
      then have "matches_at u re txt start"
        using results_empty_iff [OF True] by simp
      moreover have "find_at u re txt start = Some \<lparr>m_start = start, m_end = e, m_groups = cx_caps c\<rparr>"
        using True c Some by (subst find_at.simps) simp
      ultimately show ?thesis using up hd by (simp add: match_of_def del: upt_Suc)
    qed
  qed (subst find_at.simps, simp)
qed
section \<open>The parser returns, and numbers the groups in order\<close>

definition adv :: "rparser \<Rightarrow> rparser \<Rightarrow> bool" where
  "adv p q \<longleftrightarrow> rp_chars q = rp_chars p \<and> rp_i p \<le> rp_i q
     \<and> (rp_i p \<le> length (rp_chars p) \<longrightarrow> rp_i q \<le> length (rp_chars p)) \<and> rp_groups p \<le> rp_groups q"

definition remain :: "rparser \<Rightarrow> nat" where
  "remain p = length (rp_chars p) - rp_i p"

lemma adv_refl [simp]: "adv p p"
  by (simp add: adv_def)

lemma adv_trans: "adv p q \<Longrightarrow> adv q r \<Longrightarrow> adv p r"
  by (auto simp: adv_def)

lemma adv_skip: "rp_peek p = Some c \<Longrightarrow> adv p (rp_skip (Suc 0) p)"
  by (auto simp: adv_def rp_peek_def rp_at_def rp_skip_def split: if_splits)

lemma skip_simps [simp]:
  "rp_chars (rp_skip n p) = rp_chars p" "rp_i (rp_skip n p) = rp_i p + n" "rp_groups (rp_skip n p) = rp_groups p"
  by (simp_all add: rp_skip_def)

lemma rp_peek_SomeD: "rp_peek p = Some c \<Longrightarrow> rp_i p < length (rp_chars p) \<and> c = rp_chars p ! rp_i p"
  by (auto simp: rp_peek_def rp_at_def split: if_splits)

lemma rp_eat_facts:
  "rp_eat c p = (b, q) \<Longrightarrow> adv p q \<and> rp_groups q = rp_groups p \<and> (b \<longrightarrow> rp_i p < rp_i q \<and> rp_i q \<le> length (rp_chars p))"
  by (auto simp: rp_eat_def adv_def dest: rp_peek_SomeD split: if_splits)

text \<open>A reader of the pattern that opens no group.\<close>

definition reads :: "rparser \<Rightarrow> rparser \<Rightarrow> bool" where
  "reads p q \<longleftrightarrow> adv p q \<and> rp_groups q = rp_groups p"

lemma reads_refl [simp]: "reads p p"
  by (simp add: reads_def)

lemma reads_trans: "reads p q \<Longrightarrow> reads q r \<Longrightarrow> reads p r"
  by (auto simp: reads_def intro: adv_trans)

lemma reads_skip: "rp_peek p = Some c \<Longrightarrow> reads p (rp_skip (Suc 0) p)"
  by (simp add: reads_def adv_skip)

lemma reads_eat: "rp_eat c p = (b, q) \<Longrightarrow> reads p q"
  by (auto simp: reads_def dest: rp_eat_facts)

lemma reads_digits: "rp_digits n p = (m, q) \<Longrightarrow> reads p q"
proof (induction n p rule: rp_digits.induct)
  case (1 n p)
  then show ?case
    by (subst (asm) rp_digits.simps) (auto split: option.splits if_splits intro: reads_trans reads_skip)
qed

lemma reads_bounds: "rp_bounds p = (b, q) \<Longrightarrow> reads p q"
  unfolding rp_bounds_def
  by (auto split: prod.splits option.splits if_splits dest!: reads_digits reads_eat) (auto simp: reads_def adv_def)

lemma reads_class_item: "class_item_at c p = Ok (item, q) \<Longrightarrow> reads p q"
  by (auto simp: reads_def adv_def dest!: class_item_at_advances)

lemma class_loop_OkD:
  assumes "class_loop ng items f p = Ok (nd, q)"
  obtains "reads p q" | c item r where "rp_peek p = Some c"
    "class_item_at c (rp_skip 1 p) = Ok (item, r)" "\<not> (c = (ch CHR '']'') \<and> \<not> f)"
    "class_loop ng (items @ [item]) False r = Ok (nd, q)"
  using assms
  by (subst (asm) class_loop.simps)
    (auto split: option.splits if_splits outcome.splits prod.splits intro: reads_skip)

lemma reads_class_loop: "class_loop ng items f p = Ok (nd, q) \<Longrightarrow> reads p q"
proof (induction ng items f p rule: class_loop.induct)
  case (1 ng items f p)
  from "1.prems" show ?case
  proof (cases rule: class_loop_OkD)
    case (2 c item r)
    have "reads (rp_skip 1 p) r" using 2(2) by (rule reads_class_item)
    moreover have "reads r q" using "1.IH" [OF 2(1,3) 2(2) refl 2(4)] .
    ultimately show ?thesis using reads_skip [OF 2(1)] by (auto intro: reads_trans)
  qed
qed

lemma reads_class: "rp_class p = Ok (nd, q) \<Longrightarrow> reads p q"
  by (auto simp: rp_class_def split: prod.splits dest!: reads_class_loop reads_eat intro: reads_trans)

lemma reads_escape: "rp_escape p = Ok (nd, q) \<Longrightarrow> reads p q"
  by (auto simp: rp_escape_def Let_def split: option.splits if_splits intro: reads_skip)

lemma reads_quantifier: "rp_quantifier p = Some (b, q) \<Longrightarrow> reads p q"
  unfolding rp_quantifier_def
  by (auto split: option.splits if_splits prod.splits intro: reads_skip reads_trans dest!: reads_bounds)

lemma class_item_fuel [simp]: "class_item_at c p \<noteq> No_Fuel"
  by (auto simp: class_item_at_def class_range_def Let_def split: option.splits sum.splits)

lemma class_loop_fuel: "class_loop ng items f p \<noteq> No_Fuel"
proof (induction ng items f p rule: class_loop.induct)
  case (1 ng items f p)
  then show ?case by (subst class_loop.simps) (auto split: option.splits outcome.splits)
qed

lemma rp_class_fuel [simp]: "rp_class p \<noteq> No_Fuel"
  by (simp add: rp_class_def class_loop_fuel split: prod.splits)

lemma rp_escape_fuel [simp]: "rp_escape p \<noteq> No_Fuel"
  by (auto simp: rp_escape_def Let_def split: option.splits)
fun groups_of :: "node \<Rightarrow> nat list" where
  "groups_of (N_Group index nd) = (case index of None \<Rightarrow> [] | Some i \<Rightarrow> [i]) @ groups_of nd"
| "groups_of (N_Concat nds) = concat (map groups_of nds)"
| "groups_of (N_Alt nds) = concat (map groups_of nds)"
| "groups_of (N_Repeat nd mn mx greedy) = groups_of nd"
| "groups_of _ = []"

definition opens :: "rparser \<Rightarrow> rparser \<Rightarrow> nat list \<Rightarrow> bool" where
  "opens p q gs \<longleftrightarrow> adv p q \<and> gs = [Suc (rp_groups p)..<Suc (rp_groups q)]"

lemma opens_trans: "opens p q gs \<Longrightarrow> opens q r hs \<Longrightarrow> opens p r (gs @ hs)"
  unfolding opens_def
  by (auto simp del: upt_Suc intro: adv_trans)
    (metis (no_types, lifting) Suc_le_mono adv_def le_Suc_ex upt_add_eq_append)

lemma opens_reads: "reads p q \<Longrightarrow> opens p q []"
  by (simp add: opens_def reads_def)

lemma opens_before: "reads p q \<Longrightarrow> opens q r gs \<Longrightarrow> opens p r gs"
  using opens_trans [OF opens_reads] by fastforce

lemma opens_after: "opens p q gs \<Longrightarrow> reads q r \<Longrightarrow> opens p r gs"
  using opens_trans [OF _ opens_reads] by fastforce

lemma groups_of_concat_of [simp]: "groups_of (concat_of parts) = concat (map groups_of parts)"
  by (cases parts) (auto simp: concat_of_def)

lemma groups_of_arms [simp]:
  "groups_of (if length arms = Suc 0 then last arms else N_Alt arms) = concat (map groups_of arms)"
  by (cases arms) auto

lemma group_index_opens:
  "rp_group_index p = Ok (index, q) \<Longrightarrow> rp_i p \<le> length (rp_chars p) \<Longrightarrow>
    opens p q (case index of None \<Rightarrow> [] | Some i \<Rightarrow> [i])"
  by (auto simp: rp_group_index_def opens_def adv_def rp_at_def rp_peek_def split: if_splits)

lemma rp_class_groups: "rp_class p = Ok (nd, q) \<Longrightarrow> groups_of nd = []"
proof -
  have "class_loop ng items f p = Ok (nd, q) \<Longrightarrow> groups_of nd = []" for ng items f p
  proof (induction ng items f p rule: class_loop.induct)
    case (1 ng items f p)
    then show ?case
      using class_loop.simps [of ng items f p] by (auto split: option.splits if_splits outcome.splits prod.splits)
  qed
  then show "rp_class p = Ok (nd, q) \<Longrightarrow> groups_of nd = []"
    by (auto simp: rp_class_def split: prod.splits)
qed

lemma rp_escape_groups: "rp_escape p = Ok (nd, q) \<Longrightarrow> groups_of nd = []"
  by (auto simp: rp_escape_def Let_def split: option.splits if_splits)

lemma parser_opens:
  "rp_alternation n p = Ok (nd, q) \<Longrightarrow> opens p q (groups_of nd)"
  "rp_arms n arms p = Ok (nd, q) \<Longrightarrow> \<exists>gs. opens p q gs \<and> groups_of nd = concat (map groups_of arms) @ gs"
  "rp_concat n parts p = Ok (nd, q) \<Longrightarrow> \<exists>gs. opens p q gs \<and> groups_of nd = concat (map groups_of parts) @ gs"
  "rp_quantified n p = Ok (nd, q) \<Longrightarrow> opens p q (groups_of nd) \<and> rp_i p < rp_i q"
  "rp_atom n p = Ok (nd, q) \<Longrightarrow> opens p q (groups_of nd) \<and> rp_i p < rp_i q"
proof (induction n p and n arms p and n parts p and n p and n p arbitrary: nd q and nd q and nd q and nd q and nd q
    rule: rp_alternation_rp_arms_rp_concat_rp_quantified_rp_atom.induct)
  case (2 n p)
  then obtain arm r where r: "rp_concat n [] p = Ok (arm, r)" "rp_arms n [arm] r = Ok (nd, q)"
    by (auto split: outcome.splits prod.splits)
  from "2.IH"(1) [OF r(1)] "2.IH"(2) [OF r(1) refl r(2)] show ?case
    by (auto intro: opens_trans)
next
  case (4 n arms p)
  obtain more r where e: "rp_eat (ch CHR ''|'') p = (more, r)" by fastforce
  show ?case
  proof (cases more)
    case False
    then show ?thesis using "4.prems" e reads_eat [OF e] by (auto intro: opens_reads)
  next
    case True
    then obtain arm s where s: "rp_concat n [] r = Ok (arm, s)" "rp_arms n (arms @ [arm]) s = Ok (nd, q)"
      using "4.prems" e by (auto split: outcome.splits prod.splits)
    from "4.IH"(1) [OF e [symmetric] refl True s(1)] obtain gs where "opens r s gs" "groups_of arm = gs" by auto
    moreover from "4.IH"(2) [OF e [symmetric] refl True s(1) refl s(2)] obtain hs where
      "opens s q hs" "groups_of nd = concat (map groups_of (arms @ [arm])) @ hs" by auto
    ultimately show ?thesis using reads_eat [OF e] by (auto intro: opens_trans opens_before)
  qed
next
  case (6 n parts p)
  show ?case
  proof (cases "rp_peek p = None \<or> rp_peek p = Some (ch CHR ''|'') \<or> rp_peek p = Some (ch CHR '')'')")
    case True
    then have "q = p \<and> nd = concat_of parts" using "6.prems" by auto
    then show ?thesis by (auto intro: exI [of _ "[]"] opens_reads)
  next
    case False
    then obtain c where c: "rp_peek p = Some c" "\<not> (c = (ch CHR ''|'') \<or> c = (ch CHR '')''))" by auto
    then obtain part r where r: "rp_quantified n p = Ok (part, r)" "rp_concat n (parts @ [part]) r = Ok (nd, q)"
      using "6.prems" by (auto split: outcome.splits prod.splits)
    from "6.IH"(1) [OF c r(1)] have "opens p r (groups_of part)" by simp
    moreover from "6.IH"(2) [OF c r(1) refl r(2)] obtain gs where
      "opens r q gs" "groups_of nd = concat (map groups_of (parts @ [part])) @ gs" by auto
    ultimately show ?thesis by (auto intro: opens_trans)
  qed
next
  case (8 n p)
  then obtain atom r where r: "rp_atom n p = Ok (atom, r)" by (auto split: outcome.splits)
  note IH = "8.IH" [OF r]
  show ?case
  proof (cases "rp_quantifier r")
    case None
    then show ?thesis using "8.prems" r IH by auto
  next
    case (Some b)
    then obtain mn mx s where b: "rp_quantifier r = Some ((mn, mx), s)" by (cases b) auto
    obtain lz t where e: "rp_eat (ch CHR ''?'') s = (lz, t)" by fastforce
    have "reads r t" using reads_quantifier [OF b] reads_eat [OF e] by (rule reads_trans)
    then show ?thesis using "8.prems" r b e IH opens_after by (auto simp: reads_def adv_def)
  qed
next
  case (10 n p)
  then obtain c where c: "rp_peek p = Some c" by (auto split: option.splits)
  note skip = reads_skip [OF c]
  have i: "rp_i p < rp_i (rp_skip 1 p)" "rp_i (rp_skip 1 p) \<le> length (rp_chars (rp_skip 1 p))"
    using rp_peek_SomeD [OF c] by auto
  show ?case
  proof (cases "c = (ch CHR ''('')")
    case True
    then obtain index r inner s where g: "rp_group_index (rp_skip 1 p) = Ok (index, r)"
      "rp_alternation n r = Ok (inner, s)" "rp_eat (ch CHR '')'') s = (True, q)" "nd = N_Group index inner"
      using "10.prems" c by (auto simp: Let_def split: outcome.splits prod.splits if_splits)
    have 1: "opens p r (case index of None \<Rightarrow> [] | Some i \<Rightarrow> [i])"
      using group_index_opens [OF g(1) i(2)] skip by (auto intro: opens_before)
    have "opens r s (groups_of inner)"
      by (rule "10.IH" [OF c refl _ _ _ True g(1) refl g(2)]) (simp_all add: True)
    then have 2: "opens r q (groups_of inner)" using reads_eat [OF g(3)] by (rule opens_after)
    show ?thesis using opens_trans [OF 1 2] g(4) i 2 group_index_opens [OF g(1) i(2)]
      by (auto simp: opens_def adv_def)
  next
    case False
    then consider "q = rp_skip 1 p" "groups_of nd = []" | "rp_class (rp_skip 1 p) = Ok (nd, q)"
      | "rp_escape (rp_skip 1 p) = Ok (nd, q)"
      using "10.prems" c by (auto simp: Let_def split: if_splits)
    then have "reads (rp_skip 1 p) q \<and> groups_of nd = []"
      using reads_class reads_escape rp_class_groups rp_escape_groups by cases auto
    then show ?thesis using skip i by (auto simp: opens_def reads_def adv_def)
  qed
qed (simp_all)

lemma parser_remain:
  "rp_concat n parts p = Ok (nd, q) \<Longrightarrow> remain q \<le> remain p"
  "rp_quantified n p = Ok (nd, q) \<Longrightarrow> rp_peek p = Some c \<Longrightarrow> remain q < remain p"
  "rp_eat x p = (True, q) \<Longrightarrow> remain q < remain p"
  "rp_peek p = Some c \<Longrightarrow> remain (rp_skip 1 p) < remain p"
  "rp_group_index p = Ok (index, q) \<Longrightarrow> remain q \<le> remain p"
  using parser_opens(3) [of n parts p nd q] parser_opens(4) [of n p nd q] rp_eat_facts [of x p True q]
    rp_peek_SomeD [of p c]
  by (auto simp: remain_def opens_def adv_def rp_group_index_def split: if_splits)

lemma rp_group_index_fuel [simp]: "rp_group_index p \<noteq> No_Fuel"
  by (simp add: rp_group_index_def)

lemma parser_fuel_enough:
  "6 * remain p + 6 \<le> n \<Longrightarrow> rp_alternation n p \<noteq> No_Fuel"
  "6 * remain p + 5 \<le> n \<Longrightarrow> rp_arms n arms p \<noteq> No_Fuel"
  "6 * remain p + 4 \<le> n \<Longrightarrow> rp_concat n parts p \<noteq> No_Fuel"
  "6 * remain p + 2 \<le> n \<Longrightarrow> rp_quantified n p \<noteq> No_Fuel"
  "6 * remain p + 1 \<le> n \<Longrightarrow> rp_atom n p \<noteq> No_Fuel"
proof (induction n p and n arms p and n parts p and n p and n p
    rule: rp_alternation_rp_arms_rp_concat_rp_quantified_rp_atom.induct)
  case (2 n p)
  have "rp_arms n [arm] r \<noteq> No_Fuel" if "rp_concat n [] p = Ok (arm, r)" for arm r
    using "2.IH"(2) [OF that refl] parser_remain(1) [OF that] "2.prems" by simp
  then show ?case using "2.IH"(1) "2.prems" by (auto split: outcome.split)
next
  case (4 n arms p)
  obtain more r where e: "rp_eat (ch CHR ''|'') p = (more, r)" by fastforce
  show ?case
  proof (cases more)
    case True
    then have lt: "remain r < remain p" using e parser_remain(3) by simp
    then have "rp_concat n [] r \<noteq> No_Fuel" using "4.IH"(1) [OF e [symmetric] refl True] "4.prems" by simp
    moreover have "rp_arms n (arms @ [arm]) s \<noteq> No_Fuel" if "rp_concat n [] r = Ok (arm, s)" for arm s
      using "4.IH"(2) [OF e [symmetric] refl True that refl] parser_remain(1) [OF that] lt "4.prems" by simp
    ultimately show ?thesis using e True by (auto split: outcome.split)
  qed (use e in auto)
next
  case (6 n parts p)
  show ?case
  proof (cases "rp_peek p = None \<or> rp_peek p = Some (ch CHR ''|'') \<or> rp_peek p = Some (ch CHR '')'')")
    case False
    then obtain c where c: "rp_peek p = Some c" "\<not> (c = (ch CHR ''|'') \<or> c = (ch CHR '')''))" by auto
    have "rp_quantified n p \<noteq> No_Fuel" using "6.IH"(1) [OF c] "6.prems" by simp
    moreover have "rp_concat n (parts @ [part]) r \<noteq> No_Fuel" if "rp_quantified n p = Ok (part, r)" for part r
      using "6.IH"(2) [OF c that refl] parser_remain(2) [OF that c(1)] "6.prems" by simp
    ultimately show ?thesis using c by (auto split: outcome.split)
  qed auto
next
  case (8 n p)
  then show ?case by (auto split: outcome.splits prod.splits option.splits)
next
  case (10 n p)
  show ?case
  proof (cases "rp_peek p = Some (ch CHR ''('')")
    case True
    have "rp_alternation n r \<noteq> No_Fuel" if g: "rp_group_index (rp_skip 1 p) = Ok (index, r)" for index r
      by (rule "10.IH" [OF True refl _ _ _ refl g refl])
        (use parser_remain(4) [OF True] parser_remain(5) [OF g] "10.prems" in auto)
    then show ?thesis using True
      by (auto simp: Let_def split: outcome.split prod.split)
  qed (auto simp: Let_def split: option.split)
qed simp_all

section \<open>The methods of a regex value\<close>

lemma find_at_ge:
  assumes "find_at u re txt at = Some m"
  shows "at \<le> m_start m" "m_start m \<le> m_end m" "m_end m \<le> length txt"
  using find_at_sound [OF assms] matches_bounds(1) by blast+

text \<open>\<open>slice\<close>, and the record \<open>make_match\<close> builds for the program.\<close>

definition slice :: "'a list \<Rightarrow> nat \<Rightarrow> nat \<Rightarrow> 'a list" where
  "slice chars a b = take (b - a) (drop a chars)"

record match_value =
  mv_text :: rstr
  mv_start :: "32 word"
  mv_end :: "32 word"
  mv_groups :: "rstr option list"

definition make_match :: "rstr \<Rightarrow> rmatch \<Rightarrow> match_value" where
  "make_match chars m =
     \<lparr>mv_text = slice chars (m_start m) (m_end m),
      mv_start = of_nat (m_start m),
      mv_end = of_nat (m_end m),
      mv_groups = map (map_option (\<lambda>(a, b). slice chars a b)) (m_groups m)\<rparr>"

definition regex_find :: "unicode \<Rightarrow> regex \<Rightarrow> rstr \<Rightarrow> match_value option" where
  "regex_find u re chars = map_option (make_match chars) (find_at u re chars 0)"

text \<open>Where the loops of \<open>findAll\<close> and \<open>replaceAll\<close> go on after a match.\<close>

definition next_at :: "rmatch \<Rightarrow> nat" where
  "next_at m = (if m_start m < m_end m then m_end m else m_start m + 1)"

lemma next_at_greater: "find_at u re txt at = Some m \<Longrightarrow> at < next_at m"
  using find_at_ge [of u re "txt" at m] by (auto simp: next_at_def)

function find_all_loop :: "unicode \<Rightarrow> regex \<Rightarrow> rstr \<Rightarrow> nat \<Rightarrow> rmatch list \<Rightarrow> rmatch list" where
  "find_all_loop u re chars at out =
     (if at \<le> length chars then
        (case find_at u re chars at of
           Some m \<Rightarrow> find_all_loop u re chars (next_at m) (out @ [m])
         | None \<Rightarrow> out)
      else out)"
  by pat_completeness auto
termination
  by (relation "measure (\<lambda>(u, re, chars, at, out). Suc (length chars) - at)")
    (auto dest: next_at_greater)

declare find_all_loop.simps [simp del]

definition regex_find_all :: "unicode \<Rightarrow> regex \<Rightarrow> rstr \<Rightarrow> match_value list" where
  "regex_find_all u re chars = map (make_match chars) (find_all_loop u re chars 0 [])"

definition regex_replace :: "unicode \<Rightarrow> regex \<Rightarrow> rstr \<Rightarrow> rstr \<Rightarrow> rstr" where
  "regex_replace u re chars w =
     (case find_at u re chars 0 of
        Some m \<Rightarrow> take (m_start m) chars @ w @ drop (m_end m) chars
      | None \<Rightarrow> chars)"

function replace_all_loop :: "unicode \<Rightarrow> regex \<Rightarrow> rstr \<Rightarrow> rstr \<Rightarrow> nat \<Rightarrow> rstr \<Rightarrow> rstr \<times> nat" where
  "replace_all_loop u re chars w at out =
     (if at \<le> length chars then
        (case find_at u re chars at of
           Some m \<Rightarrow>
             replace_all_loop u re chars w (next_at m)
               (out @ slice chars at (m_start m) @ w @
                (if m_start m < m_end m then []
                 else if m_start m < length chars then [chars ! m_start m] else []))
         | None \<Rightarrow> (out, at))
      else (out, at))"
  by pat_completeness auto
termination
  by (relation "measure (\<lambda>(u, re, chars, w, at, out). Suc (length chars) - at)")
    (auto dest: next_at_greater)

declare replace_all_loop.simps [simp del]

definition regex_replace_all :: "unicode \<Rightarrow> regex \<Rightarrow> rstr \<Rightarrow> rstr \<Rightarrow> rstr" where
  "regex_replace_all u re chars w =
     (let (out, at) = replace_all_loop u re chars w 0 []
      in if at < length chars then out @ drop at chars else out)"

function split_loop :: "unicode \<Rightarrow> regex \<Rightarrow> rstr \<Rightarrow> nat \<Rightarrow> nat \<Rightarrow> rstr list \<Rightarrow> rstr list \<times> nat" where
  "split_loop u re chars at prev parts =
     (if at \<le> length chars then
        (case find_at u re chars at of
           Some m \<Rightarrow>
             if m_start m < m_end m
             then split_loop u re chars (m_end m) (m_end m) (parts @ [slice chars prev (m_start m)])
             else (parts, prev)
         | None \<Rightarrow> (parts, prev))
      else (parts, prev))"
  by pat_completeness auto
termination
  by (relation "measure (\<lambda>(u, re, chars, at, prev, parts). Suc (length chars) - at)")
    (auto dest: find_at_ge)

declare split_loop.simps [simp del]

definition regex_split :: "unicode \<Rightarrow> regex \<Rightarrow> rstr \<Rightarrow> rstr list" where
  "regex_split u re chars =
     (let (parts, prev) = split_loop u re chars 0 0 []
      in parts @ [slice chars prev (length chars)])"

lemma find_all_loop_out: "find_all_loop u re chars at out = out @ find_all_loop u re chars at []"
proof (induction "Suc (length chars) - at" arbitrary: at out rule: less_induct)
  case less
  show ?case
  proof (cases "at \<le> length chars \<and> find_at u re chars at \<noteq> None")
    case True
    then obtain m where m: "find_at u re chars at = Some m" by auto
    have lt: "Suc (length chars) - next_at m < Suc (length chars) - at"
      using next_at_greater [OF m] True by auto
    show ?thesis
      using less [OF lt, of "out @ [m]"] less [OF lt, of "[m]"] True m
      by (subst (1 2) find_all_loop.simps) simp
  qed (subst (1 2) find_all_loop.simps, auto)
qed

lemma find_all_loop_step:
  "at \<le> length chars \<Longrightarrow> find_at u re chars at = Some m \<Longrightarrow>
    find_all_loop u re chars at [] = m # find_all_loop u re chars (next_at m) []"
  using find_all_loop_out [of u re chars "next_at m" "[m]"] by (subst find_all_loop.simps) simp

lemma find_all_loop_stop:
  "\<not> at \<le> length chars \<or> find_at u re chars at = None \<Longrightarrow> find_all_loop u re chars at out = out"
  by (subst find_all_loop.simps) auto

text \<open>A text cut at its matches: the pieces between them, and the pieces in their place.\<close>

fun weave :: "'a list list \<Rightarrow> 'a list list \<Rightarrow> 'a list" where
  "weave [] ts = []"
| "weave (g # gs) [] = g"
| "weave (g # gs) (t # ts) = g @ t @ weave gs ts"

definition match_text :: "rstr \<Rightarrow> rmatch \<Rightarrow> rstr" where
  "match_text chars m = slice chars (m_start m) (m_end m)"

lemma slice_append_drop: "a \<le> b \<Longrightarrow> slice xs a b @ drop b xs = drop a xs"
  by (simp add: slice_def) (metis append_take_drop_id drop_drop le_add_diff_inverse2)

lemma weave_prefix: "gs \<noteq> [] \<Longrightarrow> weave ((x @ hd gs) # tl gs) ts = x @ weave gs ts"
  by (cases gs; cases ts) auto

text \<open>What \<open>replaceAll\<close> returns when its loop is entered at \<open>at\<close> with \<open>out\<close>.\<close>

definition replace_from :: "unicode \<Rightarrow> regex \<Rightarrow> rstr \<Rightarrow> rstr \<Rightarrow> nat \<Rightarrow> rstr \<Rightarrow> rstr" where
  "replace_from u re chars w at out =
     (let (out, at) = replace_all_loop u re chars w at out
      in if at < length chars then out @ drop at chars else out)"

lemma replace_from_step:
  "at \<le> length chars \<Longrightarrow> find_at u re chars at = Some m \<Longrightarrow>
    replace_from u re chars w at out =
    replace_from u re chars w (next_at m)
      (out @ slice chars at (m_start m) @ w @
       (if m_start m < m_end m then []
        else if m_start m < length chars then [chars ! m_start m] else []))"
  unfolding replace_from_def by (subst replace_all_loop.simps) simp

lemma replace_from_stop:
  "\<not> at \<le> length chars \<or> find_at u re chars at = None \<Longrightarrow>
    replace_from u re chars w at out = out @ drop at chars"
  unfolding replace_from_def by (subst replace_all_loop.simps) auto

lemma replace_weave:
  "\<exists>gs. length gs = Suc (length (find_all_loop u re chars at []))
     \<and> drop at chars = weave gs (map (match_text chars) (find_all_loop u re chars at []))
     \<and> (\<forall>w out. replace_from u re chars w at out =
          out @ weave gs (map (\<lambda>_. w) (find_all_loop u re chars at [])))"
proof (induction "Suc (length chars) - at" arbitrary: at rule: less_induct)
  case less
  show ?case
  proof (cases "at \<le> length chars \<and> find_at u re chars at \<noteq> None")
    case False
    then show ?thesis
      by (intro exI [of _ "[drop at chars]"]) (auto simp: find_all_loop_stop replace_from_stop)
  next
    case True
    then obtain m where m: "find_at u re chars at = Some m" by auto
    note ge = find_at_ge [OF m]
    let ?ms = "find_all_loop u re chars (next_at m) []"
    have step: "find_all_loop u re chars at [] = m # ?ms"
      using True m by (simp add: find_all_loop_step)
    have "Suc (length chars) - next_at m < Suc (length chars) - at"
      using next_at_greater [OF m] True by auto
    from less [OF this] obtain gs where gs: "length gs = Suc (length ?ms)"
      "drop (next_at m) chars = weave gs (map (match_text chars) ?ms)"
      "\<And>w out. replace_from u re chars w (next_at m) out = out @ weave gs (map (\<lambda>_. w) ?ms)" by blast
    define x where "x = (if m_start m < m_end m then []
        else if m_start m < length chars then [chars ! m_start m] else [])"
    define hs where "hs = slice chars at (m_start m) # (x @ hd gs) # tl gs"
    have ne: "gs \<noteq> []" using gs(1) by auto
    have "drop at chars = slice chars at (m_start m) @ match_text chars m @ drop (m_end m) chars"
      using ge by (simp add: match_text_def slice_append_drop)
    also have "drop (m_end m) chars = x @ drop (next_at m) chars"
      using ge by (auto simp: x_def next_at_def Cons_nth_drop_Suc)
    finally have "drop at chars = weave hs (map (match_text chars) (m # ?ms))"
      using gs(2) weave_prefix [OF ne, of x] by (simp add: hs_def)
    moreover have "replace_from u re chars w at out = out @ weave hs (map (\<lambda>_. w) (m # ?ms))" for w out
      using replace_from_step [OF _ m, of w out] True gs(3) weave_prefix [OF ne, of x]
      by (simp add: hs_def x_def)
    moreover have "length hs = Suc (length (m # ?ms))" using gs(1) by (cases gs) (auto simp: hs_def)
    ultimately show ?thesis unfolding step by blast
  qed
qed

text \<open>The matches of \<open>findAll\<close> are matches, in order, and do not overlap.\<close>

lemma find_all_sound:
  "m \<in> set (find_all_loop u re chars at []) \<Longrightarrow> at \<le> m_start m \<and> m_end m \<le> length chars
     \<and> matches u (rx_ignore_case re) chars (rx_root re) (m_start m) (m_end m)"
proof (induction "Suc (length chars) - at" arbitrary: at rule: less_induct)
  case less
  show ?case
  proof (cases "at \<le> length chars \<and> find_at u re chars at \<noteq> None")
    case True
    then obtain m' where m': "find_at u re chars at = Some m'" by auto
    have lt: "Suc (length chars) - next_at m' < Suc (length chars) - at"
      using next_at_greater [OF m'] True by auto
    have "m = m' \<or> m \<in> set (find_all_loop u re chars (next_at m') [])"
      using less.prems True m' by (simp add: find_all_loop_step)
    then show ?thesis
      using find_at_sound [OF m'] less.hyps [OF lt] next_at_greater [OF m'] by auto
  qed (use less.prems in \<open>auto simp: find_all_loop_stop\<close>)
qed

lemma find_all_ordered: "sorted_wrt (\<lambda>m m'. next_at m \<le> m_start m') (find_all_loop u re chars at [])"
proof (induction "Suc (length chars) - at" arbitrary: at rule: less_induct)
  case less
  show ?case
  proof (cases "at \<le> length chars \<and> find_at u re chars at \<noteq> None")
    case True
    then obtain m' where m': "find_at u re chars at = Some m'" by auto
    have "Suc (length chars) - next_at m' < Suc (length chars) - at"
      using next_at_greater [OF m'] True by auto
    from less [OF this] show ?thesis
      using True m' find_all_sound by (fastforce simp: find_all_loop_step)
  qed (auto simp: find_all_loop_stop)
qed
definition split_from :: "unicode \<Rightarrow> regex \<Rightarrow> rstr \<Rightarrow> nat \<Rightarrow> rstr list \<Rightarrow> rstr list" where
  "split_from u re chars at parts =
     (let (parts, prev) = split_loop u re chars at at parts
      in parts @ [slice chars prev (length chars)])"

lemma split_from_step:
  "at \<le> length chars \<Longrightarrow> find_at u re chars at = Some m \<Longrightarrow> m_start m < m_end m \<Longrightarrow>
    split_from u re chars at parts = split_from u re chars (m_end m) (parts @ [slice chars at (m_start m)])"
  unfolding split_from_def by (subst split_loop.simps) simp

lemma split_from_stop:
  "\<not> at \<le> length chars \<or> find_at u re chars at = None
    \<or> (\<exists>m. find_at u re chars at = Some m \<and> \<not> m_start m < m_end m) \<Longrightarrow>
    split_from u re chars at parts = parts @ [drop at chars]"
  unfolding split_from_def by (subst split_loop.simps) (auto simp: slice_def)

definition separators :: "unicode \<Rightarrow> regex \<Rightarrow> rstr \<Rightarrow> nat \<Rightarrow> rmatch list" where
  "separators u re chars at = takeWhile (\<lambda>m. m_start m < m_end m) (find_all_loop u re chars at [])"

lemma split_weave:
  "\<exists>gs. length gs = Suc (length (separators u re chars at))
     \<and> drop at chars = weave gs (map (match_text chars) (separators u re chars at))
     \<and> (\<forall>parts. split_from u re chars at parts = parts @ gs)"
proof (induction "Suc (length chars) - at" arbitrary: at rule: less_induct)
  case less
  show ?case
  proof (cases "\<exists>m. at \<le> length chars \<and> find_at u re chars at = Some m \<and> m_start m < m_end m")
    case False
    then have "separators u re chars at = []"
      unfolding separators_def by (subst find_all_loop.simps) (auto simp: find_all_loop_out [of _ _ _ _ "[_]"] split: option.split)
    moreover have "split_from u re chars at parts = parts @ [drop at chars]" for parts
      by (rule split_from_stop) (use False in \<open>cases "find_at u re chars at"; auto\<close>)
    ultimately show ?thesis by (intro exI [of _ "[drop at chars]"]) auto
  next
    case True
    then obtain m where m: "at \<le> length chars" "find_at u re chars at = Some m" "m_start m < m_end m" by auto
    note ge = find_at_ge [OF m(2)]
    have step: "separators u re chars at = m # separators u re chars (m_end m)"
      using m by (simp add: separators_def find_all_loop_step next_at_def)
    have "Suc (length chars) - m_end m < Suc (length chars) - at" using m(1,3) ge by auto
    from less [OF this] obtain gs where gs: "length gs = Suc (length (separators u re chars (m_end m)))"
      "drop (m_end m) chars = weave gs (map (match_text chars) (separators u re chars (m_end m)))"
      "\<And>parts. split_from u re chars (m_end m) parts = parts @ gs" by blast
    have "drop at chars = weave (slice chars at (m_start m) # gs) (map (match_text chars) (m # separators u re chars (m_end m)))"
      using ge by (simp add: match_text_def slice_append_drop gs(2) [symmetric])
    moreover have "split_from u re chars at parts = parts @ slice chars at (m_start m) # gs" for parts
      using split_from_step [OF m] gs(3) by simp
    ultimately show ?thesis using gs(1) unfolding step
      by (intro exI [of _ "slice chars at (m_start m) # gs"]) auto
  qed
qed

text \<open>
  An iteration that consumes nothing is never counted, not even a required one: a pattern
  such as \<open>(a*)+\<close> does not match the empty text.
\<close>

lemma required_iterations_consume:
  "matches u ic txt (N_Repeat nd mn mx greedy) p q \<Longrightarrow> p + mn \<le> q"
  using matches_bounds(2) by fastforce

section \<open>A sample\<close>

text \<open>A pattern for the witnesses, \<open>(b?)c|.d\<close>, and the ASCII part of the Unicode tables.\<close>

definition ascii_unicode :: unicode where
  "ascii_unicode =
     \<lparr>u_alphanumeric = (\<lambda>c. (ch CHR ''a'') \<le> c \<and> c \<le> (ch CHR ''z'') \<or> (ch CHR ''A'') \<le> c \<and> c \<le> (ch CHR ''Z'') \<or> (ch CHR ''0'') \<le> c \<and> c \<le> (ch CHR ''9'')),
      u_lower = (\<lambda>c. [if (ch CHR ''A'') \<le> c \<and> c \<le> (ch CHR ''Z'') then c + 32 else c]),
      u_upper = (\<lambda>c. [if (ch CHR ''a'') \<le> c \<and> c \<le> (ch CHR ''z'') then c - 32 else c])\<rparr>"

definition sample_regex :: regex where
  "sample_regex = \<lparr>rx_root = N_Alt [N_Concat [N_Group (Some 1) (N_Repeat (N_Char (ch CHR ''b'')) 0 1 True), N_Char (ch CHR ''c'')],
                              N_Concat [N_Any, N_Char (ch CHR ''d'')]],
     rx_group_count = 1, rx_ignore_case = False\<rparr>"

lemmas parser_eval = regex_new_def regex_flag_error_def parser_fuel_def rp_peek_def rp_at_def rp_skip_def rp_eat_def
  rp_quantifier_def rp_group_index_def rp_class_def rp_escape_def concat_of_def class_item_at_def class_escape_def
  class_range_def class_loop.simps Let_def

lemma sample_compiles: "regex_new (str ''(b?)c|.d'') [] = Ok sample_regex"
  by (simp add: parser_eval sample_regex_def numeral_eq_Suc)

lemmas matcher_eval = attempt_def match_node.simps max_steps_def sample_regex_def eq_char_def set_cap_def get_cap_def
  ascii_unicode_def u32_max_def

lemmas match_repeat_numeral = match_repeat.simps(2) [of _ "pred_numeral k" for k, folded numeral_eq_Suc]

lemma sample_attempts:
  "attempt ascii_unicode sample_regex (str ''xbc'') 0 = (\<lparr>cx_caps = [None], cx_steps = 9\<rparr>, None)"
  "attempt ascii_unicode sample_regex (str ''xbc'') 1 = (\<lparr>cx_caps = [Some (1, 2)], cx_steps = 6\<rparr>, Some 3)"
  "attempt ascii_unicode sample_regex (str ''xbc'') 2 = (\<lparr>cx_caps = [Some (2, 2)], cx_steps = 6\<rparr>, Some 3)"
  "attempt ascii_unicode sample_regex (str ''xbc'') 3 = (\<lparr>cx_caps = [None], cx_steps = 8\<rparr>, None)"
  by (simp_all add: matcher_eval match_repeat_numeral)

lemma sample_find:
  "find_at ascii_unicode sample_regex (str ''xbc'') 0 = Some \<lparr>m_start = 1, m_end = 3, m_groups = [Some (1, 2)]\<rparr>"
  by (simp add: find_at.simps sample_attempts [simplified])

lemma sample_within_budget:
  "s \<le> length (str ''xbc'') \<Longrightarrow> within_budget ascii_unicode sample_regex (str ''xbc'') s"
proof -
  assume "s \<le> length (str ''xbc'')"
  then consider "s = 0" | "s = 1" | "s = 2" | "s = 3" by fastforce
  then show ?thesis
    by cases (use sample_attempts in \<open>simp_all add: within_budget_def max_steps_def\<close>)
qed

text \<open>
  The escape on the upper end of a class range is taken literally: \<open>[\<close>backslash\<open>t-\<close>backslash\<open>n]\<close>
  is the range from a tab to the letter n.
\<close>

lemma class_range_escape_not_translated:
  "regex_new [(ch CHR ''[''), 0x5C, (ch CHR ''t''), (ch CHR ''-''), 0x5C, (ch CHR ''n''), (ch CHR '']'')] [] = Ok \<lparr>rx_root = N_Class False [CI_Range 9 (ch CHR ''n'')], rx_group_count = 0, rx_ignore_case = False\<rparr>"
  by (simp add: parser_eval numeral_eq_Suc)


section \<open>Properties\<close>

text \<open>Compiling a pattern returns: the fuel of the parser is enough for every pattern.\<close>

theorem regex_new_returns: "regex_new pattern flags \<noteq> No_Fuel"
  using parser_fuel_enough(1) [of "\<lparr>rp_chars = pattern, rp_i = 0, rp_groups = 0\<rparr>" "parser_fuel (length pattern)"]
  by (auto simp: regex_new_def parser_fuel_def remain_def split: option.splits outcome.splits prod.splits)

text \<open>
  The groups of a compiled pattern are numbered from 1 in the order of their opening
  parentheses, and \<open>group_count\<close> is their number, so the matcher's \<open>caps[i - 1]\<close> never
  goes out of range.
\<close>

lemma regex_groups_numbered:
  assumes "regex_new pattern flags = Ok re"
  shows "groups_of (rx_root re) = [1..<Suc (rx_group_count re)]"
  using assms parser_opens(1) [of _ "\<lparr>rp_chars = pattern, rp_i = 0, rp_groups = 0\<rparr>"]
  by (auto simp: regex_new_def opens_def split: option.splits outcome.splits prod.splits if_splits simp del: upt_Suc)

lemma regex_groups_numbered_example:
  "groups_of (rx_root sample_regex) = [1..<Suc (rx_group_count sample_regex)]"
  by (rule regex_groups_numbered [OF sample_compiles])

text \<open>
  C13: Whatever \<open>find_at\<close> returns, the budget exhausted or not, is a match of the pattern in
  the range searched, and its captures are spans inside it: no slice the methods take of
  the text goes out of range.
\<close>

theorem regex_find_sound:
  assumes "find_at u re txt at = Some m"
  shows "at \<le> m_start m \<and> m_end m \<le> length txt
    \<and> matches u (rx_ignore_case re) txt (rx_root re) (m_start m) (m_end m)
    \<and> length (m_groups m) = rx_group_count re \<and> caps_in (m_start m) (m_end m) (m_groups m)"
  using assms by (rule find_at_sound)

theorem regex_find_sound_witness:
  "matches ascii_unicode False (str ''xbc'') (rx_root sample_regex) 1 3 \<and> caps_in 1 3 [Some (1, 2)]"
  using regex_find_sound [OF sample_find] by (simp add: sample_regex_def)

text \<open>
  C14: When no attempt exhausts the step budget, \<open>find_at\<close> returns the leftmost position
  that has a match at all, and there the result, captures included, that comes first in
  the order of preference of the pattern's branches and quantifiers.
\<close>

theorem regex_find_leftmost:
  assumes "\<And>s. at \<le> s \<Longrightarrow> s \<le> length txt \<Longrightarrow> within_budget u re txt s"
  shows "find_at u re txt at =
    (case List.find (matches_at u re txt) [at..<Suc (length txt)] of
       None \<Rightarrow> None
     | Some s \<Rightarrow> Some (match_of s (hd (results u re txt s))))"
  using assms by (rule find_at_leftmost)

theorem regex_find_leftmost_witness:
  "(case List.find (matches_at ascii_unicode sample_regex (str ''xbc'')) [0..<4] of
      None \<Rightarrow> None
    | Some s \<Rightarrow> Some (match_of s (hd (results ascii_unicode sample_regex (str ''xbc'') s))))
    = Some \<lparr>m_start = 1, m_end = 3, m_groups = [Some (1, 2)]\<rparr>"
  using regex_find_leftmost [of 0 "(str ''xbc'')" ascii_unicode sample_regex, OF sample_within_budget] sample_find
  by (simp add: eval_nat_numeral)

text \<open>
  The text is the pieces between the matches of \<open>findAll\<close> with the matches in their
  places, and \<open>replaceAll\<close> is the same pieces with the replacement in every place.
\<close>

theorem regex_replace_all_weaves:
  "\<exists>gs. length gs = Suc (length (find_all_loop u re chars 0 []))
     \<and> chars = weave gs (map (match_text chars) (find_all_loop u re chars 0 []))
     \<and> regex_replace_all u re chars w = weave gs (map (\<lambda>_. w) (find_all_loop u re chars 0 []))"
  using replace_weave [of u re chars 0] by (auto simp: regex_replace_all_def replace_from_def)

text \<open>
  \<open>split\<close> cuts the text at the matches of \<open>findAll\<close> before the first empty one: with
  these matches put back between its parts it is the text again.
\<close>

theorem regex_split_joins:
  "length (regex_split u re chars) = Suc (length (separators u re chars 0))
   \<and> weave (regex_split u re chars) (map (match_text chars) (separators u re chars 0)) = chars"
  using split_weave [of u re chars 0] by (auto simp: regex_split_def split_from_def)

end
