(* ===== verification/Types.thy ===== *)
theory Types
  imports Numeric
begin

text \<open>
  The types of the checker and its judgements on them
  (\<open>crates/mersey_front/src/check.rs\<close>): types as they mean, substitution and inference of type
  parameters, assignability, the operators, casts and literals.  The relations that walk the
  tables of declarations take fuel; a judgement answers a type and the diagnostics it reports.
\<close>

section \<open>Types\<close>

datatype (plugins only: size) ns = Ns_Console | Ns_Document | Ns_Bytes | Ns_Time | Ns_Gc | Ns_Regex | Ns_Parse | Ns_Math
  | Ns_Format | Ns_Fs | Ns_Env | Ns_Caps | Ns_Json | Ns_Random | Ns_Net | Ns_Dom | Ns_PromiseNs | Ns_Mersey | Ns_Hash
  | Ns_Opaque

datatype (plugins only: size) 't rec_field = Rec_Field (rf_name: rstr) (rf_ty: 't) (rf_optional: bool)

datatype (plugins only: size) 't param_type = Param_Type (pt_ty: 't) (pt_optional: bool) (pt_rest: bool)

datatype (plugins only: size) 't fn_type =
  Fn_Type (ft_tparams: "nat list") (ft_params: "'t param_type list") (ft_ret: 't)

datatype (plugins only: size) ty =
    T_Unknown
  | T_Err
  | T_Void
  | T_Null
  | T_Bool
  | T_Char
  | T_Str
  | T_BigInt
  | T_BigDec
  | T_Int int_kind
  | T_F32
  | T_F64
  | T_Nullable ty
  | T_Array ty
  | T_Tuple "ty list"
  | T_Record "ty rec_field list"
  | T_Fn "ty fn_type"
  | T_Class nat "ty list"
  | T_Iface nat "ty list"
  | T_Enum nat
  | T_ClassMeta nat
  | T_IfaceMeta nat
  | T_EnumMeta nat
  | T_Namespace ns
  | T_Var nat
  | T_Union "ty list"

datatype access = Public | Protected | Private

text \<open>The tables of declarations, with the entries the relations on types read.\<close>

record field_decl =
  fd_name :: rstr
  fd_ty :: ty
  fd_access :: access
  fd_readonly :: bool

record class_decl =
  cl_name :: rstr
  cl_tparams :: "nat list"
  cl_parent :: "(nat \<times> ty list) option"
  cl_host_parent :: "(nat \<times> ty list) option"
  cl_ifaces :: "(nat \<times> ty list) list"
  cl_fields :: "field_decl list"

record iface_decl =
  if_name :: rstr
  if_tparams :: "nat list"
  if_extends :: "(nat \<times> ty list) list"

record decls =
  dc_classes :: "class_decl list"
  dc_ifaces :: "iface_decl list"
  dc_enums :: "rstr list"
  dc_tv_names :: "rstr list"
  dc_tv_bounds :: "nat \<Rightarrow> ty option"
  dc_numeric_id :: "nat option"

text \<open>\<open>PREDEFINED\<close>.\<close>

definition predefined_types :: "(rstr \<times> ty) list" where
  "predefined_types =
     [((str ''unknown''), T_Unknown), ((str ''bool''), T_Bool), ((str ''char''), T_Char), ((str ''string''), T_Str), ((str ''bigint''), T_BigInt),
      ((str ''bigdec''), T_BigDec), ((str ''void''), T_Void), ((str ''int''), T_Int I32), ((str ''int8''), T_Int I8), ((str ''int16''), T_Int I16),
      ((str ''int32''), T_Int I32), ((str ''int64''), T_Int I64), ((str ''uint''), T_Int U32), ((str ''uint8''), T_Int U8), ((str ''uint16''), T_Int U16),
      ((str ''uint32''), T_Int U32), ((str ''uint64''), T_Int U64), ((str ''float''), T_F64), ((str ''float32''), T_F32), ((str ''float64''), T_F64)]"

definition predefined :: "rstr \<Rightarrow> ty option" where
  "predefined name = map_option snd (find (\<lambda>e. fst e = name) predefined_types)"

section \<open>Nullability, unions and substitution\<close>

definition nullable :: "ty \<Rightarrow> ty" where
  "nullable t = (case t of T_Nullable _ \<Rightarrow> t | T_Null \<Rightarrow> t | T_Err \<Rightarrow> t | _ \<Rightarrow> T_Nullable t)"

definition strip_null :: "ty \<Rightarrow> ty" where
  "strip_null t = (case t of T_Nullable inner \<Rightarrow> inner | _ \<Rightarrow> t)"

definition union_arm :: "ty \<Rightarrow> ty list" where
  "union_arm t = (case t of T_Null \<Rightarrow> [] | T_Nullable inner \<Rightarrow> [inner] | _ \<Rightarrow> [t])"

definition may_be_null :: "ty \<Rightarrow> bool" where
  "may_be_null t = (case t of T_Null \<Rightarrow> True | T_Nullable _ \<Rightarrow> True | _ \<Rightarrow> False)"

definition fold_union :: "ty list \<Rightarrow> ty" where
  "fold_union tys =
     (let arms = concat (map union_arm tys);
          base = (case arms of [t] \<Rightarrow> t | _ \<Rightarrow> T_Union arms)
      in if list_ex may_be_null tys then nullable base else base)"

text \<open>A map from type parameters, the later of two entries for one counting.\<close>

type_synonym tmap = "(nat \<times> ty) list"

definition tget :: "tmap \<Rightarrow> nat \<Rightarrow> ty option" where
  "tget m v = map_of (rev m) v"

primrec subst_in :: "tmap \<Rightarrow> ty \<Rightarrow> ty" where
  "subst_in m T_Unknown = T_Unknown"
| "subst_in m T_Err = T_Err"
| "subst_in m T_Void = T_Void"
| "subst_in m T_Null = T_Null"
| "subst_in m T_Bool = T_Bool"
| "subst_in m T_Char = T_Char"
| "subst_in m T_Str = T_Str"
| "subst_in m T_BigInt = T_BigInt"
| "subst_in m T_BigDec = T_BigDec"
| "subst_in m (T_Int k) = T_Int k"
| "subst_in m T_F32 = T_F32"
| "subst_in m T_F64 = T_F64"
| "subst_in m (T_Nullable t) = nullable (subst_in m t)"
| "subst_in m (T_Array t) = T_Array (subst_in m t)"
| "subst_in m (T_Tuple ts) = T_Tuple (map (subst_in m) ts)"
| "subst_in m (T_Record fs) = T_Record (map (map_rec_field (subst_in m)) fs)"
| "subst_in m (T_Fn f) = T_Fn (map_fn_type (subst_in m) f)"
| "subst_in m (T_Class c ts) = T_Class c (map (subst_in m) ts)"
| "subst_in m (T_Iface i ts) = T_Iface i (map (subst_in m) ts)"
| "subst_in m (T_Enum e) = T_Enum e"
| "subst_in m (T_ClassMeta c) = T_ClassMeta c"
| "subst_in m (T_IfaceMeta i) = T_IfaceMeta i"
| "subst_in m (T_EnumMeta e) = T_EnumMeta e"
| "subst_in m (T_Namespace n) = T_Namespace n"
| "subst_in m (T_Var v) = (case tget m v of Some t \<Rightarrow> t | None \<Rightarrow> T_Var v)"
| "subst_in m (T_Union ts) = fold_union (map (subst_in m) ts)"

definition subst :: "ty \<Rightarrow> tmap \<Rightarrow> ty" where
  "subst t m = (if m = [] then t else subst_in m t)"

text \<open>\<open>unify_infer\<close>; \<open>out.entry(tv).or_insert_with\<close> keeps what is there.\<close>

definition or_insert :: "tmap \<Rightarrow> nat \<Rightarrow> ty \<Rightarrow> tmap" where
  "or_insert out v t = (case tget out v of Some _ \<Rightarrow> out | None \<Rightarrow> out @ [(v, t)])"

definition infer_all :: "(ty \<Rightarrow> tmap \<Rightarrow> tmap) list \<Rightarrow> ty list \<Rightarrow> tmap \<Rightarrow> tmap" where
  "infer_all fs gots out = fold (\<lambda>(f, g) out. f g out) (zip fs gots) out"

primrec unify_infer :: "nat list \<Rightarrow> ty \<Rightarrow> ty \<Rightarrow> tmap \<Rightarrow> tmap" where
  "unify_infer tps T_Unknown = (\<lambda>got out. out)"
| "unify_infer tps T_Err = (\<lambda>got out. out)"
| "unify_infer tps T_Void = (\<lambda>got out. out)"
| "unify_infer tps T_Null = (\<lambda>got out. out)"
| "unify_infer tps T_Bool = (\<lambda>got out. out)"
| "unify_infer tps T_Char = (\<lambda>got out. out)"
| "unify_infer tps T_Str = (\<lambda>got out. out)"
| "unify_infer tps T_BigInt = (\<lambda>got out. out)"
| "unify_infer tps T_BigDec = (\<lambda>got out. out)"
| "unify_infer tps (T_Int k) = (\<lambda>got out. out)"
| "unify_infer tps T_F32 = (\<lambda>got out. out)"
| "unify_infer tps T_F64 = (\<lambda>got out. out)"
| "unify_infer tps (T_Nullable a) =
     (\<lambda>got out. case got of T_Nullable b \<Rightarrow> unify_infer tps a b out | _ \<Rightarrow> unify_infer tps a got out)"
| "unify_infer tps (T_Array a) = (\<lambda>got out. case got of T_Array b \<Rightarrow> unify_infer tps a b out | _ \<Rightarrow> out)"
| "unify_infer tps (T_Tuple ts) =
     (\<lambda>got out. case got of T_Tuple us \<Rightarrow> infer_all (map (unify_infer tps) ts) us out | _ \<Rightarrow> out)"
| "unify_infer tps (T_Record fs) = (\<lambda>got out. out)"
| "unify_infer tps (T_Fn f) =
     (\<lambda>got out. case got of
        T_Fn g \<Rightarrow>
          (case map_fn_type (unify_infer tps) f of
             Fn_Type _ ps r \<Rightarrow> r (ft_ret g) (infer_all (map pt_ty ps) (map pt_ty (ft_params g)) out))
      | _ \<Rightarrow> out)"
| "unify_infer tps (T_Class c ts) =
     (\<lambda>got out. case got of T_Class d us \<Rightarrow> if c = d then infer_all (map (unify_infer tps) ts) us out else out | _ \<Rightarrow> out)"
| "unify_infer tps (T_Iface c ts) =
     (\<lambda>got out. case got of T_Iface d us \<Rightarrow> if c = d then infer_all (map (unify_infer tps) ts) us out else out | _ \<Rightarrow> out)"
| "unify_infer tps (T_Enum e) = (\<lambda>got out. out)"
| "unify_infer tps (T_ClassMeta c) = (\<lambda>got out. out)"
| "unify_infer tps (T_IfaceMeta i) = (\<lambda>got out. out)"
| "unify_infer tps (T_EnumMeta e) = (\<lambda>got out. out)"
| "unify_infer tps (T_Namespace n) = (\<lambda>got out. out)"
| "unify_infer tps (T_Var v) =
     (\<lambda>got out. if v \<in> set tps \<and> (case got of T_Var w \<Rightarrow> w \<in> set tps | _ \<Rightarrow> False) then out
                else if v \<in> set tps then or_insert out v got
                else out)"
| "unify_infer tps (T_Union ts) = (\<lambda>got out. out)"
section \<open>Assignability\<close>

text \<open>
  The relation is a recursion through the tables of declarations that nothing bounds, so it
  takes fuel: \<open>None\<close> is a recursion deeper than the fuel (or an identifier outside its table,
  where the code panics).  \<open>all\<close> and \<open>any\<close> stop at the first element that decides.
\<close>

fun all_opt :: "('a \<Rightarrow> bool option) \<Rightarrow> 'a list \<Rightarrow> bool option" where
  "all_opt f [] = Some True"
| "all_opt f (x # xs) = (case f x of Some True \<Rightarrow> all_opt f xs | r \<Rightarrow> r)"

fun any_opt :: "('a \<Rightarrow> bool option) \<Rightarrow> 'a list \<Rightarrow> bool option" where
  "any_opt f [] = Some False"
| "any_opt f (x # xs) = (case f x of Some False \<Rightarrow> any_opt f xs | r \<Rightarrow> r)"

definition and_opt :: "bool option \<Rightarrow> bool option \<Rightarrow> bool option" where
  "and_opt a b = (case a of Some True \<Rightarrow> b | r \<Rightarrow> r)"

definition or_opt :: "bool option \<Rightarrow> bool option \<Rightarrow> bool option" where
  "or_opt a b = (case a of Some False \<Rightarrow> b | r \<Rightarrow> r)"

definition get_at :: "'a list \<Rightarrow> nat \<Rightarrow> 'a option" where
  "get_at xs i = (if i < length xs then Some (xs ! i) else None)"

type_synonym rel = "ty \<Rightarrow> ty \<Rightarrow> bool option"

definition ty_eq_by :: "rel \<Rightarrow> ty \<Rightarrow> ty \<Rightarrow> bool option" where
  "ty_eq_by rel a b = and_opt (rel a b) (rel b a)"

definition args_eq :: "rel \<Rightarrow> ty list \<Rightarrow> ty list \<Rightarrow> bool option" where
  "args_eq rel as bs =
     (if length as \<noteq> length bs then Some False else all_opt (\<lambda>(x, y). ty_eq_by rel x y) (zip as bs))"

fun iface_extends :: "decls \<Rightarrow> rel \<Rightarrow> nat \<Rightarrow> nat \<Rightarrow> ty list \<Rightarrow> nat \<Rightarrow> ty list \<Rightarrow> bool option" where
  "iface_extends D rel 0 a aargs b bargs = None"
| "iface_extends D rel (Suc n) a aargs b bargs =
     (if a = b then args_eq rel aargs bargs
      else case get_at (dc_ifaces D) a of
        None \<Rightarrow> None
      | Some i \<Rightarrow>
          any_opt (\<lambda>(p, pargs). iface_extends D rel n p (map (\<lambda>t. subst t (zip (if_tparams i) aargs)) pargs) b bargs)
            (if_extends i))"

definition subst_map :: "class_decl \<Rightarrow> ty list \<Rightarrow> tmap" where
  "subst_map c args = zip (cl_tparams c) args"

definition parent_at :: "class_decl \<Rightarrow> ty list \<Rightarrow> (nat \<times> ty list) option" where
  "parent_at c args =
     (case cl_parent c of None \<Rightarrow> None | Some (p, pargs) \<Rightarrow> Some (p, map (\<lambda>t. subst t (subst_map c args)) pargs))"

fun class_extends :: "decls \<Rightarrow> rel \<Rightarrow> nat \<Rightarrow> nat \<Rightarrow> ty list \<Rightarrow> nat \<Rightarrow> ty list \<Rightarrow> bool option" where
  "class_extends D rel 0 a aargs b bargs = None"
| "class_extends D rel (Suc n) a aargs b bargs =
     (if a = b then args_eq rel aargs bargs
      else case get_at (dc_classes D) a of
        None \<Rightarrow> None
      | Some c \<Rightarrow>
          (case parent_at c aargs of
             None \<Rightarrow> Some False
           | Some (p, pargs) \<Rightarrow> class_extends D rel n p pargs b bargs))"

fun class_implements :: "decls \<Rightarrow> rel \<Rightarrow> nat \<Rightarrow> nat \<Rightarrow> ty list \<Rightarrow> nat \<Rightarrow> ty list \<Rightarrow> bool option" where
  "class_implements D rel 0 a aargs b bargs = None"
| "class_implements D rel (Suc n) a aargs b bargs =
     (case get_at (dc_classes D) a of
        None \<Rightarrow> None
      | Some c \<Rightarrow>
          or_opt
            (any_opt (\<lambda>(i, iargs). iface_extends D rel (Suc n) i (map (\<lambda>t. subst t (subst_map c aargs)) iargs) b bargs)
              (cl_ifaces c))
            (case parent_at c aargs of
               None \<Rightarrow> Some False
             | Some (p, pargs) \<Rightarrow> class_implements D rel n p pargs b bargs))"

fun host_parent_of :: "decls \<Rightarrow> nat \<Rightarrow> nat \<Rightarrow> (nat \<times> ty list) option option" where
  "host_parent_of D 0 c = None"
| "host_parent_of D (Suc n) c =
     (case get_at (dc_classes D) c of
        None \<Rightarrow> None
      | Some d \<Rightarrow>
          (case cl_host_parent d of
             Some hp \<Rightarrow> Some (Some hp)
           | None \<Rightarrow> (case cl_parent d of Some (p, _) \<Rightarrow> host_parent_of D n p | None \<Rightarrow> Some None)))"

text \<open>\<open>field_info\<close>: the type and the access of a field, found up the chain.\<close>

fun field_info :: "decls \<Rightarrow> nat \<Rightarrow> nat \<Rightarrow> tmap \<Rightarrow> rstr \<Rightarrow> (ty \<times> access) option option" where
  "field_info D 0 c m name = None"
| "field_info D (Suc n) c m name =
     (case get_at (dc_classes D) c of
        None \<Rightarrow> None
      | Some d \<Rightarrow>
          (case find (\<lambda>f. fd_name f = name) (cl_fields d) of
             Some f \<Rightarrow> Some (Some (subst (fd_ty f) m, fd_access f))
           | None \<Rightarrow>
               (case cl_parent d of
                  None \<Rightarrow> Some None
                | Some (p, pargs) \<Rightarrow>
                    (case get_at (dc_classes D) p of
                       None \<Rightarrow> None
                     | Some pd \<Rightarrow> field_info D n p (subst_map pd (map (\<lambda>t. subst t m) pargs)) name))))"

text \<open>Widening between integer types.\<close>

definition int_widens :: "int_kind \<Rightarrow> int_kind \<Rightarrow> bool" where
  "int_widens a b \<longleftrightarrow>
     a = b \<or> (kind_signed a = kind_signed b \<and> kind_bits a < kind_bits b)
     \<or> (\<not> kind_signed a \<and> kind_signed b \<and> kind_bits a < kind_bits b)"

text \<open>
  The arms for records, classes, functions, interfaces and the scalar types; \<open>n\<close> bounds the
  walks up the chains of declarations.
\<close>

definition assign_same :: "decls \<Rightarrow> rel \<Rightarrow> nat \<Rightarrow> ty \<Rightarrow> ty \<Rightarrow> bool option" where
  "assign_same D rel n s t =
     (case s of
        T_Void \<Rightarrow> Some (case t of T_Void \<Rightarrow> True | _ \<Rightarrow> False)
      | T_Null \<Rightarrow> Some (case t of T_Null \<Rightarrow> True | _ \<Rightarrow> False)
      | T_Bool \<Rightarrow> Some (case t of T_Bool \<Rightarrow> True | _ \<Rightarrow> False)
      | T_Char \<Rightarrow> Some (case t of T_Char \<Rightarrow> True | _ \<Rightarrow> False)
      | T_Str \<Rightarrow> Some (case t of T_Str \<Rightarrow> True | _ \<Rightarrow> False)
      | T_BigInt \<Rightarrow> Some (case t of T_BigInt \<Rightarrow> True | _ \<Rightarrow> False)
      | T_BigDec \<Rightarrow> Some (case t of T_BigDec \<Rightarrow> True | _ \<Rightarrow> False)
      | T_Int a \<Rightarrow> Some (case t of T_Int b \<Rightarrow> int_widens a b | T_F32 \<Rightarrow> True | T_F64 \<Rightarrow> True | _ \<Rightarrow> False)
      | T_F32 \<Rightarrow> Some (case t of T_F32 \<Rightarrow> True | T_F64 \<Rightarrow> True | _ \<Rightarrow> False)
      | T_F64 \<Rightarrow> Some (case t of T_F64 \<Rightarrow> True | _ \<Rightarrow> False)
      | T_Array a \<Rightarrow>
          (case t of T_Array b \<Rightarrow> or_opt (ty_eq_by rel a b) (Some (case b of T_Unknown \<Rightarrow> True | _ \<Rightarrow> False)) | _ \<Rightarrow> Some False)
      | T_Tuple as \<Rightarrow>
          (case t of
             T_Tuple bs \<Rightarrow> if length as \<noteq> length bs then Some False else all_opt (\<lambda>(x, y). rel x y) (zip as bs)
           | _ \<Rightarrow> Some False)
      | T_Record as \<Rightarrow>
          (case t of
             T_Record bs \<Rightarrow>
               all_opt (\<lambda>bf. case find (\<lambda>af. rf_name af = rf_name bf) as of
                               Some af \<Rightarrow> rel (rf_ty af) (rf_ty bf)
                             | None \<Rightarrow> Some (rf_optional bf)) bs
           | _ \<Rightarrow> Some False)
      | T_Fn f \<Rightarrow>
          (case t of
             T_Fn g \<Rightarrow>
               if length (ft_params g) < length (ft_params f) then Some False
               else and_opt (all_opt (\<lambda>(x, y). rel (pt_ty y) (pt_ty x)) (zip (ft_params f) (ft_params g)))
                      (or_opt (Some (case ft_ret g of T_Void \<Rightarrow> True | _ \<Rightarrow> False)) (rel (ft_ret f) (ft_ret g)))
           | _ \<Rightarrow> Some False)
      | T_Class a aargs \<Rightarrow>
          (case t of
             T_Record bs \<Rightarrow>
               all_opt (\<lambda>bf. case field_info D n a [] (rf_name bf) of
                               None \<Rightarrow> None
                             | Some None \<Rightarrow> Some (rf_optional bf)
                             | Some (Some (ft, acc)) \<Rightarrow> if acc = Public then rel ft (rf_ty bf) else Some False) bs
           | T_Class b bargs \<Rightarrow> class_extends D rel n a aargs b bargs
           | T_Iface b bargs \<Rightarrow>
               (case host_parent_of D n a of
                  None \<Rightarrow> None
                | Some None \<Rightarrow> class_implements D rel n a aargs b bargs
                | Some (Some (i, iargs)) \<Rightarrow>
                    or_opt (iface_extends D rel n i iargs b bargs) (class_implements D rel n a aargs b bargs))
           | _ \<Rightarrow> Some False)
      | T_Iface a aargs \<Rightarrow> (case t of T_Iface b bargs \<Rightarrow> iface_extends D rel n a aargs b bargs | _ \<Rightarrow> Some False)
      | T_Enum a \<Rightarrow> Some (case t of T_Enum b \<Rightarrow> a = b | _ \<Rightarrow> False)
      | T_Var a \<Rightarrow> Some (case t of T_Var b \<Rightarrow> a = b | _ \<Rightarrow> False)
      | T_ClassMeta a \<Rightarrow> Some (case t of T_ClassMeta b \<Rightarrow> a = b | _ \<Rightarrow> False)
      | _ \<Rightarrow> Some False)"

definition is_number :: "ty \<Rightarrow> bool" where
  "is_number t \<longleftrightarrow> (case t of T_Int _ \<Rightarrow> True | T_F32 \<Rightarrow> True | T_F64 \<Rightarrow> True | T_BigInt \<Rightarrow> True | T_BigDec \<Rightarrow> True | _ \<Rightarrow> False)"

definition is_numeric_iface :: "decls \<Rightarrow> ty \<Rightarrow> bool" where
  "is_numeric_iface D t \<longleftrightarrow> (case t of T_Iface i _ \<Rightarrow> dc_numeric_id D = Some i | _ \<Rightarrow> False)"

text \<open>Views of a type that the arms in front of the others ask for.\<close>

definition is_err :: "ty \<Rightarrow> bool" where
  "is_err t \<longleftrightarrow> (case t of T_Err \<Rightarrow> True | _ \<Rightarrow> False)"

definition is_unknown :: "ty \<Rightarrow> bool" where
  "is_unknown t \<longleftrightarrow> (case t of T_Unknown \<Rightarrow> True | _ \<Rightarrow> False)"

definition is_null :: "ty \<Rightarrow> bool" where
  "is_null t \<longleftrightarrow> (case t of T_Null \<Rightarrow> True | _ \<Rightarrow> False)"

definition nullable_of :: "ty \<Rightarrow> ty option" where
  "nullable_of t = (case t of T_Nullable inner \<Rightarrow> Some inner | _ \<Rightarrow> None)"

definition union_of :: "ty \<Rightarrow> ty list option" where
  "union_of t = (case t of T_Union arms \<Rightarrow> Some arms | _ \<Rightarrow> None)"

definition assign_step :: "decls \<Rightarrow> rel \<Rightarrow> nat \<Rightarrow> ty \<Rightarrow> ty \<Rightarrow> bool option" where
  "assign_step D rel n s t =
     (if is_err s \<or> is_err t then Some True
      else if is_unknown t then Some True
      else if is_unknown s then Some False
      else if is_number s \<and> is_numeric_iface D t then Some True
      else case nullable_of t of
        Some b \<Rightarrow> if is_null s then Some True else (case nullable_of s of Some a \<Rightarrow> rel a b | None \<Rightarrow> rel s b)
      | None \<Rightarrow>
          (case union_of s of
             Some arms \<Rightarrow> all_opt (\<lambda>a. rel a t) arms
           | None \<Rightarrow>
               (case union_of t of
                  Some arms \<Rightarrow> any_opt (\<lambda>a. rel s a) arms
                | None \<Rightarrow> assign_same D rel n s t)))"

fun assignable :: "decls \<Rightarrow> nat \<Rightarrow> rel" where
  "assignable D 0 = (\<lambda>s t. None)"
| "assignable D (Suc n) = assign_step D (assignable D n) (Suc n)"

definition ty_eq :: "decls \<Rightarrow> nat \<Rightarrow> ty \<Rightarrow> ty \<Rightarrow> bool option" where
  "ty_eq D n a b = ty_eq_by (assignable D n) a b"

section \<open>Operators and conversions\<close>

definition num_of :: "ty \<Rightarrow> num option" where
  "num_of t = (case t of T_Int k \<Rightarrow> Some (Num_Int k) | T_F32 \<Rightarrow> Some Num_F32 | T_F64 \<Rightarrow> Some Num_F64 | _ \<Rightarrow> None)"

text \<open>\<open>coerce_key\<close>: the conversion recorded for a value that goes from one type to another.\<close>

definition coerce :: "ty \<Rightarrow> ty \<Rightarrow> num option" where
  "coerce s t = (case (num_of s, num_of t) of (Some f, Some g) \<Rightarrow> if f \<noteq> g then Some g else None | _ \<Rightarrow> None)"

definition promote :: "ty \<Rightarrow> ty option" where
  "promote t =
     (case t of
        T_Int k \<Rightarrow> Some (if kind_bits k < 32 then T_Int I32 else T_Int k)
      | T_F32 \<Rightarrow> Some T_F32
      | T_F64 \<Rightarrow> Some T_F64
      | _ \<Rightarrow> None)"

definition type_rank :: "ty \<Rightarrow> nat" where
  "type_rank t =
     (case t of
        T_Int k \<Rightarrow> (case k of I32 \<Rightarrow> 0 | U32 \<Rightarrow> 1 | I64 \<Rightarrow> 2 | U64 \<Rightarrow> 3 | _ \<Rightarrow> 5)
      | T_F32 \<Rightarrow> 4
      | _ \<Rightarrow> 5)"

definition numeric_common :: "ty \<Rightarrow> ty \<Rightarrow> ty option" where
  "numeric_common a b =
     (case (promote a, promote b) of
        (Some x, Some y) \<Rightarrow> Some (if type_rank y \<le> type_rank x then x else y)
      | _ \<Rightarrow> None)"

definition tv_is_numeric :: "decls \<Rightarrow> nat \<Rightarrow> bool" where
  "tv_is_numeric D v \<longleftrightarrow>
     (case dc_numeric_id D of
        None \<Rightarrow> False
      | Some i \<Rightarrow> (case dc_tv_bounds D v of Some (T_Iface j _) \<Rightarrow> j = i | _ \<Rightarrow> False))"
section \<open>How a type is shown\<close>

fun join :: "rstr \<Rightarrow> rstr list \<Rightarrow> rstr" where
  "join sep [] = []"
| "join sep [x] = x"
| "join sep (x # y # xs) = x @ sep @ join sep (y # xs)"

definition name_at :: "rstr list \<Rightarrow> nat \<Rightarrow> rstr" where
  "name_at names i = (case get_at names i of Some n \<Rightarrow> n | None \<Rightarrow> [])"

definition with_args :: "rstr \<Rightarrow> rstr list \<Rightarrow> rstr" where
  "with_args name args = (if args = [] then name else name @ (str ''<'') @ join (str '', '') args @ (str ''>''))"

definition show_param :: "rstr param_type \<Rightarrow> rstr" where
  "show_param p =
     (if pt_rest p then (str ''...'') @ pt_ty p @ (str ''[]'') else if pt_optional p then pt_ty p @ (str ''?'') else pt_ty p)"

text \<open>An identifier outside its table, where the code panics, shows as nothing.\<close>

primrec show_ty :: "decls \<Rightarrow> ty \<Rightarrow> rstr" where
  "show_ty D T_Unknown = (str ''unknown'')"
| "show_ty D T_Err = (str ''<error>'')"
| "show_ty D T_Void = (str ''void'')"
| "show_ty D T_Null = (str ''null'')"
| "show_ty D T_Bool = (str ''bool'')"
| "show_ty D T_Char = (str ''char'')"
| "show_ty D T_Str = (str ''string'')"
| "show_ty D T_BigInt = (str ''bigint'')"
| "show_ty D T_BigDec = (str ''bigdec'')"
| "show_ty D (T_Int k) = kind_name k"
| "show_ty D T_F32 = (str ''float32'')"
| "show_ty D T_F64 = (str ''float64'')"
| "show_ty D (T_Nullable t) = show_ty D t @ (str ''?'')"
| "show_ty D (T_Array t) = show_ty D t @ (str ''[]'')"
| "show_ty D (T_Tuple ts) = (str ''['') @ join (str '', '') (map (show_ty D) ts) @ (str '']'')"
| "show_ty D (T_Record fs) =
     (str ''{'') @ join (str '', '') (map (\<lambda>f. rf_name f @ (str '': '') @ rf_ty f) (map (map_rec_field (show_ty D)) fs)) @ (str ''}'')"
| "show_ty D (T_Fn f) =
     (case map_fn_type (show_ty D) f of Fn_Type _ ps r \<Rightarrow> (str ''('') @ join (str '', '') (map show_param ps) @ (str '') => '') @ r)"
| "show_ty D (T_Class c ts) = with_args (name_at (map cl_name (dc_classes D)) c) (map (show_ty D) ts)"
| "show_ty D (T_Iface i ts) = with_args (name_at (map if_name (dc_ifaces D)) i) (map (show_ty D) ts)"
| "show_ty D (T_Enum e) = name_at (dc_enums D) e"
| "show_ty D (T_ClassMeta c) = (str ''class '') @ name_at (map cl_name (dc_classes D)) c"
| "show_ty D (T_IfaceMeta i) = (str ''interface '') @ name_at (map if_name (dc_ifaces D)) i"
| "show_ty D (T_EnumMeta e) = (str ''enum '') @ name_at (dc_enums D) e"
| "show_ty D (T_Namespace n) = (str ''namespace'')"
| "show_ty D (T_Var v) = name_at (dc_tv_names D) v"
| "show_ty D (T_Union ts) = join (str '' | '') (map (show_ty D) ts)"

section \<open>The checker's judgements on operators\<close>

text \<open>A judgement is the type it answers and the diagnostics it reports.\<close>

type_synonym judged = "ty \<times> diagnostic list"

definition bad :: "code \<Rightarrow> rstr \<Rightarrow> pos \<Rightarrow> judged" where
  "bad c msg p = (T_Err, [diagnostic_error c msg p])"

definition is_arith :: "bin_op \<Rightarrow> bool" where
  "is_arith bop \<longleftrightarrow> bop \<in> set [O_Add, O_Sub, O_Mul, O_Div]"

definition is_order :: "bin_op \<Rightarrow> bool" where
  "is_order bop \<longleftrightarrow> bop \<in> set [O_Lt, O_Gt, O_Le, O_Ge]"

definition is_bitwise :: "bin_op \<Rightarrow> bool" where
  "is_bitwise bop \<longleftrightarrow> bop \<in> set [O_Shl, O_Shr, O_BitAnd, O_BitOr, O_BitXor]"

text \<open>The first \<open>match\<close>: strings, characters and the exact numbers.\<close>

definition text_or_exact :: "bin_op \<Rightarrow> ty \<Rightarrow> ty \<Rightarrow> ty option" where
  "text_or_exact bop l r =
     (case l of
        T_Str \<Rightarrow>
          (case r of T_Str \<Rightarrow> if bop = O_Add then Some T_Str else if is_order bop then Some T_Bool else None | _ \<Rightarrow> None)
      | T_Char \<Rightarrow> (case r of T_Char \<Rightarrow> if is_order bop then Some T_Bool else None | _ \<Rightarrow> None)
      | T_BigInt \<Rightarrow>
          (case r of
             T_BigInt \<Rightarrow> if is_arith bop \<or> bop = O_Rem \<or> bop = O_Pow then Some T_BigInt
                        else if is_order bop then Some T_Bool else None
           | _ \<Rightarrow> None)
      | T_BigDec \<Rightarrow>
          (case r of
             T_BigDec \<Rightarrow> if is_arith bop then Some T_BigDec else if is_order bop then Some T_Bool else None
           | _ \<Rightarrow> None)
      | _ \<Rightarrow> None)"

text \<open>Two occurrences of one type parameter bounded by \<open>Numeric\<close>.\<close>

definition same_numeric_var :: "decls \<Rightarrow> ty \<Rightarrow> ty \<Rightarrow> bool" where
  "same_numeric_var D l r \<longleftrightarrow>
     (case l of T_Var a \<Rightarrow> (case r of T_Var b \<Rightarrow> a = b \<and> tv_is_numeric D a | _ \<Rightarrow> False) | _ \<Rightarrow> False)"

definition check_binary_types :: "decls \<Rightarrow> bin_op \<Rightarrow> ty \<Rightarrow> ty \<Rightarrow> pos \<Rightarrow> judged" where
  "check_binary_types D bop l r p =
     (if is_err l \<or> is_err r then (T_Err, [])
      else case text_or_exact bop l r of
        Some t \<Rightarrow> (t, [])
      | None \<Rightarrow>
      if same_numeric_var D l r then
        (if is_arith bop then (l, [])
         else if is_order bop then (T_Bool, [])
         else bad BadOperand ((str ''`'') @ bin_op_as_str bop @ (str ''` is not available on a `Numeric` type parameter'')) p)
      else
     (case numeric_common l r of
        None \<Rightarrow> bad BadOperand ((str ''`'') @ bin_op_as_str bop @ (str ''` needs numeric operands, got `'') @ show_ty D l
                 @ (str ''` and `'') @ show_ty D r @ (str ''`'')) p
      | Some common \<Rightarrow>
          if is_order bop then (T_Bool, [])
          else if is_bitwise bop \<and> (case common of T_F32 \<Rightarrow> True | T_F64 \<Rightarrow> True | _ \<Rightarrow> False)
          then bad BadOperand (str ''bitwise operators need integer operands'') p
          else (common, [])))"

text \<open>The unary operators of \<open>check_expr_inner\<close>; \<open>await\<close> needs the table of interfaces and
  is not part of it.\<close>

definition condition_ok :: "ty \<Rightarrow> bool" where
  "condition_ok t \<longleftrightarrow> (case t of T_Bool \<Rightarrow> True | T_Int _ \<Rightarrow> True | T_F32 \<Rightarrow> True | T_F64 \<Rightarrow> True | T_Err \<Rightarrow> True | _ \<Rightarrow> False)"

definition check_unary :: "decls \<Rightarrow> unary_op \<Rightarrow> ty \<Rightarrow> pos \<Rightarrow> judged option" where
  "check_unary D uop t p =
     (case uop of
        U_Not \<Rightarrow>
          Some (T_Bool, if condition_ok t then []
                        else [diagnostic_error BadOperand ((str ''`!` needs bool or numeric, got `'') @ show_ty D t @ (str ''`'')) p])
      | U_BitNot \<Rightarrow>
          Some (case t of T_Int _ \<Rightarrow> (t, []) | T_Err \<Rightarrow> (T_Err, [])
                | _ \<Rightarrow> bad BadOperand ((str ''`~` needs an integer, got `'') @ show_ty D t @ (str ''`'')) p)
      | U_Await \<Rightarrow> None
      | _ \<Rightarrow>
          Some (if is_number t then (t, [])
                else case t of T_Err \<Rightarrow> (T_Err, [])
                | _ \<Rightarrow> bad BadOperand ((str ''unary needs a number, got `'') @ show_ty D t @ (str ''`'')) p))"

definition check_condition :: "decls \<Rightarrow> ty \<Rightarrow> pos \<Rightarrow> diagnostic list" where
  "check_condition D t p =
     (if condition_ok t then []
      else [diagnostic_error BadCondition ((str ''condition must be bool or numeric, got `'') @ show_ty D t
              @ (str ''`; write the comparison ('') @ [0xA7] @ (str ''3.3)'')) p])"

text \<open>\<open>comparable\<close> and \<open>check_cast\<close> consult the relation, so they take its fuel.\<close>

definition comparable :: "decls \<Rightarrow> nat \<Rightarrow> ty \<Rightarrow> ty \<Rightarrow> bool option" where
  "comparable D n a b =
     (let is_iface = (\<lambda>t. case t of T_Iface _ _ \<Rightarrow> True | _ \<Rightarrow> False)
      in if is_err a \<or> is_err b then Some True
         else if is_iface a \<and> is_iface b then Some True
         else if numeric_common a b \<noteq> None then Some True
         else if is_null a \<or> is_null b then Some True
         else or_opt (assignable D n a b) (assignable D n b a))"

definition castable_number :: "ty \<Rightarrow> bool" where
  "castable_number t \<longleftrightarrow> (case t of T_Int _ \<Rightarrow> True | T_F32 \<Rightarrow> True | T_F64 \<Rightarrow> True | T_Char \<Rightarrow> True | _ \<Rightarrow> False)"

definition cast_source :: "ty \<Rightarrow> ty \<Rightarrow> ty" where
  "cast_source s t = (case nullable_of s of Some inner \<Rightarrow> if nullable_of t = None then inner else s | None \<Rightarrow> s)"

definition check_cast :: "decls \<Rightarrow> nat \<Rightarrow> ty \<Rightarrow> ty \<Rightarrow> bool \<Rightarrow> pos \<Rightarrow> diagnostic list option" where
  "check_cast D n s0 t wrapping p =
     (let s = cast_source s0 t
      in if is_err s \<or> is_err t then Some []
         else if wrapping then
           Some (if castable_number s \<and> (case t of T_Int _ \<Rightarrow> True | _ \<Rightarrow> False) then []
                 else [diagnostic_error BadCast (str ''`as wrapping` applies only to numeric-to-integer casts'') p])
         else if castable_number s \<and> castable_number t then Some []
         else (case or_opt (assignable D n s t) (assignable D n t s) of
                 None \<Rightarrow> None
               | Some True \<Rightarrow> Some []
               | Some False \<Rightarrow>
                   Some [diagnostic_error BadCast ((str ''cannot cast `'') @ show_ty D s @ (str ''` to `'') @ show_ty D t @ (str ''`'')) p]))"

definition require_assignable :: "decls \<Rightarrow> nat \<Rightarrow> ty \<Rightarrow> ty \<Rightarrow> pos \<Rightarrow> rstr \<Rightarrow> diagnostic list option" where
  "require_assignable D n s t p what =
     (case assignable D n s t of
        None \<Rightarrow> None
      | Some True \<Rightarrow> Some []
      | Some False \<Rightarrow>
          Some [diagnostic_error TypeMismatch (what @ (str '': `'') @ show_ty D s @ (str ''` is not assignable to `'') @ show_ty D t @ (str ''`'')) p])"

definition unify_pair :: "decls \<Rightarrow> nat \<Rightarrow> ty \<Rightarrow> ty \<Rightarrow> ty option" where
  "unify_pair D n a b =
     (case assignable D n b a of
        None \<Rightarrow> None
      | Some True \<Rightarrow> Some a
      | Some False \<Rightarrow>
     (case assignable D n a b of
        None \<Rightarrow> None
      | Some True \<Rightarrow> Some b
      | Some False \<Rightarrow>
          Some (if is_null a then nullable b
                else if is_null b then nullable a
                else case numeric_common a b of Some c \<Rightarrow> c | None \<Rightarrow> fold_union [a, b])))"

section \<open>Literals\<close>

datatype lit_kind = L_Int | L_Float | L_BigInt | L_BigDec | L_Str | L_Char | L_Bool | L_Null

definition suffix_kinds :: "(rstr \<times> int_kind) list" where
  "suffix_kinds =
     [((str ''u64''), U64), ((str ''u32''), U32), ((str ''u16''), U16), ((str ''ul''), U64), ((str ''u8''), U8), ((str ''i64''), I64), ((str ''i32''), I32), ((str ''i16''), I16),
      ((str ''i8''), I8), ((str ''l''), I64), ((str ''u''), U32)]"

definition literal_ty :: "lit_kind \<Rightarrow> rstr \<Rightarrow> ty" where
  "literal_ty k txt =
     (case k of
        L_Null \<Rightarrow> T_Null | L_Bool \<Rightarrow> T_Bool | L_Str \<Rightarrow> T_Str | L_Char \<Rightarrow> T_Char
      | L_BigInt \<Rightarrow> T_BigInt | L_BigDec \<Rightarrow> T_BigDec
      | L_Float \<Rightarrow> if ends_with txt (str ''f'') then T_F32 else T_F64
      | L_Int \<Rightarrow>
          (case find (\<lambda>e. ends_with (no_underscores txt) (fst e)) suffix_kinds of
             Some e \<Rightarrow> T_Int (snd e)
           | None \<Rightarrow> T_Int I32))"

definition int_fits :: "int \<Rightarrow> int_kind \<Rightarrow> bool" where
  "int_fits v k = kind_fits k v"
section \<open>The operators never fail on checked operands\<close>

text \<open>The values of a scalar type.\<close>

definition has_scalar :: "mvalue \<Rightarrow> ty \<Rightarrow> bool" where
  "has_scalar v t \<longleftrightarrow>
     (case t of
        T_Null \<Rightarrow> v = V_Null
      | T_Bool \<Rightarrow> (case v of V_Bool _ \<Rightarrow> True | _ \<Rightarrow> False)
      | T_Char \<Rightarrow> (case v of V_Char _ \<Rightarrow> True | _ \<Rightarrow> False)
      | T_Str \<Rightarrow> (case v of V_Str _ \<Rightarrow> True | _ \<Rightarrow> False)
      | T_BigInt \<Rightarrow> (case v of V_BigInt _ \<Rightarrow> True | _ \<Rightarrow> False)
      | T_BigDec \<Rightarrow> (case v of V_BigDec _ \<Rightarrow> True | _ \<Rightarrow> False)
      | T_Int k \<Rightarrow> (case int_of v of Some i \<Rightarrow> kind_fits k i \<and> v = kind_value k i | None \<Rightarrow> False)
      | T_F32 \<Rightarrow> (case v of V_F32 _ \<Rightarrow> True | _ \<Rightarrow> False)
      | T_F64 \<Rightarrow> (case v of V_F64 _ \<Rightarrow> True | _ \<Rightarrow> False)
      | _ \<Rightarrow> False)"

text \<open>The engine's part of a recorded conversion.\<close>

definition apply_coercion :: "ty \<Rightarrow> ty \<Rightarrow> mvalue \<Rightarrow> mvalue" where
  "apply_coercion s t v = (case coerce s t of Some n \<Rightarrow> convert_num v n | None \<Rightarrow> v)"

lemma int_of_kind_value: "kind_fits k i \<Longrightarrow> int_of (kind_value k i) = Some i"
  using kind_fits_val [of i]
  by (cases k) (auto simp: int_of_def kind_fits_def int_lo_def int_hi_def int_val_def)

lemma has_int_iff: "has_scalar v (T_Int k) \<longleftrightarrow> (\<exists>i. kind_fits k i \<and> v = kind_value k i)"
  by (auto simp: has_scalar_def int_of_kind_value split: option.splits)

lemma has_scalar_cases:
  "has_scalar v T_Str \<longleftrightarrow> (\<exists>s. v = V_Str s)" "has_scalar v T_Char \<longleftrightarrow> (\<exists>c. v = V_Char c)"
  "has_scalar v T_BigInt \<longleftrightarrow> (\<exists>b. v = V_BigInt b)" "has_scalar v T_BigDec \<longleftrightarrow> (\<exists>d. v = V_BigDec d)"
  "has_scalar v T_F32 \<longleftrightarrow> (\<exists>f. v = V_F32 f)" "has_scalar v T_F64 \<longleftrightarrow> (\<exists>f. v = V_F64 f)"
  "has_scalar v T_Bool \<longleftrightarrow> (\<exists>b. v = V_Bool b)" "has_scalar v T_Null \<longleftrightarrow> v = V_Null"
  by (cases v; simp add: has_scalar_def)+

lemmas has_scalar_iffs = has_int_iff has_scalar_cases

lemma num_of_cases:
  assumes "num_of t = Some n"
  obtains k where "t = T_Int k" "n = Num_Int k" | "t = T_F32" "n = Num_F32" | "t = T_F64" "n = Num_F64"
  using assms by (cases t) (auto simp: num_of_def)

lemma convert_has_scalar:
  assumes "has_scalar v s" "num_of s = Some m" "num_of t = Some n"
  shows "has_scalar (convert_num v n) t"
proof -
  have src: "\<exists>i f b. convert_source v = Some (i, f, b)"
    using assms(2)
  proof (cases rule: num_of_cases)
    case (1 k)
    then obtain i where "v = kind_value k i" using assms(1) by (auto simp: has_int_iff)
    then show ?thesis by (cases k) (auto simp: convert_source_def)
  qed (use assms(1) in \<open>auto simp: has_scalar_iffs convert_source_def Let_def\<close>)
  then obtain i f b where src: "convert_source v = Some (i, f, b)" by blast
  show ?thesis using assms(3)
  proof (cases rule: num_of_cases)
    case (1 k)
    have "kind_fits k (wrap_kind k x)" for x by (rule wrap_kind_fits)
    moreover have "\<exists>x. convert_num v (Num_Int k) = kind_value k (wrap_kind k x)"
      using src by (cases k; force simp: convert_num_def wrap_kind_def wrap_int_def word_of_wrap)
    ultimately show ?thesis using 1 by (auto simp: has_int_iff)
  qed (auto simp: convert_num_def src has_scalar_iffs)
qed

lemma coercion_has_scalar:
  assumes "has_scalar v s" "num_of s = Some m" "num_of t = Some n"
  shows "has_scalar (apply_coercion s t v) t"
proof (cases "m = n")
  case True
  have "s = t" using assms(2,3) True by (auto elim!: num_of_cases)
  then show ?thesis using assms True by (simp add: apply_coercion_def coerce_def)
next
  case False
  then show ?thesis using assms convert_has_scalar by (simp add: apply_coercion_def coerce_def)
qed

lemma numeric_common_num:
  assumes "numeric_common s t = Some c"
  obtains m n where "num_of s = Some m" "num_of t = Some n" "\<exists>k. num_of c = Some k"
    "c = T_F32 \<or> c = T_F64 \<or> (\<exists>k\<in>wide_kinds. c = T_Int k)"
proof -
  have p: "num_of x \<noteq> None \<and> (\<exists>k. num_of y = Some k) \<and> (y = T_F32 \<or> y = T_F64 \<or> (\<exists>k\<in>wide_kinds. y = T_Int k))"
    if "promote x = Some y" for x y
  proof (cases "\<exists>k. x = T_Int k")
    case True
    then obtain k where k: "x = T_Int k" by blast
    have "kind_bits k < 32 \<or> k \<in> wide_kinds" by (cases k) (auto simp: wide_kinds_def)
    then show ?thesis using that k by (auto simp: promote_def num_of_def split: if_splits) (auto simp: wide_kinds_def)
  next
    case False
    then show ?thesis using that by (cases x) (auto simp: promote_def num_of_def)
  qed
  obtain x y where "promote s = Some x" "promote t = Some y" "c = x \<or> c = y"
    using assms by (auto simp: numeric_common_def split: option.splits if_splits)
  then show thesis using p that by (metis option.exhaust)
qed
text \<open>An answer that is a value of the type, or a \<open>RangeError\<close>.\<close>

definition answers :: "mvalue tres \<Rightarrow> ty \<Rightarrow> bool" where
  "answers r t \<longleftrightarrow> (case r of Inr v \<Rightarrow> has_scalar v t | Inl e \<Rightarrow> thrown_class e = (str ''RangeError''))"

lemma answers_simps [simp]: "answers (Inr v) t = has_scalar v t" "answers (range_error m) t"
  by (simp_all add: answers_def range_error_def)

text \<open>The operators that reach the judgement on two types.\<close>

definition strict_op :: "bin_op \<Rightarrow> bool" where
  "strict_op bop \<longleftrightarrow> bop \<notin> set [O_Coalesce, O_Or, O_And, O_Eq, O_Ne, O_Instanceof]"

definition op_result :: "bin_op \<Rightarrow> ty \<Rightarrow> ty" where
  "op_result bop c = (if is_order bop then T_Bool else c)"

lemmas op_groups = strict_op_def op_result_def is_order_def is_bitwise_def is_arith_def

lemma int_op_answers:
  assumes "k \<in> wide_kinds" "kind_fits k a" "kind_fits k b" "strict_op bop"
  shows "answers (numeric_binop pw bop (kind_value k a) (kind_value k b)) (op_result bop (T_Int k))"
proof -
  have v: "has_scalar (kind_value k i) (T_Int k)" for i
    using wrap_kind_fits [of k i] wrap_kind_value [OF assms(1), of i] by (metis has_int_iff)
  have "join_kind k k = k" by (simp add: join_kind_def)
  then show ?thesis using assms(4) v unfolding numeric_binop_ints [OF assms(1,1,2,3)]
    by (cases bop) (simp_all add: int_answer_def int_ref_def op_groups has_scalar_cases)
qed

lemma float_op_answers:
  assumes "strict_op bop" "\<not> is_bitwise bop" "\<And>x. has_scalar (mk x) t"
  shows "answers (float_binop pw f mk bop x y) (op_result bop t)"
  using assms by (cases bop) (simp_all add: float_binop_def op_groups has_scalar_cases)

lemma float_binops:
  "numeric_binop pw bop (V_F64 x) (V_F64 y) = float_binop pw f64 V_F64 bop x y"
  "numeric_binop pw bop (V_F32 x) (V_F32 y) = float_binop pw f32 V_F32 bop (fl_conv f32 (fl_conv f64 x)) (fl_conv f32 (fl_conv f64 y))"
  by (simp_all add: numeric_binop_def text_binop_def promote_pair_def conv_rank_def promoted_binop_def)

lemma common_op_answers:
  assumes c: "c = T_F32 \<or> c = T_F64 \<or> (\<exists>k\<in>wide_kinds. c = T_Int k)" and v: "has_scalar v c" "has_scalar w c"
    and bop: "strict_op bop" "is_bitwise bop \<Longrightarrow> c \<noteq> T_F32 \<and> c \<noteq> T_F64"
  shows "answers (numeric_binop pw bop v w) (op_result bop c)"
  using c
proof (elim disjE bexE)
  fix k assume "k \<in> wide_kinds" "c = T_Int k"
  then show ?thesis using v bop(1) int_op_answers by (auto simp: has_int_iff)
qed (use v bop in \<open>auto simp: has_scalar_cases float_binops intro!: float_op_answers\<close>)

lemma exact_op_answers:
  assumes "text_or_exact bop s t = Some u" "has_scalar v s" "has_scalar w t" "\<not> (s = T_BigInt \<and> bop = O_Pow)"
  shows "answers (numeric_binop pw bop v w) u"
proof -
  consider "s = T_Str" "t = T_Str" | "s = T_Char" "t = T_Char" | "s = T_BigInt" "t = T_BigInt" | "s = T_BigDec" "t = T_BigDec"
    using assms(1) by (cases s; cases t) (simp_all add: text_or_exact_def)
  then show ?thesis
  proof cases
    case 1
    then show ?thesis using assms by (cases bop)
        (auto simp: has_scalar_cases text_or_exact_def op_groups numeric_binop_def text_binop_def order_op_def)
  next
    case 2
    then show ?thesis using assms by (cases bop)
        (auto simp: has_scalar_cases text_or_exact_def op_groups numeric_binop_def text_binop_def order_op_def)
  next
    case 3
    then show ?thesis using assms by (cases bop)
        (auto simp: has_scalar_cases text_or_exact_def op_groups numeric_binop_def text_binop_def bigint_op_def split: option.splits)
  next
    case 4
    then show ?thesis using assms by (cases bop)
        (auto simp: has_scalar_cases text_or_exact_def op_groups numeric_binop_def text_binop_def bigdec_op_def split: option.splits)
  qed
qed

lemma has_scalar_not_var: "has_scalar v s \<Longrightarrow> \<not> same_numeric_var D s t" "has_scalar v s \<Longrightarrow> \<not> is_err s"
  by (cases s; simp add: has_scalar_def same_numeric_var_def is_err_def)+

lemma is_float: "(case c of T_F32 \<Rightarrow> True | T_F64 \<Rightarrow> True | _ \<Rightarrow> False) \<longleftrightarrow> c = T_F32 \<or> c = T_F64"
  by (cases c) auto

lemma checked_op_answers:
  assumes "check_binary_types D bop s t p = (u, [])" "has_scalar v s" "has_scalar w t" "strict_op bop"
    and nopow: "\<not> (s = T_BigInt \<and> bop = O_Pow)"
  defines "c \<equiv> numeric_common s t"
  shows "answers (numeric_binop pw bop (case c of Some c \<Rightarrow> apply_coercion s c v | None \<Rightarrow> v)
    (case c of Some c \<Rightarrow> apply_coercion t c w | None \<Rightarrow> w)) u"
proof (cases "text_or_exact bop s t")
  case (Some u')
  have "c = None" using Some by (cases s; cases t) (auto simp: text_or_exact_def c_def numeric_common_def promote_def)
  moreover have "u' = u" using Some assms(1) has_scalar_not_var [OF assms(2)] has_scalar_not_var [OF assms(3)]
    by (simp add: check_binary_types_def)
  ultimately show ?thesis using exact_op_answers [OF Some assms(2,3) nopow] by simp
next
  case None
  then obtain c' where c': "numeric_common s t = Some c'" and u: "u = op_result bop c'"
    and bit: "is_bitwise bop \<Longrightarrow> c' \<noteq> T_F32 \<and> c' \<noteq> T_F64"
    using assms(1) has_scalar_not_var [OF assms(2)] has_scalar_not_var [OF assms(3)]
    by (auto simp: check_binary_types_def bad_def op_groups is_float split: option.splits if_splits)
  obtain m n k where n: "num_of s = Some m" "num_of t = Some n" "num_of c' = Some k"
    and shape: "c' = T_F32 \<or> c' = T_F64 \<or> (\<exists>k\<in>wide_kinds. c' = T_Int k)"
    using numeric_common_num [OF c'] by metis
  have "has_scalar (apply_coercion s c' v) c'" "has_scalar (apply_coercion t c' w) c'"
    using coercion_has_scalar assms(2,3) n by blast+
  from common_op_answers [OF shape this assms(4) bit] show ?thesis by (simp add: c_def c' u)
qed

text \<open>
  A type parameter stands for its type argument; one bounded by \<open>Numeric\<close> for a number type.  What
  the engine computes is a value of the promoted type.
\<close>

definition at_run :: "(nat \<Rightarrow> ty) \<Rightarrow> ty \<Rightarrow> ty" where
  "at_run \<rho> t = (case t of T_Var a \<Rightarrow> \<rho> a | _ \<Rightarrow> t)"

definition promoted :: "ty \<Rightarrow> ty" where
  "promoted t = (case promote t of Some c \<Rightarrow> c | None \<Rightarrow> t)"

definition run_result :: "(nat \<Rightarrow> ty) \<Rightarrow> ty \<Rightarrow> ty" where
  "run_result \<rho> u = (case u of T_Var a \<Rightarrow> promoted (\<rho> a) | _ \<Rightarrow> u)"

lemma narrow_or_wide: "kind_bits k < 32 \<or> k \<in> wide_kinds"
  by (cases k) (auto simp: wide_kinds_def)

lemma narrow_is_i32:
  assumes "kind_bits k < 32" "has_scalar v (T_Int k)"
  shows "has_scalar v (T_Int I32)"
proof -
  obtain i where i: "kind_fits k i" "v = kind_value k i" using assms(2) by (auto simp: has_int_iff)
  have "kind_fits I32 i" using assms(1) i(1) by (cases k) (auto simp: kind_fits_def int_lo_def int_hi_def)
  moreover have "v = kind_value I32 i" using assms(1) i(2) by (cases k) simp_all
  ultimately show ?thesis by (auto simp: has_int_iff)
qed

lemma has_promoted:
  assumes "has_scalar v t"
  shows "has_scalar v (promoted t)"
  using assms narrow_is_i32 by (cases t) (auto simp: promoted_def promote_def)

lemma number_op_answers:
  assumes r: "is_number r" and v: "has_scalar v r" "has_scalar w r" and bop: "is_arith bop \<or> is_order bop"
  shows "answers (numeric_binop pw bop v w) (op_result bop (promoted r))"
proof -
  have strict: "strict_op bop" "\<not> is_bitwise bop" using bop by (auto simp: op_groups)
  note p = has_promoted [OF v(1)] has_promoted [OF v(2)]
  consider k where "r = T_Int k" | "r = T_F32" | "r = T_F64" | "r = T_BigInt" | "r = T_BigDec"
    using r by (cases r) (auto simp: is_number_def)
  then show ?thesis
  proof cases
    case (1 k)
    then have "\<exists>k'\<in>wide_kinds. promoted r = T_Int k'"
      using narrow_or_wide [of k] by (auto simp: promoted_def promote_def wide_kinds_def)
    then show ?thesis using common_op_answers [OF _ p strict(1)] strict(2) by blast
  next
    case 4
    then have "text_or_exact bop r r = Some (op_result bop (promoted r))"
      using bop by (auto simp: text_or_exact_def promoted_def promote_def op_groups)
    then show ?thesis using exact_op_answers v 4 bop by (auto simp: op_groups)
  next
    case 5
    then have "text_or_exact bop r r = Some (op_result bop (promoted r))"
      using bop by (auto simp: text_or_exact_def promoted_def promote_def op_groups)
    then show ?thesis using exact_op_answers v 5 bop by (auto simp: op_groups)
  qed (use common_op_answers [OF _ p strict(1)] strict(2) in \<open>auto simp: promoted_def promote_def\<close>)
qed

lemma at_run_id: "(\<forall>a. t \<noteq> T_Var a) \<Longrightarrow> at_run \<rho> t = t"
  by (cases t) (simp_all add: at_run_def)

lemma text_or_exact_shape:
  assumes "text_or_exact bop s t = Some u"
  shows "u \<in> {T_Bool, T_Str, T_BigInt, T_BigDec} \<and> (\<forall>a. s \<noteq> T_Var a \<and> t \<noteq> T_Var a)"
proof -
  have "s = T_Str \<and> t = T_Str \<or> s = T_Char \<and> t = T_Char \<or> s = T_BigInt \<and> t = T_BigInt \<or> s = T_BigDec \<and> t = T_BigDec"
    using assms by (cases s; cases t) (simp_all add: text_or_exact_def)
  then show ?thesis using assms by (auto simp: text_or_exact_def split: if_splits)
qed

lemma numeric_common_shape:
  assumes "numeric_common s t = Some c"
  shows "(\<forall>a. c \<noteq> T_Var a) \<and> (\<forall>a. s \<noteq> T_Var a \<and> t \<noteq> T_Var a)"
  by (rule numeric_common_num [OF assms]) (auto simp: num_of_def)

lemma same_numeric_var_iff: "same_numeric_var D s t \<longleftrightarrow> (\<exists>a. s = T_Var a \<and> t = T_Var a \<and> tv_is_numeric D a)"
proof (cases "\<exists>a b. s = T_Var a \<and> t = T_Var b")
  case True
  then show ?thesis by (auto simp: same_numeric_var_def)
next
  case False
  then have "\<not> same_numeric_var D s t"
    by (cases s) (auto simp: same_numeric_var_def split: ty.split)
  then show ?thesis using False by blast
qed

lemma check_binary_accepts:
  assumes "check_binary_types D bop s t p = (u, [])" "\<not> is_err s" "\<not> is_err t"
  shows "text_or_exact bop s t = Some u
    \<or> same_numeric_var D s t \<and> (is_arith bop \<and> u = s \<or> is_order bop \<and> u = T_Bool)
    \<or> (\<exists>c. numeric_common s t = Some c \<and> (u = c \<or> u = T_Bool))"
  using assms by (auto simp: check_binary_types_def bad_def split: option.splits if_splits)

lemma var_operands:
  assumes "check_binary_types D bop s t p = (u, [])" "s = T_Var a \<or> t = T_Var a" "\<not> is_err s" "\<not> is_err t"
  shows "s = T_Var a \<and> t = T_Var a \<and> tv_is_numeric D a \<and> (is_arith bop \<and> u = T_Var a \<or> is_order bop \<and> u = T_Bool)"
  using check_binary_accepts [OF assms(1,3,4)] assms(2)
  by (auto simp: same_numeric_var_iff dest: text_or_exact_shape numeric_common_shape)

lemma result_no_var:
  assumes "check_binary_types D bop s t p = (u, [])" "\<forall>a. s \<noteq> T_Var a" "\<forall>a. t \<noteq> T_Var a" "\<not> is_err s" "\<not> is_err t"
  shows "run_result \<rho> u = u"
proof -
  have "\<forall>a. u \<noteq> T_Var a"
    using check_binary_accepts [OF assms(1,4,5)] assms(2)
    by (auto simp: same_numeric_var_iff dest: text_or_exact_shape numeric_common_shape)
  then show ?thesis by (cases u) (simp_all add: run_result_def)
qed

text \<open>
  C20: A binary operator whose operand types the checker accepts never throws \<open>TypeError\<close> on
  values of those types, once the conversions the checker records are applied: it throws
  \<open>RangeError\<close> or answers a value of the type the checker gave.  A type parameter bounded by
  \<open>Numeric\<close> stands for any number type \<open>\<rho>\<close> gives it, and where the checker answers the parameter
  the value is one of the promoted type: with \<open>uint8\<close> for the parameter, an \<open>int32\<close>.  The one
  exception is \<open>**\<close> on \<open>bigint\<close>, which the checker accepts and the engine does not have.
\<close>

theorem checked_binary_sound:
  assumes "check_binary_types D bop s t p = (u, [])" "\<forall>a. tv_is_numeric D a \<longrightarrow> is_number (\<rho> a)"
    and "has_scalar v (at_run \<rho> s)" "has_scalar w (at_run \<rho> t)" "\<not> is_err s" "\<not> is_err t" "strict_op bop"
  defines "v' \<equiv> (case numeric_common s t of Some c \<Rightarrow> apply_coercion s c v | None \<Rightarrow> v)"
    and "w' \<equiv> (case numeric_common s t of Some c \<Rightarrow> apply_coercion t c w | None \<Rightarrow> w)"
  shows "if s = T_BigInt \<and> bop = O_Pow
    then numeric_binop pw bop v' w' = type_error (str ''operator not defined for bigint'')
    else answers (numeric_binop pw bop v' w') (run_result \<rho> u)"
proof (cases "\<exists>a. s = T_Var a \<or> t = T_Var a")
  case True
  then obtain a where a: "s = T_Var a" "t = T_Var a" "tv_is_numeric D a"
    and u: "is_arith bop \<and> u = T_Var a \<or> is_order bop \<and> u = T_Bool"
    using var_operands [OF assms(1) _ assms(5,6)] by blast
  have n: "numeric_common (T_Var a) (T_Var a) = None" by (simp add: numeric_common_def promote_def)
  then have vw: "v' = v" "w' = w" by (simp_all add: v'_def w'_def a)
  have "run_result \<rho> u = op_result bop (promoted (\<rho> a))" using u by (auto simp: run_result_def op_groups)
  then show ?thesis
    using number_op_answers [of "\<rho> a" v w bop pw] assms(2-4) a u unfolding vw by (auto simp: at_run_def)
next
  case False
  then have st: "has_scalar v s" "has_scalar w t" using assms(3,4) by (simp_all add: at_run_id)
  have u: "run_result \<rho> u = u" using result_no_var [OF assms(1) _ _ assms(5,6)] False by blast
  show ?thesis
  proof (cases "s = T_BigInt \<and> bop = O_Pow")
    case True
    then have "t = T_BigInt" using assms(1) st(2) by (cases t)
        (auto simp: check_binary_types_def text_or_exact_def is_err_def same_numeric_var_def numeric_common_def promote_def bad_def has_scalar_def)
    then show ?thesis using True st
      by (auto simp: has_scalar_cases v'_def w'_def numeric_common_def promote_def numeric_binop_def text_binop_def bigint_op_def)
  next
    case nopow: False
    show ?thesis unfolding if_not_P [OF nopow] v'_def w'_def u by (rule checked_op_answers [OF assms(1) st assms(7) nopow])
  qed
qed

definition no_decls :: decls where
  "no_decls = \<lparr>dc_classes = [], dc_ifaces = [], dc_enums = [], dc_tv_names = [], dc_tv_bounds = \<lambda>_. None, dc_numeric_id = None\<rparr>"

text \<open>A function \<open>f<T extends Numeric>(a: T, b: T)\<close>, called with \<open>uint8\<close> for \<open>T\<close>.\<close>

definition numeric_decls :: decls where
  "numeric_decls = no_decls\<lparr>dc_tv_bounds := (\<lambda>v. if v = 0 then Some (T_Iface 4 []) else None), dc_numeric_id := Some 4\<rparr>"

lemma numeric_sum:
  "check_binary_types numeric_decls O_Add (T_Var 0) (T_Var 0) p = (T_Var 0, [])"
  by (simp add: check_binary_types_def is_err_def text_or_exact_def same_numeric_var_def tv_is_numeric_def numeric_decls_def op_groups)

theorem checked_binary_sound_witness:
  "answers (numeric_binop (\<lambda>_ x y. x) O_Mul (V_I64 7) (V_I64 9)) (T_Int I64)
   \<and> answers (numeric_binop (\<lambda>_ x y. x) O_Add (V_I32 200) (V_I32 100)) (T_Int I32)"
proof
  have a: "apply_coercion (T_Int I32) (T_Int I64) (V_I32 7) = V_I64 7" "apply_coercion (T_Int I64) (T_Int I64) (V_I64 9) = V_I64 9"
    by (simp_all add: apply_coercion_def coerce_def num_of_def convert_num_def convert_source_def)
  have c: "numeric_common (T_Int I32) (T_Int I64) = Some (T_Int I64)"
    by (simp add: numeric_common_def promote_def type_rank_def)
  have t: "check_binary_types no_decls O_Mul (T_Int I32) (T_Int I64) \<lparr>p_line = 1, p_col = 1\<rparr> = (T_Int I64, [])"
    by (simp add: check_binary_types_def is_err_def text_or_exact_def same_numeric_var_def c op_groups)
  have v: "has_scalar (V_I32 7) (T_Int I32)" "has_scalar (V_I64 9) (T_Int I64)"
    by (simp_all add: has_scalar_def int_of_def kind_fits_def int_lo_def int_hi_def)
  show "answers (numeric_binop (\<lambda>_ x y. x) O_Mul (V_I64 7) (V_I64 9)) (T_Int I64)"
    using checked_binary_sound [OF t, of "\<lambda>_. T_F64" "V_I32 7" "V_I64 9" "\<lambda>_ x y. x"] v
    by (simp add: a c strict_op_def at_run_def run_result_def is_err_def is_number_def)
  have "has_scalar (V_I32 200) (T_Int U8)" "has_scalar (V_I32 100) (T_Int U8)"
    by (simp_all add: has_scalar_def int_of_def kind_fits_def int_lo_def int_hi_def)
  then show "answers (numeric_binop (\<lambda>_ x y. x) O_Add (V_I32 200) (V_I32 100)) (T_Int I32)"
    using checked_binary_sound [OF numeric_sum [of "\<lparr>p_line = 1, p_col = 1\<rparr>"], of "\<lambda>_. T_Int U8" "V_I32 200" "V_I32 100" "\<lambda>_ x y. x"]
    by (simp add: numeric_common_def promote_def promoted_def strict_op_def at_run_def run_result_def is_err_def is_number_def)
qed

text \<open>So the sum leaves the type argument: 200 and 100 of type \<open>uint8\<close> make 300.\<close>

lemma generic_sum_leaves_type:
  "check_binary_types numeric_decls O_Add (T_Var 0) (T_Var 0) p = (T_Var 0, [])"
  "numeric_binop pw O_Add (V_I32 200) (V_I32 100) = Inr (V_I32 300)" "\<not> has_scalar (V_I32 300) (T_Int U8)"
  by (simp_all add: numeric_sum numeric_binop_def text_binop_def promote_pair_def conv_rank_def promoted_binop_def int_binop_def
      has_scalar_def int_of_def kind_fits_def int_lo_def int_hi_def)

section \<open>Conditions, unary operators and casts\<close>

lemma condition_truthy:
  assumes "condition_ok t" "has_scalar v t"
  shows "\<exists>b. value_truthy v = Inr b"
proof -
  consider "t = T_Bool" | k where "t = T_Int k" | "t = T_F32" | "t = T_F64"
    using assms by (cases t) (auto simp: condition_ok_def has_scalar_def)
  then show ?thesis
  proof cases
    case (2 k)
    then obtain i where "v = kind_value k i" using assms(2) by (auto simp: has_int_iff)
    then show ?thesis by (cases k) auto
  qed (use assms(2) in \<open>auto simp: has_scalar_cases\<close>)
qed

lemma unary_wide:
  assumes "k \<in> wide_kinds" "has_scalar v (T_Int k)" "uop \<in> {U_Plus, U_Neg, U_BitNot}"
  shows "\<exists>w. eval_unary uop v = Inr w \<and> has_scalar w (T_Int k)"
proof -
  have fits: "\<exists>i. kind_fits k i \<and> kind_value k (f i') = kind_value k i" for f :: "int \<Rightarrow> int" and i'
    using wrap_kind_fits [of k "f i'"] wrap_kind_value [OF assms(1), of "f i'"] by metis
  obtain i where i: "kind_fits k i" "v = kind_value k i" using assms(2) by (auto simp: has_int_iff)
  have "eval_unary uop v = Inr (kind_value k (case uop of U_Neg \<Rightarrow> - i | U_BitNot \<Rightarrow> NOT i | _ \<Rightarrow> i))"
    using assms(1,3) i(2) by (auto simp: wide_kinds_def eval_unary_def of_int_not_eq)
  then show ?thesis using fits [of "\<lambda>i. (case uop of U_Neg \<Rightarrow> - i | U_BitNot \<Rightarrow> NOT i | _ \<Rightarrow> i)" i]
    by (auto simp: has_int_iff)
qed

lemma check_unary_accepts:
  assumes "check_unary D uop t p = Some (u, [])" "\<not> is_err t"
  shows "uop = U_Not \<and> u = T_Bool \<and> condition_ok t
    \<or> uop = U_BitNot \<and> u = t \<and> (\<exists>k. t = T_Int k)
    \<or> (uop = U_Plus \<or> uop = U_Neg) \<and> u = t \<and> is_number t"
  using assms by (cases uop; cases t) (auto simp: check_unary_def bad_def is_err_def is_number_def split: if_splits)

lemma unary_promoted:
  assumes "has_scalar v (T_Int k)" "uop \<in> {U_Plus, U_Neg, U_BitNot}"
  shows "\<exists>w. eval_unary uop v = Inr w \<and> has_scalar w (promoted (T_Int k))"
proof (cases "kind_bits k < 32")
  case True
  have "\<exists>w. eval_unary uop v = Inr w \<and> has_scalar w (T_Int I32)"
    by (rule unary_wide [OF _ narrow_is_i32 [OF True assms(1)] assms(2)]) (simp add: wide_kinds_def)
  then show ?thesis using True by (simp add: promoted_def promote_def)
next
  case False
  then have "\<exists>w. eval_unary uop v = Inr w \<and> has_scalar w (T_Int k)"
    using unary_wide [OF _ assms] narrow_or_wide [of k] by blast
  then show ?thesis using False by (simp add: promoted_def promote_def)
qed

text \<open>
  C21: The condition of a test the checker accepts is never a \<open>TypeError\<close>.  A unary operator whose
  operand type the checker accepts answers a value of the type the checker gave, except in two
  ways: \<open>-x\<close> and \<open>~x\<close> of a small integer, which the checker types as that small integer, are values
  of \<open>int32\<close> (the negation of a \<open>uint8\<close> is negative), and the unary \<open>+\<close> it accepts on a \<open>bigint\<close>
  and on a \<open>bigdec\<close> throws \<open>TypeError\<close>.
\<close>

theorem checked_unary_sound:
  assumes "has_scalar v t"
  shows "(check_condition D t p = [] \<longrightarrow> (\<exists>b. value_truthy v = Inr b))
    \<and> (check_unary D uop t p = Some (u, []) \<longrightarrow>
        (if uop = U_Plus \<and> (t = T_BigInt \<or> t = T_BigDec)
         then eval_unary uop v = type_error (str ''unary `+` needs a number'')
         else \<exists>w. eval_unary uop v = Inr w \<and> has_scalar w (if uop = U_Neg \<or> uop = U_BitNot then promoted u else u)))
    \<and> (check_unary D U_Neg (T_Int U8) p = Some (T_Int U8, []) \<and> has_scalar (V_I32 5) (T_Int U8)
        \<and> eval_unary U_Neg (V_I32 5) = Inr (V_I32 (- 5)) \<and> \<not> has_scalar (V_I32 (- 5)) (T_Int U8))"
proof (intro conjI impI)
  have ne: "\<not> is_err t" using assms by (rule has_scalar_not_var(2))
  show "\<exists>b. value_truthy v = Inr b" if "check_condition D t p = []"
    using that condition_truthy assms by (simp add: check_condition_def split: if_splits)
  assume u: "check_unary D uop t p = Some (u, [])"
  show "if uop = U_Plus \<and> (t = T_BigInt \<or> t = T_BigDec)
         then eval_unary uop v = type_error (str ''unary `+` needs a number'')
         else \<exists>w. eval_unary uop v = Inr w \<and> has_scalar w (if uop = U_Neg \<or> uop = U_BitNot then promoted u else u)"
    using check_unary_accepts [OF u ne]
  proof (elim disjE conjE exE)
    assume "uop = U_Not" "u = T_Bool" "condition_ok t"
    then show ?thesis using condition_truthy [OF _ assms] by (auto simp: eval_unary_def has_scalar_cases)
  next
    fix k assume "uop = U_BitNot" "u = t" "t = T_Int k"
    then show ?thesis using unary_promoted [of v k U_BitNot] assms by simp
  next
    assume c: "uop = U_Plus" "u = t" "is_number t"
    then have "eval_unary U_Plus v = Inr v" if "t \<noteq> T_BigInt" "t \<noteq> T_BigDec"
    proof (cases t)
      case (T_Int k)
      then show ?thesis using assms by (cases k) (auto simp: has_int_iff eval_unary_def)
    qed (use that assms c in \<open>auto simp: is_number_def has_scalar_cases eval_unary_def\<close>)
    then show ?thesis using c assms by (auto simp: has_scalar_cases eval_unary_def)
  next
    assume c: "uop = U_Neg" "u = t" "is_number t"
    show ?thesis
    proof (cases "\<exists>k. t = T_Int k")
      case True
      then show ?thesis using unary_promoted [of v _ U_Neg] assms c by auto
    next
      case False
      then show ?thesis using c assms
        by (cases t) (auto simp: is_number_def has_scalar_cases eval_unary_def promoted_def promote_def)
    qed
  qed
qed (simp_all add: check_unary_def is_number_def has_scalar_def int_of_def kind_fits_def int_lo_def int_hi_def eval_unary_def)

theorem checked_unary_sound_witness:
  "\<exists>w. eval_unary U_BitNot (V_U32 0) = Inr w \<and> has_scalar w (T_Int U32)"
proof -
  have "has_scalar (V_U32 0) (T_Int U32)" by (simp add: has_scalar_def int_of_def kind_fits_def int_lo_def int_hi_def)
  moreover have "check_unary no_decls U_BitNot (T_Int U32) \<lparr>p_line = 1, p_col = 1\<rparr> = Some (T_Int U32, [])"
    by (simp add: check_unary_def)
  ultimately show ?thesis using checked_unary_sound [of "V_U32 0" "T_Int U32" no_decls "\<lparr>p_line = 1, p_col = 1\<rparr>" U_BitNot "T_Int U32"]
    by (simp add: promoted_def promote_def)
qed

text \<open>
  C22: A number that flows where the checker allows it arrives as a value of the declared type,
  by the conversion recorded for it, and an integer that flows between integer types keeps its
  value.  Under \<open>?\<close> the relation allows the same widening and no conversion is recorded: an
  \<open>int32\<close> stays in a place of type \<open>float64?\<close>.
\<close>

theorem widening_converts:
  assumes "num_of s = Some m" "num_of t = Some n" "assignable D (Suc f) s t = Some True" "has_scalar v s"
  shows "has_scalar (apply_coercion s t v) t
    \<and> (\<forall>i k l. s = T_Int k \<longrightarrow> t = T_Int l \<longrightarrow> int_of v = Some i \<longrightarrow> int_of (apply_coercion s t v) = Some i)
    \<and> (assignable D (Suc (Suc g)) (T_Nullable (T_Int I32)) (T_Nullable T_F64) = Some True
        \<and> apply_coercion (T_Nullable (T_Int I32)) (T_Nullable T_F64) (V_I32 7) = V_I32 7 \<and> \<not> has_scalar (V_I32 7) T_F64)"
proof (intro conjI allI impI)
  show "has_scalar (apply_coercion s t v) t" using coercion_has_scalar assms(1,2,4) by blast
  fix i k l assume st: "s = T_Int k" "t = T_Int l" and i: "int_of v = Some i"
  have w: "int_widens k l"
    using assms(3) st by (simp add: assign_step_def assign_same_def is_err_def is_unknown_def is_number_def
        is_numeric_iface_def nullable_of_def union_of_def)
  have "kind_fits k i" using assms(4) st i by (auto simp: has_int_iff int_of_kind_value)
  then have "kind_fits l i"
    using w by (cases k; cases l) (auto simp: int_widens_def kind_fits_def int_lo_def int_hi_def)
  then have "int_of (kind_value l (wrap_kind l i)) = Some i" by (simp add: wrap_kind_id int_of_kind_value)
  then show "int_of (apply_coercion s t v) = Some i"
    using i st by (simp add: apply_coercion_def coerce_def num_of_def convert_int [OF i])
qed (simp_all add: assign_step_def assign_same_def is_err_def is_unknown_def is_null_def is_number_def
        is_numeric_iface_def nullable_of_def union_of_def apply_coercion_def coerce_def num_of_def has_scalar_def)

theorem widening_converts_witness:
  "int_of (apply_coercion (T_Int U8) (T_Int I64) (V_I32 200)) = Some 200"
proof -
  have v: "has_scalar (V_I32 200) (T_Int U8)" "int_of (V_I32 200) = Some 200"
    by (simp_all add: has_scalar_def int_of_def kind_fits_def int_lo_def int_hi_def)
  have a: "assignable no_decls (Suc 0) (T_Int U8) (T_Int I64) = Some True"
    by (simp add: assign_step_def assign_same_def is_err_def is_unknown_def is_number_def
        is_numeric_iface_def nullable_of_def union_of_def int_widens_def)
  show ?thesis using widening_converts [OF _ _ a v(1)] v(2) by (simp add: num_of_def)
qed

text \<open>A \<open>char\<close> counts as a number to the checker of casts and not to the engine.\<close>

lemma char_cast_throws:
  "check_cast D n T_Char (T_Int I32) False p = Some []"
  "eval_cast st (V_Char c) False (TE_Named (str ''int32'') q []) = type_error (str ''cannot cast char to `int32`'')"
  by (simp_all add: check_cast_def cast_source_def nullable_of_def is_err_def castable_number_def plain_cast_def is_numeric_type_name_def)
section \<open>Literals and their values\<close>

lemma find_map_fst: "find P (map f xs) = map_option f (find (P \<circ> f) xs)"
  by (induction xs) auto

lemma literal_suffixes_eq: "literal_suffixes = map fst suffix_kinds"
  by (simp add: literal_suffixes_def suffix_kinds_def)

lemma suffix_kinds_int: "e \<in> set suffix_kinds \<Longrightarrow> suffix_int (fst e) = Some (snd e)"
  by (auto simp: suffix_kinds_def suffix_int_def)

lemma literal_kind:
  assumes "literal_ty L_Int txt = T_Int k"
  shows "suffix_int (literal_suffix (no_underscores txt)) = Some k"
proof (cases "find (\<lambda>e. ends_with (no_underscores txt) (fst e)) suffix_kinds")
  case None
  then have "k = I32" using assms by (simp add: literal_ty_def)
  then show ?thesis using None
    by (simp add: literal_suffix_def literal_suffixes_eq find_map_fst comp_def) (simp add: suffix_int_def)
next
  case (Some e)
  then have "e \<in> set suffix_kinds" by (auto simp: find_Some_iff in_set_conv_nth)
  moreover have "k = snd e" using assms Some by (simp add: literal_ty_def)
  ultimately show ?thesis using Some suffix_kinds_int [of e]
    by (simp add: literal_suffix_def literal_suffixes_eq find_map_fst comp_def)
qed

text \<open>
  The checker and the engine read a literal as the same type: whenever the engine makes a
  value of an integer literal, also a negated one, the value is one of the type the checker
  gave the literal.
\<close>

theorem literal_type_agrees:
  assumes "parse_int_literal_signed txt negated = Inr v"
  shows "\<exists>k. literal_ty L_Int txt = T_Int k \<and> has_scalar v (T_Int k)"
proof -
  obtain k where k: "literal_ty L_Int txt = T_Int k"
    by (cases "find (\<lambda>e. ends_with (no_underscores txt) (fst e)) suffix_kinds") (auto simp: literal_ty_def)
  have "\<exists>i. kind_fits k i \<and> v = kind_value k i"
    using assms literal_kind [OF k]
    by (auto simp: parse_int_literal_signed_def Let_def type_error_def range_error_def split: prod.splits option.splits if_splits)
  then show ?thesis using k by (auto simp: has_int_iff)
qed

theorem literal_type_agrees_example:
  "\<exists>k. literal_ty L_Int (dec_nat 255 @ (str ''u8'')) = T_Int k \<and> has_scalar (V_I32 255) (T_Int k)"
  using literal_type_agrees [of "dec_nat 255 @ (str ''u8'')" False "V_I32 255"] parse_digits [of "(str ''u8'')" U8 255 False]
  by (simp add: kind_fits_def int_lo_def int_hi_def)

section \<open>Inference of type parameters\<close>

text \<open>
  The types inference looks into: no record, union or \<open>?\<close>; and the parameters a type mentions.
\<close>

primrec first_order :: "ty \<Rightarrow> bool" where
  "first_order T_Unknown = True" | "first_order T_Err = True" | "first_order T_Void = True"
| "first_order T_Null = True" | "first_order T_Bool = True" | "first_order T_Char = True"
| "first_order T_Str = True" | "first_order T_BigInt = True" | "first_order T_BigDec = True"
| "first_order (T_Int k) = True" | "first_order T_F32 = True" | "first_order T_F64 = True"
| "first_order (T_Nullable t) = False"
| "first_order (T_Array t) = first_order t"
| "first_order (T_Tuple ts) = list_all id (map first_order ts)"
| "first_order (T_Record fs) = False"
| "first_order (T_Fn f) = (case map_fn_type first_order f of Fn_Type _ ps r \<Rightarrow> list_all pt_ty ps \<and> r)"
| "first_order (T_Class c ts) = list_all id (map first_order ts)"
| "first_order (T_Iface c ts) = list_all id (map first_order ts)"
| "first_order (T_Enum e) = True" | "first_order (T_ClassMeta c) = True" | "first_order (T_IfaceMeta i) = True"
| "first_order (T_EnumMeta e) = True" | "first_order (T_Namespace n) = True" | "first_order (T_Var v) = True"
| "first_order (T_Union ts) = False"

primrec ty_vars :: "ty \<Rightarrow> nat list" where
  "ty_vars T_Unknown = []" | "ty_vars T_Err = []" | "ty_vars T_Void = []" | "ty_vars T_Null = []"
| "ty_vars T_Bool = []" | "ty_vars T_Char = []" | "ty_vars T_Str = []" | "ty_vars T_BigInt = []"
| "ty_vars T_BigDec = []" | "ty_vars (T_Int k) = []" | "ty_vars T_F32 = []" | "ty_vars T_F64 = []"
| "ty_vars (T_Nullable t) = ty_vars t"
| "ty_vars (T_Array t) = ty_vars t"
| "ty_vars (T_Tuple ts) = concat (map ty_vars ts)"
| "ty_vars (T_Record fs) = concat (map rf_ty (map (map_rec_field ty_vars) fs))"
| "ty_vars (T_Fn f) = (case map_fn_type ty_vars f of Fn_Type _ ps r \<Rightarrow> concat (map pt_ty ps) @ r)"
| "ty_vars (T_Class c ts) = concat (map ty_vars ts)"
| "ty_vars (T_Iface c ts) = concat (map ty_vars ts)"
| "ty_vars (T_Enum e) = []" | "ty_vars (T_ClassMeta c) = []" | "ty_vars (T_IfaceMeta i) = []"
| "ty_vars (T_EnumMeta e) = []" | "ty_vars (T_Namespace n) = []" | "ty_vars (T_Var v) = [v]"
| "ty_vars (T_Union ts) = concat (map ty_vars ts)"

lemma ty_induct_flat [case_names Atom Nullable Array Tuple Record Fn Class Iface Var Union]:
  assumes "\<And>t. (case t of T_Nullable _ \<Rightarrow> False | T_Array _ \<Rightarrow> False | T_Tuple _ \<Rightarrow> False | T_Record _ \<Rightarrow> False | T_Fn _ \<Rightarrow> False
      | T_Class _ _ \<Rightarrow> False | T_Iface _ _ \<Rightarrow> False | T_Var _ \<Rightarrow> False | T_Union _ \<Rightarrow> False | _ \<Rightarrow> True) \<Longrightarrow> P t"
    and "\<And>t. P t \<Longrightarrow> P (T_Nullable t)" "\<And>t. P t \<Longrightarrow> P (T_Array t)"
    and "\<And>ts. (\<And>t. t \<in> set ts \<Longrightarrow> P t) \<Longrightarrow> P (T_Tuple ts)"
    and "\<And>fs. (\<And>f. f \<in> set fs \<Longrightarrow> P (rf_ty f)) \<Longrightarrow> P (T_Record fs)"
    and "\<And>tp ps r. (\<And>p. p \<in> set ps \<Longrightarrow> P (pt_ty p)) \<Longrightarrow> P r \<Longrightarrow> P (T_Fn (Fn_Type tp ps r))"
    and "\<And>c ts. (\<And>t. t \<in> set ts \<Longrightarrow> P t) \<Longrightarrow> P (T_Class c ts)"
    and "\<And>c ts. (\<And>t. t \<in> set ts \<Longrightarrow> P t) \<Longrightarrow> P (T_Iface c ts)"
    and "\<And>v. P (T_Var v)" and "\<And>ts. (\<And>t. t \<in> set ts \<Longrightarrow> P t) \<Longrightarrow> P (T_Union ts)"
  shows "P t"
proof (induction t)
  case (T_Record fs)
  have "rf_ty f \<in> set_rec_field f" for f :: "ty rec_field" by (cases f) simp
  then show ?case using T_Record by (intro assms(5)) blast
next
  case (T_Fn f)
  obtain tp ps r where f: "f = Fn_Type tp ps r" by (cases f)
  have "pt_ty p \<in> set_param_type p" for p :: "ty param_type" by (cases p) simp
  then show ?case using T_Fn unfolding f by (intro assms(6)) auto
qed (use assms in \<open>simp_all\<close>)
lemma map_subst_cong:
  assumes "\<And>t. t \<in> set ts \<Longrightarrow> (\<And>v. v \<in> set (ty_vars t) \<Longrightarrow> tget a v = tget b v) \<Longrightarrow> subst_in a t = subst_in b t"
    and "\<And>v. \<exists>t\<in>set ts. v \<in> set (ty_vars t) \<Longrightarrow> tget a v = tget b v"
  shows "map (subst_in a) ts = map (subst_in b) ts"
proof (rule map_cong [OF refl])
  fix t assume "t \<in> set ts"
  then show "subst_in a t = subst_in b t" using assms(2) by (intro assms(1)) blast+
qed

lemma subst_in_cong: "(\<And>v. v \<in> set (ty_vars t) \<Longrightarrow> tget a v = tget b v) \<Longrightarrow> subst_in a t = subst_in b t"
proof (induction t rule: ty_induct_flat)
  case (Record fs)
  have "map_rec_field (subst_in a) f = map_rec_field (subst_in b) f" if "f \<in> set fs" for f
    using Record.IH [OF that] Record.prems that by (cases f) (force simp: rec_field.map_sel)
  then show ?case by simp
next
  case (Fn tp ps r)
  have "map_param_type (subst_in a) p = map_param_type (subst_in b) p" if "p \<in> set ps" for p
    using Fn.IH(1) [OF that] Fn.prems that by (cases p) (force simp: param_type.map_sel)
  then show ?case using Fn.IH(2) Fn.prems by auto
next
  case (Atom t)
  then show ?case by (cases t) auto
next
  case (Tuple ts)
  have "map (subst_in a) ts = map (subst_in b) ts" by (rule map_subst_cong) (use Tuple in \<open>auto\<close>)
  then show ?case by simp
next
  case (Class c ts)
  have "map (subst_in a) ts = map (subst_in b) ts" by (rule map_subst_cong) (use Class in \<open>auto\<close>)
  then show ?case by simp
next
  case (Iface c ts)
  have "map (subst_in a) ts = map (subst_in b) ts" by (rule map_subst_cong) (use Iface in \<open>auto\<close>)
  then show ?case by simp
next
  case (Union ts)
  have "map (subst_in a) ts = map (subst_in b) ts" by (rule map_subst_cong) (use Union in \<open>auto\<close>)
  then show ?case by (simp only: subst_in.simps)
next
  case (Nullable t)
  then show ?case by simp
next
  case (Array t)
  then show ?case by simp
next
  case (Var v)
  then show ?case by simp
qed

text \<open>An accumulator that only holds bindings of \<open>m\<close>.\<close>

definition below :: "tmap \<Rightarrow> tmap \<Rightarrow> bool" where
  "below out m \<longleftrightarrow> (\<forall>v t. tget out v = Some t \<longrightarrow> tget m v = Some t)"

lemma tget_append: "tget (out @ [(v, t)]) w = (if w = v then Some t else tget out w)"
  by (simp add: tget_def)

lemma below_refl [simp]: "below m m" and below_trans: "below a b \<Longrightarrow> below b c \<Longrightarrow> below a c"
  by (auto simp: below_def)

lemma below_or_insert: "below out m \<Longrightarrow> tget m v = Some t \<Longrightarrow> below (or_insert out v t) m"
  "below out (or_insert out v t)" "below out m \<Longrightarrow> tget m v = Some t \<Longrightarrow> tget (or_insert out v t) v = Some t"
  by (auto simp: below_def or_insert_def tget_append split: option.splits)

text \<open>What a call of the inference on \<open>want\<close> and its own instance does to the accumulator.\<close>

definition infers :: "nat list \<Rightarrow> tmap \<Rightarrow> nat list \<Rightarrow> (tmap \<Rightarrow> tmap) \<Rightarrow> bool" where
  "infers tps m vs f \<longleftrightarrow>
     (\<forall>out. below out m \<longrightarrow> below (f out) m \<and> below out (f out)
        \<and> (\<forall>v\<in>set vs. v \<in> set tps \<longrightarrow> tget (f out) v = tget m v))"

lemma infers_id: "infers tps m [] (\<lambda>out. out)"
  by (simp add: infers_def)

lemma infersD:
  assumes "infers tps m vs f" "below out m"
  shows "below (f out) m" "below out (f out)" "v \<in> set vs \<Longrightarrow> v \<in> set tps \<Longrightarrow> tget (f out) v = tget m v"
  using assms(1) [unfolded infers_def, rule_format, OF assms(2)] by simp_all

lemma infers_comp:
  assumes f: "infers tps m vs f" and g: "infers tps m ws g"
    and m: "\<And>v. v \<in> set vs \<Longrightarrow> v \<in> set tps \<Longrightarrow> tget m v \<noteq> None"
  shows "infers tps m (vs @ ws) (\<lambda>out. g (f out))"
  unfolding infers_def
proof (intro allI impI conjI ballI)
  fix out assume o: "below out m"
  note fo = infersD(1,2) [OF f o]
  note go = infersD(1,2) [OF g fo(1)]
  show "below (g (f out)) m" by (rule go)
  show "below out (g (f out))" using fo(2) go(2) by (rule below_trans)
  fix v assume v: "v \<in> set (vs @ ws)" "v \<in> set tps"
  show "tget (g (f out)) v = tget m v"
  proof (cases "v \<in> set ws")
    case True
    then show ?thesis using infersD(3) [OF g fo(1)] v(2) by blast
  next
    case False
    then have "v \<in> set vs" using v(1) by simp
    then have "tget (f out) v = tget m v" "tget m v \<noteq> None" using infersD(3) [OF f o] m v(2) by blast+
    then show ?thesis using go(2) by (auto simp: below_def)
  qed
qed

lemma infer_all_Cons: "infer_all (f # fs) (g # gs) out = infer_all fs gs (f g out)"
  by (simp add: infer_all_def)

lemma infers_all:
  assumes "\<And>t. t \<in> set ts \<Longrightarrow> infers tps m (ty_vars t) (unify_infer tps t (subst_in m t))"
    and "\<And>v. v \<in> set (concat (map ty_vars ts)) \<Longrightarrow> v \<in> set tps \<Longrightarrow> tget m v \<noteq> None"
  shows "infers tps m (concat (map ty_vars ts)) (infer_all (map (unify_infer tps) ts) (map (subst_in m) ts))"
  using assms
proof (induction ts)
  case Nil
  then show ?case using infers_id by (simp add: infer_all_def)
next
  case (Cons t ts)
  have t: "infers tps m (ty_vars t) (unify_infer tps t (subst_in m t))" by (rule Cons.prems(1)) simp
  have ts: "infers tps m (concat (map ty_vars ts)) (infer_all (map (unify_infer tps) ts) (map (subst_in m) ts))"
    by (rule Cons.IH) (use Cons.prems in auto)
  have v: "tget m v \<noteq> None" if "v \<in> set (ty_vars t)" "v \<in> set tps" for v
    using Cons.prems(2) [of v] that by simp
  have e: "infer_all (map (unify_infer tps) (t # ts)) (map (subst_in m) (t # ts))
      = (\<lambda>out. infer_all (map (unify_infer tps) ts) (map (subst_in m) ts) (unify_infer tps t (subst_in m t) out))"
    by (rule ext) (simp add: infer_all_Cons)
  show ?case unfolding e using infers_comp [OF t ts v] by simp
qed

text \<open>A substitution for exactly the parameters to infer, with no free parameter in it.\<close>

definition binds :: "nat list \<Rightarrow> tmap \<Rightarrow> nat list \<Rightarrow> bool" where
  "binds tps m vs \<longleftrightarrow>
     (\<forall>v. v \<notin> set tps \<longrightarrow> tget m v = None)
     \<and> (\<forall>v\<in>set vs. v \<in> set tps \<longrightarrow> (\<exists>t. tget m v = Some t \<and> (\<forall>w. t = T_Var w \<longrightarrow> w \<notin> set tps)))"

lemma binds_subset: "binds tps m vs \<Longrightarrow> set ws \<subseteq> set vs \<Longrightarrow> binds tps m ws"
  by (auto simp: binds_def)

lemma binds_some: "binds tps m vs \<Longrightarrow> v \<in> set vs \<Longrightarrow> v \<in> set tps \<Longrightarrow> tget m v \<noteq> None"
  by (auto simp: binds_def)

lemma infers_list:
  assumes "\<And>t. t \<in> set ts \<Longrightarrow> first_order t \<Longrightarrow> binds tps m (ty_vars t) \<Longrightarrow> infers tps m (ty_vars t) (unify_infer tps t (subst_in m t))"
    and "list_all first_order ts" "binds tps m (concat (map ty_vars ts))"
  shows "infers tps m (concat (map ty_vars ts)) (infer_all (map (unify_infer tps) ts) (map (subst_in m) ts))"
proof (rule infers_all)
  fix t assume t: "t \<in> set ts"
  have "binds tps m (ty_vars t)" by (rule binds_subset [OF assms(3)]) (use t in auto)
  then show "infers tps m (ty_vars t) (unify_infer tps t (subst_in m t))"
    using assms(1) [OF t] assms(2) t by (simp add: list_all_iff)
next
  show "\<And>v. v \<in> set (concat (map ty_vars ts)) \<Longrightarrow> v \<in> set tps \<Longrightarrow> tget m v \<noteq> None" using binds_some [OF assms(3)] .
qed

lemma infers_unify:
  "first_order t \<Longrightarrow> binds tps m (ty_vars t) \<Longrightarrow> infers tps m (ty_vars t) (unify_infer tps t (subst_in m t))"
proof (induction t rule: ty_induct_flat)
  case (Atom t)
  then show ?case using infers_id by (cases t) auto
next
  case (Array t)
  then show ?case by simp
next
  case (Tuple ts)
  then show ?case using infers_list [of ts tps m] by (simp add: list_all_iff)
next
  case (Class c ts)
  then show ?case using infers_list [of ts tps m] by (simp add: list_all_iff)
next
  case (Iface c ts)
  then show ?case using infers_list [of ts tps m] by (simp add: list_all_iff)
next
  case (Var v)
  show ?case
  proof (cases "v \<in> set tps")
    case True
    then obtain t where t: "tget m v = Some t" "\<forall>w. t = T_Var w \<longrightarrow> w \<notin> set tps"
      using Var by (auto simp: binds_def)
    then have n: "\<not> (case t of T_Var w \<Rightarrow> w \<in> set tps | _ \<Rightarrow> False)" by (cases t) auto
    show ?thesis using t n True below_or_insert by (auto simp: infers_def)
  next
    case False
    then show ?thesis by (simp add: infers_def)
  qed
next
  case (Fn tp ps r)
  let ?ts = "map pt_ty ps"
  have b: "binds tps m (concat (map ty_vars ?ts))" "binds tps m (ty_vars r)"
    using Fn.prems(2) by (auto intro!: binds_subset [OF Fn.prems(2)] simp: param_type.map_sel)
  have "infers tps m (concat (map ty_vars ?ts)) (infer_all (map (unify_infer tps) ?ts) (map (subst_in m) ?ts))"
    by (rule infers_list) (use Fn b in \<open>auto simp: list_all_iff param_type.map_sel\<close>)
  from infers_comp [OF this Fn.IH(2) [OF _ b(2)] binds_some [OF b(1)]] Fn.prems(1)
  show ?case by (simp add: comp_def param_type.map_sel)
qed simp_all

text \<open>
  Inference recovers the type arguments of a call: from a parameter type that has no
  record, union or \<open>?\<close> and the type that is its instance under a substitution for the type
  parameters, one pass binds every parameter that occurs to the type it was replaced by, and
  substituting what was inferred gives the instance back.
\<close>

lemma unify_infer_matches:
  assumes "first_order want" "binds tps m (ty_vars want)"
  defines "out \<equiv> unify_infer tps want (subst_in m want) []"
  shows "(\<forall>v\<in>set (ty_vars want). v \<in> set tps \<longrightarrow> tget out v = tget m v) \<and> subst_in out want = subst_in m want"
proof -
  have "below [] m" by (simp add: below_def tget_def)
  from infersD [OF infers_unify [OF assms(1,2)] this]
  have i: "below out m" "\<And>v. v \<in> set (ty_vars want) \<Longrightarrow> v \<in> set tps \<Longrightarrow> tget out v = tget m v"
    by (simp_all add: out_def)
  have "tget out v = tget m v" if "v \<in> set (ty_vars want)" for v
  proof (cases "v \<in> set tps")
    case False
    then have "tget m v = None" using assms(2) by (simp add: binds_def)
    then show ?thesis using i(1) by (cases "tget out v") (auto simp: below_def)
  qed (use i(2) that in blast)
  then show ?thesis using i(2) subst_in_cong by blast
qed

lemma unify_infer_matches_example:
  "unify_infer [0] (T_Fn (Fn_Type [] [Param_Type (T_Array (T_Var 0)) False False] (T_Var 0)))
     (T_Fn (Fn_Type [] [Param_Type (T_Array T_Str) False False] T_Str)) [] = [(0, T_Str)]
    \<and> subst_in [(0, T_Str)] (T_Fn (Fn_Type [] [Param_Type (T_Array (T_Var 0)) False False] (T_Var 0)))
      = T_Fn (Fn_Type [] [Param_Type (T_Array T_Str) False False] T_Str)"
  using unify_infer_matches [of "T_Fn (Fn_Type [] [Param_Type (T_Array (T_Var 0)) False False] (T_Var 0))" "[0]" "[(0, T_Str)]"]
  by (simp add: binds_def tget_def infer_all_def or_insert_def)
section \<open>When assignability returns\<close>

primrec ty_size :: "ty \<Rightarrow> nat" where
  "ty_size T_Unknown = 1" | "ty_size T_Err = 1" | "ty_size T_Void = 1" | "ty_size T_Null = 1"
| "ty_size T_Bool = 1" | "ty_size T_Char = 1" | "ty_size T_Str = 1" | "ty_size T_BigInt = 1"
| "ty_size T_BigDec = 1" | "ty_size (T_Int k) = 1" | "ty_size T_F32 = 1" | "ty_size T_F64 = 1"
| "ty_size (T_Nullable t) = Suc (ty_size t)"
| "ty_size (T_Array t) = Suc (ty_size t)"
| "ty_size (T_Tuple ts) = Suc (sum_list (map ty_size ts))"
| "ty_size (T_Record fs) = Suc (sum_list (map rf_ty (map (map_rec_field ty_size) fs)))"
| "ty_size (T_Fn f) = (case map_fn_type ty_size f of Fn_Type _ ps r \<Rightarrow> Suc (sum_list (map pt_ty ps) + r))"
| "ty_size (T_Class c ts) = Suc (sum_list (map ty_size ts))"
| "ty_size (T_Iface c ts) = Suc (sum_list (map ty_size ts))"
| "ty_size (T_Enum e) = 1" | "ty_size (T_ClassMeta c) = 1" | "ty_size (T_IfaceMeta i) = 1"
| "ty_size (T_EnumMeta e) = 1" | "ty_size (T_Namespace n) = 1" | "ty_size (T_Var v) = 1"
| "ty_size (T_Union ts) = Suc (sum_list (map ty_size ts))"

text \<open>No class and no interface anywhere.\<close>

primrec structural :: "ty \<Rightarrow> bool" where
  "structural T_Unknown = True" | "structural T_Err = True" | "structural T_Void = True" | "structural T_Null = True"
| "structural T_Bool = True" | "structural T_Char = True" | "structural T_Str = True" | "structural T_BigInt = True"
| "structural T_BigDec = True" | "structural (T_Int k) = True" | "structural T_F32 = True" | "structural T_F64 = True"
| "structural (T_Nullable t) = structural t"
| "structural (T_Array t) = structural t"
| "structural (T_Tuple ts) = list_all id (map structural ts)"
| "structural (T_Record fs) = list_all rf_ty (map (map_rec_field structural) fs)"
| "structural (T_Fn f) = (case map_fn_type structural f of Fn_Type _ ps r \<Rightarrow> list_all pt_ty ps \<and> r)"
| "structural (T_Class c ts) = False"
| "structural (T_Iface c ts) = False"
| "structural (T_Enum e) = True" | "structural (T_ClassMeta c) = True" | "structural (T_IfaceMeta i) = True"
| "structural (T_EnumMeta e) = True" | "structural (T_Namespace n) = True" | "structural (T_Var v) = True"
| "structural (T_Union ts) = list_all id (map structural ts)"

lemma all_opt_returns: "(\<And>x. x \<in> set xs \<Longrightarrow> f x \<noteq> None) \<Longrightarrow> all_opt f xs \<noteq> None"
  by (induction xs) (auto split: option.splits bool.splits)

lemma any_opt_returns: "(\<And>x. x \<in> set xs \<Longrightarrow> f x \<noteq> None) \<Longrightarrow> any_opt f xs \<noteq> None"
  by (induction xs) (auto split: option.splits bool.splits)

lemma and_or_returns:
  "a \<noteq> None \<Longrightarrow> b \<noteq> None \<Longrightarrow> and_opt a b \<noteq> None" "a \<noteq> None \<Longrightarrow> b \<noteq> None \<Longrightarrow> or_opt a b \<noteq> None"
  by (auto simp: and_opt_def or_opt_def split: option.splits bool.splits)

lemma ty_size_pos: "0 < ty_size t"
  by (cases t) (auto split: fn_type.splits)

lemma sum_size_mem: "x \<in> set xs \<Longrightarrow> f x \<le> sum_list (map f xs)" for f :: "'a \<Rightarrow> nat"
  by (induction xs) auto

text \<open>The relation on every pair of smaller structural types.\<close>

definition returns_below :: "rel \<Rightarrow> nat \<Rightarrow> bool" where
  "returns_below rel n \<longleftrightarrow>
     (\<forall>s t. structural s \<longrightarrow> structural t \<longrightarrow> ty_size s + ty_size t \<le> n \<longrightarrow> rel s t \<noteq> None)"

lemma returns_belowD:
  "returns_below rel n \<Longrightarrow> structural s \<Longrightarrow> structural t \<Longrightarrow> ty_size s + ty_size t \<le> n \<Longrightarrow> rel s t \<noteq> None"
  by (simp add: returns_below_def)

lemma fn_parts:
  "structural (T_Fn f) \<longleftrightarrow> (\<forall>p\<in>set (ft_params f). structural (pt_ty p)) \<and> structural (ft_ret f)"
  "ty_size (T_Fn f) = Suc (sum_list (map (\<lambda>p. ty_size (pt_ty p)) (ft_params f)) + ty_size (ft_ret f))"
  by (cases f; simp add: list_all_iff param_type.map_sel comp_def)+

lemma record_parts:
  "structural (T_Record fs) \<longleftrightarrow> (\<forall>f\<in>set fs. structural (rf_ty f))"
  "ty_size (T_Record fs) = Suc (sum_list (map (\<lambda>f. ty_size (rf_ty f)) fs))"
  by (simp_all add: list_all_iff rec_field.map_sel comp_def)

lemma assign_record_returns:
  assumes r: "returns_below rel n" and s: "structural (T_Record as)" "structural (T_Record bs)"
    and n: "ty_size (T_Record as) + ty_size (T_Record bs) \<le> Suc n"
  shows "all_opt (\<lambda>bf. case find (\<lambda>af. rf_name af = rf_name bf) as of
      Some af \<Rightarrow> rel (rf_ty af) (rf_ty bf) | None \<Rightarrow> Some (rf_optional bf)) bs \<noteq> None"
proof (rule all_opt_returns)
  fix bf assume b: "bf \<in> set bs"
  have "rel (rf_ty af) (rf_ty bf) \<noteq> None" if "find (\<lambda>af. rf_name af = rf_name bf) as = Some af" for af
  proof -
    have a: "af \<in> set as" using that by (auto simp: find_Some_iff)
    have "ty_size (rf_ty af) + ty_size (rf_ty bf) \<le> n"
      using n sum_size_mem [OF a, of "\<lambda>f. ty_size (rf_ty f)"] sum_size_mem [OF b, of "\<lambda>f. ty_size (rf_ty f)"]
      unfolding record_parts by linarith
    then show ?thesis using s [unfolded record_parts] a b by (intro returns_belowD [OF r]) auto
  qed
  then show "(case find (\<lambda>af. rf_name af = rf_name bf) as of
      Some af \<Rightarrow> rel (rf_ty af) (rf_ty bf) | None \<Rightarrow> Some (rf_optional bf)) \<noteq> None"
    by (simp split: option.split)
qed

lemma assign_tuple_returns:
  assumes r: "returns_below rel n" and s: "structural (T_Tuple as)" "structural (T_Tuple bs)"
    and n: "ty_size (T_Tuple as) + ty_size (T_Tuple bs) \<le> Suc n"
  shows "all_opt (\<lambda>(x, y). rel x y) (zip as bs) \<noteq> None"
proof (rule all_opt_returns)
  fix e assume "e \<in> set (zip as bs)"
  then obtain x y where e: "e = (x, y)" and m: "x \<in> set as" "y \<in> set bs"
    by (metis set_zip_leftD set_zip_rightD surj_pair)
  have "ty_size x + ty_size y \<le> n"
    using n sum_size_mem [OF m(1), of ty_size] sum_size_mem [OF m(2), of ty_size] by simp
  then have "rel x y \<noteq> None" using s m by (intro returns_belowD [OF r]) (simp_all add: list_all_iff)
  then show "(case e of (x, y) \<Rightarrow> rel x y) \<noteq> None" by (simp add: e)
qed

lemma assign_fn_returns:
  assumes r: "returns_below rel n" and s: "structural (T_Fn f)" "structural (T_Fn g)"
    and n: "ty_size (T_Fn f) + ty_size (T_Fn g) \<le> Suc n"
  shows "and_opt (all_opt (\<lambda>(x, y). rel (pt_ty y) (pt_ty x)) (zip (ft_params f) (ft_params g)))
    (or_opt (Some b) (rel (ft_ret f) (ft_ret g))) \<noteq> None"
proof (intro and_or_returns all_opt_returns)
  fix e assume "e \<in> set (zip (ft_params f) (ft_params g))"
  then obtain x y where e: "e = (x, y)" and m: "x \<in> set (ft_params f)" "y \<in> set (ft_params g)"
    by (metis set_zip_leftD set_zip_rightD surj_pair)
  have "ty_size (pt_ty y) + ty_size (pt_ty x) \<le> n"
    using n sum_size_mem [OF m(1), of "\<lambda>p. ty_size (pt_ty p)"] sum_size_mem [OF m(2), of "\<lambda>p. ty_size (pt_ty p)"]
    unfolding fn_parts by linarith
  then have "rel (pt_ty y) (pt_ty x) \<noteq> None" using s [unfolded fn_parts] m by (intro returns_belowD [OF r]) auto
  then show "(case e of (x, y) \<Rightarrow> rel (pt_ty y) (pt_ty x)) \<noteq> None" by (simp add: e)
next
  have "ty_size (ft_ret f) + ty_size (ft_ret g) \<le> n" using n unfolding fn_parts by linarith
  then show "rel (ft_ret f) (ft_ret g) \<noteq> None" using s [unfolded fn_parts] by (intro returns_belowD [OF r]) auto
qed simp

lemma assign_same_returns:
  assumes r: "returns_below rel n" and s: "structural s" "structural t" and n: "ty_size s + ty_size t \<le> Suc n"
  shows "assign_same D rel f s t \<noteq> None"
proof (cases s)
  case (T_Array a)
  have "ty_eq_by rel a b \<noteq> None" if "t = T_Array b" for b
    using s n T_Array that unfolding ty_eq_by_def by (intro and_or_returns returns_belowD [OF r]) auto
  then show ?thesis using T_Array and_or_returns(2) by (cases t) (simp_all add: assign_same_def)
next
  case (T_Tuple as)
  then show ?thesis using s n assign_tuple_returns [OF r, of as] by (cases t) (auto simp: assign_same_def)
next
  case (T_Record as)
  then show ?thesis using s n assign_record_returns [OF r, of as] by (cases t) (simp_all add: assign_same_def)
next
  case (T_Fn f)
  then show ?thesis using s n assign_fn_returns [OF r, of f] by (cases t) (auto simp: assign_same_def)
qed (use s in \<open>simp_all add: assign_same_def\<close>)

lemma assign_step_returns:
  assumes r: "returns_below rel n" and s: "structural s" "structural t" and n: "ty_size s + ty_size t \<le> Suc n"
  shows "assign_step D rel f s t \<noteq> None"
proof (cases "nullable_of t")
  case (Some b)
  then have t: "t = T_Nullable b" by (cases t) (simp_all add: nullable_of_def)
  have "rel s b \<noteq> None" by (rule returns_belowD [OF r]) (use s n t in auto)
  moreover have "rel a b \<noteq> None" if "nullable_of s = Some a" for a
  proof -
    have "s = T_Nullable a" using that by (cases s) (simp_all add: nullable_of_def)
    then show ?thesis by (intro returns_belowD [OF r]) (use s n t in auto)
  qed
  ultimately show ?thesis using Some by (auto simp: assign_step_def split: option.splits)
next
  case None
  have same: "assign_same D rel f s t \<noteq> None" by (rule assign_same_returns [OF assms])
  have all: "all_opt (\<lambda>a. rel a t) arms \<noteq> None" if "union_of s = Some arms" for arms
  proof (rule all_opt_returns)
    fix a assume a: "a \<in> set arms"
    have "s = T_Union arms" using that by (cases s) (simp_all add: union_of_def)
    then show "rel a t \<noteq> None"
      using s n a sum_size_mem [OF a, of ty_size] by (intro returns_belowD [OF r]) (auto simp: list_all_iff)
  qed
  have any: "any_opt (\<lambda>a. rel s a) arms \<noteq> None" if "union_of t = Some arms" for arms
  proof (rule any_opt_returns)
    fix a assume a: "a \<in> set arms"
    have "t = T_Union arms" using that by (cases t) (simp_all add: union_of_def)
    then show "rel s a \<noteq> None"
      using s n a sum_size_mem [OF a, of ty_size] by (intro returns_belowD [OF r]) (auto simp: list_all_iff)
  qed
  show ?thesis using None same all any by (simp add: assign_step_def del: not_None_eq split: option.split)
qed

lemma assignable_returns_below: "returns_below (assignable D n) n"
proof (induction n)
  case 0
  then show ?case using ty_size_pos by (auto simp: returns_below_def)
next
  case (Suc n)
  then show ?case using assign_step_returns [OF Suc.IH] by (simp add: returns_below_def)
qed

text \<open>
  The class \<open>class A { f: (x: {f: (a: A) => void}) => void }\<close> against the record type its own
  field mentions.
\<close>

definition loop_record :: ty where
  "loop_record = T_Record [Rec_Field (str ''f'') (T_Fn (Fn_Type [] [Param_Type (T_Class 0 []) False False] T_Void)) False]"

definition loop_decls :: decls where
  "loop_decls = no_decls\<lparr>dc_classes :=
     [\<lparr>cl_name = (str ''A''), cl_tparams = [], cl_parent = None, cl_host_parent = None, cl_ifaces = [],
       cl_fields = [\<lparr>fd_name = (str ''f''), fd_ty = T_Fn (Fn_Type [] [Param_Type loop_record False False] T_Void),
                     fd_access = Public, fd_readonly = False\<rparr>]\<rparr>]\<rparr>"

lemmas step_views = assign_step_def assign_same_def is_err_def is_unknown_def is_null_def is_number_def
  is_numeric_iface_def nullable_of_def union_of_def

lemma loop_step:
  "assign_step loop_decls rel (Suc n) (T_Class 0 []) loop_record =
    and_opt (rel (T_Fn (Fn_Type [] [Param_Type loop_record False False] T_Void))
          (T_Fn (Fn_Type [] [Param_Type (T_Class 0 []) False False] T_Void))) (Some True)"
  "assign_step D rel m (T_Fn (Fn_Type [] [Param_Type loop_record False False] T_Void))
          (T_Fn (Fn_Type [] [Param_Type (T_Class 0 []) False False] T_Void))
    = and_opt (and_opt (rel (T_Class 0 []) loop_record) (Some True)) (or_opt (Some True) (rel T_Void T_Void))"
  by (simp_all add: step_views loop_record_def loop_decls_def no_decls_def get_at_def subst_def and_opt_def
      split: option.split bool.split)

lemma loop_never: "assignable loop_decls n (T_Class 0 []) loop_record = None
    \<and> assignable loop_decls n (T_Fn (Fn_Type [] [Param_Type loop_record False False] T_Void))
          (T_Fn (Fn_Type [] [Param_Type (T_Class 0 []) False False] T_Void)) = None"
  by (induction n) (simp_all add: loop_step and_opt_def)

text \<open>
  C23: Assignability between types without classes and interfaces answers within a recursion
  depth of the two sizes, whatever the declarations.  With classes it need not answer at all:
  a class and a record type that mention each other in parameter position send the checker
  into a recursion no depth is enough for.
\<close>

theorem assignable_structural_returns:
  assumes "structural s" "structural t" "ty_size s + ty_size t \<le> n"
  shows "(\<exists>b. assignable D n s t = Some b) \<and> (\<forall>k. assignable loop_decls k (T_Class 0 []) loop_record = None)"
  using returns_belowD [OF assignable_returns_below assms, of D] loop_never by auto

theorem assignable_structural_returns_witness:
  "\<exists>b. assignable no_decls 9 (T_Tuple [T_Str, T_Int I32]) (T_Nullable (T_Tuple [T_Str, T_F64])) = Some b"
  using assignable_structural_returns [of "T_Tuple [T_Str, T_Int I32]" "T_Nullable (T_Tuple [T_Str, T_F64])" 9 no_decls] by simp

end
