(* ===== verification/VM.thy ===== *)
theory VM
  imports Types
begin

text \<open>
  The bytecode and its verifier (\<open>crates/mersey_interp/src/vm.rs\<close>): the instructions, the
  verifier's abstract interpretation of the depth of the stack, the typed fast paths of
  arithmetic, and the machine's loop in one frame, with its handlers and its suspensions.
\<close>

unbundle bit_operations_syntax

section \<open>Bytecode\<close>

datatype (plugins only: size) opcode =
    Op_Const nat | Op_Null | Op_LoadName nat | Op_StoreName nat | Op_DeclareName nat
  | Op_LoadSlot nat | Op_StoreSlot nat | Op_BindPattern nat | Op_LoadThis | Op_PushScope | Op_PopScope
  | Op_Pop | Op_Dup | Op_Bin bin_op | Op_BinNum bin_op num | Op_Un unary_op | Op_Truthy | Op_Convert num
  | Op_Jump nat | Op_JumpIfFalse nat | Op_JumpIfTrue nat | Op_OnNullJump nat | Op_NotNullJump nat
  | Op_ToDisplayStr | Op_TemplateJoin nat
  | Op_Call nat | Op_CallV | Op_CallMethod nat nat | Op_CallMethodV nat | Op_NewNamed nat nat | Op_NewNamedV nat
  | Op_SuperCall nat | Op_SuperMember nat | Op_CallSuperMethod nat nat | Op_SuperCallV | Op_CallSuperMethodV nat
  | Op_ImportCall nat | Op_GetMember nat nat | Op_SetMember nat nat | Op_IndexGet | Op_IndexSet
  | Op_MakeArray | Op_MakeMap | Op_MakeSet | Op_MakeBytes | Op_ArrayPush1 | Op_ArraySpread | Op_MakeRecord
  | Op_RecordSetField nat | Op_RecordSpread | Op_MakeClosure nat | Op_InstanceOf | Op_CastOp nat bool | Op_IsOp nat
  | Op_AsyncIterInit | Op_IterArray | Op_PushHandler nat | Op_PopHandler | Op_CatchMatches nat | Op_Throw
  | Op_Await | Op_YieldOp | Op_Return | Op_ReturnNull

text \<open>A chunk with the pools as the code indexes them; of the patterns, the prototypes and the
  inline caches only their number matters here.\<close>

record chunk =
  ck_code :: "opcode list"
  ck_consts :: "mvalue list"
  ck_names :: "rstr list"
  ck_n_slots :: nat
  ck_this_slot :: "nat option"
  ck_patterns :: nat
  ck_types :: "type_expr list"
  ck_protos :: nat
  ck_caches :: nat

section \<open>The verifier\<close>

datatype verify_error =
    Pc_Out_Of_Range nat
  | Depth_Mismatch nat int int
  | Index_Out_Of_Range nat nat
  | Stack_Underflow nat opcode

text \<open>\<open>bounds\<close>, for an index that must lie in a pool of a size.\<close>

definition bounds :: "nat \<Rightarrow> nat \<Rightarrow> verify_error + unit" where
  "bounds i len = (if i < len then Inr () else Inl (Index_Out_Of_Range i len))"

definition in_pool :: "nat \<Rightarrow> nat \<Rightarrow> int \<times> int \<Rightarrow> verify_error + (int \<times> int)" where
  "in_pool i len e = map_sum id (\<lambda>_. e) (bounds i len)"

text \<open>The \<open>match\<close> of \<open>analyze\<close>: how many values an instruction pops and pushes.\<close>

definition op_effect :: "chunk \<Rightarrow> opcode \<Rightarrow> verify_error + (int \<times> int)" where
  "op_effect P opc =
     (let name = (\<lambda>i. in_pool i (length (ck_names P)));
          typ = (\<lambda>i. in_pool i (length (ck_types P)))
      in case opc of
        Op_Const i \<Rightarrow> in_pool i (length (ck_consts P)) (0, 1)
      | Op_Null \<Rightarrow> Inr (0, 1) | Op_LoadThis \<Rightarrow> Inr (0, 1) | Op_MakeArray \<Rightarrow> Inr (0, 1) | Op_MakeRecord \<Rightarrow> Inr (0, 1)
      | Op_MakeMap \<Rightarrow> Inr (0, 1) | Op_MakeSet \<Rightarrow> Inr (0, 1) | Op_MakeBytes \<Rightarrow> Inr (0, 1)
      | Op_LoadName i \<Rightarrow> name i (0, 1) | Op_SuperMember i \<Rightarrow> name i (0, 1)
      | Op_StoreName i \<Rightarrow> name i (1, 0) | Op_DeclareName i \<Rightarrow> name i (1, 0)
      | Op_BindPattern i \<Rightarrow> in_pool i (ck_patterns P) (1, 0)
      | Op_PushScope \<Rightarrow> Inr (0, 0) | Op_PopScope \<Rightarrow> Inr (0, 0) | Op_PopHandler \<Rightarrow> Inr (0, 0)
      | Op_Pop \<Rightarrow> Inr (1, 0)
      | Op_Dup \<Rightarrow> Inr (1, 2)
      | Op_Bin _ \<Rightarrow> Inr (2, 1) | Op_BinNum _ _ \<Rightarrow> Inr (2, 1)
      | Op_Un _ \<Rightarrow> Inr (1, 1) | Op_Truthy \<Rightarrow> Inr (1, 1) | Op_Convert _ \<Rightarrow> Inr (1, 1) | Op_ToDisplayStr \<Rightarrow> Inr (1, 1)
      | Op_IterArray \<Rightarrow> Inr (1, 1)
      | Op_TemplateJoin n \<Rightarrow> Inr (int n, 1)
      | Op_LoadSlot s \<Rightarrow> in_pool s (ck_n_slots P) (0, 1)
      | Op_StoreSlot s \<Rightarrow> in_pool s (ck_n_slots P) (1, 0)
      | Op_Jump _ \<Rightarrow> Inr (0, 0)
      | Op_JumpIfFalse _ \<Rightarrow> Inr (1, 0) | Op_JumpIfTrue _ \<Rightarrow> Inr (1, 0)
      | Op_OnNullJump _ \<Rightarrow> Inr (0, 0)
      | Op_NotNullJump _ \<Rightarrow> Inr (1, 0)
      | Op_Call a \<Rightarrow> Inr (int a + 1, 1)
      | Op_CallV \<Rightarrow> Inr (2, 1)
      | Op_CallMethod i a \<Rightarrow> name i (int a + 1, 1)
      | Op_CallMethodV i \<Rightarrow> name i (2, 1)
      | Op_NewNamed i a \<Rightarrow> name i (int a, 1)
      | Op_NewNamedV i \<Rightarrow> name i (1, 1)
      | Op_SuperCall a \<Rightarrow> Inr (int a, 1)
      | Op_SuperCallV \<Rightarrow> Inr (1, 1)
      | Op_CallSuperMethodV i \<Rightarrow> name i (1, 1)
      | Op_CallSuperMethod i a \<Rightarrow> name i (int a, 1)
      | Op_ImportCall i \<Rightarrow> name i (0, 1)
      | Op_GetMember i c \<Rightarrow> (case bounds i (length (ck_names P)) of Inl e \<Rightarrow> Inl e | Inr _ \<Rightarrow> in_pool c (ck_caches P) (1, 1))
      | Op_SetMember i c \<Rightarrow> (case bounds i (length (ck_names P)) of Inl e \<Rightarrow> Inl e | Inr _ \<Rightarrow> in_pool c (ck_caches P) (2, 1))
      | Op_IndexGet \<Rightarrow> Inr (2, 1)
      | Op_IndexSet \<Rightarrow> Inr (3, 1)
      | Op_ArrayPush1 \<Rightarrow> Inr (1, 0) | Op_ArraySpread \<Rightarrow> Inr (1, 0) | Op_RecordSpread \<Rightarrow> Inr (1, 0)
      | Op_RecordSetField i \<Rightarrow> name i (1, 0)
      | Op_MakeClosure i \<Rightarrow> in_pool i (ck_protos P) (0, 1)
      | Op_InstanceOf \<Rightarrow> Inr (2, 1)
      | Op_CastOp i _ \<Rightarrow> typ i (1, 1)
      | Op_IsOp i \<Rightarrow> typ i (1, 1)
      | Op_AsyncIterInit \<Rightarrow> Inr (1, 1)
      | Op_PushHandler _ \<Rightarrow> Inr (0, 0)
      | Op_CatchMatches i \<Rightarrow> typ i (0, 1)
      | Op_Throw \<Rightarrow> Inr (1, 0)
      | Op_Await \<Rightarrow> Inr (1, 1)
      | Op_YieldOp \<Rightarrow> Inr (1, 1)
      | Op_Return \<Rightarrow> Inr (1, 0)
      | Op_ReturnNull \<Rightarrow> Inr (0, 0))"

text \<open>What is pushed on the work list: the target of a jump or a handler, and the next
  instruction unless control is transferred.\<close>

definition jump_targets :: "opcode \<Rightarrow> int \<Rightarrow> (nat \<times> int) list" where
  "jump_targets opc depth =
     (case opc of
        Op_Jump t \<Rightarrow> [(t, depth)]
      | Op_JumpIfFalse t \<Rightarrow> [(t, depth - 1)]
      | Op_JumpIfTrue t \<Rightarrow> [(t, depth - 1)]
      | Op_OnNullJump t \<Rightarrow> [(t, depth)]
      | Op_NotNullJump t \<Rightarrow> [(t, depth)]
      | Op_PushHandler t \<Rightarrow> [(t, depth + 1)]
      | _ \<Rightarrow> [])"

definition falls_through :: "opcode \<Rightarrow> bool" where
  "falls_through opc =
     (case opc of Op_Jump _ \<Rightarrow> False | Op_Return \<Rightarrow> False | Op_ReturnNull \<Rightarrow> False | Op_Throw \<Rightarrow> False | _ \<Rightarrow> True)"

definition succs :: "opcode \<Rightarrow> nat \<Rightarrow> int \<Rightarrow> int \<Rightarrow> int \<Rightarrow> (nat \<times> int) list" where
  "succs opc pc depth pops pushes =
     (if falls_through opc then [(pc + 1, depth - pops + pushes)] else []) @ jump_targets opc depth"

lemma count_none_update:
  assumes "pc < length D" "D ! pc = None"
  shows "length (filter (\<lambda>x. x = None) (D[pc := Some d])) < length (filter (\<lambda>x. x = None) D)"
proof -
  have "D = take pc D @ None # drop (Suc pc) D" using assms id_take_nth_drop [of pc D] by simp
  then have "filter (\<lambda>x. x = None) D = filter (\<lambda>x. x = None) (take pc D @ None # drop (Suc pc) D)" by (rule arg_cong)
  then show ?thesis using upd_conv_take_nth_drop [OF assms(1), of "Some d"] by simp
qed

text \<open>The work list is a stack; its top is the head here.  \<open>depth_at\<close> has one entry more than
  the code, so \<open>pc > n\<close> is the test against its length.\<close>

function analyze_loop :: "chunk \<Rightarrow> int option list \<Rightarrow> (nat \<times> int) list \<Rightarrow> verify_error + int option list" where
  "analyze_loop P D [] = Inr D"
| "analyze_loop P D ((pc, depth) # work) =
     (if length D \<le> pc then Inl (Pc_Out_Of_Range pc)
      else if pc = length (ck_code P) then analyze_loop P D work
      else case D ! pc of
        Some d \<Rightarrow> if d \<noteq> depth then Inl (Depth_Mismatch pc d depth) else analyze_loop P D work
      | None \<Rightarrow>
          (let opc = ck_code P ! pc in
           case op_effect P opc of
             Inl e \<Rightarrow> Inl e
           | Inr (pops, pushes) \<Rightarrow>
               if depth - pops < 0 then Inl (Stack_Underflow pc opc)
               else analyze_loop P (D[pc := Some depth]) (succs opc pc depth pops pushes @ work)))"
  by pat_completeness auto

termination
  by (relation "measures [\<lambda>(P, D, work). length (filter (\<lambda>x. x = None) D), \<lambda>(P, D, work). length work]")
    (auto simp: count_none_update)

declare analyze_loop.simps [simp del]

definition analyze :: "chunk \<Rightarrow> verify_error + int option list" where
  "analyze P = map_sum id butlast (analyze_loop P (replicate (length (ck_code P) + 1) None) [(0, 0)])"

definition verify :: "chunk \<Rightarrow> verify_error + unit" where
  "verify P = map_sum id (\<lambda>_. ()) (analyze P)"

section \<open>The fast paths of arithmetic\<close>

definition i32_binop :: "bin_op \<Rightarrow> i32 \<Rightarrow> i32 \<Rightarrow> mvalue tres" where
  "i32_binop bop x y =
     (case bop of
        O_Add \<Rightarrow> Inr (V_I32 (x + y))
      | O_Sub \<Rightarrow> Inr (V_I32 (x - y))
      | O_Mul \<Rightarrow> Inr (V_I32 (x * y))
      | O_Div \<Rightarrow>
          if y = 0 then range_error (str ''division by zero'')
          else (case checked_div True x y of
                  Some q \<Rightarrow> Inr (V_I32 q)
                | None \<Rightarrow> range_error (str ''integer overflow in division''))
      | O_Rem \<Rightarrow>
          if y = 0 then range_error (str ''division by zero'')
          else Inr (V_I32 (case checked_rem True x y of Some r \<Rightarrow> r | None \<Rightarrow> 0))
      | O_Pow \<Rightarrow>
          if sint y < 0 then range_error (str ''negative integer exponent'')
          else Inr (V_I32 (pow_loop (nat (sint y)) x 1))
      | O_Shl \<Rightarrow> Inr (V_I32 (push_bit (unat y mod 32) x))
      | O_Shr \<Rightarrow> Inr (V_I32 (signed_drop_bit (unat y mod 32) x))
      | O_BitAnd \<Rightarrow> Inr (V_I32 (x AND y))
      | O_BitOr \<Rightarrow> Inr (V_I32 (x OR y))
      | O_BitXor \<Rightarrow> Inr (V_I32 (x XOR y))
      | O_Lt \<Rightarrow> Inr (V_Bool (sint x < sint y))
      | O_Gt \<Rightarrow> Inr (V_Bool (sint y < sint x))
      | O_Le \<Rightarrow> Inr (V_Bool (sint x \<le> sint y))
      | O_Ge \<Rightarrow> Inr (V_Bool (sint y \<le> sint x))
      | O_Eq \<Rightarrow> Inr (V_Bool (x = y))
      | O_Ne \<Rightarrow> Inr (V_Bool (x \<noteq> y))
      | _ \<Rightarrow> type_error (str ''operator not defined for int32''))"

definition f64_binop :: "libm_pow \<Rightarrow> bin_op \<Rightarrow> fl \<Rightarrow> fl \<Rightarrow> mvalue" where
  "f64_binop pw bop x y =
     (case bop of
        O_Add \<Rightarrow> V_F64 (fl_add f64 x y)
      | O_Sub \<Rightarrow> V_F64 (fl_sub f64 x y)
      | O_Mul \<Rightarrow> V_F64 (fl_mul f64 x y)
      | O_Div \<Rightarrow> V_F64 (fl_div f64 x y)
      | O_Rem \<Rightarrow> V_F64 (fl_rem f64 x y)
      | O_Pow \<Rightarrow> V_F64 (pw f64 x y)
      | O_Lt \<Rightarrow> V_Bool (fl_lt x y)
      | O_Gt \<Rightarrow> V_Bool (fl_lt y x)
      | O_Le \<Rightarrow> V_Bool (fl_le x y)
      | O_Ge \<Rightarrow> V_Bool (fl_le y x)
      | O_Eq \<Rightarrow> V_Bool (fl_eq x y)
      | O_Ne \<Rightarrow> V_Bool (\<not> fl_eq x y)
      | _ \<Rightarrow> V_Null)"

text \<open>\<open>Op::Bin\<close>, and \<open>Op::BinNum\<close> with its fast paths.\<close>

definition bin_value :: "libm_pow \<Rightarrow> bin_op \<Rightarrow> mvalue \<Rightarrow> mvalue \<Rightarrow> mvalue tres" where
  "bin_value pw bop l r =
     (if bop = O_Eq then map_sum id V_Bool (values_equal l r)
      else if bop = O_Ne then map_sum id (\<lambda>e. V_Bool (\<not> e)) (values_equal l r)
      else numeric_binop pw bop l r)"

definition both_i32 :: "mvalue \<Rightarrow> mvalue \<Rightarrow> (i32 \<times> i32) option" where
  "both_i32 l r = (case l of V_I32 a \<Rightarrow> (case r of V_I32 b \<Rightarrow> Some (a, b) | _ \<Rightarrow> None) | _ \<Rightarrow> None)"

definition both_f64 :: "mvalue \<Rightarrow> mvalue \<Rightarrow> (fl \<times> fl) option" where
  "both_f64 l r = (case l of V_F64 a \<Rightarrow> (case r of V_F64 b \<Rightarrow> Some (a, b) | _ \<Rightarrow> None) | _ \<Rightarrow> None)"

definition bin_num_value :: "libm_pow \<Rightarrow> bin_op \<Rightarrow> num \<Rightarrow> mvalue \<Rightarrow> mvalue \<Rightarrow> mvalue tres" where
  "bin_num_value pw bop n l r =
     (case (if n = Num_Int I32 then both_i32 l r else None) of
        Some (a, b) \<Rightarrow> i32_binop bop a b
      | None \<Rightarrow>
          (case (if n = Num_F64 then both_f64 l r else None) of
             Some (a, b) \<Rightarrow> Inr (f64_binop pw bop a b)
           | None \<Rightarrow> bin_value pw bop l r))"

section \<open>The machine\<close>

text \<open>
  The stack has its top at the head.  An instruction computes, or asks the interpreter for an
  answer it may also refuse with an exception (calls, members, environments, containers: the
  operands are popped, and the answer is left open), or moves control, or panics (\<open>None\<close>).
\<close>

datatype outcome =
    Next "mvalue list" "mvalue list"
  | Branch nat "mvalue list"
  | Ask "mvalue list" bool
  | Fails "mvalue list"
  | Raise mvalue "mvalue list"
  | Guard nat
  | Unguard
  | Suspend mvalue "mvalue list"
  | Finish mvalue

type_synonym frame = "mvalue list"

definition pop1 :: "mvalue list \<Rightarrow> (mvalue \<Rightarrow> mvalue list \<Rightarrow> outcome option) \<Rightarrow> outcome option" where
  "pop1 stk k = (case stk of [] \<Rightarrow> None | v # rest \<Rightarrow> k v rest)"

definition popn :: "nat \<Rightarrow> mvalue list \<Rightarrow> (mvalue list \<Rightarrow> outcome) \<Rightarrow> outcome option" where
  "popn n stk k = (if length stk < n then None else Some (k (drop n stk)))"

definition answer :: "mvalue tres \<Rightarrow> mvalue list \<Rightarrow> frame \<Rightarrow> outcome" where
  "answer r stk fr = (case r of Inr v \<Rightarrow> Next (v # stk) fr | Inl _ \<Rightarrow> Fails stk)"

definition branch_on :: "mvalue \<Rightarrow> bool \<Rightarrow> nat \<Rightarrow> mvalue list \<Rightarrow> frame \<Rightarrow> outcome" where
  "branch_on v want t stk fr =
     (case value_truthy v of Inl _ \<Rightarrow> Fails stk | Inr b \<Rightarrow> if b = want then Branch t stk else Next stk fr)"

definition in_range :: "nat \<Rightarrow> nat \<Rightarrow> outcome option \<Rightarrow> outcome option" where
  "in_range i len r = (if i < len then r else None)"

text \<open>\<open>this_of\<close> reads the frame slot that holds \<open>this\<close>.\<close>

definition reads_this :: "chunk \<Rightarrow> frame \<Rightarrow> outcome option \<Rightarrow> outcome option" where
  "reads_this P fr r = (case ck_this_slot P of Some s \<Rightarrow> in_range s (length fr) r | None \<Rightarrow> r)"

definition is_null_top :: "mvalue list \<Rightarrow> bool" where
  "is_null_top stk = (case stk of [] \<Rightarrow> False | v # _ \<Rightarrow> v = V_Null)"

text \<open>The instructions that ask: how many operands they take and whether they push an answer.\<close>

definition ask_op :: "chunk \<Rightarrow> opcode \<Rightarrow> mvalue list \<Rightarrow> frame \<Rightarrow> outcome option" where
  "ask_op P opc stk fr =
     (let name = (\<lambda>i. in_range i (length (ck_names P)));
          typ = (\<lambda>i. in_range i (length (ck_types P)));
          ask = (\<lambda>n push. popn n stk (\<lambda>s. Ask s push))
      in case opc of
        Op_LoadName i \<Rightarrow> name i (ask 0 True)
      | Op_StoreName i \<Rightarrow> name i (ask 1 False)
      | Op_DeclareName i \<Rightarrow> name i (ask 1 False)
      | Op_BindPattern i \<Rightarrow> in_range i (ck_patterns P) (ask 1 False)
      | Op_ToDisplayStr \<Rightarrow> ask 1 True
      | Op_TemplateJoin n \<Rightarrow> ask n True
      | Op_Call a \<Rightarrow> ask (a + 1) True
      | Op_CallV \<Rightarrow> ask 2 True
      | Op_CallMethod i a \<Rightarrow> name i (ask (a + 1) True)
      | Op_CallMethodV i \<Rightarrow> name i (ask 2 True)
      | Op_NewNamed i a \<Rightarrow> name i (ask a True)
      | Op_NewNamedV i \<Rightarrow> name i (Some (Ask (tl stk) True))
      | Op_SuperCall a \<Rightarrow> reads_this P fr (ask a True)
      | Op_SuperMember i \<Rightarrow> name i (reads_this P fr (ask 0 True))
      | Op_CallSuperMethod i a \<Rightarrow> name i (reads_this P fr (ask a True))
      | Op_SuperCallV \<Rightarrow> reads_this P fr (Some (Ask (tl stk) True))
      | Op_CallSuperMethodV i \<Rightarrow> name i (reads_this P fr (Some (Ask (tl stk) True)))
      | Op_ImportCall i \<Rightarrow> name i (ask 0 True)
      | Op_GetMember i c \<Rightarrow> name i (in_range c (ck_caches P) (ask 1 True))
      | Op_SetMember i c \<Rightarrow> name i (in_range c (ck_caches P) (ask 2 True))
      | Op_IndexGet \<Rightarrow> ask 2 True
      | Op_IndexSet \<Rightarrow> ask 3 True
      | Op_ArrayPush1 \<Rightarrow> ask 1 False
      | Op_ArraySpread \<Rightarrow> ask 1 False
      | Op_RecordSetField i \<Rightarrow> name i (ask 1 False)
      | Op_RecordSpread \<Rightarrow> ask 1 False
      | Op_MakeArray \<Rightarrow> ask 0 True | Op_MakeMap \<Rightarrow> ask 0 True | Op_MakeSet \<Rightarrow> ask 0 True
      | Op_MakeBytes \<Rightarrow> ask 0 True | Op_MakeRecord \<Rightarrow> ask 0 True
      | Op_MakeClosure i \<Rightarrow> in_range i (ck_protos P) (reads_this P fr (ask 0 True))
      | Op_InstanceOf \<Rightarrow> ask 2 True
      | Op_AsyncIterInit \<Rightarrow> ask 1 True
      | Op_IterArray \<Rightarrow> ask 1 True
      | Op_CatchMatches i \<Rightarrow> (if stk = [] then Some (Ask [] True) else typ i (ask 0 True))
      | _ \<Rightarrow> None)"

text \<open>What an instruction does to the operand stack and the slots.\<close>

definition exec_stack :: "libm_pow \<Rightarrow> store \<Rightarrow> chunk \<Rightarrow> opcode \<Rightarrow> mvalue list \<Rightarrow> frame \<Rightarrow> outcome option" where
  "exec_stack pw st P opc stk fr =
     (case opc of
        Op_Const i \<Rightarrow> in_range i (length (ck_consts P)) (Some (Next (ck_consts P ! i # stk) fr))
      | Op_Null \<Rightarrow> Some (Next (V_Null # stk) fr)
      | Op_LoadSlot s \<Rightarrow> in_range s (length fr) (Some (Next (fr ! s # stk) fr))
      | Op_StoreSlot s \<Rightarrow> pop1 stk (\<lambda>v rest. in_range s (length fr) (Some (Next rest (fr[s := v]))))
      | Op_LoadThis \<Rightarrow>
          (case ck_this_slot P of
             None \<Rightarrow> Some (Fails stk)
           | Some s \<Rightarrow> in_range s (length fr) (Some (if fr ! s = V_Null then Fails stk else Next (fr ! s # stk) fr)))
      | Op_PushScope \<Rightarrow> Some (Next stk fr)
      | Op_PopScope \<Rightarrow> Some (Next stk fr)
      | Op_Pop \<Rightarrow> Some (Next (tl stk) fr)
      | Op_Dup \<Rightarrow> pop1 stk (\<lambda>v rest. Some (Next (v # stk) fr))
      | Op_Bin bop \<Rightarrow> pop1 stk (\<lambda>r rest. pop1 rest (\<lambda>l rest. Some (answer (bin_value pw bop l r) rest fr)))
      | Op_BinNum bop n \<Rightarrow> pop1 stk (\<lambda>r rest. pop1 rest (\<lambda>l rest. Some (answer (bin_num_value pw bop n l r) rest fr)))
      | Op_Un uop \<Rightarrow> pop1 stk (\<lambda>v rest. Some (answer (eval_unary uop v) rest fr))
      | Op_Truthy \<Rightarrow> pop1 stk (\<lambda>v rest. Some (answer (map_sum id V_Bool (value_truthy v)) rest fr))
      | Op_Convert n \<Rightarrow> pop1 stk (\<lambda>v rest. Some (Next (convert_num v n # rest) fr))
      | Op_Jump t \<Rightarrow> Some (Branch t stk)
      | Op_JumpIfFalse t \<Rightarrow> pop1 stk (\<lambda>v rest. Some (branch_on v False t rest fr))
      | Op_JumpIfTrue t \<Rightarrow> pop1 stk (\<lambda>v rest. Some (branch_on v True t rest fr))
      | Op_OnNullJump t \<Rightarrow> Some (if is_null_top stk then Branch t stk else Next stk fr)
      | Op_NotNullJump t \<Rightarrow> Some (if is_null_top stk then Next (tl stk) fr else Branch t stk)
      | Op_CastOp i wrapping \<Rightarrow>
          pop1 stk (\<lambda>v rest. in_range i (length (ck_types P)) (Some (answer (eval_cast st v wrapping (ck_types P ! i)) rest fr)))
      | Op_IsOp i \<Rightarrow>
          pop1 stk (\<lambda>v rest. in_range i (length (ck_types P)) (Some (Next (V_Bool (value_is st v (ck_types P ! i)) # rest) fr)))
      | Op_PushHandler t \<Rightarrow> Some (Guard t)
      | Op_PopHandler \<Rightarrow> Some Unguard
      | Op_Throw \<Rightarrow> pop1 stk (\<lambda>v rest. Some (Raise v rest))
      | Op_Await \<Rightarrow> pop1 stk (\<lambda>v rest. Some (Suspend v rest))
      | Op_YieldOp \<Rightarrow> pop1 stk (\<lambda>v rest. Some (Suspend v rest))
      | Op_Return \<Rightarrow> pop1 stk (\<lambda>v rest. Some (Finish v))
      | Op_ReturnNull \<Rightarrow> Some (Finish V_Null)
      | _ \<Rightarrow> ask_op P opc stk fr)"

text \<open>
  Of the scope stack the number of its scopes is kept.  \<open>cur!()\<close> expects one; \<open>Op_NewNamed\<close> does
  when the class is not in its cache, which is what its first execution finds.
\<close>

fun needs_scope :: "opcode \<Rightarrow> bool" where
  "needs_scope (Op_LoadName _) = True"
| "needs_scope (Op_StoreName _) = True"
| "needs_scope (Op_DeclareName _) = True"
| "needs_scope (Op_BindPattern _) = True"
| "needs_scope Op_PushScope = True"
| "needs_scope (Op_NewNamed _ _) = True"
| "needs_scope (Op_NewNamedV _) = True"
| "needs_scope (Op_MakeClosure _) = True"
| "needs_scope _ = False"

fun scopes_after :: "opcode \<Rightarrow> nat \<Rightarrow> nat" where
  "scopes_after Op_PushScope n = n + 1"
| "scopes_after Op_PopScope n = n - 1"
| "scopes_after _ n = n"

definition exec_op :: "libm_pow \<Rightarrow> store \<Rightarrow> chunk \<Rightarrow> opcode \<Rightarrow> mvalue list \<Rightarrow> frame \<Rightarrow> nat \<Rightarrow> outcome option" where
  "exec_op pw st P opc stk fr sc = (if needs_scope opc \<and> sc = 0 then None else exec_stack pw st P opc stk fr)"

text \<open>A handler is its program counter and the numbers of scopes and of operands when it was
  pushed.\<close>

type_synonym handlers = "(nat \<times> nat \<times> nat) list"

datatype vm_state =
    Running nat "mvalue list" frame nat handlers
  | Suspended nat "mvalue list" frame nat handlers
  | Returned mvalue
  | Uncaught mvalue

definition truncate :: "nat \<Rightarrow> 'a list \<Rightarrow> 'a list" where
  "truncate k stk = drop (length stk - k) stk"

fun unwind :: "handlers \<Rightarrow> mvalue \<Rightarrow> mvalue list \<Rightarrow> frame \<Rightarrow> nat \<Rightarrow> vm_state" where
  "unwind [] t stk fr sc = Uncaught t"
| "unwind ((hpc, scopes, height) # hs) t stk fr sc = Running hpc (t # truncate height stk) fr (min scopes sc) hs"

text \<open>One turn of the loop of \<open>exec\<close>, in the running frame; \<open>v\<close> is what the interpreter answers
  or throws, or what a suspended coroutine is resumed with.\<close>

inductive vm_step :: "libm_pow \<Rightarrow> store \<Rightarrow> chunk \<Rightarrow> vm_state \<Rightarrow> vm_state \<Rightarrow> bool" for pw st P where
  proceed: "pc < length (ck_code P) \<Longrightarrow> exec_op pw st P (ck_code P ! pc) stk fr sc = Some (Next stk' fr') \<Longrightarrow>
     vm_step pw st P (Running pc stk fr sc hs) (Running (pc + 1) stk' fr' (scopes_after (ck_code P ! pc) sc) hs)"
| branch: "pc < length (ck_code P) \<Longrightarrow> exec_op pw st P (ck_code P ! pc) stk fr sc = Some (Branch t stk') \<Longrightarrow>
     vm_step pw st P (Running pc stk fr sc hs) (Running t stk' fr (scopes_after (ck_code P ! pc) sc) hs)"
| answered: "pc < length (ck_code P) \<Longrightarrow> exec_op pw st P (ck_code P ! pc) stk fr sc = Some (Ask stk' push) \<Longrightarrow>
     vm_step pw st P (Running pc stk fr sc hs) (Running (pc + 1) (if push then v # stk' else stk') fr (scopes_after (ck_code P ! pc) sc) hs)"
| refused: "pc < length (ck_code P) \<Longrightarrow> exec_op pw st P (ck_code P ! pc) stk fr sc = Some (Ask stk' push) \<Longrightarrow>
     vm_step pw st P (Running pc stk fr sc hs) (unwind hs v stk' fr sc)"
| fails: "pc < length (ck_code P) \<Longrightarrow> exec_op pw st P (ck_code P ! pc) stk fr sc = Some (Fails stk') \<Longrightarrow>
     vm_step pw st P (Running pc stk fr sc hs) (unwind hs v stk' fr sc)"
| raises: "pc < length (ck_code P) \<Longrightarrow> exec_op pw st P (ck_code P ! pc) stk fr sc = Some (Raise v stk') \<Longrightarrow>
     vm_step pw st P (Running pc stk fr sc hs) (unwind hs v stk' fr sc)"
| guard: "pc < length (ck_code P) \<Longrightarrow> exec_op pw st P (ck_code P ! pc) stk fr sc = Some (Guard t) \<Longrightarrow>
     vm_step pw st P (Running pc stk fr sc hs) (Running (pc + 1) stk fr (scopes_after (ck_code P ! pc) sc) ((t, sc, length stk) # hs))"
| unguard: "pc < length (ck_code P) \<Longrightarrow> exec_op pw st P (ck_code P ! pc) stk fr sc = Some Unguard \<Longrightarrow>
     vm_step pw st P (Running pc stk fr sc hs) (Running (pc + 1) stk fr (scopes_after (ck_code P ! pc) sc) (tl hs))"
| suspend: "pc < length (ck_code P) \<Longrightarrow> exec_op pw st P (ck_code P ! pc) stk fr sc = Some (Suspend v stk') \<Longrightarrow>
     vm_step pw st P (Running pc stk fr sc hs) (Suspended (pc + 1) stk' fr (scopes_after (ck_code P ! pc) sc) hs)"
| resume: "vm_step pw st P (Suspended pc stk fr sc hs) (Running pc (v # stk) fr sc hs)"
| reject: "vm_step pw st P (Suspended pc stk fr sc hs) (unwind hs v stk fr sc)"
| finish: "pc < length (ck_code P) \<Longrightarrow> exec_op pw st P (ck_code P ! pc) stk fr sc = Some (Finish v) \<Longrightarrow>
     vm_step pw st P (Running pc stk fr sc hs) (Returned v)"

inductive vm_reaches :: "libm_pow \<Rightarrow> store \<Rightarrow> chunk \<Rightarrow> vm_state \<Rightarrow> vm_state \<Rightarrow> bool" for pw st P s where
  start: "vm_reaches pw st P s s"
| step: "vm_reaches pw st P s t \<Longrightarrow> vm_step pw st P t u \<Longrightarrow> vm_reaches pw st P s u"
section \<open>The fast paths agree\<close>

text \<open>The operators the compiler emits for two numbers: no logic, no \<open>instanceof\<close>.\<close>

definition number_op :: "bin_op \<Rightarrow> bool" where
  "number_op bop \<longleftrightarrow> bop \<notin> set [O_Coalesce, O_Or, O_And, O_Instanceof]"

lemma i32_operators_agree:
  assumes "number_op bop" "bop \<noteq> O_Eq" "bop \<noteq> O_Ne"
  shows "i32_binop bop x y = int_binop True V_I32 bop x y"
proof -
  have "signed_take_bit 63 (sint y) = sint y"
    using sint_greater_eq [of y] sint_less [of y] by (intro signed_take_bit_int_eq_self) auto
  then have s: "sint (scast y :: i64) = sint y" by (simp add: signed_scast_eq)
  have u: "unat (ucast y :: u32) = unat y" by simp
  show ?thesis using assms
  proof (cases bop)
    case O_Div
    then show ?thesis by (simp add: i32_binop_def int_binop_def)
  next
    case O_Rem
    then show ?thesis by (cases "checked_rem True x y") (simp_all add: i32_binop_def int_binop_def)
  next
    case O_Pow
    then show ?thesis unfolding i32_binop_def int_binop_def by (simp only: bin_op.case if_True s Let_def)
  next
    case O_Shl
    then show ?thesis unfolding i32_binop_def int_binop_def by (simp only: bin_op.case u) simp
  next
    case O_Shr
    then show ?thesis unfolding i32_binop_def int_binop_def by (simp only: bin_op.case u Let_def if_True) simp
  qed (simp_all add: i32_binop_def int_binop_def number_op_def int_val_def)
qed

lemma i32_binop_agrees:
  assumes "number_op bop"
  shows "i32_binop bop x y = bin_value pw bop (V_I32 x) (V_I32 y)"
proof -
  have p: "promote_pair (V_I32 x) (V_I32 y) = Some (V_I32 x, V_I32 y)" by (simp add: promote_pair_def conv_rank_def)
  have e: "values_equal (V_I32 x) (V_I32 y) = Inr (x = y)" by (simp add: values_equal_def same_kind_equal_def p num_eq_def)
  have n: "numeric_binop pw bop (V_I32 x) (V_I32 y) = int_binop True V_I32 bop x y"
    by (simp add: numeric_binop_def text_binop_def p promoted_binop_def)
  consider "bop = O_Eq" | "bop = O_Ne" | "bop \<noteq> O_Eq" "bop \<noteq> O_Ne" by blast
  then show ?thesis
  proof cases
    case 3
    then show ?thesis using i32_operators_agree [OF assms 3] by (simp add: bin_value_def n)
  qed (simp_all add: bin_value_def e i32_binop_def)
qed

lemma f64_binop_agrees:
  assumes "number_op bop" "\<not> is_bitwise bop"
  shows "Inr (f64_binop pw bop x y) = bin_value pw bop (V_F64 x) (V_F64 y)"
proof -
  have p: "promote_pair (V_F64 x) (V_F64 y) = Some (V_F64 x, V_F64 y)" by (simp add: promote_pair_def conv_rank_def)
  have e: "values_equal (V_F64 x) (V_F64 y) = Inr (fl_eq x y)" by (simp add: values_equal_def same_kind_equal_def p num_eq_def)
  show ?thesis using assms
    by (cases bop) (simp_all add: number_op_def is_bitwise_def bin_value_def f64_binop_def e float_binops float_binop_def)
qed

text \<open>
  C25: The typed arithmetic instruction is the untyped one: on every pair of values and every
  type recorded for the operator, the fast paths answer what the general operator answers,
  errors included.  The bitwise operators on two \<open>float64\<close> are the exception, which the
  checker rejects: the fast path answers \<open>null\<close> for the \<open>TypeError\<close>.
\<close>

theorem fast_paths_agree:
  assumes "number_op bop"
  shows "bin_num_value pw bop n l r =
    (if n = Num_F64 \<and> both_f64 l r \<noteq> None \<and> is_bitwise bop then Inr V_Null else bin_value pw bop l r)"
proof (cases "n = Num_Int I32 \<and> both_i32 l r \<noteq> None")
  case True
  then obtain x y where "l = V_I32 x" "r = V_I32 y"
    by (cases l; cases r) (auto simp: both_i32_def)
  then show ?thesis using True i32_binop_agrees [OF assms] by (simp add: bin_num_value_def both_i32_def)
next
  case i: False
  show ?thesis
  proof (cases "n = Num_F64 \<and> both_f64 l r \<noteq> None")
    case True
    then obtain x y where xy: "l = V_F64 x" "r = V_F64 y"
      by (cases l; cases r) (auto simp: both_f64_def)
    have "is_bitwise bop \<Longrightarrow> f64_binop pw bop x y = V_Null" by (cases bop) (simp_all add: is_bitwise_def f64_binop_def)
    then show ?thesis using True xy f64_binop_agrees [OF assms, of pw x y]
      by (auto simp: bin_num_value_def both_f64_def)
  next
    case False
    then show ?thesis using i by (auto simp: bin_num_value_def split: option.split)
  qed
qed

theorem fast_paths_agree_witness:
  "bin_num_value (\<lambda>_ x y. x) O_Div (Num_Int I32) (V_I32 7) (V_I32 0) = range_error (str ''division by zero'')"
  using fast_paths_agree [of O_Div "\<lambda>_ x y. x" "Num_Int I32" "V_I32 7" "V_I32 0"]
  by (simp add: number_op_def bin_value_def numeric_binop_def text_binop_def promote_pair_def conv_rank_def
      promoted_binop_def int_binop_def)


section \<open>What the analysis establishes\<close>

definition covered :: "chunk \<Rightarrow> int option list \<Rightarrow> (nat \<times> int) list \<Rightarrow> nat \<times> int \<Rightarrow> bool" where
  "covered P D work x \<longleftrightarrow>
     x \<in> set work \<or> fst x = length (ck_code P) \<or> fst x < length (ck_code P) \<and> D ! fst x = Some (snd x)"

definition checked :: "chunk \<Rightarrow> nat \<Rightarrow> int \<Rightarrow> (nat \<times> int \<Rightarrow> bool) \<Rightarrow> bool" where
  "checked P pc d C \<longleftrightarrow>
     (\<exists>pops pushes. op_effect P (ck_code P ! pc) = Inr (pops, pushes) \<and> pops \<le> d
        \<and> (\<forall>x\<in>set (succs (ck_code P ! pc) pc d pops pushes). C x))"

definition analyzed :: "chunk \<Rightarrow> int option list \<Rightarrow> (nat \<times> int) list \<Rightarrow> bool" where
  "analyzed P D work \<longleftrightarrow>
     length D = length (ck_code P) + 1 \<and> covered P D work (0, 0)
     \<and> (\<forall>pc d. pc < length (ck_code P) \<longrightarrow> D ! pc = Some d \<longrightarrow> checked P pc d (covered P D work))"

lemma checked_mono: "checked P pc d C \<Longrightarrow> (\<And>x. C x \<Longrightarrow> C' x) \<Longrightarrow> checked P pc d C'"
  unfolding checked_def by blast

lemma covered_mark:
  assumes "covered P D ((pc, d) # work) x" "D ! pc = None" "pc < length D" "length D = length (ck_code P) + 1"
  shows "covered P (D[pc := Some d]) (new @ work) x"
  using assms by (cases x) (auto simp: covered_def nth_list_update)

lemma covered_drop:
  assumes "covered P D ((pc, d) # work) x" "pc = length (ck_code P) \<or> D ! pc = Some d" "pc < length D" "length D = length (ck_code P) + 1"
  shows "covered P D work x"
  using assms by (cases x) (auto simp: covered_def)

lemma analyzed_drop:
  assumes "analyzed P D ((pc, d) # work)" "pc = length (ck_code P) \<or> D ! pc = Some d" "pc < length D"
  shows "analyzed P D work"
proof -
  have l: "length D = length (ck_code P) + 1" using assms(1) by (simp add: analyzed_def)
  have c: "covered P D work x" if "covered P D ((pc, d) # work) x" for x
    by (rule covered_drop [OF that assms(2,3) l])
  have "checked P k e (covered P D work)" if "k < length (ck_code P)" "D ! k = Some e" for k e
    using assms(1) that checked_mono c unfolding analyzed_def by blast
  then show ?thesis using assms(1) c by (simp add: analyzed_def)
qed

lemma analyzed_mark:
  assumes a: "analyzed P D ((pc, d) # work)" and pc: "pc < length (ck_code P)" "D ! pc = None"
    and e: "op_effect P (ck_code P ! pc) = Inr (pops, pushes)" "pops \<le> d"
  shows "analyzed P (D[pc := Some d]) (succs (ck_code P ! pc) pc d pops pushes @ work)"
proof -
  let ?W = "succs (ck_code P ! pc) pc d pops pushes @ work"
  have l: "length D = length (ck_code P) + 1" using a by (simp add: analyzed_def)
  then have pcD: "pc < length D" using pc(1) by simp
  have c: "covered P (D[pc := Some d]) ?W x" if "covered P D ((pc, d) # work) x" for x
    by (rule covered_mark [OF that pc(2) pcD l])
  have "checked P k f (covered P (D[pc := Some d]) ?W)" if k: "k < length (ck_code P)" "D[pc := Some d] ! k = Some f" for k f
  proof (cases "k = pc")
    case True
    then have "f = d" using k(2) pcD by simp
    then show ?thesis using True e by (auto simp: checked_def covered_def)
  next
    case False
    then have "D ! k = Some f" using k(2) by simp
    then show ?thesis using a k(1) checked_mono c unfolding analyzed_def by blast
  qed
  then show ?thesis using a l c by (simp add: analyzed_def)
qed

lemma analyze_loop_analyzed: "analyze_loop P D work = Inr D' \<Longrightarrow> analyzed P D work \<Longrightarrow> analyzed P D' []"
proof (induction P D work rule: analyze_loop.induct)
  case (1 P D)
  then show ?case by (simp add: analyze_loop.simps)
next
  case (2 P D pc d work)
  have pcD: "pc < length D" using "2.prems"(1) by (subst (asm) analyze_loop.simps) (auto split: if_splits)
  have l: "length D = length (ck_code P) + 1" using "2.prems"(2) by (simp add: analyzed_def)
  show ?case
  proof (cases "pc = length (ck_code P)")
    case True
    then have "analyze_loop P D work = Inr D'" using "2.prems"(1) pcD by (simp add: analyze_loop.simps)
    then show ?thesis using "2.IH"(1) [OF _ True] pcD analyzed_drop [OF "2.prems"(2) disjI1 [OF True] pcD] by simp
  next
    case nend: False
    show ?thesis
    proof (cases "D ! pc")
      case (Some d')
      then have "d' = d" "analyze_loop P D work = Inr D'" using "2.prems"(1) pcD nend
        by (auto simp: analyze_loop.simps split: if_splits)
      then show ?thesis using "2.IH"(3) [OF _ nend Some] pcD analyzed_drop [OF "2.prems"(2) disjI2 pcD] Some by (simp add: leD)
    next
      case None
      then obtain pops pushes where e: "op_effect P (ck_code P ! pc) = Inr (pops, pushes)" "pops \<le> d"
        and r: "analyze_loop P (D[pc := Some d]) (succs (ck_code P ! pc) pc d pops pushes @ work) = Inr D'"
        using "2.prems"(1) pcD nend
        by (subst (asm) analyze_loop.simps) (auto simp: Let_def split: sum.splits prod.splits if_splits)
      have "pc < length (ck_code P)" using pcD nend l by simp
      from analyzed_mark [OF "2.prems"(2) this None e] show ?thesis
        using "2.IH"(2) pcD nend None e r by (simp add: leD)
    qed
  qed
qed

lemma analyze_analyzed:
  assumes "analyze P = Inr D"
  obtains D' where "analyzed P D' []" "D = butlast D'"
proof -
  obtain D' where r: "analyze_loop P (replicate (length (ck_code P) + 1) None) [(0, 0)] = Inr D'" "D = butlast D'"
    using assms by (auto simp: analyze_def map_sum_def split: sum.splits)
  have "analyzed P (replicate (length (ck_code P) + 1) None) [(0, 0)]"
    by (simp add: analyzed_def covered_def del: replicate_Suc)
  then show thesis using that analyze_loop_analyzed [OF r(1)] r(2) by blast
qed
section \<open>No verified instruction panics\<close>

text \<open>What an instruction may do, seen from the verifier's effect: the heights it leaves.\<close>

definition fits :: "opcode \<Rightarrow> int \<Rightarrow> int \<Rightarrow> nat \<Rightarrow> nat \<Rightarrow> outcome \<Rightarrow> bool" where
  "fits opc pops pushes len slots out =
     (case out of
        Next stk' fr' \<Rightarrow> int (length stk') = int len - pops + pushes \<and> length fr' = slots
          \<and> falls_through opc \<and> opc \<noteq> Op_PopHandler \<and> (\<forall>t. opc \<noteq> Op_PushHandler t)
      | Branch t stk' \<Rightarrow> (t, int (length stk')) \<in> set (jump_targets opc (int len)) \<and> (\<forall>t. opc \<noteq> Op_PushHandler t)
      | Ask stk' push \<Rightarrow> int (length stk') = int len - pops \<and> pushes = of_bool push
          \<and> falls_through opc \<and> opc \<noteq> Op_PopHandler \<and> (\<forall>t. opc \<noteq> Op_PushHandler t)
      | Fails stk' \<Rightarrow> int (length stk') = int len - pops
      | Raise v stk' \<Rightarrow> int (length stk') = int len - pops
      | Guard t \<Rightarrow> opc = Op_PushHandler t \<and> pops = 0 \<and> pushes = 0
      | Unguard \<Rightarrow> opc = Op_PopHandler \<and> pops = 0 \<and> pushes = 0
      | Suspend v stk' \<Rightarrow> int (length stk') = int len - pops \<and> pushes = 1
          \<and> falls_through opc \<and> opc \<noteq> Op_PopHandler \<and> (\<forall>t. opc \<noteq> Op_PushHandler t)
      | Finish v \<Rightarrow> True)"

lemmas fits_simps = fits_def [of _ _ _ _ _ "Next a b" for a b] fits_def [of _ _ _ _ _ "Branch t a" for t a]
  fits_def [of _ _ _ _ _ "Ask a p" for a p] fits_def [of _ _ _ _ _ "Fails a" for a]
  fits_def [of _ _ _ _ _ "Raise v a" for v a] fits_def [of _ _ _ _ _ "Guard t" for t]
  fits_def [of _ _ _ _ _ Unguard] fits_def [of _ _ _ _ _ "Suspend v a" for v a] fits_def [of _ _ _ _ _ "Finish v" for v]

lemma in_pool_Inr: "in_pool i len e = Inr e' \<longleftrightarrow> i < len \<and> e' = e"
  by (auto simp: in_pool_def bounds_def)

lemma pop1_fits:
  assumes "0 < length stk" "\<And>v rest. stk = v # rest \<Longrightarrow> \<exists>x. k v rest = Some x \<and> Q x"
  shows "\<exists>x. pop1 stk k = Some x \<and> Q x"
  using assms by (cases stk) (auto simp: pop1_def)

lemma answer_fits:
  assumes "falls_through opc" "opc \<noteq> Op_PopHandler" "\<forall>t. opc \<noteq> Op_PushHandler t" "pushes = 1"
    "int (length stk) = int len - pops" "length fr = slots"
  shows "fits opc pops pushes len slots (answer r stk fr)"
  using assms by (cases r) (auto simp: answer_def fits_def)

lemma branch_on_fits:
  assumes "(t, int (length stk)) \<in> set (jump_targets opc (int len))"
    "falls_through opc" "opc \<noteq> Op_PopHandler" "\<forall>t. opc \<noteq> Op_PushHandler t" "pushes = 0"
    "int (length stk) = int len - pops" "length fr = slots"
  shows "fits opc pops pushes len slots (branch_on v want t stk fr)"
  using assms by (cases "value_truthy v") (auto simp: branch_on_def fits_def)

lemma exec_effect:
  assumes e: "op_effect P opc = Inr (pops, pushes)" and enough: "pops \<le> int (length stk)"
    and fr: "length fr = ck_n_slots P" and slot: "\<And>s. ck_this_slot P = Some s \<Longrightarrow> s < ck_n_slots P"
  shows "\<exists>out. exec_stack pw st P opc stk fr = Some out \<and> fits opc pops pushes (length stk) (length fr) out"
proof -
  have rt: "reads_this P fr r = r" for r
    using slot fr by (auto simp: reads_this_def in_range_def split: option.split)
  note [simp] = in_pool_Inr op_effect_def exec_stack_def ask_op_def in_range_def popn_def rt
  note [simp] = falls_through_def jump_targets_def
  show ?thesis
  proof (cases opc)
    case (Op_Bin bop)
    then show ?thesis using e enough fr
      by (auto intro!: pop1_fits answer_fits)
  next
    case (Op_BinNum bop n)
    then show ?thesis using e enough fr
      by (auto intro!: pop1_fits answer_fits)
  next
    case (Op_LoadThis)
    then show ?thesis using e enough fr slot
      by (auto simp: fits_simps split: option.split)
  next
    case (Op_GetMember i c)
    then show ?thesis using e enough fr
      by (auto simp: fits_simps bounds_def split: sum.splits if_splits)
  next
    case (Op_SetMember i c)
    then show ?thesis using e enough fr
      by (auto simp: fits_simps bounds_def split: sum.splits if_splits)
  qed (use e enough fr in \<open>auto intro!: pop1_fits answer_fits branch_on_fits simp: fits_simps\<close>)
qed

section \<open>Safety of the machine\<close>

text \<open>
  What \<open>verify\<close> does not look at, and safety needs: the handlers in force at each instruction and
  the number of scopes.  \<open>H\<close> gives the handlers, with the scopes and the height each was pushed at,
  and \<open>S\<close> the scopes.  No instruction may reach under the innermost handler's height or scopes, a
  handler's target has the rest in force, the handler's scopes and one value more than its height,
  and every instruction hands its successors what it has in force.  An instruction that looks up a
  name has a scope.  No path runs off the end of the code.
\<close>

definition in_force :: "opcode \<Rightarrow> nat \<Rightarrow> nat \<Rightarrow> nat \<Rightarrow> nat \<Rightarrow> handlers \<Rightarrow> handlers" where
  "in_force opc pc sc depth q hs =
     (case opc of
        Op_PushHandler t \<Rightarrow> if q = pc + 1 then (t, sc, depth) # hs else hs
      | Op_PopHandler \<Rightarrow> tl hs
      | _ \<Rightarrow> hs)"

definition lands :: "chunk \<Rightarrow> int option list \<Rightarrow> handlers list \<Rightarrow> nat list \<Rightarrow> nat \<Rightarrow> int \<Rightarrow> handlers \<Rightarrow> bool" where
  "lands P D H S sc least hs =
     (case hs of [] \<Rightarrow> True
      | (t, n, k) # hs' \<Rightarrow> int k \<le> least \<and> n \<le> sc \<and> t < length (ck_code P) \<and> D ! t = Some (int k + 1)
          \<and> H ! t = hs' \<and> S ! t = n)"

definition guarded_at :: "chunk \<Rightarrow> int option list \<Rightarrow> handlers list \<Rightarrow> nat list \<Rightarrow> nat \<Rightarrow> int \<Rightarrow> bool" where
  "guarded_at P D H S pc d =
     (let opc = ck_code P ! pc in
      case op_effect P opc of
        Inl _ \<Rightarrow> False
      | Inr (pops, pushes) \<Rightarrow>
          lands P D H S (S ! pc) (d - pops) (H ! pc) \<and> (needs_scope opc \<longrightarrow> 0 < S ! pc)
          \<and> list_all (\<lambda>(q, e). q < length (ck_code P) \<and> H ! q = in_force opc pc (S ! pc) (nat d) q (H ! pc)
                \<and> S ! q = scopes_after opc (S ! pc))
              (succs opc pc d pops pushes))"

definition guarded :: "chunk \<Rightarrow> int option list \<Rightarrow> handlers list \<Rightarrow> nat list \<Rightarrow> bool" where
  "guarded P D H S \<longleftrightarrow>
     ck_code P \<noteq> [] \<and> H ! 0 = [] \<and> S ! 0 = 1
     \<and> list_all (\<lambda>pc. case D ! pc of None \<Rightarrow> True | Some d \<Rightarrow> guarded_at P D H S pc d) [0..<length (ck_code P)]"

text \<open>The states the machine can be in, and that the next instruction does not panic.\<close>

fun state_fits :: "chunk \<Rightarrow> int option list \<Rightarrow> handlers list \<Rightarrow> nat list \<Rightarrow> vm_state \<Rightarrow> bool" where
  "state_fits P D H S (Running pc stk fr sc hs) \<longleftrightarrow>
     pc < length (ck_code P) \<and> D ! pc = Some (int (length stk)) \<and> hs = H ! pc \<and> sc = S ! pc \<and> length fr = ck_n_slots P"
| "state_fits P D H S (Suspended pc stk fr sc hs) \<longleftrightarrow>
     pc < length (ck_code P) \<and> D ! pc = Some (int (length stk) + 1) \<and> hs = H ! pc \<and> sc = S ! pc \<and> length fr = ck_n_slots P
     \<and> lands P D H S sc (int (length stk)) hs"
| "state_fits P D H S _ \<longleftrightarrow> True"

fun panics :: "libm_pow \<Rightarrow> store \<Rightarrow> chunk \<Rightarrow> vm_state \<Rightarrow> bool" where
  "panics pw st P (Running pc stk fr sc hs) \<longleftrightarrow>
     length (ck_code P) \<le> pc \<or> exec_op pw st P (ck_code P ! pc) stk fr sc = None"
| "panics pw st P _ \<longleftrightarrow> False"

lemma unwind_fits:
  assumes "lands P D H S sc (int (length stk)) hs" "length fr = ck_n_slots P"
  shows "state_fits P D H S (unwind hs t stk fr sc)"
  using assms by (cases hs) (auto simp: lands_def truncate_def)

lemma exec_stack_scopes: "exec_stack pw st P Op_PushScope stk fr = Some (Next stk fr)" "exec_stack pw st P Op_PopScope stk fr = Some (Next stk fr)"
  by (simp_all add: exec_stack_def)

lemma scopes_same: "opc \<noteq> Op_PushScope \<Longrightarrow> opc \<noteq> Op_PopScope \<Longrightarrow> scopes_after opc n = n"
  by (cases opc) simp_all

lemma suspends_scopes: "exec_op pw st P opc stk fr sc = Some (Suspend v stk') \<Longrightarrow> scopes_after opc sc = sc"
  by (rule scopes_same) (auto simp: exec_op_def exec_stack_scopes split: if_splits)

text \<open>What the machine needs of a verifier, and no more: the code starts at height 0, and each
  instruction it has a height for can be executed and leads to instructions it has a height for.\<close>

locale stack_verifier =
  fixes admits :: "chunk \<Rightarrow> int option list \<Rightarrow> handlers list \<Rightarrow> nat list \<Rightarrow> bool"
  assumes starts: "admits P D H S \<Longrightarrow> 0 < length (ck_code P) \<and> D ! 0 = Some 0 \<and> H ! 0 = [] \<and> S ! 0 = 1"
    and this_slot: "admits P D H S \<Longrightarrow> ck_this_slot P = Some s \<Longrightarrow> s < ck_n_slots P"
    and instruction: "admits P D H S \<Longrightarrow> pc < length (ck_code P) \<Longrightarrow> D ! pc = Some d \<Longrightarrow>
      \<exists>pops pushes. op_effect P (ck_code P ! pc) = Inr (pops, pushes) \<and> pops \<le> d \<and> lands P D H S (S ! pc) (d - pops) (H ! pc)
        \<and> (needs_scope (ck_code P ! pc) \<longrightarrow> 0 < S ! pc)
        \<and> (\<forall>(q, e) \<in> set (succs (ck_code P ! pc) pc d pops pushes).
            q < length (ck_code P) \<and> D ! q = Some e \<and> H ! q = in_force (ck_code P ! pc) pc (S ! pc) (nat d) q (H ! pc) \<and> S ! q = scopes_after (ck_code P ! pc) (S ! pc))"
begin

lemma at_instruction:
  assumes "admits P D H S" "pc < length (ck_code P)" "D ! pc = Some d"
  obtains pops pushes where
    "op_effect P (ck_code P ! pc) = Inr (pops, pushes)" "pops \<le> d" "lands P D H S (S ! pc) (d - pops) (H ! pc)"
    "needs_scope (ck_code P ! pc) \<Longrightarrow> 0 < S ! pc"
    "\<And>q e. (q, e) \<in> set (succs (ck_code P ! pc) pc d pops pushes) \<Longrightarrow>
       q < length (ck_code P) \<and> D ! q = Some e \<and> H ! q = in_force (ck_code P ! pc) pc (S ! pc) (nat d) q (H ! pc) \<and> S ! q = scopes_after (ck_code P ! pc) (S ! pc)"
  using instruction [OF assms] by fast

lemma never_panics:
  assumes ok: "admits P D H S" and "state_fits P D H S s"
  shows "\<not> panics pw st P s"
proof (cases s)
  case (Running pc stk fr sc hs)
  then have pc: "pc < length (ck_code P)" and d: "D ! pc = Some (int (length stk))" using assms(2) by auto
  obtain pops pushes where e: "op_effect P (ck_code P ! pc) = Inr (pops, pushes)" "pops \<le> int (length stk)"
    and n: "needs_scope (ck_code P ! pc) \<longrightarrow> 0 < S ! pc"
    by (rule at_instruction [OF ok pc d]) blast
  from exec_effect [OF e, of fr pw st] show ?thesis using assms(2) Running this_slot [OF ok] n by (auto simp: exec_op_def)
qed auto

lemma running_effect:
  assumes ok: "admits P D H S" and f: "state_fits P D H S (Running pc stk fr sc hs)" and x: "exec_op pw st P (ck_code P ! pc) stk fr sc = Some out"
  obtains pops pushes where
    "fits (ck_code P ! pc) pops pushes (length stk) (ck_n_slots P) out"
    "lands P D H S sc (int (length stk) - pops) hs"
    "\<And>q e. (q, e) \<in> set (succs (ck_code P ! pc) pc (int (length stk)) pops pushes) \<Longrightarrow>
       q < length (ck_code P) \<and> D ! q = Some e \<and> H ! q = in_force (ck_code P ! pc) pc sc (length stk) q hs \<and> S ! q = scopes_after (ck_code P ! pc) sc"
proof -
  have pc: "pc < length (ck_code P)" and d: "D ! pc = Some (int (length stk))" and hs: "hs = H ! pc" and sc: "sc = S ! pc"
    and fr: "length fr = ck_n_slots P" using f by auto
  show thesis
  proof (rule at_instruction [OF ok pc d])
    fix pops pushes
    assume e: "op_effect P (ck_code P ! pc) = Inr (pops, pushes)" "pops \<le> int (length stk)"
      and l: "lands P D H S (S ! pc) (int (length stk) - pops) (H ! pc)"
      and s: "\<And>q e. (q, e) \<in> set (succs (ck_code P ! pc) pc (int (length stk)) pops pushes) \<Longrightarrow>
       q < length (ck_code P) \<and> D ! q = Some e \<and> H ! q = in_force (ck_code P ! pc) pc (S ! pc) (nat (int (length stk))) q (H ! pc) \<and> S ! q = scopes_after (ck_code P ! pc) (S ! pc)"
    have "fits (ck_code P ! pc) pops pushes (length stk) (ck_n_slots P) out"
      using exec_effect [OF e fr this_slot [OF ok], of pw st] x fr by (auto simp: exec_op_def split: if_splits)
    then show thesis using that l s hs sc by simp
  qed
qed

lemma in_force_same: "opc \<noteq> Op_PopHandler \<Longrightarrow> (\<forall>t. opc \<noteq> Op_PushHandler t) \<Longrightarrow> in_force opc pc sc d q hs = hs"
  by (cases opc) (auto simp: in_force_def)

lemma pc_next: "falls_through opc \<Longrightarrow> (pc + 1, d - pops + pushes) \<in> set (succs opc pc d pops pushes)"
  by (simp add: succs_def)

text \<open>The three ways on: to the next instruction, to a target, to a handler.\<close>

lemma goes_on:
  assumes ok: "admits P D H S" and f: "state_fits P D H S (Running pc stk fr sc hs)" and x: "exec_op pw st P (ck_code P ! pc) stk fr sc = Some out"
    and out: "out = Next stk' fr' \<or> out = Ask s push \<and> stk' = (if push then v # s else s) \<and> fr' = fr
      \<or> out = Suspend w s \<and> stk' = v # s \<and> fr' = fr"
  shows "state_fits P D H S (Running (pc + 1) stk' fr' (scopes_after (ck_code P ! pc) sc) hs)"
  using ok f x
proof (rule running_effect)
  fix pops pushes
  assume e: "fits (ck_code P ! pc) pops pushes (length stk) (ck_n_slots P) out"
    and s: "\<And>q e. (q, e) \<in> set (succs (ck_code P ! pc) pc (int (length stk)) pops pushes) \<Longrightarrow>
       q < length (ck_code P) \<and> D ! q = Some e \<and> H ! q = in_force (ck_code P ! pc) pc sc (length stk) q hs \<and> S ! q = scopes_after (ck_code P ! pc) sc"
  have "falls_through (ck_code P ! pc)" "ck_code P ! pc \<noteq> Op_PopHandler" "\<forall>t. ck_code P ! pc \<noteq> Op_PushHandler t"
    "int (length stk') = int (length stk) - pops + pushes" "length fr' = ck_n_slots P"
    using out e f by (auto simp: fits_simps)
  then show ?thesis using s [OF pc_next] by (simp add: in_force_same)
qed

lemma jumps:
  assumes ok: "admits P D H S" and f: "state_fits P D H S (Running pc stk fr sc hs)" and x: "exec_op pw st P (ck_code P ! pc) stk fr sc = Some (Branch t stk')"
  shows "state_fits P D H S (Running t stk' fr (scopes_after (ck_code P ! pc) sc) hs)"
  using ok f x
proof (rule running_effect)
  fix pops pushes
  assume e: "fits (ck_code P ! pc) pops pushes (length stk) (ck_n_slots P) (Branch t stk')"
    and s: "\<And>q e. (q, e) \<in> set (succs (ck_code P ! pc) pc (int (length stk)) pops pushes) \<Longrightarrow>
       q < length (ck_code P) \<and> D ! q = Some e \<and> H ! q = in_force (ck_code P ! pc) pc sc (length stk) q hs \<and> S ! q = scopes_after (ck_code P ! pc) sc"
  have "ck_code P ! pc \<noteq> Op_PopHandler" using e by (auto simp: fits_simps jump_targets_def)
  then show ?thesis using s [of t "int (length stk')"] e f by (simp add: fits_simps in_force_same succs_def)
qed

lemma unwinds:
  assumes ok: "admits P D H S" and f: "state_fits P D H S (Running pc stk fr sc hs)" and x: "exec_op pw st P (ck_code P ! pc) stk fr sc = Some out"
    and out: "out = Ask stk' push \<or> out = Fails stk' \<or> out = Raise v stk' \<or> out = Suspend v stk'"
  shows "lands P D H S sc (int (length stk')) hs"
  using ok f x
proof (rule running_effect)
  fix pops pushes
  assume "fits (ck_code P ! pc) pops pushes (length stk) (ck_n_slots P) out"
    and l: "lands P D H S sc (int (length stk) - pops) hs"
  then have "int (length stk) - pops = int (length stk')" using out by (auto simp: fits_simps)
  then show ?thesis using l by simp
qed

lemma handler_steps:
  assumes ok: "admits P D H S" and f: "state_fits P D H S (Running pc stk fr sc hs)" and x: "exec_op pw st P (ck_code P ! pc) stk fr sc = Some out"
    and out: "out = Guard t \<and> hs' = (t, sc, length stk) # hs \<or> out = Unguard \<and> hs' = tl hs"
  shows "state_fits P D H S (Running (pc + 1) stk fr (scopes_after (ck_code P ! pc) sc) hs')"
  using ok f x
proof (rule running_effect)
  fix pops pushes
  assume e: "fits (ck_code P ! pc) pops pushes (length stk) (ck_n_slots P) out"
    and s: "\<And>q e. (q, e) \<in> set (succs (ck_code P ! pc) pc (int (length stk)) pops pushes) \<Longrightarrow>
       q < length (ck_code P) \<and> D ! q = Some e \<and> H ! q = in_force (ck_code P ! pc) pc sc (length stk) q hs \<and> S ! q = scopes_after (ck_code P ! pc) sc"
  have opc: "ck_code P ! pc = Op_PushHandler t \<and> hs' = (t, sc, length stk) # hs \<or> ck_code P ! pc = Op_PopHandler \<and> hs' = tl hs"
    using e out by (auto simp: fits_simps)
  have "pops = 0" "pushes = 0" "falls_through (ck_code P ! pc)" using e out by (auto simp: fits_simps falls_through_def)
  then have "pc + 1 < length (ck_code P) \<and> D ! (pc + 1) = Some (int (length stk))
      \<and> H ! (pc + 1) = in_force (ck_code P ! pc) pc sc (length stk) (pc + 1) hs \<and> S ! (pc + 1) = scopes_after (ck_code P ! pc) sc"
    using s [OF pc_next] by simp
  then show ?thesis using opc f by (auto simp: in_force_def)
qed

lemma step_fits:
  assumes ok: "admits P D H S" and s: "vm_step pw st P s u" "state_fits P D H S s"
  shows "state_fits P D H S u"
  using s
proof cases
  case (proceed pc stk fr sc stk' fr' hs)
  then show ?thesis using goes_on [OF ok, of pc stk fr sc hs] s(2) by blast
next
  case (branch pc stk fr sc t stk' hs)
  then show ?thesis using jumps [OF ok] s(2) by blast
next
  case (answered pc stk fr sc stk' push hs v)
  then show ?thesis using goes_on [OF ok, of pc stk fr sc hs] s(2) by blast
next
  case (refused pc stk fr sc stk' push hs v)
  then have "lands P D H S sc (int (length stk')) hs" using unwinds [OF ok] s(2) by blast
  then show ?thesis using unwind_fits refused s(2) by simp
next
  case (fails pc stk fr sc stk' hs v)
  then have "lands P D H S sc (int (length stk')) hs" using unwinds [OF ok] s(2) by blast
  then show ?thesis using unwind_fits fails s(2) by simp
next
  case (raises pc stk fr sc v stk' hs)
  then have "lands P D H S sc (int (length stk')) hs" using unwinds [OF ok] s(2) by blast
  then show ?thesis using unwind_fits raises s(2) by simp
next
  case (guard pc stk fr sc t hs)
  then show ?thesis using handler_steps [OF ok] s(2) by blast
next
  case (unguard pc stk fr sc hs)
  then show ?thesis using handler_steps [OF ok] s(2) by blast
next
  case (suspend pc stk fr sc v stk' hs)
  then have "state_fits P D H S (Running (pc + 1) (V_Null # stk') fr (scopes_after (ck_code P ! pc) sc) hs)"
    using goes_on [OF ok, of pc stk fr sc hs] s(2) by blast
  moreover have "lands P D H S sc (int (length stk')) hs" using suspend unwinds [OF ok] s(2) by blast
  moreover have "scopes_after (ck_code P ! pc) sc = sc" using suspends_scopes [OF suspend(4)] .
  ultimately show ?thesis using suspend(2) by (simp add: add.commute)
next
  case (resume pc stk fr sc hs v)
  then show ?thesis using s(2) by (simp add: add.commute)
next
  case (reject pc stk fr sc hs v)
  have "lands P D H S sc (int (length stk)) hs" "length fr = ck_n_slots P" using s(2) reject(1) by auto
  then show ?thesis unfolding reject(2) by (rule unwind_fits)
qed simp

lemma reachable_safe:
  assumes ok: "admits P D H S" and r: "vm_reaches pw st P (Running 0 [] fr 1 []) s" and fr: "length fr = ck_n_slots P"
  shows "state_fits P D H S s" "\<not> panics pw st P s"
proof -
  show f: "state_fits P D H S s"
    using r
  proof (induction rule: vm_reaches.induct)
    case start
    then show ?case using starts [OF ok] fr by simp
  next
    case (step t u)
    then show ?case using step_fits [OF ok] by blast
  qed
  show "\<not> panics pw st P s" by (rule never_panics [OF ok f])
qed

end

text \<open>\<open>analyze\<close> is such a verifier on the chunks whose handlers are disciplined.\<close>

definition this_in_frame :: "chunk \<Rightarrow> bool" where
  "this_in_frame P \<longleftrightarrow> (case ck_this_slot P of None \<Rightarrow> True | Some s \<Rightarrow> s < ck_n_slots P)"

definition admitted :: "chunk \<Rightarrow> int option list \<Rightarrow> handlers list \<Rightarrow> nat list \<Rightarrow> bool" where
  "admitted P D H S \<longleftrightarrow> analyze P = Inr D \<and> guarded P D H S \<and> this_in_frame P"

lemma admitted_starts:
  assumes "admitted P D H S"
  shows "0 < length (ck_code P) \<and> D ! 0 = Some 0 \<and> H ! 0 = [] \<and> S ! 0 = 1"
proof -
  have n: "0 < length (ck_code P)" and h: "H ! 0 = [] \<and> S ! 0 = 1" using assms by (auto simp: admitted_def guarded_def)
  have accepted: "analyze P = Inr D" using assms by (simp add: admitted_def)
  obtain D' where a: "analyzed P D' []" and D: "D = butlast D'" using analyze_analyzed [OF accepted] .
  then have "D' ! 0 = Some 0" "length D' = length (ck_code P) + 1" using n by (auto simp: analyzed_def covered_def)
  then show ?thesis using n h D by (simp add: nth_butlast)
qed

lemma admitted_instruction:
  assumes ok: "admitted P D H S" and pc: "pc < length (ck_code P)" and d: "D ! pc = Some d"
  shows "\<exists>pops pushes. op_effect P (ck_code P ! pc) = Inr (pops, pushes) \<and> pops \<le> d \<and> lands P D H S (S ! pc) (d - pops) (H ! pc)
        \<and> (needs_scope (ck_code P ! pc) \<longrightarrow> 0 < S ! pc)
        \<and> (\<forall>(q, e) \<in> set (succs (ck_code P ! pc) pc d pops pushes).
            q < length (ck_code P) \<and> D ! q = Some e \<and> H ! q = in_force (ck_code P ! pc) pc (S ! pc) (nat d) q (H ! pc) \<and> S ! q = scopes_after (ck_code P ! pc) (S ! pc))"
proof -
  have accepted: "analyze P = Inr D" and discipline: "guarded P D H S" using ok by (auto simp: admitted_def)
  obtain D' where a: "analyzed P D' []" and D: "D = butlast D'" using analyze_analyzed [OF accepted] .
  have l: "length D' = length (ck_code P) + 1" using a by (simp add: analyzed_def)
  have nth: "D ! q = D' ! q" if "q < length (ck_code P)" for q using that l D by (simp add: nth_butlast)
  have "checked P pc d (covered P D' [])" using a pc d nth [OF pc] by (auto simp: analyzed_def)
  then obtain pops pushes where e: "op_effect P (ck_code P ! pc) = Inr (pops, pushes)" "pops \<le> d"
    and c: "\<forall>x\<in>set (succs (ck_code P ! pc) pc d pops pushes). covered P D' [] x"
    by (auto simp: checked_def)
  have "case D ! pc of None \<Rightarrow> True | Some d \<Rightarrow> guarded_at P D H S pc d"
    using discipline pc by (auto simp: guarded_def list_all_iff)
  then have "guarded_at P D H S pc d" by (simp add: d)
  then have g: "lands P D H S (S ! pc) (d - pops) (H ! pc)"
    "needs_scope (ck_code P ! pc) \<longrightarrow> 0 < S ! pc"
    "\<And>q e. (q, e) \<in> set (succs (ck_code P ! pc) pc d pops pushes) \<Longrightarrow>
       q < length (ck_code P) \<and> H ! q = in_force (ck_code P ! pc) pc (S ! pc) (nat d) q (H ! pc) \<and> S ! q = scopes_after (ck_code P ! pc) (S ! pc)"
    using e(1) by (auto simp: guarded_at_def Let_def list_all_iff)
  have "D ! q = Some e'" if "(q, e') \<in> set (succs (ck_code P ! pc) pc d pops pushes)" for q e'
    using bspec [OF c that] g(3) [OF that] nth by (auto simp: covered_def)
  then show ?thesis using e g by fast
qed

interpretation vm: stack_verifier admitted
proof unfold_locales
  fix P D H S s
  assume "admitted P D H S" "ck_this_slot P = Some s"
  then show "s < ck_n_slots P" by (simp add: admitted_def this_in_frame_def)
qed (fact admitted_starts, fact admitted_instruction)

text \<open>
  C24: A verified chunk whose handlers and scopes are disciplined never panics in its frame: from
  the start, through every answer and every exception of the interpreter, every suspension and
  resumption, the program counter is inside the code, the stack has exactly the height
  \<open>analyze\<close> computed there, the handlers in force and the number of scopes are the ones recorded
  there, and the next instruction finds its operands, its indices and its scope.  (What the
  interpreter does for a call, a member or a container is an answer, and so is an inlined callee.)
\<close>

theorem verified_never_panics:
  assumes "admitted P D H S" "length fr = ck_n_slots P" "vm_reaches pw st P (Running 0 [] fr 1 []) s"
  shows "state_fits P D H S s \<and> \<not> panics pw st P s"
  using vm.reachable_safe [OF assms(1,3,2)] by simp

text \<open>A chunk with a handler and a block, as the compiler lays out \<open>{ try { throw e } catch { } }\<close>.\<close>

definition try_chunk :: chunk where
  "try_chunk = \<lparr>ck_code = [Op_PushHandler 4, Op_PushScope, Op_LoadSlot 0, Op_Throw, Op_Pop, Op_ReturnNull],
     ck_consts = [], ck_names = [], ck_n_slots = 1, ck_this_slot = None, ck_patterns = 0,
     ck_types = [], ck_protos = 0, ck_caches = 0\<rparr>"

lemmas analyze_sims = analyze_def analyze_loop.simps op_effect_def succs_def falls_through_def jump_targets_def
  in_pool_def bounds_def nth_Cons'

lemma try_chunk_admitted:
  "admitted try_chunk [Some 0, Some 0, Some 0, Some 1, Some 1, Some 0]
     [[], [(4, 1, 0)], [(4, 1, 0)], [(4, 1, 0)], [], []] [1, 1, 2, 2, 1, 1]"
  by (simp add: admitted_def this_in_frame_def guarded_def guarded_at_def lands_def in_force_def try_chunk_def
      analyze_sims upt_rec)

theorem verified_never_panics_witness:
  "state_fits try_chunk [Some 0, Some 0, Some 0, Some 1, Some 1, Some 0]
     [[], [(4, 1, 0)], [(4, 1, 0)], [(4, 1, 0)], [], []] [1, 1, 2, 2, 1, 1]
     (Running 4 [V_Bool True] [V_Bool True] 1 [])"
proof -
  let ?pw = "\<lambda>_ x y. x" and ?st = "undefined" and ?fr = "[V_Bool True]"
  have [simp]: "length (ck_code try_chunk) = 6" and fr: "length ?fr = ck_n_slots try_chunk" by (simp_all add: try_chunk_def)
  note x = try_chunk_def exec_op_def exec_stack_def in_range_def pop1_def
  let ?R = "vm_reaches ?pw ?st try_chunk (Running 0 [] ?fr 1 [])"
  have "?R (Running 0 [] ?fr 1 [])" by (rule vm_reaches.start)
  from vm_reaches.step [OF this, of "Running 1 [] ?fr 1 [(4, 1, 0)]"]
  have "?R (Running 1 [] ?fr 1 [(4, 1, 0)])"
    using vm_step.guard [of 0 try_chunk ?pw ?st "[]" ?fr 1 4 "[]"] by (simp add: x)
  from vm_reaches.step [OF this, of "Running 2 [] ?fr 2 [(4, 1, 0)]"]
  have "?R (Running 2 [] ?fr 2 [(4, 1, 0)])"
    using vm_step.proceed [of 1 try_chunk ?pw ?st "[]" ?fr 1 "[]" ?fr "[(4, 1, 0)]"] by (simp add: x numeral_2_eq_2)
  from vm_reaches.step [OF this, of "Running 3 [V_Bool True] ?fr 2 [(4, 1, 0)]"]
  have "?R (Running 3 [V_Bool True] ?fr 2 [(4, 1, 0)])"
    using vm_step.proceed [of 2 try_chunk ?pw ?st "[]" ?fr 2 "[V_Bool True]" ?fr "[(4, 1, 0)]"] by (simp add: x)
  from vm_reaches.step [OF this, of "Running 4 [V_Bool True] ?fr 1 []"]
  have "?R (Running 4 [V_Bool True] ?fr 1 [])"
    using vm_step.raises [of 3 try_chunk ?pw ?st "[V_Bool True]" ?fr 2 "V_Bool True" "[]" "[(4, 1, 0)]"]
    by (simp add: x truncate_def)
  from verified_never_panics [OF try_chunk_admitted fr this] show ?thesis by (rule conjunct1)
qed

text \<open>
  Two chunks the verifier accepts that panic: in one the value a handler counts on is popped before
  the throw, so at the handler the stack is one lower than the verifier computed; the other gives
  back the scope it was entered with and looks a name up.
\<close>

definition sunk_chunk :: chunk where
  "sunk_chunk = try_chunk\<lparr>ck_code :=
     [Op_Null, Op_PushHandler 5, Op_Pop, Op_Null, Op_Throw, Op_StoreSlot 0, Op_StoreSlot 0, Op_ReturnNull]\<rparr>"

definition bare_chunk :: chunk where
  "bare_chunk = try_chunk\<lparr>ck_code := [Op_PopScope, Op_LoadName 0, Op_Return], ck_names := [str ''x'']\<rparr>"

text \<open>
  C26: Acceptance by \<open>verify\<close> alone does not exclude a panic: a chunk it accepts, with every
  index in range, reaches an instruction that finds an empty stack, because the stack was popped
  below the height its handler was pushed at; and another, that pops the scope it was entered
  with, reaches an instruction that looks a name up with no scope.  The compiler emits no such
  chunk; the verifier would not notice one.
\<close>

theorem verify_misses_handlers:
  "verify sunk_chunk = Inr () \<and> this_in_frame sunk_chunk
   \<and> (\<forall>pw st. \<exists>s. vm_reaches pw st sunk_chunk (Running 0 [] [V_Null] 1 []) s \<and> panics pw st sunk_chunk s)
   \<and> verify bare_chunk = Inr () \<and> this_in_frame bare_chunk
   \<and> (\<forall>pw st. \<exists>s. vm_reaches pw st bare_chunk (Running 0 [] [V_Null] 1 []) s \<and> panics pw st bare_chunk s)"
proof (intro conjI allI)
  have [simp]: "length (ck_code sunk_chunk) = 8" "length (ck_code bare_chunk) = 3" by (simp_all add: sunk_chunk_def bare_chunk_def)
  note code = sunk_chunk_def bare_chunk_def try_chunk_def
  note x = code exec_op_def exec_stack_def in_range_def pop1_def
  show "verify sunk_chunk = Inr ()" "verify bare_chunk = Inr ()" by (simp_all add: code verify_def analyze_sims eval_nat_numeral)
  show "this_in_frame sunk_chunk" "this_in_frame bare_chunk" by (simp_all add: code this_in_frame_def)
  fix pw st
  let ?fr = "[V_Null]" and ?R = "vm_reaches pw st sunk_chunk (Running 0 [] [V_Null] 1 [])"
    and ?B = "vm_reaches pw st bare_chunk (Running 0 [] [V_Null] 1 [])"
  have r: "?R (Running 0 [] ?fr 1 [])" by (rule vm_reaches.start)
  have "?R (Running 1 [V_Null] ?fr 1 [])"
    using vm_step.proceed [of 0 sunk_chunk pw st "[]" ?fr 1 "[V_Null]" ?fr "[]"] by (intro vm_reaches.step [OF r]) (simp add: x)
  from vm_reaches.step [OF this, of "Running 2 [V_Null] ?fr 1 [(5, 1, 1)]"]
  have "?R (Running 2 [V_Null] ?fr 1 [(5, 1, 1)])"
    using vm_step.guard [of 1 sunk_chunk pw st "[V_Null]" ?fr 1 5 "[]"] by (simp add: x numeral_2_eq_2)
  from vm_reaches.step [OF this, of "Running 3 [] ?fr 1 [(5, 1, 1)]"]
  have "?R (Running 3 [] ?fr 1 [(5, 1, 1)])"
    using vm_step.proceed [of 2 sunk_chunk pw st "[V_Null]" ?fr 1 "[]" ?fr "[(5, 1, 1)]"] by (simp add: x)
  from vm_reaches.step [OF this, of "Running 4 [V_Null] ?fr 1 [(5, 1, 1)]"]
  have "?R (Running 4 [V_Null] ?fr 1 [(5, 1, 1)])"
    using vm_step.proceed [of 3 sunk_chunk pw st "[]" ?fr 1 "[V_Null]" ?fr "[(5, 1, 1)]"] by (simp add: x)
  from vm_reaches.step [OF this, of "Running 5 [V_Null] ?fr 1 []"]
  have "?R (Running 5 [V_Null] ?fr 1 [])"
    using vm_step.raises [of 4 sunk_chunk pw st "[V_Null]" ?fr 1 V_Null "[]" "[(5, 1, 1)]"] by (simp add: x truncate_def)
  from vm_reaches.step [OF this, of "Running 6 [] ?fr 1 []"]
  have "?R (Running 6 [] ?fr 1 [])"
    using vm_step.proceed [of 5 sunk_chunk pw st "[V_Null]" ?fr 1 "[]" "[V_Null]" "[]"] by (simp add: x)
  moreover have "panics pw st sunk_chunk (Running 6 [] ?fr 1 [])" by (simp add: x)
  ultimately show "\<exists>s. ?R s \<and> panics pw st sunk_chunk s" by blast
  have b: "?B (Running 0 [] ?fr 1 [])" by (rule vm_reaches.start)
  have "?B (Running 1 [] ?fr 0 [])"
    using vm_step.proceed [of 0 bare_chunk pw st "[]" ?fr 1 "[]" ?fr "[]"] by (intro vm_reaches.step [OF b]) (simp add: x)
  moreover have "panics pw st bare_chunk (Running 1 [] ?fr 0 [])" by (simp add: x)
  ultimately show "\<exists>s. ?B s \<and> panics pw st bare_chunk s" by blast
qed

end
