(* ===== verification/Spec2Isabelle.thy ===== *)
theory Spec2Isabelle
  imports Arena Collector Graph Hash Jobs Json Lexer Regex Units VM
begin

text \<open>
  A verification library for the Mersey language engine.  Mersey is a typed scripting language; the
  engine is written in Rust under \<open>src/crates\<close>.  A program passes through the front end
  (\<open>mersey_front\<close>: lexer, parser, binder, checker, module graph) and runs in the interpreter
  (\<open>mersey_interp\<close>: a bytecode compiler and machine over a tree walker, the values, the collectors,
  the promises and the bridge to a host).  The library follows that path.  What it holds is
  translated from the functions named below; each theory opens with what it holds, and each
  property, numbered C1 on, is stated in words before its theorem.

  The theories and the code they model.

  \<^item> \<open>Prelude\<close>: what the components share.  Machine integers are words of their width, a Rust
    \<open>char\<close> is its scalar value, a \<open>str\<close> a list of them, \<open>Vec\<close> a list, \<open>Result\<close> a sum (the error on
    the left), \<open>Option\<close> an option, \<open>Ordering\<close> a datatype of its own.
  \<^item> \<open>Token\<close>, \<open>Lexer\<close> (\<open>mersey_front/src/token.rs\<close>, \<open>diag.rs\<close>, \<open>lexer.rs\<close>): the scanner, one function
    per method of \<open>Lexer\<close>.  The state is the record \<open>lexer\<close>: the text is split at the cursor into
    what is behind it and what is left, with the line, the column, the stack of open templates and
    the tokens and diagnostics emitted.  The lemmas show that every scanner moves forward, that the
    tokens and the trivia between them tile the text, and that template substitutions nest.
  \<^item> \<open>Types\<close> (\<open>check.rs\<close>, \<open>ast.rs\<close>): the types as they mean, substitution, inference of type
    parameters, assignability with its fuel, and the checker's judgements on operators, conditions
    and casts.  The declarations the relations read are tables of the record \<open>decls\<close>.  The lemmas
    tie the checker to the interpreter: an operator the checker admits never fails with a type
    error on values of the types it was given.
  \<^item> \<open>Graph\<close> (\<open>graph.rs\<close>, the loader of \<open>mersey_cli/src/main.rs\<close>, \<open>stdlib.rs\<close>): specifiers, the loader
    that closes the graph under imports, and the order of evaluation.  The file system is a
    parameter, a function from names to sources.
  \<^item> \<open>Bignum_Int\<close>, \<open>Bignum_Dec\<close> (\<open>mersey_interp/src/bignum.rs\<close>): sign and magnitude in 32-bit limbs,
    least significant first, and decimals as a coefficient and a scale.  The locale \<open>coef_arith\<close>
    is what the decimals need of the integers; it is interpreted on the integers of the code.
  \<^item> \<open>IEEE_Float\<close>: \<open>f32\<close> and \<open>f64\<close> as sign, mantissa and exponent, with rounding to nearest, ties to
    even.  NaN is one value, as in the code, which never looks at a payload.
  \<^item> \<open>Numeric\<close>, \<open>Units\<close> (\<open>lib.rs\<close>): the values, the usual conversions, the operators, casts, literals
    and map keys; strings in UTF-16 code units and the methods that read only the units.
  \<^item> \<open>Json\<close> (\<open>webjson.rs\<close>, \<open>pure_json\<close> and \<open>f64_to_js_string\<close> of \<open>lib.rs\<close>): the codec of the bridge and the
    direct writer of \<open>Json.stringify\<close>.
  \<^item> \<open>Regex\<close> (\<open>regex.rs\<close> and the methods of a regex value): the pattern parser and the backtracking
    matcher, against the list of all results of a pattern in order of preference.
  \<^item> \<open>Hash\<close> (\<open>lib.rs\<close>): SHA-256, SHA-1 and HMAC.
  \<^item> \<open>VM\<close> (\<open>vm.rs\<close>): the instructions, the verifier, and the machine of one frame: operand stack,
    pools, slots, handlers and the number of scopes.  What a call, a member or a container
    answers is left open.  A chunk the verifier accepts, and whose handlers and scopes are
    disciplined, never panics in it.
  \<^item> \<open>Arena\<close> (\<open>struct Arena\<close> of \<open>lib.rs\<close>): the handles of one compiled call.
  \<^item> \<open>Collector\<close> (\<open>gc.rs\<close>): the two generations, the write barrier, the trace and the cycle collection
    from the reference counts.
  \<^item> \<open>Jobs\<close> (\<open>lib.rs\<close>): promises, the microtask queue, coroutines, \<open>Promise.all\<close> and asynchronous
    generators.

  How they interact.  \<open>Types\<close> rests on \<open>Numeric\<close> (a judgement is about the operator the interpreter
  runs); \<open>VM\<close> rests on both for its fast paths, which agree with the operators; \<open>Numeric\<close> rests on the two bignum theories and on \<open>IEEE_Float\<close>; \<open>Units\<close>
  and \<open>Json\<close> rest on \<open>Numeric\<close> for the values; \<open>Collector\<close> and \<open>Jobs\<close> use its values and addresses;
  \<open>Graph\<close> reports the diagnostics of \<open>Token\<close>; \<open>Regex\<close> stands on the prelude alone.

  The interfaces are locales, each interpreted on the model of the code: \<open>coef_arith\<close> (integers for
  decimals), \<open>handle_store\<close> (a store of handles, for a compiled call), \<open>recurrence_table\<close> and \<open>hash_fn\<close>
  (a schedule, and a hash under HMAC), \<open>hashed_keys\<close> (equality and hashing of map keys),
  \<open>stack_verifier\<close> (a set of states that no step of the machine leaves).

  State machines are inductive relations: \<open>arena_step\<close>, \<open>vm_step\<close>, \<open>gc_step\<close> and \<open>job_step\<close>, with their
  runs; invariants are proved by rule induction.  \<open>Arena\<close> refines a partial map from handles to
  values; \<open>load_graph\<close> refines the closure of the imports; \<open>bd_divide\<close> refines rounding of the exact
  quotient.

  Loops and fuel.  A loop is a recursive function with a measure wherever the code's loop ends for
  a reason of its own.  Fuel is used in five places.  The matcher of \<open>Regex\<close> takes the step budget
  the code itself has, and its repetitions count the positions that are left; the pattern parser has
  six times the length of the pattern and six, which is enough (\<open>regex_new_returns\<close>).  \<open>assignable\<close> recurses through declarations; fuel above a bound computed from
  the types is enough on structural types (proved), and a type that contains itself can exhaust any
  fuel, as it exhausts the stack of the code.  The parser of \<open>Json\<close> has twice the length of the text
  and two (\<open>parse_json_fuel\<close>: more changes nothing).  \<open>pure_json\<close> has fuel because the code has no
  check for cycles: fuel above the nesting of a value is enough (\<open>pure_json_writes\<close>), and running out is a
  result of its own (\<open>pure_json_cyclic\<close>).  The loader of the
  module graph and the queue of \<open>Jobs\<close> are shown to return within the limits of the code.

  What stands for code that is not here.  The Unicode tables (\<open>unicode_ident\<close>, and the case tables
  of the standard library), \<open>libm\<close>'s \<open>pow\<close>, the file system, the host's calls and the program that
  runs between two engine operations are parameters; what is assumed of them is a named predicate
  (\<open>program_ok\<close> in \<open>Jobs\<close>: the program acts through the engine's operations only;
  \<open>never_revives\<close>: none of them takes back that a generator is done), each with a
  witness that satisfies it.

  Not modelled, with the reason.  The parser (\<open>parser.rs\<close>), the binder (\<open>bind.rs\<close>), and the checker's
  walk over statements and declarations: they build and read the whole syntax tree, of which
  the library has only the parts the judgements use.  The bytecode compiler and the
  instructions that call back into the interpreter, and the tree walker itself
  (\<open>eval_expr\<close>, members, classes): they need the syntax tree and the host.  The native compilers
  (\<open>mersey_jit\<close>, \<open>mersey_js\<close>, \<open>wasmgen.rs\<close>) emit code for Cranelift, JavaScript and
  WebAssembly, whose semantics are not in the repository; of \<open>mersey_jit\<close>'s runtime only the arena
  in \<open>lib.rs\<close> is here.  The browser overlays (Servo, Chromium, Ladybird, Firefox), the C API, the language
  and debug servers, the formatter, the documentation tool and the fuzzer are glue
  around the engine.  The rest of \<open>lib.rs\<close> that registers handles and callbacks for
  the host (\<open>to_web\<close>, \<open>json_to_value\<close>) needs the host's protocol.

  Where the code departs from what it says, the theorem that shows it says so: the verifier does
  not see the depth at which a handler is entered nor the number of scopes
  (\<open>verify_misses_handlers\<close>), a checked cast makes a large \<open>uint64\<close> negative (\<open>checked_cast_exact\<close>), a tiny negative
  quotient is rounded as if it were positive (\<open>bigdec_divide_tiny_negative\<close>), a second \<open>next\<close> ends an
  asynchronous generator (\<open>overlapping_next_ends_generator\<close>), and the lemmas on \<open>pure_json\<close>, on
  promises resolved with themselves and on the task that exceeds the limit.
\<close>

end
